(* ===== verification/Prelude.thy ===== *)
theory Prelude
  imports Main "HOL-Library.Word" "HOL-Library.Sublist" "HOL-Library.AList"
begin

section \<open>Shared vocabulary of the development\<close>

text \<open>
  The parts of JavaScript that every modelled module uses, and the lemmas about them.

  \<^item> A \<open>Uint8Array\<close> is a \<open>bytes\<close> value (a list of 8-bit words).
  \<^item> A JavaScript string is a list of characters standing for UTF-16 code units below 256
    (Latin-1). On that range \<open>toLowerCase\<close>, \<open>trim\<close> and the white-space class are given exactly.
    Addresses, hashes, keys in hex or base64 and the client's own literals all lie in it.
  \<^item> A JavaScript \<open>Map\<close> keeps its insertion order: it is an association list with
    \<open>AList.update\<close> as \<open>set\<close> (in place for a key that is present, appended otherwise),
    \<open>AList.delete\<close> as \<open>delete\<close> and \<open>map_of\<close> as \<open>get\<close>.
  \<^item> A property that may be \<open>undefined\<close> is an \<open>option\<close>; a thrown error is the left side of a sum.
\<close>

named_theorems string_simps \<open>rewrite rules for the string operations of JavaScript\<close>
named_theorems bytes_simps \<open>rewrite rules for byte arrays\<close>

type_synonym byte = "8 word"
type_synonym bytes = "8 word list"
type_synonym ('k, 'v) jsmap = "('k \<times> 'v) list"

subsection \<open>Strings\<close>

definition char_lower :: "char \<Rightarrow> char" where
  "char_lower c =
     (let n = (of_char c :: nat) in
      if (65 \<le> n \<and> n \<le> 90) \<or> (192 \<le> n \<and> n \<le> 222 \<and> n \<noteq> 215) then char_of (n + 32) else c)"

definition toLowerCase :: "string \<Rightarrow> string" where
  "toLowerCase s = map char_lower s"

definition is_space :: "char \<Rightarrow> bool" where
  "is_space c = (let n = (of_char c :: nat) in (9 \<le> n \<and> n \<le> 13) \<or> n = 32 \<or> n = 160)"

definition trim :: "string \<Rightarrow> string" where
  "trim s = rev (dropWhile is_space (rev (dropWhile is_space s)))"

text \<open>\<open>replace(/\s+/g, ' ')\<close>.\<close>

function collapse :: "string \<Rightarrow> string" where
  "collapse [] = []"
| "collapse (c # cs) = (if is_space c then CHR '' '' # collapse (dropWhile is_space cs) else c # collapse cs)"
  by pat_completeness auto
termination
  by (relation "measure length") (auto simp: length_dropWhile_le le_imp_less_Suc)

text \<open>\<open>s.indexOf(c)\<close> and \<open>s.lastIndexOf(c)\<close> for one character; \<open>None\<close> is the answer \<open>-1\<close>.\<close>

fun indexOf :: "char \<Rightarrow> string \<Rightarrow> nat option" where
  "indexOf c [] = None"
| "indexOf c (x # xs) = (if x = c then Some 0 else map_option Suc (indexOf c xs))"

definition lastIndexOf :: "char \<Rightarrow> string \<Rightarrow> nat option" where
  "lastIndexOf c s = map_option (\<lambda>i. length s - Suc i) (indexOf c (rev s))"

definition startsWith :: "'a list \<Rightarrow> 'a list \<Rightarrow> bool" where
  "startsWith p s = (take (length p) s = p)"

fun includesStr :: "string \<Rightarrow> string \<Rightarrow> bool" where
  "includesStr v [] = (v = [])"
| "includesStr v (c # cs) = (startsWith v (c # cs) \<or> includesStr v cs)"

text \<open>The normal form the client compares addresses in: \<open>a.trim().toLowerCase()\<close>.\<close>

definition norm :: "string \<Rightarrow> string" where
  "norm a = toLowerCase (trim a)"

text \<open>\<open>xs.join(sep)\<close>, and a non-negative integer in a template string.\<close>

fun joinWith :: "string \<Rightarrow> string list \<Rightarrow> string" where
  "joinWith sep [] = []"
| "joinWith sep [x] = x"
| "joinWith sep (x # y # ys) = x @ sep @ joinWith sep (y # ys)"

fun showNat :: "nat \<Rightarrow> string" where
  "showNat n = (if n < 10 then [char_of (48 + n)] else showNat (n div 10) @ [char_of (48 + n mod 10)])"

declare showNat.simps [simp del]

lemma of_char_less_256 [simp]: "(of_char c :: nat) < 256"
  using of_char_mod_256 [of c] by (metis mod_less_divisor zero_less_numeral)

lemma of_char_char_lower:
  "(of_char (char_lower c) :: nat) =
     (let n = (of_char c :: nat) in
      if (65 \<le> n \<and> n \<le> 90) \<or> (192 \<le> n \<and> n \<le> 222 \<and> n \<noteq> 215) then n + 32 else n)"
  by (auto simp: char_lower_def Let_def)

lemma char_lower_idem [simp, string_simps]: "char_lower (char_lower c) = char_lower c"
proof -
  have "of_char (char_lower (char_lower c)) = (of_char (char_lower c) :: nat)"
    unfolding of_char_char_lower [of "char_lower c"]
    by (auto simp: of_char_char_lower Let_def)
  then show ?thesis by (simp add: of_char_eq_iff)
qed

lemma toLowerCase_idem [simp, string_simps]: "toLowerCase (toLowerCase s) = toLowerCase s"
  by (simp add: toLowerCase_def)

lemma length_toLowerCase [simp, string_simps]: "length (toLowerCase s) = length s"
  by (simp add: toLowerCase_def)

lemma toLowerCase_Nil [simp]: "toLowerCase [] = []"
  by (simp add: toLowerCase_def)

lemma toLowerCase_eq_Nil [simp]: "toLowerCase s = [] \<longleftrightarrow> s = []"
  by (simp add: toLowerCase_def)

lemma is_space_char_lower [simp]: "is_space (char_lower c) = is_space c"
  unfolding is_space_def of_char_char_lower by (auto simp: Let_def)

lemma dropWhile_map_char_lower:
  "dropWhile is_space (map char_lower s) = map char_lower (dropWhile is_space s)"
  by (induction s) auto

lemma trim_toLowerCase [string_simps]: "trim (toLowerCase s) = toLowerCase (trim s)"
  by (simp add: trim_def toLowerCase_def dropWhile_map_char_lower rev_map)

lemma dropWhile_rev_dropWhile:
  "dropWhile p (rev (dropWhile p (rev (dropWhile p xs)))) = rev (dropWhile p (rev (dropWhile p xs)))"
proof (cases "dropWhile p xs")
  case Nil
  then show ?thesis by (simp only: Nil rev.simps dropWhile.simps)
next
  case (Cons y ys)
  then have y: "\<not> p y" by (metis hd_dropWhile list.distinct(1) list.sel(1))
  have "rev (dropWhile p (rev (y # ys))) = y # rev (dropWhile p (rev ys))"
    using y by (cases "\<forall>z\<in>set ys. p z") (auto simp: dropWhile_append)
  with Cons y show ?thesis by simp
qed

lemma trim_idem [simp, string_simps]: "trim (trim s) = trim s"
  unfolding trim_def dropWhile_rev_dropWhile
  by (simp add: dropWhile_idem)

lemma set_trim: "set (trim s) \<subseteq> set s"
  unfolding trim_def using set_dropWhileD [of _ is_space "rev (dropWhile is_space s)"] set_dropWhileD [of _ is_space s] by auto

lemma length_trim: "length (trim s) \<le> length s"
  unfolding trim_def by (metis length_dropWhile_le length_rev order_trans)

lemma collapse_spaces: "c \<in> set (collapse s) \<Longrightarrow> is_space c \<Longrightarrow> c = CHR '' ''"
  by (induction s rule: collapse.induct) (auto split: if_splits dest: set_dropWhileD)

lemma norm_idem [simp, string_simps]: "norm (norm a) = norm a"
  by (simp add: norm_def trim_toLowerCase)

lemma startsWith_iff: "startsWith p s \<longleftrightarrow> (\<exists>t. s = p @ t)"
proof
  assume "startsWith p s"
  then have "s = p @ drop (length p) s"
    unfolding startsWith_def by (metis append_take_drop_id)
  then show "\<exists>t. s = p @ t" ..
qed (auto simp: startsWith_def)

lemma startsWith_append [simp]: "startsWith p (p @ t)"
  by (auto simp: startsWith_iff)

lemma startsWith_Nil [simp]: "startsWith [] s"
  by (simp add: startsWith_def)

lemma startsWith_trans: "startsWith p q \<Longrightarrow> startsWith q s \<Longrightarrow> startsWith p s"
  by (auto simp: startsWith_iff)

lemma includesStr_iff: "includesStr v s \<longleftrightarrow> (\<exists>a b. s = a @ v @ b)"
proof (induction s)
  case Nil
  then show ?case by auto
next
  case (Cons c cs)
  show ?case
  proof
    assume "includesStr v (c # cs)"
    then consider t where "c # cs = v @ t" | a b where "cs = a @ v @ b"
      using Cons.IH by (auto simp: startsWith_iff)
    then show "\<exists>a b. c # cs = a @ v @ b"
      by cases (metis append_Nil, metis append_Cons)
  next
    assume "\<exists>a b. c # cs = a @ v @ b"
    then obtain a b where ab: "c # cs = a @ v @ b" by blast
    show "includesStr v (c # cs)"
    proof (cases a)
      case Nil
      with ab have "startsWith v (c # cs)" by simp
      then show ?thesis by simp
    next
      case (Cons x xs)
      with ab have "cs = xs @ v @ b" by simp
      then show ?thesis using Cons.IH by auto
    qed
  qed
qed

lemma indexOf_None [simp]: "indexOf c s = None \<longleftrightarrow> c \<notin> set s"
  by (induction s) auto

lemma indexOf_Some_iff:
  "indexOf c s = Some i \<longleftrightarrow> i < length s \<and> s ! i = c \<and> c \<notin> set (take i s)"
proof (induction s arbitrary: i)
  case Nil
  then show ?case by simp
next
  case (Cons x xs)
  then show ?case by (cases i) auto
qed

lemma lastIndexOf_None [simp]: "lastIndexOf c s = None \<longleftrightarrow> c \<notin> set s"
  by (simp add: lastIndexOf_def)

lemma lastIndexOf_Some_iff:
  "lastIndexOf c s = Some i \<longleftrightarrow> i < length s \<and> s ! i = c \<and> c \<notin> set (drop (Suc i) s)"
proof -
  have eq: "indexOf c (rev s) = Some j \<longleftrightarrow>
      j < length s \<and> s ! (length s - Suc j) = c \<and> c \<notin> set (drop (length s - j) s)" for j
    by (auto simp: indexOf_Some_iff rev_nth take_rev)
  show ?thesis
  proof
    assume "lastIndexOf c s = Some i"
    then obtain j where j: "indexOf c (rev s) = Some j" "i = length s - Suc j"
      by (auto simp: lastIndexOf_def)
    then show "i < length s \<and> s ! i = c \<and> c \<notin> set (drop (Suc i) s)"
      using eq [of j] by (auto simp: Suc_diff_Suc)
  next
    assume a: "i < length s \<and> s ! i = c \<and> c \<notin> set (drop (Suc i) s)"
    let ?j = "length s - Suc i"
    have "indexOf c (rev s) = Some ?j" using a by (subst eq) auto
    then show "lastIndexOf c s = Some i" using a by (simp add: lastIndexOf_def)
  qed
qed

subsection \<open>Byte arrays\<close>

text \<open>\<open>new TextEncoder().encode(s)\<close> on an ASCII literal.\<close>

definition ascii :: "string \<Rightarrow> bytes" where
  "ascii s = map (\<lambda>c. word_of_nat (of_char c)) s"

text \<open>A domain-separation tag: the literal's bytes and a trailing NUL.\<close>

definition ctx_tag :: "string \<Rightarrow> bytes" where
  "ctx_tag s = ascii s @ [0]"

text \<open>
  The byte comparison the client writes at each place that compares keys and digests: lengths
  first, then position by position.
\<close>

fun sameFrom :: "nat \<Rightarrow> bytes \<Rightarrow> bytes \<Rightarrow> bool" where
  "sameFrom 0 a b = True"
| "sameFrom (Suc n) (x # xs) (y # ys) = (x = y \<and> sameFrom n xs ys)"
| "sameFrom (Suc n) _ _ = False"

definition bytesEqual :: "bytes \<Rightarrow> bytes \<Rightarrow> bool" where
  "bytesEqual a b = (length a = length b \<and> sameFrom (length a) a b)"

lemma sameFrom_iff: "length a = n \<Longrightarrow> length b = n \<Longrightarrow> sameFrom n a b \<longleftrightarrow> a = b"
  by (induction n a b rule: sameFrom.induct) auto

lemma bytesEqual_iff [simp, bytes_simps]: "bytesEqual a b \<longleftrightarrow> a = b"
  by (auto simp: bytesEqual_def sameFrom_iff)

lemma length_ascii [simp, bytes_simps]: "length (ascii s) = length s"
  by (simp add: ascii_def)

lemma ascii_inj: "ascii s = ascii t \<Longrightarrow> s = t"
proof -
  have "inj (\<lambda>c. (word_of_nat (of_char c) :: 8 word))"
  proof (rule injI)
    fix c d :: char
    assume "(word_of_nat (of_char c) :: 8 word) = word_of_nat (of_char d)"
    then have "unat (word_of_nat (of_char c) :: 8 word) = unat (word_of_nat (of_char d) :: 8 word)"
      by simp
    then have "(of_char c :: nat) = of_char d" by (simp add: unat_of_nat)
    then show "c = d" by (simp add: of_char_eq_iff)
  qed
  then show "ascii s = ascii t \<Longrightarrow> s = t"
    by (simp add: ascii_def inj_map_eq_map)
qed

subsection \<open>Lists, options and insertion-ordered maps\<close>

lemma append_eq_same_length:
  "a @ b = c @ d \<Longrightarrow> length a = length c \<Longrightarrow> a = c \<and> b = d"
  by simp

lemma map_of_update [simp]: "map_of (AList.update k v m) = (map_of m)(k \<mapsto> v)"
  by (rule update_conv')

lemma map_of_delete [simp]: "map_of (AList.delete k m) = (map_of m)(k := None)"
  by (rule delete_conv')

lemma distinct_fst_update [simp]: "distinct (map fst m) \<Longrightarrow> distinct (map fst (AList.update k v m))"
  by (rule distinct_update)

lemma distinct_fst_delete [simp]: "distinct (map fst m) \<Longrightarrow> distinct (map fst (AList.delete k m))"
  by (rule distinct_delete)

lemma find_Some_in: "List.find P xs = Some x \<Longrightarrow> x \<in> set xs \<and> P x"
  by (induction xs) (auto split: if_splits)

lemma set_update: "x \<in> set (AList.update k v m) \<Longrightarrow> x = (k, v) \<or> x \<in> set m"
  by (induction m) (auto split: if_splits)

subsection \<open>Sets in insertion order\<close>

definition setAdd :: "'a \<Rightarrow> 'a list \<Rightarrow> 'a list" where
  "setAdd x xs = (if x \<in> set xs then xs else xs @ [x])"

lemma set_setAdd [simp]: "set (setAdd x xs) = insert x (set xs)"
  by (auto simp: setAdd_def)

lemma distinct_setAdd [simp]: "distinct xs \<Longrightarrow> distinct (setAdd x xs)"
  by (simp add: setAdd_def)

lemma set_fold_setAdd [simp]: "set (fold setAdd xs acc) = set acc \<union> set xs"
  by (induction xs arbitrary: acc) auto

lemma distinct_fold_setAdd [simp]: "distinct acc \<Longrightarrow> distinct (fold setAdd xs acc)"
  by (induction xs arbitrary: acc) auto

lemma fold_setAdd_id: "distinct (acc @ xs) \<Longrightarrow> fold setAdd xs acc = acc @ xs"
  by (induction xs arbitrary: acc) (auto simp: setAdd_def)

end
