(* ===== verification/Encoding.thy ===== *)
theory Encoding
  imports Prelude
begin

section \<open>Text encodings of byte arrays\<close>

text \<open>
  The hex helpers of \<open>lib/crypto/bytes.ts\<close> and the base64 helpers of \<open>lib/crypto/keys.ts\<close>. Keys,
  digests and sealed blobs travel as text in both forms, and key comparisons elsewhere in the client
  are comparisons of these texts, so what matters is that each form loses nothing: decoding gives the
  bytes back, and equal texts come from equal bytes. The platform's \<open>btoa\<close>, \<open>atob\<close> and
  \<open>parseInt\<close> are given in full, rejected inputs included.
\<close>

subsection \<open>An encoding as an interface\<close>

text \<open>
  What the callers of both encodings rely on: a decoder that undoes the encoder. Injectivity, which
  is what turns a comparison of texts into a comparison of keys, follows once and for all.
\<close>

locale text_encoding =
  fixes encode :: "bytes \<Rightarrow> string"
    and decode :: "string \<Rightarrow> bytes option"
  assumes decode_encode: "decode (encode b) = Some b"
begin

lemma encode_eq_iff: "encode a = encode b \<longleftrightarrow> a = b"
  by (metis decode_encode option.inject)

lemma encode_eq_decode: "encode a = s \<Longrightarrow> decode s = Some a"
  using decode_encode by auto

lemma list_encode_eq_iff: "map encode as = map encode bs \<longleftrightarrow> as = bs"
  by (rule inj_map_eq_map) (simp add: inj_def encode_eq_iff)

end

subsection \<open>Hex\<close>

definition hex_digits :: string where
  "hex_digits = ''0123456789abcdef''"

definition hex_of_byte :: "byte \<Rightarrow> string" where
  "hex_of_byte b = [hex_digits ! (unat b div 16), hex_digits ! (unat b mod 16)]"

definition toHex :: "bytes \<Rightarrow> string" where
  "toHex bs = concat (map hex_of_byte bs)"

definition hex_value :: "char \<Rightarrow> nat option" where
  "hex_value c = indexOf (char_lower c) hex_digits"

fun hex_run :: "nat \<Rightarrow> string \<Rightarrow> nat" where
  "hex_run acc [] = acc"
| "hex_run acc (c # cs) = (case hex_value c of None \<Rightarrow> acc | Some d \<Rightarrow> hex_run (acc * 16 + d) cs)"

text \<open>\<open>parseInt(s, 16)\<close>: white space, sign, an optional \<open>0x\<close>, then the digits; \<open>None\<close> is NaN.\<close>

definition strip_0x :: "string \<Rightarrow> string" where
  "strip_0x s = (case s of c # d # r \<Rightarrow> if c = CHR ''0'' \<and> char_lower d = CHR ''x'' then r else s | _ \<Rightarrow> s)"

definition parseInt16 :: "string \<Rightarrow> int option" where
  "parseInt16 s =
     (let s1 = dropWhile is_space s;
          neg = (startsWith ''-'' s1);
          s2 = (if startsWith ''-'' s1 \<or> startsWith ''+'' s1 then tl s1 else s1);
          s3 = strip_0x s2
      in case s3 of
           [] \<Rightarrow> None
         | c # _ \<Rightarrow> (case hex_value c of
              None \<Rightarrow> None
            | Some _ \<Rightarrow> Some (if neg then - int (hex_run 0 s3) else int (hex_run 0 s3))))"

text \<open>Storing a number in a \<open>Uint8Array\<close> reduces it modulo 256, NaN to 0.\<close>

definition byte_of_number :: "int option \<Rightarrow> byte" where
  "byte_of_number n = (case n of None \<Rightarrow> 0 | Some i \<Rightarrow> word_of_int i)"

text \<open>
  \<open>fromHex\<close>: an array of \<open>hex.length / 2\<close> bytes (rounded down), filled two characters at a time; the
  write for a trailing odd character falls outside the array and is dropped.
\<close>

fun fromHex :: "string \<Rightarrow> bytes" where
  "fromHex (c # d # r) = byte_of_number (parseInt16 [c, d]) # fromHex r"
| "fromHex _ = []"

lemma hex_digit_value: "n < 16 \<Longrightarrow> hex_value (hex_digits ! n) = Some n"
  by (simp add: hex_value_def hex_digits_def less_Suc_eq numeral_eq_Suc)
     (elim disjE; simp add: char_lower_def)

lemma hex_digit_plain:
  assumes "n < 16"
  shows "\<not> is_space (hex_digits ! n)" and "hex_digits ! n \<noteq> CHR ''-''" and "hex_digits ! n \<noteq> CHR ''+''"
    and "char_lower (hex_digits ! n) \<noteq> CHR ''x''" and "char_lower (hex_digits ! n) = hex_digits ! n"
  using assms
  by (simp_all add: hex_digits_def less_Suc_eq numeral_eq_Suc)
     (elim disjE; simp add: char_lower_def is_space_def)+

lemma parseInt16_two_digits:
  assumes "m < 16" and "n < 16"
  shows "parseInt16 [hex_digits ! m, hex_digits ! n] = Some (int (m * 16 + n))"
proof -
  have s: "strip_0x [hex_digits ! m, hex_digits ! n] = [hex_digits ! m, hex_digits ! n]"
    using hex_digit_plain [OF assms(2)] by (simp add: strip_0x_def)
  show ?thesis
    using hex_digit_plain [OF assms(1)] hex_digit_value [OF assms(1)] hex_digit_value [OF assms(2)]
    by (simp add: parseInt16_def Let_def s startsWith_def)
qed

lemma byte_of_hex: "byte_of_number (parseInt16 (hex_of_byte b)) = b"
proof -
  have b: "unat b < 256" using unsigned_less [of b] by simp
  then have "unat b div 16 < 16" by simp
  moreover have "unat b mod 16 < 16" by simp
  ultimately have "parseInt16 (hex_of_byte b) = Some (int (unat b div 16 * 16 + unat b mod 16))"
    unfolding hex_of_byte_def by (rule parseInt16_two_digits)
  then show ?thesis by (simp add: byte_of_number_def)
qed

lemma fromHex_toHex: "fromHex (toHex bs) = bs"
proof (induction bs)
  case Nil
  show ?case by (simp add: toHex_def)
next
  case (Cons b bs)
  have "toHex (b # bs) = hex_of_byte b @ toHex bs" by (simp add: toHex_def)
  then have "fromHex (toHex (b # bs)) = byte_of_number (parseInt16 (hex_of_byte b)) # fromHex (toHex bs)"
    by (simp add: hex_of_byte_def)
  then show ?case by (simp add: Cons.IH byte_of_hex)
qed

interpretation hex: text_encoding toHex "\<lambda>s. Some (fromHex s)"
  by unfold_locales (simp add: fromHex_toHex)

lemma length_toHex: "length (toHex bs) = 2 * length bs"
  by (induction bs) (auto simp: toHex_def hex_of_byte_def)

lemma toHex_eq_Nil [simp]: "toHex bs = [] \<longleftrightarrow> bs = []"
  using length_toHex [of bs] by auto

lemma toLowerCase_toHex [simp]: "toLowerCase (toHex bs) = toHex bs"
proof (induction bs)
  case Nil
  show ?case by (simp add: toHex_def)
next
  case (Cons b bs)
  have "unat b < 256" using unsigned_less [of b] by simp
  then have d: "unat b div 16 < 16" "unat b mod 16 < 16" by simp_all
  have "toLowerCase (hex_of_byte b) = hex_of_byte b"
    using hex_digit_plain(5) [OF d(1)] hex_digit_plain(5) [OF d(2)]
    by (simp add: hex_of_byte_def toLowerCase_def)
  then show ?case using Cons.IH by (simp add: toHex_def toLowerCase_def)
qed

subsection \<open>Base64\<close>

definition b64_alphabet :: string where
  "b64_alphabet = ''ABCDEFGHIJKLMNOPQRSTUVWXYZabcdefghijklmnopqrstuvwxyz0123456789+/''"

definition b64_char :: "nat \<Rightarrow> char" where
  "b64_char n = b64_alphabet ! n"

definition b64_value :: "char \<Rightarrow> nat option" where
  "b64_value c = indexOf c b64_alphabet"

text \<open>Octets to sextets, the last group zero-filled, and back with the spare bits discarded.\<close>

fun sextets :: "nat list \<Rightarrow> nat list" where
  "sextets (a # b # c # r) =
     a div 4 # (a mod 4 * 16 + b div 16) # (b mod 16 * 4 + c div 64) # c mod 64 # sextets r"
| "sextets [a, b] = [a div 4, a mod 4 * 16 + b div 16, b mod 16 * 4]"
| "sextets [a] = [a div 4, a mod 4 * 16]"
| "sextets [] = []"

fun octets :: "nat list \<Rightarrow> nat list" where
  "octets (a # b # c # d # r) =
     (a * 4 + b div 16) # (b mod 16 * 16 + c div 4) # (c mod 4 * 64 + d) # octets r"
| "octets [a, b, c] = [a * 4 + b div 16, b mod 16 * 16 + c div 4]"
| "octets [a, b] = [a * 4 + b div 16]"
| "octets _ = []"

definition btoa :: "string \<Rightarrow> string" where
  "btoa s = map b64_char (sextets (map of_char s)) @ replicate ((3 - length s mod 3) mod 3) (CHR ''='')"

text \<open>\<open>atob\<close>, the forgiving decoder: \<open>None\<close> is its \<open>InvalidCharacterError\<close>.\<close>

definition is_ascii_space :: "char \<Rightarrow> bool" where
  "is_ascii_space c = (let n = (of_char c :: nat) in n = 9 \<or> n = 10 \<or> n = 12 \<or> n = 13 \<or> n = 32)"

definition strip_pad :: "string \<Rightarrow> string" where
  "strip_pad s =
     (if length s mod 4 = 0 then
        (case rev s of
           c # d # r \<Rightarrow> if c = CHR ''='' then (if d = CHR ''='' then rev r else rev (d # r)) else s
         | _ \<Rightarrow> s)
      else s)"

definition atob :: "string \<Rightarrow> string option" where
  "atob s =
     (let t = strip_pad (filter (\<lambda>c. \<not> is_ascii_space c) s) in
      if length t mod 4 = 1 then None
      else map_option (\<lambda>vs. map char_of (octets vs)) (those (map b64_value t)))"

text \<open>
  \<open>toBase64\<close> builds the binary string in chunks of \<open>0x8000\<close> bytes, so that no call receives more
  arguments than the engine allows; \<open>fromBase64\<close> reads the code units back.
\<close>

function binaryString :: "bytes \<Rightarrow> nat \<Rightarrow> string" where
  "binaryString bs i =
     (if i < length bs
      then map (\<lambda>b. char_of (unat b)) (take 0x8000 (drop i bs)) @ binaryString bs (i + 0x8000)
      else [])"
  by pat_completeness auto
termination
  by (relation "measure (\<lambda>(bs, i). length bs - i)") auto

declare binaryString.simps [simp del]

definition toBase64 :: "bytes \<Rightarrow> string" where
  "toBase64 bs = btoa (binaryString bs 0)"

definition fromBase64 :: "string \<Rightarrow> bytes option" where
  "fromBase64 s = map_option (map (\<lambda>c. word_of_nat (of_char c))) (atob s)"

lemma octets_sextets: "\<forall>n\<in>set ns. n < 256 \<Longrightarrow> octets (sextets ns) = ns"
proof (induction ns rule: sextets.induct)
  case (1 a b c r)
  then have "b div 16 < 16" "c div 64 < 4" by auto
  with 1 show ?case by simp
next
  case (2 a b)
  then have "b div 16 < 16" by auto
  then show ?case by simp
qed simp_all

lemma sextet_bounds:
  "(a::nat) < 256 \<Longrightarrow> a div 4 < 64" "(b::nat) < 256 \<Longrightarrow> a mod 4 * 16 + b div 16 < 64"
  "(c::nat) < 256 \<Longrightarrow> b mod 16 * 4 + c div 64 < 64" "b mod 16 * 4 < (64::nat)" "a mod 4 * 16 < (64::nat)"
proof -
  show "a < 256 \<Longrightarrow> a div 4 < 64" by simp
  have "a mod 4 < 4" "b mod 16 < 16" by simp_all
  then show "b < 256 \<Longrightarrow> a mod 4 * 16 + b div 16 < 64" "c < 256 \<Longrightarrow> b mod 16 * 4 + c div 64 < 64"
    "b mod 16 * 4 < 64" "a mod 4 * 16 < 64"
    by linarith+
qed

lemma sextets_less_64: "\<forall>n\<in>set ns. n < 256 \<Longrightarrow> v \<in> set (sextets ns) \<Longrightarrow> v < 64"
proof (induction ns rule: sextets.induct)
  case (1 a b c r)
  then show ?case using sextet_bounds(1) [of a] sextet_bounds(2) [of b a] sextet_bounds(3) [of c b]
    by (auto simp del: div_mult_self1 div_mult_self2 div_mult_self3 div_mult_self4)
next
  case (2 a b)
  then show ?case using sextet_bounds(1) [of a] sextet_bounds(2) [of b a] sextet_bounds(4) [of b] by auto
next
  case (3 a)
  then show ?case using sextet_bounds(1) [of a] sextet_bounds(5) [of a] by auto
qed simp

lemma length_sextets: "length (sextets ns) = (length ns * 4 + 2) div 3"
  by (induction ns rule: sextets.induct) auto

lemma length_b64_alphabet: "length b64_alphabet = 64"
  by (simp add: b64_alphabet_def)

lemma distinct_b64_alphabet: "distinct b64_alphabet"
  by (simp add: b64_alphabet_def)

lemma indexOf_nth: "distinct s \<Longrightarrow> i < length s \<Longrightarrow> indexOf (s ! i) s = Some i"
proof (subst indexOf_Some_iff, intro conjI)
  assume d: "distinct s" and i: "i < length s"
  have "s = take i s @ s ! i # drop (Suc i) s" using i by (rule id_take_nth_drop)
  then show "s ! i \<notin> set (take i s)" using d by (metis distinct_append disjoint_iff list.set_intros(1))
qed auto

lemma b64_value_char: "n < 64 \<Longrightarrow> b64_value (b64_char n) = Some n"
  by (simp add: b64_value_def b64_char_def indexOf_nth distinct_b64_alphabet length_b64_alphabet)

lemma b64_char_in: "n < 64 \<Longrightarrow> b64_char n \<in> set b64_alphabet"
  by (simp add: b64_char_def length_b64_alphabet)

lemma b64_alphabet_plain: "c \<in> set b64_alphabet \<Longrightarrow> \<not> is_ascii_space c \<and> c \<noteq> CHR ''=''"
  by (simp add: b64_alphabet_def is_ascii_space_def) (elim disjE; simp)

lemma those_map_Some: "(\<And>x. x \<in> set xs \<Longrightarrow> f x = Some (g x)) \<Longrightarrow> those (map f xs) = Some (map g xs)"
  by (induction xs) auto

lemma strip_pad_replicate:
  assumes body: "CHR ''='' \<notin> set body" and k: "k \<le> 2" and len: "(length body + k) mod 4 = 0"
  shows "strip_pad (body @ replicate k (CHR ''='')) = body"
proof -
  consider "k = 0" | "k = 1" | "k = 2" using k by linarith
  then show ?thesis
  proof cases
    assume k0: "k = 0"
    show ?thesis
    proof (cases "rev body")
      case (Cons c r)
      then have "c \<noteq> CHR ''=''" using body by (metis list.set_intros(1) set_rev)
      with Cons k0 show ?thesis by (cases r) (simp_all add: strip_pad_def)
    qed (use k0 in \<open>simp add: strip_pad_def\<close>)
  next
    assume k1: "k = 1"
    then have "body \<noteq> []" using len by auto
    then obtain d r where dr: "rev body = d # r" by (meson list.exhaust rev_is_Nil_conv)
    moreover from this have "d \<noteq> CHR ''=''" using body by (metis list.set_intros(1) set_rev)
    moreover have "rev (d # r) = body" using dr by (metis rev_rev_ident)
    ultimately show ?thesis using k1 len by (simp add: strip_pad_def)
  next
    assume "k = 2"
    then show ?thesis using len by (simp add: strip_pad_def numeral_2_eq_2)
  qed
qed

lemma sextet_length:
  obtains q where "(n * 4 + 2) div 3 = 4 * q" "n mod 3 = 0"
  | q where "(n * 4 + 2) div 3 = 4 * q + 2" "n mod 3 = 1"
  | q where "(n * 4 + 2) div 3 = 4 * q + 3" "n mod 3 = (2::nat)"
proof -
  define q where "q = n div 3"
  have "n mod 3 < 3" and eq: "3 * q + n mod 3 = n" unfolding q_def by simp_all
  then have "n mod 3 = 0 \<or> n mod 3 = 1 \<or> n mod 3 = 2" by linarith
  with eq have "n = 3 * q \<and> n mod 3 = 0 \<or> n = 3 * q + 1 \<and> n mod 3 = 1 \<or> n = 3 * q + 2 \<and> n mod 3 = 2"
    by linarith
  moreover have "(3 * q * 4 + 2) div 3 = 4 * q" "((3 * q + 1) * 4 + 2) div 3 = 4 * q + 2"
    "((3 * q + 2) * 4 + 2) div 3 = 4 * q + 3" by presburger+
  ultimately show thesis using that by metis
qed

lemma btoa_pad_length: "((n * 4 + 2) div 3 + (3 - n mod 3) mod 3) mod 4 = (0::nat)"
  by (rule sextet_length [of n]) simp_all

lemma sextet_count: "(n * 4 + 2) div 3 mod 4 \<noteq> (1::nat)"
proof (rule sextet_length [of n])
  fix q assume "(n * 4 + 2) div 3 = 4 * q + 2"
  moreover have "(4 * q + 2) mod 4 = 2" by presburger
  ultimately show ?thesis by simp
next
  fix q assume "(n * 4 + 2) div 3 = 4 * q + 3"
  moreover have "(4 * q + 3) mod 4 = 3" by presburger
  ultimately show ?thesis by simp
qed simp

lemma atob_btoa: "atob (btoa s) = Some s"
proof -
  let ?ns = "map of_char s :: nat list"
  let ?body = "map b64_char (sextets ?ns)"
  let ?k = "(3 - length s mod 3) mod 3"
  have small: "\<forall>n\<in>set ?ns. n < 256" by auto
  have v64: "v \<in> set (sextets ?ns) \<Longrightarrow> v < 64" for v using small by (rule sextets_less_64)
  have in_alpha: "c \<in> set ?body \<Longrightarrow> c \<in> set b64_alphabet" for c using v64 b64_char_in by auto
  have filt: "filter (\<lambda>c. \<not> is_ascii_space c) (btoa s) = btoa s"
    unfolding btoa_def using in_alpha b64_alphabet_plain
    by (subst filter_id_conv) (auto simp: is_ascii_space_def)
  have "strip_pad (btoa s) = ?body"
    unfolding btoa_def
  proof (rule strip_pad_replicate)
    show "CHR ''='' \<notin> set ?body" using in_alpha b64_alphabet_plain by blast
    show "?k \<le> 2" by (rule less_Suc_eq_le [THEN iffD1]) simp
    show "(length ?body + ?k) mod 4 = 0" using btoa_pad_length [of "length s"] by (simp add: length_sextets)
  qed
  moreover have "length ?body mod 4 \<noteq> 1" using sextet_count [of "length s"] by (simp add: length_sextets)
  moreover have "those (map b64_value ?body) = Some (sextets ?ns)"
    using those_map_Some [of "sextets ?ns" "b64_value \<circ> b64_char" id] v64 b64_value_char by simp
  moreover have "map char_of (octets (sextets ?ns)) = s"
    using octets_sextets [OF small] by (simp add: o_def)
  ultimately show ?thesis by (simp add: atob_def filt)
qed

lemma binaryString_eq: "binaryString bs i = map (\<lambda>b. char_of (unat b)) (drop i bs)"
proof (induction bs i rule: binaryString.induct)
  case (1 bs i)
  show ?case
  proof (cases "i < length bs")
    case True
    have "binaryString bs i =
        map (\<lambda>b. char_of (unat b)) (take 0x8000 (drop i bs)) @ map (\<lambda>b. char_of (unat b)) (drop 0x8000 (drop i bs))"
      using True 1 by (simp add: binaryString.simps [of bs i] add.commute)
    then show ?thesis by (metis append_take_drop_id map_append)
  next
    case False
    then show ?thesis by (simp add: binaryString.simps [of bs i])
  qed
qed

lemma byte_of_char_of_unat: "word_of_nat (of_char (char_of (unat (b :: byte)))) = b"
proof -
  have "unat b < 256" using unsigned_less [of b] by simp
  then show ?thesis by (simp add: of_char_of)
qed

lemma fromBase64_toBase64: "fromBase64 (toBase64 bs) = Some bs"
  by (simp add: fromBase64_def toBase64_def atob_btoa binaryString_eq o_def byte_of_char_of_unat map_idI
      del: of_char_of)

interpretation base64: text_encoding toBase64 fromBase64
  by unfold_locales (rule fromBase64_toBase64)

lemma btoa_Nil [simp]: "btoa [] = []"
  by (simp add: btoa_def)

lemma toBase64_Nil [simp]: "toBase64 [] = []"
  by (simp add: toBase64_def binaryString_eq)

lemma toBase64_eq_Nil [simp]: "toBase64 bs = [] \<longleftrightarrow> bs = []"
  using base64.encode_eq_iff [of bs "[]"] by simp

subsection \<open>UTF-8 and the URL-safe alphabet\<close>

text \<open>\<open>new TextEncoder().encode(s)\<close> on code units below 256: one byte below 128, two above.\<close>

definition utf8_char :: "char \<Rightarrow> bytes" where
  "utf8_char c =
     (let n = (of_char c :: nat) in
      if n < 128 then [word_of_nat n] else [word_of_nat (192 + n div 64), word_of_nat (128 + n mod 64)])"

definition utf8 :: "string \<Rightarrow> bytes" where
  "utf8 s = concat (map utf8_char s)"

text \<open>
  \<open>new TextDecoder().decode\<close>, on the encodings of such text: \<open>None\<close> is a sequence that decodes to
  something else, a replacement character or a code unit of 256 or more.
\<close>

fun utf8_decode :: "bytes \<Rightarrow> string option" where
  "utf8_decode [] = Some []"
| "utf8_decode (b # bs) =
     (if unat b < 128 then map_option (Cons (char_of (unat b))) (utf8_decode bs)
      else if unat b = 194 \<or> unat b = 195
      then (case bs of
              c # cs \<Rightarrow>
                if 128 \<le> unat c \<and> unat c < 192
                then map_option (Cons (char_of ((unat b - 192) * 64 + (unat c - 128)))) (utf8_decode cs) else None
            | [] \<Rightarrow> None)
      else None)"

text \<open>
  The chain \<open>.replace(/\+/g, '-').replace(/\//g, '_').replace(/=+$/, '')\<close> the client applies to base64
  text it uses as a key.
\<close>

definition url_char :: "char \<Rightarrow> char" where
  "url_char c = (if c = CHR ''+'' then CHR ''-'' else if c = CHR ''/'' then CHR ''_'' else c)"

definition urlSafe :: "string \<Rightarrow> string" where
  "urlSafe s = rev (dropWhile (\<lambda>c. c = CHR ''='') (rev (map url_char s)))"

lemma utf8_char_append:
  assumes "utf8_char c @ xs = utf8_char d @ ys"
  shows "c = d \<and> xs = ys"
proof -
  have b: "(of_char c :: nat) < 256" "(of_char d :: nat) < 256" by simp_all
  have w: "unat (word_of_nat k :: byte) = k" if "k < 256" for k using that by (simp add: unat_of_nat)
  have inj: "k = l" if "(word_of_nat k :: byte) = word_of_nat l" "k < 256" "l < 256" for k l using that w by metis
  have m: "192 + of_char e div 64 < (256::nat)" "128 + of_char e mod 64 < (256::nat)" for e
    using of_char_less_256 [of e] by (linarith, simp add: less_trans [of _ "192"])
  have "(of_char c :: nat) = of_char d \<and> xs = ys"
  proof (cases "(of_char c :: nat) < 128"; cases "(of_char d :: nat) < 128")
    assume a: "(of_char c :: nat) < 128" "(of_char d :: nat) < 128"
    then show ?thesis using assms inj [of "of_char c" "of_char d"] b by (simp add: utf8_char_def Let_def)
  next
    assume a: "(of_char c :: nat) < 128" "\<not> (of_char d :: nat) < 128"
    then show ?thesis using assms inj [of "of_char c" "192 + of_char d div 64"] b m [of d] by (simp add: utf8_char_def Let_def)
  next
    assume a: "\<not> (of_char c :: nat) < 128" "(of_char d :: nat) < 128"
    then show ?thesis using assms inj [of "192 + of_char c div 64" "of_char d"] b m [of c] by (simp add: utf8_char_def Let_def)
  next
    assume a: "\<not> (of_char c :: nat) < 128" "\<not> (of_char d :: nat) < 128"
    then have "192 + of_char c div 64 = (192 + of_char d div 64 :: nat)" "128 + of_char c mod 64 = (128 + of_char d mod 64 :: nat)" "xs = ys"
      using assms inj [OF _ m(1) [of c] m(1) [of d]] inj [OF _ m(2) [of c] m(2) [of d]]
      by (simp_all add: utf8_char_def Let_def)
    then show ?thesis by (metis add_left_cancel div_mod_decomp)
  qed
  then show ?thesis by (simp add: of_char_eq_iff)
qed

lemma utf8_inj: "utf8 s = utf8 t \<longleftrightarrow> s = t"
proof
  have nonempty: "utf8_char c \<noteq> []" for c by (simp add: utf8_char_def Let_def)
  show "utf8 s = utf8 t \<Longrightarrow> s = t"
  proof (induction s arbitrary: t)
    case Nil
    then show ?case using nonempty by (cases t) (auto simp: utf8_def)
  next
    case (Cons c s)
    obtain d t' where t: "t = d # t'" using Cons.prems nonempty by (cases t) (auto simp: utf8_def)
    have "utf8_char c @ utf8 s = utf8_char d @ utf8 t'" using Cons.prems t by (simp add: utf8_def)
    then show ?case using utf8_char_append Cons.IH t by blast
  qed
qed simp

lemma utf8_decode_char: "utf8_decode (utf8_char c @ bs) = map_option (Cons c) (utf8_decode bs)"
proof (cases "(of_char c :: nat) < 128")
  case True
  then have "unat (word_of_nat (of_char c) :: byte) = of_char c" by (simp add: unat_of_nat)
  then show ?thesis using True by (simp add: utf8_char_def Let_def)
next
  case False
  let ?n = "of_char c :: nat"
  have n: "?n < 256" "128 \<le> ?n" using False by simp_all
  then have "?n div 64 < 4" "2 \<le> ?n div 64" using less_mult_imp_div_less [of ?n 4 64] div_le_mono [of 128 ?n 64] by simp_all
  then have d: "?n div 64 = 2 \<or> ?n div 64 = 3" "?n mod 64 < 64" by (linarith, simp)
  have w: "unat (word_of_nat k :: byte) = k" if "k < 256" for k using that by (simp add: unat_of_nat)
  have u: "unat (word_of_nat (192 + ?n div 64) :: byte) = 192 + ?n div 64" using d by (intro w) auto
  have v: "unat (word_of_nat (128 + ?n mod 64) :: byte) = 128 + ?n mod 64" using d by (intro w) auto
  have "utf8_char c = [word_of_nat (192 + ?n div 64), word_of_nat (128 + ?n mod 64)]" using False by (simp add: utf8_char_def Let_def)
  then have "utf8_decode (utf8_char c @ bs) = map_option (Cons (char_of (?n div 64 * 64 + ?n mod 64))) (utf8_decode bs)"
    using d u v by (auto simp del: of_nat_add)
  moreover have "?n div 64 * 64 + ?n mod 64 = ?n" by (rule div_mult_mod_eq)
  ultimately show ?thesis by simp
qed

lemma utf8_decode_utf8: "utf8_decode (utf8 s) = Some s"
  by (induction s) (simp_all add: utf8_def utf8_decode_char)

lemma url_char_inj: "c \<in> set b64_alphabet \<Longrightarrow> d \<in> set b64_alphabet \<Longrightarrow> url_char c = url_char d \<Longrightarrow> c = d"
  by (auto simp: url_char_def b64_alphabet_def split: if_splits)

lemma urlSafe_toBase64:
  "urlSafe (toBase64 bs) = map (url_char \<circ> b64_char) (sextets (map unat bs))"
proof -
  let ?body = "map b64_char (sextets (map unat bs))"
  have u: "unat b < 256" for b :: byte using unsigned_less [of b] by simp
  then have small: "\<forall>n\<in>set (map unat bs). n < 256" by auto
  have alpha: "c \<in> set ?body \<Longrightarrow> c \<in> set b64_alphabet" for c
    using sextets_less_64 [OF small] b64_char_in by auto
  have eq: "url_char c \<noteq> CHR ''=''" if "c \<in> set b64_alphabet" for c
    using that by (auto simp: url_char_def b64_alphabet_def split: if_splits)
  have "map of_char (binaryString bs 0) = map unat bs"
    using u by (simp add: binaryString_eq o_def)
  then have "toBase64 bs = ?body @ replicate ((3 - length bs mod 3) mod 3) (CHR ''='')"
    unfolding toBase64_def btoa_def by (simp only:) (simp add: binaryString_eq)
  moreover have "dropWhile (\<lambda>c. c = CHR ''='') (rev (map url_char (?body @ replicate k (CHR ''='')))) = rev (map url_char ?body)" for k
  proof -
    have "x \<in> set (rev (map url_char ?body)) \<Longrightarrow> x \<noteq> CHR ''=''" for x using eq alpha by auto
    then have "dropWhile (\<lambda>c. c = CHR ''='') (rev (map url_char ?body)) = rev (map url_char ?body)"
      unfolding dropWhile_eq_self_iff using hd_in_set by blast
    moreover have "dropWhile (\<lambda>c. c = CHR ''='') (replicate k (CHR ''='') @ xs) = dropWhile (\<lambda>c. c = CHR ''='') xs" for xs
      by (induction k) simp_all
    moreover have "url_char (CHR ''='') = CHR ''=''" by (simp add: url_char_def)
    ultimately show ?thesis by (simp only: map_append map_replicate rev_append rev_replicate)
  qed
  ultimately show ?thesis by (simp add: urlSafe_def)
qed

lemma urlSafe_toBase64_inj: "urlSafe (toBase64 a) = urlSafe (toBase64 b) \<longleftrightarrow> a = b"
proof
  assume "urlSafe (toBase64 a) = urlSafe (toBase64 b)"
  then have m: "map (url_char \<circ> b64_char) (sextets (map unat a)) = map (url_char \<circ> b64_char) (sextets (map unat b))"
    by (simp add: urlSafe_toBase64)
  have u: "unat x < 256" for x :: byte using unsigned_less [of x] by simp
  then have small: "\<forall>n\<in>set (map unat xs). n < 256" for xs :: bytes by auto
  have "inj_on (url_char \<circ> b64_char) (set (sextets (map unat a)) \<union> set (sextets (map unat b)))"
  proof (rule inj_onI)
    fix x y assume xy: "x \<in> set (sextets (map unat a)) \<union> set (sextets (map unat b))"
      "y \<in> set (sextets (map unat a)) \<union> set (sextets (map unat b))" "(url_char \<circ> b64_char) x = (url_char \<circ> b64_char) y"
    then have "x < 64" "y < 64" using sextets_less_64 [OF small] by blast+
    then have "b64_char x = b64_char y" using xy(3) url_char_inj b64_char_in by simp
    then show "x = y" using b64_value_char \<open>x < 64\<close> \<open>y < 64\<close> by (metis option.inject)
  qed
  then have "sextets (map unat a) = sextets (map unat b)" using m by (simp add: inj_on_map_eq_map)
  then have "map unat a = map unat b" using octets_sextets [OF small] by metis
  then show "a = b" by (metis inj_map_eq_map inj_def unsigned_word_eqI)
qed simp

end
