(* ===== verification/Seal.thy ===== *)
theory Seal
  imports Encoding "HOL-Library.Multiset"
begin

unbundle bit_operations_syntax

section \<open>Padding, key wrapping and sealed blobs\<close>

text \<open>
  \<open>lib/crypto/sealVersion.ts\<close>, \<open>encrypt.ts\<close>, \<open>decrypt.ts\<close> and \<open>sealedBlob.ts\<close>. The browser's Web
  Crypto API is a parameter of the model, the record \<open>webcrypto\<close>; what the client relies on it for is
  stated by the predicates \<open>gcm_laws\<close>, \<open>x25519_laws\<close> and \<open>hkdf_laws\<close>. Fresh random values are
  explicit arguments.
\<close>

record webcrypto =
  gcm_encrypt :: "bytes \<Rightarrow> bytes \<Rightarrow> bytes option \<Rightarrow> bytes \<Rightarrow> bytes"
  gcm_decrypt :: "bytes \<Rightarrow> bytes \<Rightarrow> bytes option \<Rightarrow> bytes \<Rightarrow> bytes option"
  x25519_public :: "bytes \<Rightarrow> bytes"
  x25519_derive :: "bytes \<Rightarrow> bytes \<Rightarrow> bytes option"
  hkdf_sha256 :: "bytes \<Rightarrow> bytes \<Rightarrow> bytes"
  digest_sha256 :: "bytes \<Rightarrow> bytes"
  ed25519_public :: "bytes \<Rightarrow> bytes"
  ed25519_sign :: "bytes \<Rightarrow> bytes \<Rightarrow> bytes"
  ed25519_verify :: "bytes \<Rightarrow> bytes \<Rightarrow> bytes \<Rightarrow> bool option"

text \<open>AES-256-GCM with a 12-byte nonce: a 16-byte tag is appended, and decryption undoes encryption.\<close>

definition gcm_laws :: "webcrypto \<Rightarrow> bool" where
  "gcm_laws cr \<longleftrightarrow>
     (\<forall>k iv aad p. length k = 32 \<longrightarrow> length iv = 12 \<longrightarrow>
        length (gcm_encrypt cr k iv aad p) = length p + 16 \<and>
        gcm_decrypt cr k iv aad (gcm_encrypt cr k iv aad p) = Some p)"

text \<open>X25519: 32-byte public keys, and both sides of an exchange derive the same secret.\<close>

definition x25519_laws :: "webcrypto \<Rightarrow> bool" where
  "x25519_laws cr \<longleftrightarrow>
     (\<forall>a b. length a = 32 \<longrightarrow> length b = 32 \<longrightarrow>
        length (x25519_public cr a) = 32 \<and>
        x25519_derive cr a (x25519_public cr b) \<noteq> None \<and>
        x25519_derive cr a (x25519_public cr b) = x25519_derive cr b (x25519_public cr a))"

definition hkdf_laws :: "webcrypto \<Rightarrow> bool" where
  "hkdf_laws cr \<longleftrightarrow> (\<forall>s info. length (hkdf_sha256 cr s info) = 32)"

datatype seal_error =
    RangeError
  | ShorterThanPrefix nat
  | PrefixExceedsBuffer nat nat
  | UnknownDerivation nat
  | WrongKeySize
  | CryptoFailure
  | NoRecipients
  | NoRecordOpened
  | RecipientNotFound
  | BadSignature
  | BodyHashMismatch
  | BodyAddressMismatch
  | BadMessage

subsection \<open>Size classes and padding\<close>

definition SIZE_CLASSES :: "nat list" where
  "SIZE_CLASSES = [1024, 4096, 16384, 65536, 262144, 1048576]"

definition selectSizeClass :: "nat \<Rightarrow> nat" where
  "selectSizeClass payloadSize =
     (let needed = payloadSize + 4 in
      case List.find (\<lambda>sc. needed \<le> sc) SIZE_CLASSES of
        Some sc \<Rightarrow> sc
      | None \<Rightarrow> (needed + 1048575) div 1048576 * 1048576)"

text \<open>The 4-byte big-endian prefix, computed on the 32-bit value the shift operators work on.\<close>

definition lengthPrefix :: "nat \<Rightarrow> bytes" where
  "lengthPrefix len =
     (let w = (word_of_nat len :: 32 word) in
      [ucast (drop_bit 24 w AND 0xff), ucast (drop_bit 16 w AND 0xff),
       ucast (drop_bit 8 w AND 0xff), ucast (w AND 0xff)])"

definition padPayload :: "bytes \<Rightarrow> nat \<Rightarrow> seal_error + bytes" where
  "padPayload payload targetSize =
     (if targetSize < length payload + 4 then Inl RangeError
      else Inr (lengthPrefix (length payload) @ payload @ replicate (targetSize - 4 - length payload) 0))"

definition readPrefix :: "bytes \<Rightarrow> nat" where
  "readPrefix padded =
     unat (push_bit 24 (ucast (padded ! 0) :: 32 word) OR push_bit 16 (ucast (padded ! 1))
           OR push_bit 8 (ucast (padded ! 2)) OR ucast (padded ! 3))"

definition unpadPayload :: "bytes \<Rightarrow> seal_error + bytes" where
  "unpadPayload padded =
     (if length padded < 4 then Inl (ShorterThanPrefix (length padded))
      else let actualLen = readPrefix padded in
        if length padded < actualLen + 4 then Inl (PrefixExceedsBuffer actualLen (length padded))
        else Inr (take actualLen (drop 4 padded)))"

lemma prefix_word:
  fixes w :: "32 word"
  shows "push_bit 24 (ucast (ucast (drop_bit 24 w AND 0xff) :: 8 word)) OR
         push_bit 16 (ucast (ucast (drop_bit 16 w AND 0xff) :: 8 word)) OR
         push_bit 8 (ucast (ucast (drop_bit 8 w AND 0xff) :: 8 word)) OR
         ucast (ucast (w AND 0xff) :: 8 word) = w"
proof -
  have m: "(0xff :: 32 word) = mask 8" by (simp add: mask_eq_exp_minus_1)
  show ?thesis
    unfolding m
  proof (rule bit_word_eqI)
    fix n assume "n < LENGTH(32)"
    then consider "n < 8" | "8 \<le> n" "n < 16" | "16 \<le> n" "n < 24" | "24 \<le> n" "n < 32" by fastforce
    then show "bit (push_bit 24 (ucast (ucast (drop_bit 24 w AND mask 8) :: 8 word) :: 32 word) OR
         push_bit 16 (ucast (ucast (drop_bit 16 w AND mask 8) :: 8 word)) OR
         push_bit 8 (ucast (ucast (drop_bit 8 w AND mask 8) :: 8 word)) OR
         ucast (ucast (w AND mask 8) :: 8 word)) n = bit w n"
      by cases (simp_all add: bit_simps, linarith+)
  qed
qed

lemma length_lengthPrefix [simp]: "length (lengthPrefix n) = 4"
  by (simp add: lengthPrefix_def Let_def)

lemma readPrefix_lengthPrefix: "readPrefix (lengthPrefix n @ r) = n mod 2 ^ 32"
  using prefix_word [of "word_of_nat n"]
  by (simp add: readPrefix_def lengthPrefix_def Let_def unat_of_nat)

lemma size_class_fits: "n + 4 \<le> selectSizeClass n"
proof (cases "List.find (\<lambda>sc. n + 4 \<le> sc) SIZE_CLASSES")
  case None
  have "n + 4 \<le> (n + 4 + 1048575) div 1048576 * 1048576"
    using div_mult_mod_eq [of "n + 4 + 1048575" 1048576] mod_less_divisor [of 1048576 "n + 4 + 1048575"]
    by linarith
  with None show ?thesis by (simp add: selectSizeClass_def)
next
  case (Some sc)
  then show ?thesis by (auto simp: selectSizeClass_def dest: find_Some_in)
qed

text \<open>The sizes a padded payload may have: the listed classes, then whole mebibytes.\<close>

definition size_ladder :: "nat \<Rightarrow> bool" where
  "size_ladder c \<longleftrightarrow> c \<in> set SIZE_CLASSES \<or> (\<exists>k>0. c = k * 1048576)"

lemma find_None_large: "List.find (\<lambda>sc. m \<le> sc) SIZE_CLASSES = None \<Longrightarrow> 1048576 < m"
  by (auto simp: SIZE_CLASSES_def split: if_splits)

lemma size_class_on_ladder: "size_ladder (selectSizeClass n)"
proof (cases "List.find (\<lambda>sc. n + 4 \<le> sc) SIZE_CLASSES")
  case None
  then have "0 < (n + 4 + 1048575) div 1048576" using find_None_large [of "n + 4"] by (simp add: div_greater_zero_iff)
  with None show ?thesis by (auto simp: selectSizeClass_def size_ladder_def)
next
  case (Some sc)
  then show ?thesis by (auto simp: selectSizeClass_def size_ladder_def dest: find_Some_in)
qed

lemma find_sorted_least:
  "sorted xs \<Longrightarrow> List.find P xs = Some x \<Longrightarrow> y \<in> set xs \<Longrightarrow> P y \<Longrightarrow> x \<le> (y::nat)"
  by (induction xs) (auto split: if_splits)

lemma size_class_least: "size_ladder c \<Longrightarrow> n + 4 \<le> c \<Longrightarrow> selectSizeClass n \<le> c"
proof (cases "List.find (\<lambda>sc. n + 4 \<le> sc) SIZE_CLASSES")
  case None
  assume c: "size_ladder c" "n + 4 \<le> c"
  with None have "c \<notin> set SIZE_CLASSES" by (auto simp: find_None_iff)
  with c obtain k where k: "c = k * 1048576" by (auto simp: size_ladder_def)
  have "(n + 4 + 1048575) div 1048576 \<le> (k * 1048576 + 1048575) div 1048576"
    using c(2) k by (intro div_le_mono) simp
  also have "\<dots> = k" by simp
  finally show ?thesis using None k by (simp add: selectSizeClass_def)
next
  case (Some sc)
  assume c: "size_ladder c" "n + 4 \<le> c"
  have srt: "sorted SIZE_CLASSES" by (simp add: SIZE_CLASSES_def)
  have "sc \<le> c"
  proof (cases "c \<in> set SIZE_CLASSES")
    case True
    then show ?thesis using find_sorted_least [OF srt Some True] c(2) by simp
  next
    case False
    with c obtain k where "0 < k" "c = k * 1048576" by (auto simp: size_ladder_def)
    moreover have "sc \<le> 1048576" using Some by (auto simp: SIZE_CLASSES_def split: if_splits)
    ultimately show ?thesis by (cases k) auto
  qed
  with Some show ?thesis by (simp add: selectSizeClass_def)
qed

lemma unpad_pad:
  assumes "length p < 2 ^ 32" and "length p + 4 \<le> t"
  shows "\<exists>b. padPayload p t = Inr b \<and> length b = t \<and> unpadPayload b = Inr p"
proof -
  let ?b = "lengthPrefix (length p) @ p @ replicate (t - 4 - length p) 0"
  have "readPrefix ?b = length p" using assms(1) by (simp add: readPrefix_lengthPrefix)
  moreover have "length ?b = t" using assms(2) by simp
  moreover have "take (length p) (drop 4 ?b) = p" by simp
  ultimately have "unpadPayload ?b = Inr p" using assms(2) by (simp add: unpadPayload_def Let_def)
  then show ?thesis using assms(2) by (simp add: padPayload_def)
qed

subsection \<open>Padding as an interface\<close>

text \<open>
  What the envelope code relies on when it pads a payload to its class and later strips the padding:
  for every payload whose length fits the prefix the two succeed and give the payload back, and the
  padded length depends on the class alone.
\<close>

locale padding =
  fixes classOf :: "nat \<Rightarrow> nat"
    and pad :: "bytes \<Rightarrow> nat \<Rightarrow> seal_error + bytes"
    and unpad :: "bytes \<Rightarrow> seal_error + bytes"
    and limit :: nat
  assumes pad_unpad: "length p < limit \<Longrightarrow>
      \<exists>b. pad p (classOf (length p)) = Inr b \<and> length b = classOf (length p) \<and> unpad b = Inr p"
begin

lemma pad_ok: "length p < limit \<Longrightarrow> pad p (classOf (length p)) = Inr b \<Longrightarrow> unpad b = Inr p"
  using pad_unpad by fastforce

lemma pad_total: "length p < limit \<Longrightarrow> \<exists>b. pad p (classOf (length p)) = Inr b"
  using pad_unpad by blast

lemma padded_length: "length p < limit \<Longrightarrow> pad p (classOf (length p)) = Inr b \<Longrightarrow> length b = classOf (length p)"
  using pad_unpad by fastforce

end

interpretation sized: padding selectSizeClass padPayload unpadPayload "2 ^ 32"
  by unfold_locales (rule unpad_pad; simp add: size_class_fits)

subsection \<open>Seal-format generations\<close>

definition KDF_V1 :: nat where "KDF_V1 = 1"
definition KDF_V2 :: nat where "KDF_V2 = 2"
definition PRODUCER_KDF :: nat where "PRODUCER_KDF = KDF_V2"

definition normalizeKDF :: "nat option \<Rightarrow> nat" where
  "normalizeKDF v = (case v of None \<Rightarrow> KDF_V1 | Some n \<Rightarrow> if n = 0 then KDF_V1 else n)"

definition CEK_WRAP_INFO_V1 :: bytes where
  "CEK_WRAP_INFO_V1 = ascii ''dmcn-cek-wrap-v1''"

definition CEK_WRAP_LABEL_V2 :: bytes where
  "CEK_WRAP_LABEL_V2 = ascii ''dmcn-cek-wrap-v2''"

definition cekWrapInfoV2 :: "bytes \<Rightarrow> bytes \<Rightarrow> seal_error + bytes" where
  "cekWrapInfoV2 ephPub rcptPub =
     (if length ephPub \<noteq> 32 \<or> length rcptPub \<noteq> 32 then Inl WrongKeySize
      else Inr (CEK_WRAP_LABEL_V2 @ ephPub @ rcptPub))"

definition cekWrapInfo :: "nat \<Rightarrow> bytes \<Rightarrow> bytes \<Rightarrow> seal_error + bytes" where
  "cekWrapInfo kdf ephPub rcptPub =
     (let g = normalizeKDF (Some kdf) in
      if g = KDF_V1 then Inr CEK_WRAP_INFO_V1
      else if g = KDF_V2 then cekWrapInfoV2 ephPub rcptPub
      else Inl (UnknownDerivation kdf))"

definition AAD_HEADER_V1 :: bytes where
  "AAD_HEADER_V1 = ctx_tag ''dmcn-aad-hdr-v1''"

definition AAD_BODY_V1 :: bytes where
  "AAD_BODY_V1 = ctx_tag ''dmcn-aad-body-v1''"

definition headerAAD :: "nat \<Rightarrow> bytes option" where
  "headerAAD kdf = (if normalizeKDF (Some kdf) = KDF_V1 then None else Some AAD_HEADER_V1)"

definition bodyAAD :: "nat \<Rightarrow> bytes option" where
  "bodyAAD kdf = (if normalizeKDF (Some kdf) = KDF_V1 then None else Some AAD_BODY_V1)"

lemmas kdf_defs = KDF_V1_def KDF_V2_def PRODUCER_KDF_def normalizeKDF_def

lemma cekWrapInfo_V2_inj:
  "cekWrapInfo KDF_V2 e r = Inr i \<Longrightarrow> cekWrapInfo KDF_V2 e' r' = Inr i \<Longrightarrow> e = e' \<and> r = r'"
  by (auto simp: cekWrapInfo_def cekWrapInfoV2_def kdf_defs Let_def split: if_splits)

lemma cekWrapInfo_separates:
  "cekWrapInfo KDF_V1 e r = Inr i \<Longrightarrow> cekWrapInfo KDF_V2 e' r' = Inr i' \<Longrightarrow> i \<noteq> i'"
  by (auto simp: cekWrapInfo_def cekWrapInfoV2_def kdf_defs Let_def CEK_WRAP_INFO_V1_def
      CEK_WRAP_LABEL_V2_def ascii_def split: if_splits)

lemma cekWrapInfo_unknown:
  "2 < kdf \<Longrightarrow> cekWrapInfo kdf e r = Inl (UnknownDerivation kdf)"
  by (simp add: cekWrapInfo_def kdf_defs Let_def)

lemma aad_labels_distinct: "headerAAD PRODUCER_KDF \<noteq> bodyAAD PRODUCER_KDF"
  by (simp add: headerAAD_def bodyAAD_def kdf_defs AAD_HEADER_V1_def AAD_BODY_V1_def ctx_tag_def ascii_def)

subsection \<open>AES-GCM boxes and the CEK wrap\<close>

record gcm_box =
  box_nonce :: bytes
  box_ciphertext :: bytes
  box_tag :: bytes

definition aesGcmEncrypt :: "webcrypto \<Rightarrow> bytes \<Rightarrow> bytes \<Rightarrow> bytes \<Rightarrow> bytes option \<Rightarrow> gcm_box" where
  "aesGcmEncrypt cr key nonce plaintext aad =
     (let encrypted = gcm_encrypt cr key nonce aad plaintext in
      \<lparr>box_nonce = nonce,
       box_ciphertext = take (length encrypted - 16) encrypted,
       box_tag = drop (length encrypted - 16) encrypted\<rparr>)"

definition aesGcmDecrypt ::
    "webcrypto \<Rightarrow> bytes \<Rightarrow> bytes \<Rightarrow> bytes \<Rightarrow> bytes \<Rightarrow> bytes option \<Rightarrow> seal_error + bytes" where
  "aesGcmDecrypt cr key nonce ciphertext tag aad =
     (case gcm_decrypt cr key nonce aad (ciphertext @ tag) of
        None \<Rightarrow> Inl CryptoFailure | Some p \<Rightarrow> Inr p)"

record RecipientInfo =
  ri_deviceId :: bytes
  ri_x25519Pub :: bytes

record RecipientRecord =
  deviceId :: bytes
  recipientXPub :: bytes
  ephemeralXPub :: bytes
  wrappedCek :: bytes
  cekNonce :: bytes
  cekTag :: bytes
  kdf :: "nat option"

text \<open>
  \<open>wrapCEK\<close> with the ephemeral private key and the nonce it draws as arguments: derive the shared
  secret, derive the wrapping key from it under the producer's generation, seal the CEK.
\<close>

definition wrapCEK ::
    "webcrypto \<Rightarrow> bytes \<Rightarrow> bytes \<Rightarrow> bytes \<Rightarrow> RecipientInfo \<Rightarrow> seal_error + RecipientRecord" where
  "wrapCEK cr ephPriv nonce cek recipient =
     (let ephPub = x25519_public cr ephPriv in
      case x25519_derive cr ephPriv (ri_x25519Pub recipient) of
        None \<Rightarrow> Inl CryptoFailure
      | Some shared \<Rightarrow>
          (case cekWrapInfo PRODUCER_KDF ephPub (ri_x25519Pub recipient) of
             Inl e \<Rightarrow> Inl e
           | Inr info \<Rightarrow>
               let box = aesGcmEncrypt cr (hkdf_sha256 cr shared info) nonce cek None in
               Inr \<lparr>deviceId = ri_deviceId recipient, recipientXPub = ri_x25519Pub recipient,
                    ephemeralXPub = ephPub, wrappedCek = box_ciphertext box, cekNonce = box_nonce box,
                    cekTag = box_tag box, kdf = Some PRODUCER_KDF\<rparr>))"

text \<open>
  \<open>unwrapCEK\<close>: the info is bound to the reader's own public key, never to the record's
  \<open>recipientXPub\<close>.
\<close>

definition unwrapCEK :: "webcrypto \<Rightarrow> RecipientRecord \<Rightarrow> bytes \<Rightarrow> bytes \<Rightarrow> seal_error + bytes" where
  "unwrapCEK cr rec x25519Derive x25519Pub =
     (case cekWrapInfo (case kdf rec of None \<Rightarrow> 0 | Some k \<Rightarrow> k) (ephemeralXPub rec) x25519Pub of
        Inl e \<Rightarrow> Inl e
      | Inr info \<Rightarrow>
          (case x25519_derive cr x25519Derive (ephemeralXPub rec) of
             None \<Rightarrow> Inl CryptoFailure
           | Some shared \<Rightarrow>
               aesGcmDecrypt cr (hkdf_sha256 cr shared info) (cekNonce rec) (wrappedCek rec) (cekTag rec) None))"

lemma aesGcm_roundtrip:
  assumes "gcm_laws cr" and "length key = 32" and "length nonce = 12"
  shows "aesGcmDecrypt cr key (box_nonce (aesGcmEncrypt cr key nonce p aad))
      (box_ciphertext (aesGcmEncrypt cr key nonce p aad)) (box_tag (aesGcmEncrypt cr key nonce p aad)) aad = Inr p"
  using assms by (simp add: aesGcmEncrypt_def aesGcmDecrypt_def Let_def gcm_laws_def)

lemma wrapCEK_total:
  assumes "x25519_laws cr" and "length eph = 32" and "length priv = 32"
    and "ri_x25519Pub r = x25519_public cr priv"
  shows "\<exists>rec. wrapCEK cr eph nonce cek r = Inr rec"
proof -
  have l: "length (x25519_public cr eph) = 32" "length (x25519_public cr priv) = 32"
    and d: "x25519_derive cr eph (x25519_public cr priv) \<noteq> None"
    using assms(1-3) by (auto simp: x25519_laws_def)
  then have "cekWrapInfo PRODUCER_KDF (x25519_public cr eph) (x25519_public cr priv)
      = Inr (CEK_WRAP_LABEL_V2 @ x25519_public cr eph @ x25519_public cr priv)"
    by (simp add: cekWrapInfo_def cekWrapInfoV2_def kdf_defs Let_def)
  with d show ?thesis using assms(4) by (auto simp: wrapCEK_def Let_def)
qed

lemma unwrap_wrap:
  assumes laws: "gcm_laws cr" "x25519_laws cr" "hkdf_laws cr"
    and len: "length eph = 32" "length priv = 32" "length nonce = 12"
    and r: "ri_x25519Pub r = x25519_public cr priv"
    and w: "wrapCEK cr eph nonce cek r = Inr rec"
  shows "unwrapCEK cr rec priv (x25519_public cr priv) = Inr cek"
proof -
  obtain shared info where sh: "x25519_derive cr eph (x25519_public cr priv) = Some shared"
    and inf: "cekWrapInfo PRODUCER_KDF (x25519_public cr eph) (x25519_public cr priv) = Inr info"
    and rec: "ephemeralXPub rec = x25519_public cr eph" "kdf rec = Some PRODUCER_KDF"
      "wrappedCek rec = box_ciphertext (aesGcmEncrypt cr (hkdf_sha256 cr shared info) nonce cek None)"
      "cekNonce rec = box_nonce (aesGcmEncrypt cr (hkdf_sha256 cr shared info) nonce cek None)"
      "cekTag rec = box_tag (aesGcmEncrypt cr (hkdf_sha256 cr shared info) nonce cek None)"
    using w r by (auto simp: wrapCEK_def Let_def split: option.splits sum.splits)
  have "x25519_derive cr priv (x25519_public cr eph) = Some shared"
    using sh laws(2) len by (metis x25519_laws_def)
  moreover have "length (hkdf_sha256 cr shared info) = 32" using laws(3) by (simp add: hkdf_laws_def)
  ultimately show ?thesis
    using inf rec aesGcm_roundtrip [OF laws(1) _ len(3)] by (simp add: unwrapCEK_def)
qed

subsection \<open>Sealed blobs\<close>

record SealedRecipientJSON =
  recipient_xpub :: string
  ephemeral_xpub :: string
  wrapped_cek :: string
  cek_nonce :: string
  cek_tag :: string
  json_kdf :: "nat option"

record SealedBlobJSON =
  blob_nonce :: string
  blob_ciphertext :: string
  blob_tag :: string
  blob_recipients :: "SealedRecipientJSON list"

definition DEVICE_ID_ZERO :: bytes where
  "DEVICE_ID_ZERO = replicate 16 0"

definition recipientJSON :: "RecipientRecord \<Rightarrow> SealedRecipientJSON" where
  "recipientJSON r =
     \<lparr>recipient_xpub = toBase64 (recipientXPub r), ephemeral_xpub = toBase64 (ephemeralXPub r),
      wrapped_cek = toBase64 (wrappedCek r), cek_nonce = toBase64 (cekNonce r), cek_tag = toBase64 (cekTag r),
      json_kdf = (if kdf r = Some 0 then None else kdf r)\<rparr>"

text \<open>The wrapping loop; each recipient comes with the ephemeral key and nonce drawn for it.\<close>

fun wrapAll :: "webcrypto \<Rightarrow> bytes \<Rightarrow> (bytes \<times> bytes \<times> bytes) list \<Rightarrow> seal_error + SealedRecipientJSON list" where
  "wrapAll cr cek [] = Inr []"
| "wrapAll cr cek ((pub, eph, nonce) # rest) =
     (case wrapCEK cr eph nonce cek \<lparr>ri_deviceId = DEVICE_ID_ZERO, ri_x25519Pub = pub\<rparr> of
        Inl e \<Rightarrow> Inl e
      | Inr r \<Rightarrow> (case wrapAll cr cek rest of Inl e \<Rightarrow> Inl e | Inr rs \<Rightarrow> Inr (recipientJSON r # rs)))"

definition sealToRecipients ::
    "webcrypto \<Rightarrow> bytes \<Rightarrow> bytes \<Rightarrow> bytes \<Rightarrow> (bytes \<times> bytes \<times> bytes) list \<Rightarrow> seal_error + SealedBlobJSON" where
  "sealToRecipients cr cek nonce plaintext recipients =
     (if recipients = [] then Inl NoRecipients
      else let box = aesGcmEncrypt cr cek nonce plaintext None in
        case wrapAll cr cek recipients of
          Inl e \<Rightarrow> Inl e
        | Inr rs \<Rightarrow> Inr \<lparr>blob_nonce = toBase64 (box_nonce box), blob_ciphertext = toBase64 (box_ciphertext box),
                        blob_tag = toBase64 (box_tag box), blob_recipients = rs\<rparr>)"

text \<open>One attempt of the opening loop; a value that is not base64 fails the attempt like any throw.\<close>

definition recordOf :: "SealedRecipientJSON \<Rightarrow> RecipientRecord option" where
  "recordOf r =
     (case (fromBase64 (recipient_xpub r), fromBase64 (ephemeral_xpub r), fromBase64 (wrapped_cek r),
            fromBase64 (cek_nonce r), fromBase64 (cek_tag r)) of
        (Some xp, Some ep, Some wc, Some cn, Some ct) \<Rightarrow>
          Some \<lparr>deviceId = [], recipientXPub = xp, ephemeralXPub = ep, wrappedCek = wc, cekNonce = cn,
                cekTag = ct, kdf = json_kdf r\<rparr>
      | _ \<Rightarrow> None)"

definition tryRecord :: "webcrypto \<Rightarrow> SealedBlobJSON \<Rightarrow> bytes \<Rightarrow> bytes \<Rightarrow> SealedRecipientJSON \<Rightarrow> bytes option" where
  "tryRecord cr blob x25519Derive x25519Pub r =
     (case recordOf r of
        None \<Rightarrow> None
      | Some rec \<Rightarrow>
          (case unwrapCEK cr rec x25519Derive x25519Pub of
             Inl _ \<Rightarrow> None
           | Inr cek \<Rightarrow>
               (case (fromBase64 (blob_nonce blob), fromBase64 (blob_ciphertext blob), fromBase64 (blob_tag blob)) of
                  (Some n, Some c, Some t) \<Rightarrow>
                    (case aesGcmDecrypt cr cek n c t None of Inl _ \<Rightarrow> None | Inr p \<Rightarrow> Some p)
                | _ \<Rightarrow> None)))"

fun firstOpen :: "('r \<Rightarrow> bytes option) \<Rightarrow> 'r list \<Rightarrow> seal_error + bytes" where
  "firstOpen try [] = Inl NoRecordOpened"
| "firstOpen try (r # rs) = (case try r of Some p \<Rightarrow> Inr p | None \<Rightarrow> firstOpen try rs)"

text \<open>
  \<open>openSealed\<close>. Its comparator is not a consistent order (it never looks at its second argument), so
  the language leaves the order of the sorted array to the implementation; the model takes that
  reordering as the argument \<open>order\<close>.
\<close>

definition openSealed ::
    "webcrypto \<Rightarrow> (SealedRecipientJSON list \<Rightarrow> SealedRecipientJSON list) \<Rightarrow> SealedBlobJSON \<Rightarrow> bytes \<Rightarrow> bytes
     \<Rightarrow> seal_error + bytes" where
  "openSealed cr order blob x25519Derive x25519Pub =
     firstOpen (tryRecord cr blob x25519Derive x25519Pub) (order (blob_recipients blob))"

lemma firstOpen_Inr:
  "firstOpen f rs = Inr p \<Longrightarrow> \<exists>r\<in>set rs. f r = Some p"
  by (induction rs) (auto split: option.splits)

lemma firstOpen_unique:
  "r \<in> set rs \<Longrightarrow> f r = Some p \<Longrightarrow> \<forall>q\<in>set rs. f q = None \<or> f q = Some p \<Longrightarrow> firstOpen f rs = Inr p"
  by (induction rs) (auto split: option.splits)

lemma firstOpen_none: "firstOpen f rs = Inl e \<longleftrightarrow> e = NoRecordOpened \<and> (\<forall>r\<in>set rs. f r = None)"
  by (induction rs) (auto split: option.splits)

lemma recordOf_recipientJSON:
  assumes "kdf r \<noteq> Some 0"
  shows "recordOf (recipientJSON r) = Some (r\<lparr>deviceId := []\<rparr>)"
proof -
  have "recordOf (recipientJSON r) =
      Some \<lparr>deviceId = [], recipientXPub = recipientXPub r, ephemeralXPub = ephemeralXPub r,
            wrappedCek = wrappedCek r, cekNonce = cekNonce r, cekTag = cekTag r, kdf = kdf r\<rparr>"
    using assms by (simp add: recordOf_def recipientJSON_def base64.decode_encode)
  then show ?thesis by (cases r) simp
qed

lemma wrapAll_record:
  "wrapAll cr cek rcs = Inr rs \<Longrightarrow> (pub, eph, nonce) \<in> set rcs \<Longrightarrow>
   \<exists>r. wrapCEK cr eph nonce cek \<lparr>ri_deviceId = DEVICE_ID_ZERO, ri_x25519Pub = pub\<rparr> = Inr r \<and> recipientJSON r \<in> set rs"
proof (induction rcs arbitrary: rs)
  case (Cons x rcs)
  obtain pub' eph' nonce' where x: "x = (pub', eph', nonce')" by (cases x) auto
  with Cons.prems(1) obtain r' rs' where
      r': "wrapCEK cr eph' nonce' cek \<lparr>ri_deviceId = DEVICE_ID_ZERO, ri_x25519Pub = pub'\<rparr> = Inr r'"
    and rs': "wrapAll cr cek rcs = Inr rs'" and rs: "rs = recipientJSON r' # rs'"
    by (auto split: sum.splits)
  from Cons.prems(2) x consider "pub = pub' \<and> eph = eph' \<and> nonce = nonce'" | "(pub, eph, nonce) \<in> set rcs"
    by auto
  then show ?case
  proof cases
    case 1
    with r' rs show ?thesis by auto
  next
    case 2
    with Cons.IH [OF rs'] rs show ?thesis by auto
  qed
qed simp

lemma wrapCEK_kdf: "wrapCEK cr eph nonce cek r = Inr rec \<Longrightarrow> kdf rec = Some PRODUCER_KDF"
  by (auto simp: wrapCEK_def Let_def split: option.splits sum.splits)

lemma unwrapCEK_irrelevant: "unwrapCEK cr (rec\<lparr>deviceId := d\<rparr>) k p = unwrapCEK cr rec k p"
  by (simp add: unwrapCEK_def cong: sum.case_cong option.case_cong)

lemma sealed_record_opens:
  assumes laws: "gcm_laws cr" "x25519_laws cr" "hkdf_laws cr"
    and len: "length cek = 32" "length nonce = 12" "length priv = 32"
    and "sealed": "sealToRecipients cr cek nonce plain rcs = Inr blob"
    and ours: "(x25519_public cr priv, eph, wn) \<in> set rcs" "length eph = 32" "length wn = 12"
  obtains r where "r \<in> set (blob_recipients blob)" and "tryRecord cr blob priv (x25519_public cr priv) r = Some plain"
proof -
  let ?box = "aesGcmEncrypt cr cek nonce plain None"
  obtain rs where rs: "wrapAll cr cek rcs = Inr rs" "blob_recipients blob = rs"
    and parts: "blob_nonce blob = toBase64 (box_nonce ?box)"
      "blob_ciphertext blob = toBase64 (box_ciphertext ?box)" "blob_tag blob = toBase64 (box_tag ?box)"
    using "sealed" by (auto simp: sealToRecipients_def Let_def split: if_splits sum.splits)
  obtain r where w: "wrapCEK cr eph wn cek \<lparr>ri_deviceId = DEVICE_ID_ZERO, ri_x25519Pub = x25519_public cr priv\<rparr> = Inr r"
    and rin: "recipientJSON r \<in> set rs"
    using wrapAll_record [OF rs(1) ours(1)] by blast
  have k: "kdf r = Some PRODUCER_KDF" using w by (rule wrapCEK_kdf)
  have "unwrapCEK cr r priv (x25519_public cr priv) = Inr cek"
    by (rule unwrap_wrap [OF laws ours(2) len(3) ours(3) _ w]) simp
  moreover have "recordOf (recipientJSON r) = Some (r\<lparr>deviceId := []\<rparr>)"
    using k by (intro recordOf_recipientJSON) (simp add: kdf_defs)
  ultimately have "tryRecord cr blob priv (x25519_public cr priv) (recipientJSON r) = Some plain"
    using aesGcm_roundtrip [OF laws(1) len(1,2)]
    by (simp add: tryRecord_def parts base64.decode_encode unwrapCEK_irrelevant)
  with rin rs(2) that show thesis by blast
qed

subsection \<open>A concrete instance\<close>

text \<open>
  A small executable instance of the parameter, used to show that the laws can hold together. It is
  no cipher; it only has the lengths and the round trips the laws ask for.
\<close>

definition pad32 :: "bytes \<Rightarrow> bytes" where
  "pad32 b = take 32 (b @ replicate 32 0)"

definition xor_bytes :: "bytes \<Rightarrow> bytes \<Rightarrow> bytes" where
  "xor_bytes a b = map2 (\<lambda>x y. x XOR y) a b"

definition demo_crypto :: webcrypto where
  "demo_crypto =
     \<lparr>gcm_encrypt = (\<lambda>k iv aad p. p @ replicate 16 0),
      gcm_decrypt = (\<lambda>k iv aad c. Some (take (length c - 16) c)),
      x25519_public = pad32,
      x25519_derive = (\<lambda>a b. Some (xor_bytes (pad32 a) (pad32 b))),
      hkdf_sha256 = (\<lambda>s info. pad32 s),
      digest_sha256 = (\<lambda>b. pad32 (word_of_nat (length b) # b)),
      ed25519_public = pad32,
      ed25519_sign = (\<lambda>s d. pad32 s @ pad32 d),
      ed25519_verify = (\<lambda>p d g. Some (g = pad32 p @ pad32 d))\<rparr>"

lemma length_pad32 [simp]: "length (pad32 b) = 32"
  by (simp add: pad32_def)

lemma pad32_idem [simp]: "pad32 (pad32 b) = pad32 b"
  using length_pad32 [of b] by (simp add: pad32_def [of "pad32 b"] del: length_pad32)

lemma xor_bytes_commute: "xor_bytes a b = xor_bytes b a"
proof (induction a arbitrary: b)
  case Nil
  then show ?case by (simp add: xor_bytes_def)
next
  case (Cons x xs)
  then show ?case by (cases b) (auto simp: xor_bytes_def xor.commute)
qed

lemma demo_gcm_laws: "gcm_laws demo_crypto"
  by (simp add: gcm_laws_def demo_crypto_def)

lemma demo_x25519_laws: "x25519_laws demo_crypto"
  by (simp add: x25519_laws_def demo_crypto_def xor_bytes_commute)

lemma demo_hkdf_laws: "hkdf_laws demo_crypto"
  by (simp add: hkdf_laws_def demo_crypto_def)

lemmas demo_laws = demo_gcm_laws demo_x25519_laws demo_hkdf_laws

lemma wrapAll_total:
  assumes "x25519_laws cr"
    and "\<forall>(pub, eph, wn)\<in>set rcs. length eph = 32 \<and> (\<exists>priv. length priv = 32 \<and> pub = x25519_public cr priv)"
  shows "\<exists>rs. wrapAll cr cek rcs = Inr rs"
  using assms(2)
proof (induction rcs)
  case (Cons x rcs)
  obtain pub eph wn where x: "x = (pub, eph, wn)" by (cases x) auto
  with Cons.prems obtain priv where "length eph = 32" "length priv = 32" "pub = x25519_public cr priv" by auto
  then obtain r where "wrapCEK cr eph wn cek \<lparr>ri_deviceId = DEVICE_ID_ZERO, ri_x25519Pub = pub\<rparr> = Inr r"
    using wrapCEK_total [OF assms(1), of eph priv] by fastforce
  moreover obtain rs where "wrapAll cr cek rcs = Inr rs" using Cons by auto
  ultimately show ?case using x by simp
qed simp

lemma sealToRecipients_total:
  assumes "x25519_laws cr" and "rcs \<noteq> []"
    and "\<forall>(pub, eph, wn)\<in>set rcs. length eph = 32 \<and> (\<exists>priv. length priv = 32 \<and> pub = x25519_public cr priv)"
  shows "\<exists>blob. sealToRecipients cr cek nonce plain rcs = Inr blob"
  using wrapAll_total [OF assms(1,3), of cek] assms(2) by (auto simp: sealToRecipients_def Let_def)

subsection \<open>Properties\<close>

text \<open>
  C26. A payload shorter than 4 GiB padded to the class \<open>selectSizeClass\<close> picks for it always fits
  that class, has exactly the class's length, and \<open>unpadPayload\<close> gives it back; the class is the
  least size on the ladder (the listed classes, then whole mebibytes) with room for the payload and
  its length prefix.
\<close>

theorem pad_to_class_roundtrip:
  assumes "length p < 2 ^ 32"
  shows "\<exists>b. padPayload p (selectSizeClass (length p)) = Inr b \<and> length b = selectSizeClass (length p)
             \<and> unpadPayload b = Inr p \<and> size_ladder (length b)
             \<and> (\<forall>c. size_ladder c \<longrightarrow> length p + 4 \<le> c \<longrightarrow> length b \<le> c)"
  using sized.pad_unpad [OF assms] size_class_on_ladder size_class_least by fastforce

theorem pad_to_class_roundtrip_witness:
  "\<exists>b. padPayload [1, 2, 3] (selectSizeClass (length ([1, 2, 3] :: bytes))) = Inr b \<and> unpadPayload b = Inr [1, 2, 3]"
  using pad_to_class_roundtrip [of "[1, 2, 3]"] by auto

text \<open>
  \<open>unpadPayload\<close> is total and never reads past the buffer: it either reports a buffer shorter
  than its prefix, or a prefix larger than the buffer (the prefix read as an unsigned 32-bit number,
  so the high bit never makes it negative), or returns exactly the prefixed number of bytes following
  the prefix.
\<close>

lemma unpad_exact:
  "case unpadPayload b of
     Inl e \<Rightarrow> (length b < 4 \<and> e = ShorterThanPrefix (length b)) \<or>
              (4 \<le> length b \<and> length b < readPrefix b + 4 \<and> e = PrefixExceedsBuffer (readPrefix b) (length b))
   | Inr p \<Rightarrow> 4 \<le> length b \<and> length p = readPrefix b \<and> readPrefix b < 2 ^ 32 \<and> (\<exists>rest. b = take 4 b @ p @ rest)"
proof -
  have lt: "readPrefix b < 2 ^ 32"
    unfolding readPrefix_def by (rule order_less_le_trans [OF unsigned_less]) simp
  show ?thesis
  proof (cases "length b < 4 \<or> length b < readPrefix b + 4")
    case True
    then show ?thesis by (auto simp: unpadPayload_def Let_def)
  next
    case False
    then have "b = take 4 b @ take (readPrefix b) (drop 4 b) @ drop (readPrefix b) (drop 4 b)"
      by (metis append_take_drop_id)
    moreover have "length (take (readPrefix b) (drop 4 b)) = readPrefix b" using False by auto
    ultimately show ?thesis using False lt by (auto simp: unpadPayload_def Let_def)
  qed
qed

text \<open>
  A CEK wrapped for a recipient is recovered by that recipient's private key, whatever the
  ephemeral key and nonce drawn for the wrap; the record states generation 2, and the derivation on
  the reader's side is bound to the reader's own public key.
\<close>

lemma wrap_unwrap_cek:
  assumes "gcm_laws cr" and "x25519_laws cr" and "hkdf_laws cr"
    and "length eph = 32" and "length priv = 32" and "length nonce = 12"
  shows "\<exists>rec. wrapCEK cr eph nonce cek \<lparr>ri_deviceId = d, ri_x25519Pub = x25519_public cr priv\<rparr> = Inr rec
             \<and> kdf rec = Some KDF_V2 \<and> unwrapCEK cr rec priv (x25519_public cr priv) = Inr cek"
proof -
  let ?r = "\<lparr>ri_deviceId = d, ri_x25519Pub = x25519_public cr priv\<rparr>"
  obtain rec where w: "wrapCEK cr eph nonce cek ?r = Inr rec"
    using wrapCEK_total [OF assms(2,4,5), of ?r] by auto
  moreover have "unwrapCEK cr rec priv (x25519_public cr priv) = Inr cek"
    by (rule unwrap_wrap [OF assms(1-6) _ w]) simp
  moreover have "kdf rec = Some KDF_V2" using wrapCEK_kdf [OF w] by (simp add: PRODUCER_KDF_def)
  ultimately show ?thesis by blast
qed

lemma wrap_unwrap_cek_witness:
  "\<exists>rec. wrapCEK demo_crypto (replicate 32 7) (replicate 12 9) [5, 6]
       \<lparr>ri_deviceId = [], ri_x25519Pub = x25519_public demo_crypto (replicate 32 3)\<rparr> = Inr rec
     \<and> unwrapCEK demo_crypto rec (replicate 32 3) (x25519_public demo_crypto (replicate 32 3)) = Inr [5, 6]"
  using wrap_unwrap_cek [OF demo_laws, of "replicate 32 7" "replicate 32 3" "replicate 12 9" "[5, 6]" "[]"] by auto

lemma open_sealed_lemma:
  assumes "gcm_laws cr" and "x25519_laws cr" and "hkdf_laws cr"
    and "length cek = 32" and "length nonce = 12" and "length priv = 32"
    and "sealToRecipients cr cek nonce plain rcs = Inr blob"
    and "(x25519_public cr priv, eph, wn) \<in> set rcs" and "length eph = 32" and "length wn = 12"
    and order: "mset (order (blob_recipients blob)) = mset (blob_recipients blob)"
    and authentic: "\<forall>r\<in>set (blob_recipients blob). \<forall>rec c. recordOf r = Some rec \<longrightarrow>
        unwrapCEK cr rec priv (x25519_public cr priv) = Inr c \<longrightarrow> c = cek"
  shows "openSealed cr order blob priv (x25519_public cr priv) = Inr plain"
proof -
  let ?attempt = "tryRecord cr blob priv (x25519_public cr priv)"
  obtain r where r: "r \<in> set (blob_recipients blob)" "?attempt r = Some plain"
    using sealed_record_opens [OF assms(1-10)] .
  have set: "set (order (blob_recipients blob)) = set (blob_recipients blob)"
    using order by (metis set_mset_mset)
  obtain n c t where blob: "fromBase64 (blob_nonce blob) = Some n" "fromBase64 (blob_ciphertext blob) = Some c"
      "fromBase64 (blob_tag blob) = Some t" and dec: "aesGcmDecrypt cr cek n c t None = Inr plain"
    using assms(7) aesGcm_roundtrip [OF assms(1,4,5)]
    by (auto simp: sealToRecipients_def Let_def base64.decode_encode split: if_splits sum.splits)
  have "?attempt q = None \<or> ?attempt q = Some plain" if "q \<in> set (blob_recipients blob)" for q
  proof (cases "recordOf q")
    case (Some rec)
    show ?thesis
    proof (cases "unwrapCEK cr rec priv (x25519_public cr priv)")
      case (Inr c')
      then have "c' = cek" using authentic that Some by blast
      with Some Inr blob dec show ?thesis by (simp add: tryRecord_def)
    qed (simp add: tryRecord_def Some)
  qed (simp add: tryRecord_def)
  then show ?thesis
    unfolding openSealed_def using r set by (intro firstOpen_unique) auto
qed

text \<open>
  A blob sealed to a list of recipients opens for each of them: whatever order the engine's sort
  leaves the records in, a recipient's private key gives the plaintext back, provided no record of
  the blob unwraps under that key to some other content key.
\<close>

lemma open_sealed_for_recipient:
  assumes "gcm_laws cr" and "x25519_laws cr" and "hkdf_laws cr"
    and "length cek = 32" and "length nonce = 12" and "length priv = 32"
    and "sealToRecipients cr cek nonce plain rcs = Inr blob"
    and "(x25519_public cr priv, eph, wn) \<in> set rcs" and "length eph = 32" and "length wn = 12"
    and order: "mset (order (blob_recipients blob)) = mset (blob_recipients blob)"
    and authentic: "\<forall>r\<in>set (blob_recipients blob). \<forall>rec c. recordOf r = Some rec \<longrightarrow>
        unwrapCEK cr rec priv (x25519_public cr priv) = Inr c \<longrightarrow> c = cek"
  shows "openSealed cr order blob priv (x25519_public cr priv) = Inr plain"
  using assms by (rule open_sealed_lemma)

end
