(* ===== verification/Protobuf.thy ===== *)
theory Protobuf
  imports Seal
begin

section \<open>Canonical messages and signing contexts\<close>

text \<open>
  The part of \<open>lib/crypto/protobuf.ts\<close> that decides WHICH message is encoded: \<open>canonical\<close>,
  \<open>decoded\<close>, \<open>pickOwn\<close> and the encoders built on them, together with the domain-separation contexts
  of \<open>lib/crypto/identity.ts\<close>. The generated codec that turns a message object into bytes is a
  parameter, a function from the message type's name and the object to the bytes.

  A JavaScript value is a \<open>jsval\<close>. Objects keep their properties in order. A decoded protobuf message
  (\<open>JMsg\<close>, with the bytes it was decoded from) and a 64-bit \<open>Long\<close> (\<open>JLong\<close>) are kept apart,
  because \<open>canonical\<close> passes both through untouched.
\<close>

datatype jsval =
    JUndef
  | JNull
  | JNum int
  | JBool bool
  | JStr string
  | JBytes bytes
  | JArr "jsval list"
  | JObj "(string \<times> jsval) list"
  | JMsg bytes
  | JLong int

definition is_decoded :: "jsval \<Rightarrow> bool" where
  "is_decoded v = (case v of JMsg _ \<Rightarrow> True | JLong _ \<Rightarrow> True | _ \<Rightarrow> False)"

text \<open>The values \<open>canonical\<close> leaves out of an object: what Go's marshaling omits.\<close>

definition is_default :: "jsval \<Rightarrow> bool" where
  "is_default v = (case v of
      JUndef \<Rightarrow> True | JNull \<Rightarrow> True | JNum n \<Rightarrow> n = 0 | JStr s \<Rightarrow> s = [] | JBool b \<Rightarrow> \<not> b
    | JBytes b \<Rightarrow> b = [] | JArr a \<Rightarrow> a = [] | _ \<Rightarrow> False)"

fun canonical :: "jsval \<Rightarrow> jsval" where
  "canonical (JArr vs) = JArr (map canonical vs)"
| "canonical (JObj kvs) = JObj (map (\<lambda>kv. (fst kv, canonical (snd kv))) (filter (\<lambda>kv. \<not> is_default (snd kv)) kvs))"
| "canonical v = v"

definition pickOwn :: "(string \<times> jsval) list \<Rightarrow> string list \<Rightarrow> (string \<times> jsval) list" where
  "pickOwn src names = List.map_filter (\<lambda>f. map_option (Pair f) (map_of src f)) names"

text \<open>The spread \<open>{ ...o, k: v }\<close> with a key the object already has or a new one.\<close>

definition with_field :: "string \<Rightarrow> jsval \<Rightarrow> (string \<times> jsval) list \<Rightarrow> (string \<times> jsval) list" where
  "with_field k v o' = AList.update k v o'"

type_synonym codec = "string \<Rightarrow> jsval \<Rightarrow> bytes"

text \<open>Different canonical messages of one type have different wire bytes.\<close>

definition codec_inj :: "codec \<Rightarrow> bool" where
  "codec_inj enc \<longleftrightarrow> (\<forall>T a b. enc T (canonical a) = enc T (canonical b) \<longrightarrow> canonical a = canonical b)"

lemma is_default_canonical [simp]: "is_default (canonical v) = is_default v"
  by (cases v) (auto simp: is_default_def)

lemma canonical_idem: "canonical (canonical v) = canonical v"
proof (induction v rule: canonical.induct)
  case (2 kvs)
  have "filter (\<lambda>kv. \<not> is_default (snd kv))
      (map (\<lambda>kv. (fst kv, canonical (snd kv))) (filter (\<lambda>kv. \<not> is_default (snd kv)) kvs))
    = map (\<lambda>kv. (fst kv, canonical (snd kv))) (filter (\<lambda>kv. \<not> is_default (snd kv)) kvs)"
    by (simp add: filter_map o_def)
  with 2 show ?case by simp
qed simp_all

text \<open>No object of a canonical message holds a default, at any depth.\<close>

fun default_free :: "jsval \<Rightarrow> bool" where
  "default_free (JArr vs) = (\<forall>v\<in>set vs. default_free v)"
| "default_free (JObj kvs) = (\<forall>kv\<in>set kvs. \<not> is_default (snd kv) \<and> default_free (snd kv))"
| "default_free v = True"

lemma default_free_canonical: "default_free (canonical v)"
  by (induction v rule: canonical.induct) auto

lemma canonical_decoded: "is_decoded v \<Longrightarrow> canonical v = v"
  by (cases v) (auto simp: is_decoded_def)

lemma pickOwn_fst: "map fst (pickOwn src names) = filter (\<lambda>f. f \<in> fst ` set src) names"
  by (induction names)
    (auto simp: pickOwn_def List.map_filter_simps map_of_eq_None_iff dest: map_of_SomeD intro: rev_image_eqI split: option.splits)

lemma pickOwn_only_named: "map_of (pickOwn src names) f = (if f \<in> set names then map_of src f else None)"
  by (induction names) (auto simp: pickOwn_def List.map_filter_simps split: option.splits)

text \<open>What reading a property of the canonical object gives, from the object it was made of.\<close>

definition strip :: "jsval option \<Rightarrow> jsval option" where
  "strip o' = (case o' of None \<Rightarrow> None | Some v \<Rightarrow> if is_default v then None else Some (canonical v))"

lemma map_of_canonical:
  "distinct (map fst kvs) \<Longrightarrow>
   map_of (map (\<lambda>kv. (fst kv, canonical (snd kv))) (filter (\<lambda>kv. \<not> is_default (snd kv)) kvs)) k = strip (map_of kvs k)"
proof (induction kvs)
  case (Cons kv kvs)
  then have "k = fst kv \<Longrightarrow> map_of kvs k = None"
    by (auto simp: map_of_eq_None_iff)
  with Cons show ?case by (auto simp: strip_def)
qed (simp add: strip_def)

lemma canonical_obj_eqD:
  "canonical (JObj a) = canonical (JObj b) \<Longrightarrow> distinct (map fst a) \<Longrightarrow> distinct (map fst b) \<Longrightarrow>
   strip (map_of a k) = strip (map_of b k)"
  using map_of_canonical [of a k] map_of_canonical [of b k] by simp

text \<open>A canonical object is determined by its key order and by what each key reads.\<close>

lemma canonical_obj_eqI:
  assumes "map fst a = map fst b" "distinct (map fst a)"
    and "\<And>k. k \<in> fst ` set a \<Longrightarrow> strip (map_of a k) = strip (map_of b k)"
  shows "canonical (JObj a) = canonical (JObj b)"
  using assms
proof (induction a arbitrary: b)
  case (Cons x a)
  then obtain y b' where b: "b = y # b'" "fst x = fst y" "map fst a = map fst b'" by (cases b) auto
  have tail: "canonical (JObj a) = canonical (JObj b')"
  proof (rule Cons.IH [OF b(3)])
    show "distinct (map fst a)" using Cons.prems(2) by simp
    fix k assume k: "k \<in> fst ` set a"
    then have "k \<noteq> fst x" using Cons.prems(2) by (metis distinct.simps(2) list.simps(9) list.set_map)
    then show "strip (map_of a k) = strip (map_of b' k)"
      using Cons.prems(3) [of k] k b by (auto simp: image_iff)
  qed
  have "strip (Some (snd x)) = strip (Some (snd y))"
    using Cons.prems(3) [of "fst x"] b by simp
  with tail b show ?case by (auto simp: strip_def split: if_splits)
qed simp

subsection \<open>Rotation entries\<close>

text \<open>A decoded credential, of which the client reads only \<open>subject\<close>, and the message it was decoded from.\<close>

record Credential =
  subject :: "bytes option"
  cred_msg :: bytes

text \<open>
  \<open>RotationEntryWire\<close>. A byte field that is absent is \<open>None\<close>; \<open>Number(..)\<close> of an absent number is 0.
\<close>

record RotationEntryWire =
  re_version :: nat
  re_address :: string
  retiredEd25519PublicKey :: "bytes option"
  retiredX25519PublicKey :: "bytes option"
  nextEd25519PublicKey :: "bytes option"
  nextX25519PublicKey :: "bytes option"
  rotatedAt :: nat
  nextRevision :: nat
  prevSignatureHash :: "bytes option"
  authorizingEd25519PublicKey :: "bytes option"
  deviceCredential :: "Credential option"
  deviceSignature :: "bytes option"
  signature :: "bytes option"
  nextSignature :: "bytes option"

definition js_bytes :: "bytes option \<Rightarrow> jsval" where
  "js_bytes b = (case b of None \<Rightarrow> JUndef | Some v \<Rightarrow> JBytes v)"

definition js_msg :: "Credential option \<Rightarrow> jsval" where
  "js_msg c = (case c of None \<Rightarrow> JUndef | Some v \<Rightarrow> JMsg (cred_msg v))"

definition entryObj :: "RotationEntryWire \<Rightarrow> (string \<times> jsval) list" where
  "entryObj e =
    [(''version'', JNum (int (re_version e))),
     (''address'', JStr (re_address e)),
     (''retiredEd25519PublicKey'', js_bytes (retiredEd25519PublicKey e)),
     (''retiredX25519PublicKey'', js_bytes (retiredX25519PublicKey e)),
     (''nextEd25519PublicKey'', js_bytes (nextEd25519PublicKey e)),
     (''nextX25519PublicKey'', js_bytes (nextX25519PublicKey e)),
     (''rotatedAt'', JNum (int (rotatedAt e))),
     (''nextRevision'', JNum (int (nextRevision e))),
     (''prevSignatureHash'', js_bytes (prevSignatureHash e)),
     (''authorizingEd25519PublicKey'', js_bytes (authorizingEd25519PublicKey e)),
     (''deviceCredential'', js_msg (deviceCredential e)),
     (''deviceSignature'', js_bytes (deviceSignature e)),
     (''signature'', js_bytes (signature e)),
     (''nextSignature'', js_bytes (nextSignature e))]"

definition encodeRotationDeviceBytes :: "codec \<Rightarrow> RotationEntryWire \<Rightarrow> bytes" where
  "encodeRotationDeviceBytes enc e = enc ''dmcn.identity.RotationEntry'' (canonical (JObj
     (with_field ''nextSignature'' JUndef (with_field ''signature'' JUndef
        (with_field ''deviceSignature'' JUndef (entryObj e))))))"

definition encodeRotationConsentBytes :: "codec \<Rightarrow> RotationEntryWire \<Rightarrow> bytes" where
  "encodeRotationConsentBytes enc e = enc ''dmcn.identity.RotationEntry'' (canonical (JObj
     (with_field ''nextSignature'' JUndef (with_field ''signature'' JUndef (entryObj e)))))"

definition encodeRotationAcceptBytes :: "codec \<Rightarrow> RotationEntryWire \<Rightarrow> bytes" where
  "encodeRotationAcceptBytes enc e = enc ''dmcn.identity.RotationEntry'' (canonical (JObj
     (with_field ''nextSignature'' JUndef (entryObj e))))"

text \<open>The encoders clear fields of the record, whatever the order the properties are spread in.\<close>

lemma with_field_entryObj:
  "with_field ''nextSignature'' JUndef (entryObj e) = entryObj (e\<lparr>nextSignature := None\<rparr>)"
  "with_field ''signature'' JUndef (entryObj e) = entryObj (e\<lparr>signature := None\<rparr>)"
  "with_field ''deviceSignature'' JUndef (entryObj e) = entryObj (e\<lparr>deviceSignature := None\<rparr>)"
  by (simp_all add: with_field_def entryObj_def js_bytes_def)

lemma distinct_entryObj: "distinct (map fst (entryObj e))"
  by (simp add: entryObj_def)

text \<open>Two entries that differ in nothing a canonical encoding can show: an empty byte string is an absent one.\<close>

definition opt_bytes :: "bytes option \<Rightarrow> bytes" where
  "opt_bytes b = (case b of None \<Rightarrow> [] | Some v \<Rightarrow> v)"

definition same_entry :: "RotationEntryWire \<Rightarrow> RotationEntryWire \<Rightarrow> bool" where
  "same_entry e f \<longleftrightarrow>
     re_version e = re_version f \<and> re_address e = re_address f \<and>
     opt_bytes (retiredEd25519PublicKey e) = opt_bytes (retiredEd25519PublicKey f) \<and>
     opt_bytes (retiredX25519PublicKey e) = opt_bytes (retiredX25519PublicKey f) \<and>
     opt_bytes (nextEd25519PublicKey e) = opt_bytes (nextEd25519PublicKey f) \<and>
     opt_bytes (nextX25519PublicKey e) = opt_bytes (nextX25519PublicKey f) \<and>
     rotatedAt e = rotatedAt f \<and> nextRevision e = nextRevision f \<and>
     opt_bytes (prevSignatureHash e) = opt_bytes (prevSignatureHash f) \<and>
     opt_bytes (authorizingEd25519PublicKey e) = opt_bytes (authorizingEd25519PublicKey f) \<and>
     map_option cred_msg (deviceCredential e) = map_option cred_msg (deviceCredential f) \<and>
     opt_bytes (deviceSignature e) = opt_bytes (deviceSignature f) \<and>
     opt_bytes (signature e) = opt_bytes (signature f) \<and>
     opt_bytes (nextSignature e) = opt_bytes (nextSignature f)"

lemma strip_num [simp]: "strip (Some (JNum (int a))) = strip (Some (JNum (int b))) \<longleftrightarrow> a = b"
  by (auto simp: strip_def is_default_def)

lemma strip_str [simp]: "strip (Some (JStr a)) = strip (Some (JStr b)) \<longleftrightarrow> a = b"
  by (auto simp: strip_def is_default_def)

lemma strip_bytes [simp]: "strip (Some (js_bytes a)) = strip (Some (js_bytes b)) \<longleftrightarrow> opt_bytes a = opt_bytes b"
  by (auto simp: strip_def is_default_def js_bytes_def opt_bytes_def split: option.splits)

lemma strip_msg [simp]:
  "strip (Some (js_msg a)) = strip (Some (js_msg b)) \<longleftrightarrow> map_option cred_msg a = map_option cred_msg b"
  by (auto simp: strip_def is_default_def js_msg_def split: option.splits)

lemma canonical_entry_iff: "canonical (JObj (entryObj e)) = canonical (JObj (entryObj f)) \<longleftrightarrow> same_entry e f"
proof
  assume eq: "canonical (JObj (entryObj e)) = canonical (JObj (entryObj f))"
  have k: "strip (map_of (entryObj e) k) = strip (map_of (entryObj f) k)" for k
    using canonical_obj_eqD [OF eq distinct_entryObj distinct_entryObj] .
  show "same_entry e f"
    unfolding same_entry_def
    using k [of "''version''"] k [of "''address''"] k [of "''retiredEd25519PublicKey''"]
      k [of "''retiredX25519PublicKey''"] k [of "''nextEd25519PublicKey''"] k [of "''nextX25519PublicKey''"]
      k [of "''rotatedAt''"] k [of "''nextRevision''"] k [of "''prevSignatureHash''"]
      k [of "''authorizingEd25519PublicKey''"] k [of "''deviceCredential''"] k [of "''deviceSignature''"]
      k [of "''signature''"] k [of "''nextSignature''"]
    by (simp add: entryObj_def)
next
  assume "same_entry e f"
  then show "canonical (JObj (entryObj e)) = canonical (JObj (entryObj f))"
    by (intro canonical_obj_eqI distinct_entryObj) (auto simp: entryObj_def same_entry_def)
qed

lemma codec_inj_entry:
  "codec_inj enc \<Longrightarrow> enc T (canonical (JObj (entryObj e))) = enc T (canonical (JObj (entryObj f))) \<longleftrightarrow> same_entry e f"
  using canonical_entry_iff by (metis codec_inj_def)

lemmas rotation_bytes_defs = encodeRotationDeviceBytes_def encodeRotationConsentBytes_def
  encodeRotationAcceptBytes_def with_field_entryObj

subsection \<open>Signing contexts\<close>

definition ID_SELF_CTX :: bytes where "ID_SELF_CTX = ctx_tag ''dmcn-identity-self-v1''"
definition ADDRESS_REMOVAL_CTX :: bytes where "ADDRESS_REMOVAL_CTX = ctx_tag ''dmcn-address-removal-v1''"
definition ROTATION_CTX :: bytes where "ROTATION_CTX = ctx_tag ''dmcn-identity-rotation-v1''"
definition ROTATION_ACCEPT_CTX :: bytes where "ROTATION_ACCEPT_CTX = ctx_tag ''dmcn-identity-rotation-accept-v1''"
definition ROTATION_DEVICE_CTX :: bytes where "ROTATION_DEVICE_CTX = ctx_tag ''dmcn-identity-rotation-device-v1''"
definition CTX_MSG_HEADER :: bytes where "CTX_MSG_HEADER = ctx_tag ''dmcn-msg-header-v1''"

definition signing_contexts :: "bytes list" where
  "signing_contexts =
     [ID_SELF_CTX, ADDRESS_REMOVAL_CTX, ROTATION_CTX, ROTATION_ACCEPT_CTX, ROTATION_DEVICE_CTX, CTX_MSG_HEADER]"

lemmas ctx_defs = ID_SELF_CTX_def ADDRESS_REMOVAL_CTX_def ROTATION_CTX_def ROTATION_ACCEPT_CTX_def
  ROTATION_DEVICE_CTX_def CTX_MSG_HEADER_def

definition removalSigningBytes :: "bytes \<Rightarrow> bytes" where
  "removalSigningBytes signable = ADDRESS_REMOVAL_CTX @ signable"

definition signSelfSignature :: "webcrypto \<Rightarrow> bytes \<Rightarrow> bytes \<Rightarrow> bytes" where
  "signSelfSignature cr seed signable = ed25519_sign cr seed (ID_SELF_CTX @ signable)"

text \<open>\<open>verifySelfSignature\<close> may throw, as \<open>verify\<close> does on a key the platform refuses: \<open>None\<close>.\<close>

definition verifySelfSignature :: "webcrypto \<Rightarrow> bytes option \<Rightarrow> bytes \<Rightarrow> bytes option \<Rightarrow> bool option" where
  "verifySelfSignature cr pub signable sig =
     (case (pub, sig) of
        (Some p, Some g) \<Rightarrow>
          if length p \<noteq> 32 \<or> length g \<noteq> 64 then Some False
          else ed25519_verify cr p (ID_SELF_CTX @ signable) g
      | _ \<Rightarrow> Some False)"

text \<open>Ed25519 as the client relies on it: 32-byte keys, 64-byte signatures, and its own signatures verify.\<close>

definition ed25519_laws :: "webcrypto \<Rightarrow> bool" where
  "ed25519_laws cr \<longleftrightarrow>
     (\<forall>seed d. length seed = 32 \<longrightarrow>
        length (ed25519_public cr seed) = 32 \<and> length (ed25519_sign cr seed d) = 64 \<and>
        ed25519_verify cr (ed25519_public cr seed) d (ed25519_sign cr seed d) = Some True)"

lemma demo_ed25519_laws: "ed25519_laws demo_crypto"
  by (simp add: ed25519_laws_def demo_crypto_def)

text \<open>A tag is its literal's bytes, none of them zero, and one NUL; so no tag is a prefix of another.\<close>

lemma nul_prefix_unique:
  "a @ (0::byte) # x = b @ 0 # y \<Longrightarrow> 0 \<notin> set a \<Longrightarrow> 0 \<notin> set b \<Longrightarrow> a = b"
proof (induction a arbitrary: b)
  case Nil
  then show ?case by (cases b) auto
next
  case (Cons c a)
  then show ?case by (cases b) auto
qed

lemma signing_contexts_nul_free:
  "c \<in> set signing_contexts \<Longrightarrow> \<exists>a. c = a @ [0] \<and> 0 \<notin> set a"
  by (auto simp: signing_contexts_def ctx_defs ctx_tag_def ascii_def)

lemma distinct_signing_contexts: "distinct signing_contexts"
  by (simp add: signing_contexts_def ctx_defs ctx_tag_def ascii_def)

lemma signing_contexts_separate:
  "c \<in> set signing_contexts \<Longrightarrow> d \<in> set signing_contexts \<Longrightarrow> c @ x = d @ y \<Longrightarrow> c = d \<and> x = y"
proof -
  assume c: "c \<in> set signing_contexts" and d: "d \<in> set signing_contexts" and eq: "c @ x = d @ y"
  obtain a b where ab: "c = a @ [0]" "0 \<notin> set a" "d = b @ [0]" "0 \<notin> set b"
    using signing_contexts_nul_free [OF c] signing_contexts_nul_free [OF d] by blast
  then have "a = b" using nul_prefix_unique [of a x b y] eq by simp
  then show ?thesis using ab eq by simp
qed

subsection \<open>Identity and removal records\<close>

definition IDENTITY_SIGNED_FIELDS :: "string list" where
  "IDENTITY_SIGNED_FIELDS =
    [''version'', ''address'', ''ed25519PublicKey'', ''x25519PublicKey'', ''createdAt'', ''expiresAt'',
     ''verificationTier'', ''requireOnion'', ''revision'', ''rotationChain'', ''recoveryEd25519PublicKey'',
     ''forwardTo'']"

definition encodeIdentityRecord :: "codec \<Rightarrow> (string \<times> jsval) list \<Rightarrow> bytes" where
  "encodeIdentityRecord enc rec = enc ''dmcn.identity.IdentityRecord'' (canonical (JObj rec))"

definition encodeIdentitySignableBytes :: "codec \<Rightarrow> (string \<times> jsval) list \<Rightarrow> bytes" where
  "encodeIdentitySignableBytes enc rec =
     enc ''dmcn.identity.IdentityRecord'' (canonical (JObj (pickOwn rec IDENTITY_SIGNED_FIELDS)))"

record RemovedBinding =
  rb_ed25519PublicKey :: bytes
  rb_removedAt :: nat

record RemovalRecordFields =
  rm_version :: nat
  rm_domain :: string
  rm_address :: string
  removedBindings :: "RemovedBinding list"
  rm_revision :: nat
  rm_createdAt :: nat

definition removalObj :: "RemovalRecordFields \<Rightarrow> (string \<times> jsval) list" where
  "removalObj rm =
    [(''version'', JNum (int (rm_version rm))),
     (''domain'', JStr (rm_domain rm)),
     (''address'', JStr (rm_address rm)),
     (''removedBindings'', JArr (map (\<lambda>b. JObj
        [(''ed25519PublicKey'', JBytes (rb_ed25519PublicKey b)), (''removedAt'', JNum (int (rb_removedAt b)))])
        (removedBindings rm))),
     (''revision'', JNum (int (rm_revision rm))),
     (''createdAt'', JNum (int (rm_createdAt rm)))]"

definition encodeRemovalSignableBytes :: "codec \<Rightarrow> RemovalRecordFields \<Rightarrow> bytes" where
  "encodeRemovalSignableBytes enc rm =
     enc ''dmcn.identity.AddressRemovalRecord'' (canonical (JObj (with_field ''selfSignature'' JUndef (removalObj rm))))"

definition encodeRemovalRecord :: "codec \<Rightarrow> RemovalRecordFields \<Rightarrow> bytes \<Rightarrow> bytes" where
  "encodeRemovalRecord enc rm sig =
     enc ''dmcn.identity.AddressRemovalRecord'' (canonical (JObj (with_field ''selfSignature'' (JBytes sig) (removalObj rm))))"

lemma distinct_pickOwn: "distinct names \<Longrightarrow> distinct (map fst (pickOwn src names))"
  by (simp add: pickOwn_fst)

lemma distinct_signed_fields: "distinct IDENTITY_SIGNED_FIELDS"
  by (simp add: IDENTITY_SIGNED_FIELDS_def)

lemma strip_pickOwn:
  "strip (map_of (pickOwn src names) k) = (if k \<in> set names then strip (map_of src k) else None)"
  by (simp add: pickOwn_only_named strip_def)

lemma canonical_pickOwn_cong:
  assumes "\<forall>k\<in>set names. strip (map_of a k) = strip (map_of b k)"
  shows "canonical (JObj (pickOwn a names)) = canonical (JObj (pickOwn b names))"
  using assms
proof (induction names)
  case (Cons k names)
  have "strip (map_of a k) = strip (map_of b k)" using Cons.prems by simp
  with Cons show ?case
    by (auto simp: pickOwn_def List.map_filter_simps strip_def split: option.splits if_splits)
qed (simp add: pickOwn_def List.map_filter_simps)

subsection \<open>A concrete codec\<close>

text \<open>
  A length-prefixed serialisation of \<open>jsval\<close>, which is injective: it shows that the assumption on the
  generated codec can hold, and it is what the witnesses encode with.
\<close>

definition ser_nat :: "nat \<Rightarrow> bytes" where
  "ser_nat n = replicate n 1 @ [0]"

definition ser_int :: "int \<Rightarrow> bytes" where
  "ser_int i = (if i < 0 then 1 else 0) # ser_nat (nat \<bar>i\<bar>)"

definition ser_bytes :: "bytes \<Rightarrow> bytes" where
  "ser_bytes b = ser_nat (length b) @ b"

fun ser :: "jsval \<Rightarrow> bytes" where
  "ser JUndef = [0]"
| "ser JNull = [1]"
| "ser (JNum i) = 2 # ser_int i"
| "ser (JBool b) = [3, if b then 1 else 0]"
| "ser (JStr s) = 4 # ser_bytes (ascii s)"
| "ser (JBytes b) = 5 # ser_bytes b"
| "ser (JArr vs) = 6 # ser_nat (length vs) @ concat (map ser vs)"
| "ser (JObj kvs) = 7 # ser_nat (length kvs) @ concat (map (\<lambda>kv. ser_bytes (ascii (fst kv)) @ ser (snd kv)) kvs)"
| "ser (JMsg b) = 8 # ser_bytes b"
| "ser (JLong i) = 9 # ser_int i"

definition demo_codec :: codec where
  "demo_codec T v = ser v"

lemma ser_nat_prefix: "ser_nat m @ x = ser_nat n @ y \<longleftrightarrow> m = n \<and> x = y"
proof (induction m arbitrary: n)
  case 0
  then show ?case by (cases n) (auto simp: ser_nat_def)
next
  case (Suc m)
  show ?case
  proof (cases n)
    case 0
    then show ?thesis by (auto simp: ser_nat_def)
  next
    case (Suc k)
    then show ?thesis using Suc.IH [of k] by (auto simp: ser_nat_def)
  qed
qed

lemma ser_int_prefix: "ser_int i @ x = ser_int j @ y \<longleftrightarrow> i = j \<and> x = y"
  by (auto simp: ser_int_def ser_nat_prefix split: if_splits)

lemma ser_bytes_prefix: "ser_bytes a @ x = ser_bytes b @ y \<longleftrightarrow> a = b \<and> x = y"
  by (auto simp: ser_bytes_def ser_nat_prefix)

lemma ascii_eq [simp]: "ascii s = ascii t \<longleftrightarrow> s = t"
  using ascii_inj by blast

lemma concat_prefix:
  assumes "\<And>a b x y. a \<in> set as \<Longrightarrow> g a @ x = g b @ y \<longleftrightarrow> a = b \<and> x = y" and "length as = length bs"
  shows "concat (map g as) @ x = concat (map g bs) @ y \<longleftrightarrow> as = bs \<and> x = y"
  using assms(2,1) by (induction as bs rule: list_induct2) auto

lemma ser_prefix: "ser v @ x = ser w @ y \<longleftrightarrow> v = w \<and> x = y"
proof (induction v arbitrary: w x y)
  case (JArr vs)
  then have "length vs = length ws \<Longrightarrow> concat (map ser vs) @ x = concat (map ser ws) @ y \<longleftrightarrow> vs = ws \<and> x = y" for ws
    by (intro concat_prefix) auto
  then show ?case by (cases w) (auto simp: ser_nat_prefix)
next
  case (JObj kvs)
  let ?g = "\<lambda>kv. ser_bytes (ascii (fst kv)) @ ser (snd kv)"
  have "a \<in> set kvs \<Longrightarrow> ?g a @ x = ?g b @ y \<longleftrightarrow> a = b \<and> x = y" for a b x y
    using JObj [of a "snd a"] by (cases a; cases b) (auto simp: ser_bytes_prefix)
  then have "length kvs = length ws \<Longrightarrow> concat (map ?g kvs) @ x = concat (map ?g ws) @ y \<longleftrightarrow> kvs = ws \<and> x = y" for ws
    by (intro concat_prefix) auto
  then show ?case by (cases w) (auto simp: ser_nat_prefix)
qed (case_tac [!] w, auto simp: ser_int_prefix ser_bytes_prefix)

definition demo_entry :: RotationEntryWire where
  "demo_entry = \<lparr>re_version = 1, re_address = ''a@b'', retiredEd25519PublicKey = Some [1],
     retiredX25519PublicKey = Some [2], nextEd25519PublicKey = Some [3], nextX25519PublicKey = Some [4],
     rotatedAt = 5, nextRevision = 6, prevSignatureHash = None, authorizingEd25519PublicKey = Some [1],
     deviceCredential = None, deviceSignature = None, signature = Some [7], nextSignature = None\<rparr>"

lemma demo_codec_inj: "codec_inj demo_codec"
  using ser_prefix [where x = "[]" and y = "[]"] by (simp add: codec_inj_def demo_codec_def)

subsection \<open>Properties\<close>

text \<open>
  Domain separation. The bytes signed under one of the client's Ed25519 contexts (identity
  self-signature, address removal, rotation consent, rotation acceptance, rotation device attestation,
  message header) are never the bytes signed under another, whatever is signed; and within one
  context they determine what is signed.
\<close>

lemma signing_domains_separate:
  assumes "c \<in> set signing_contexts" and "d \<in> set signing_contexts"
  shows "c @ x = d @ y \<longleftrightarrow> c = d \<and> x = y"
  using signing_contexts_separate [OF assms] by auto

text \<open>
  The three signatures of a rotation entry nest. Two entries with the same acceptance bytes have
  the same consent bytes and the same consent signature, and two with the same consent bytes have the
  same device bytes and the same device signature; and the acceptance bytes agree exactly when the
  entries agree in every field but the acceptance signature. So no signature can be lifted onto
  another handover.
\<close>

lemma rotation_signatures_nest:
  assumes "codec_inj enc"
  shows "(encodeRotationAcceptBytes enc e = encodeRotationAcceptBytes enc f
            \<longleftrightarrow> same_entry (e\<lparr>nextSignature := None\<rparr>) (f\<lparr>nextSignature := None\<rparr>))
       \<and> (encodeRotationAcceptBytes enc e = encodeRotationAcceptBytes enc f
            \<longleftrightarrow> encodeRotationConsentBytes enc e = encodeRotationConsentBytes enc f
                \<and> opt_bytes (signature e) = opt_bytes (signature f))
       \<and> (encodeRotationConsentBytes enc e = encodeRotationConsentBytes enc f
            \<longleftrightarrow> encodeRotationDeviceBytes enc e = encodeRotationDeviceBytes enc f
                \<and> opt_bytes (deviceSignature e) = opt_bytes (deviceSignature f))"
  unfolding rotation_bytes_defs codec_inj_entry [OF assms] by (auto simp: same_entry_def)



end
