(* ===== verification/Rotation_Verify.thy ===== *)
theory Rotation_Verify
  imports Protobuf
begin

section \<open>Verifying rotation chains\<close>

text \<open>
  \<open>lib/crypto/verifyRotation.ts\<close>: the checks of one rotation entry, of the links of a chain, of the
  chain an identity record carries and of a complete address history. The functions of the source
  return an empty string or a message; here they return \<open>None\<close> or a value of an error type with one
  constructor per message. The platform's Ed25519 and SHA-256 come from the \<open>webcrypto\<close> record, the
  generated codec is the parameter \<open>enc\<close>.
\<close>

datatype entry_error =
    VersionUnset
  | NoAddress
  | WrongKeySize string
  | SameKeys
  | SameMailboxKeys
  | RotatedAtUnset
  | NextRevisionUnset
  | PrevHashSize
  | NoConsent
  | DeviceNotAttested
  | DeviceSignatureWithoutCredential
  | NotAccepted

datatype chain_error =
    BadEntry nat entry_error
  | OtherAddress nat
  | NotHandedOver nat
  | NotChained nat
  | NotAfterInTime nat
  | RevisionNotAdvanced nat
  | TooManyEntries
  | TerminalOtherKey
  | TerminalOtherRevision
  | HistoryOtherAddress
  | HistoryNotFromFirst

definition MAX_ROTATION_CHAIN :: nat where "MAX_ROTATION_CHAIN = 8"

definition ED25519_SIZE :: nat where "ED25519_SIZE = 32"

definition opt_length :: "bytes option \<Rightarrow> nat" where
  "opt_length b = (case b of None \<Rightarrow> 0 | Some v \<Rightarrow> length v)"

definition sameBytes :: "bytes option \<Rightarrow> bytes option \<Rightarrow> bool" where
  "sameBytes a b = (case (a, b) of
      (Some x, Some y) \<Rightarrow> length x = length y \<and> sameFrom (length x) x y
    | _ \<Rightarrow> False)"

definition sha256 :: "webcrypto \<Rightarrow> bytes option \<Rightarrow> bytes" where
  "sha256 cr data = digest_sha256 cr (opt_bytes data)"

definition chainTruncated :: "RotationEntryWire list \<Rightarrow> bool" where
  "chainTruncated chain = (case chain of [] \<Rightarrow> False | e # _ \<Rightarrow> 0 < opt_length (prevSignatureHash e))"

definition verifyCtx :: "webcrypto \<Rightarrow> bytes option \<Rightarrow> bytes \<Rightarrow> bytes \<Rightarrow> bytes option \<Rightarrow> bool" where
  "verifyCtx cr pub ctx body sig =
     (if opt_length pub = 0 \<or> opt_length sig = 0 then False
      else (case ed25519_verify cr (opt_bytes pub) (ctx @ body) (opt_bytes sig) of
              None \<Rightarrow> False
            | Some ok \<Rightarrow> ok))"

definition verifyRotationEntry :: "webcrypto \<Rightarrow> codec \<Rightarrow> RotationEntryWire \<Rightarrow> entry_error option" where
  "verifyRotationEntry cr enc e =
     (if re_version e = 0 then Some VersionUnset
      else if re_address e = [] then Some NoAddress
      else if opt_length (retiredEd25519PublicKey e) \<noteq> ED25519_SIZE then Some (WrongKeySize ''retired'')
      else if opt_length (nextEd25519PublicKey e) \<noteq> ED25519_SIZE then Some (WrongKeySize ''next'')
      else if opt_length (authorizingEd25519PublicKey e) \<noteq> ED25519_SIZE then Some (WrongKeySize ''authorizing'')
      else if sameBytes (retiredEd25519PublicKey e) (nextEd25519PublicKey e) then Some SameKeys
      else if sameBytes (retiredX25519PublicKey e) (nextX25519PublicKey e) then Some SameMailboxKeys
      else if rotatedAt e = 0 then Some RotatedAtUnset
      else if nextRevision e = 0 then Some NextRevisionUnset
      else if opt_length (prevSignatureHash e) \<noteq> 0 \<and> opt_length (prevSignatureHash e) \<noteq> 32 then Some PrevHashSize
      else if \<not> verifyCtx cr (authorizingEd25519PublicKey e) ROTATION_CTX
                  (encodeRotationConsentBytes enc e) (signature e) then Some NoConsent
      else (case (case deviceCredential e of
                    Some c \<Rightarrow>
                      if \<not> verifyCtx cr (subject c) ROTATION_DEVICE_CTX
                             (encodeRotationDeviceBytes enc e) (deviceSignature e)
                      then Some DeviceNotAttested else None
                  | None \<Rightarrow>
                      if 0 < opt_length (deviceSignature e)
                      then Some DeviceSignatureWithoutCredential else None) of
              Some err \<Rightarrow> Some err
            | None \<Rightarrow>
                if \<not> verifyCtx cr (nextEd25519PublicKey e) ROTATION_ACCEPT_CTX
                       (encodeRotationAcceptBytes enc e) (nextSignature e) then Some NotAccepted
                else None))"

text \<open>The checks of \<open>verifyChainLinks\<close> that compare an entry with the one before it.\<close>

definition linkError :: "webcrypto \<Rightarrow> nat \<Rightarrow> RotationEntryWire \<Rightarrow> RotationEntryWire \<Rightarrow> chain_error option" where
  "linkError cr i prev e =
     (if \<not> sameBytes (retiredEd25519PublicKey e) (nextEd25519PublicKey prev)
         \<or> \<not> sameBytes (retiredX25519PublicKey e) (nextX25519PublicKey prev) then Some (NotHandedOver i)
      else if \<not> sameBytes (prevSignatureHash e) (Some (sha256 cr (signature prev))) then Some (NotChained i)
      else if rotatedAt e \<le> rotatedAt prev then Some (NotAfterInTime i)
      else if nextRevision e \<le> nextRevision prev then Some (RevisionNotAdvanced i)
      else None)"

text \<open>One pass of the loop from index \<open>i\<close>; \<open>prev\<close> is \<open>chain[i - 1]\<close>, absent at the first index.\<close>

fun linksFrom :: "webcrypto \<Rightarrow> codec \<Rightarrow> string \<Rightarrow> nat \<Rightarrow> RotationEntryWire option \<Rightarrow> RotationEntryWire list \<Rightarrow> chain_error option" where
  "linksFrom cr enc addr i prev [] = None"
| "linksFrom cr enc addr i prev (e # rest) =
     (case verifyRotationEntry cr enc e of
        Some bad \<Rightarrow> Some (BadEntry i bad)
      | None \<Rightarrow>
          if toLowerCase (re_address e) \<noteq> toLowerCase addr then Some (OtherAddress i)
          else (case (case prev of None \<Rightarrow> None | Some p \<Rightarrow> linkError cr i p e) of
                  Some bad \<Rightarrow> Some bad
                | None \<Rightarrow> linksFrom cr enc addr (i + 1) (Some e) rest))"

definition verifyChainLinks :: "webcrypto \<Rightarrow> codec \<Rightarrow> RotationEntryWire list \<Rightarrow> string \<Rightarrow> chain_error option" where
  "verifyChainLinks cr enc chain addr = linksFrom cr enc addr 0 None chain"

text \<open>
  An identity record. \<open>ir_relayHints\<close> is the operator's; the other fields but the signature are the
  owner's. A record decoded off the wire may lack a key.
\<close>

record IdentityRecord =
  ir_version :: nat
  ir_address :: string
  ir_ed25519PublicKey :: "bytes option"
  ir_x25519PublicKey :: "bytes option"
  ir_createdAt :: nat
  ir_expiresAt :: nat
  ir_relayHints :: "string list"
  ir_verificationTier :: nat
  ir_requireOnion :: bool
  ir_revision :: nat
  ir_rotationChain :: "RotationEntryWire list"
  ir_recoveryEd25519PublicKey :: "bytes option"
  ir_forwardTo :: "string option"
  ir_selfSignature :: "bytes option"

definition identityObj :: "IdentityRecord \<Rightarrow> (string \<times> jsval) list" where
  "identityObj r =
    [(''version'', JNum (int (ir_version r))),
     (''address'', JStr (ir_address r)),
     (''ed25519PublicKey'', js_bytes (ir_ed25519PublicKey r)),
     (''x25519PublicKey'', js_bytes (ir_x25519PublicKey r)),
     (''createdAt'', JNum (int (ir_createdAt r))),
     (''expiresAt'', JNum (int (ir_expiresAt r))),
     (''relayHints'', JArr (map JStr (ir_relayHints r))),
     (''verificationTier'', JNum (int (ir_verificationTier r))),
     (''requireOnion'', JBool (ir_requireOnion r)),
     (''revision'', JNum (int (ir_revision r))),
     (''rotationChain'', JArr (map (\<lambda>e. JObj (entryObj e)) (ir_rotationChain r))),
     (''recoveryEd25519PublicKey'', js_bytes (ir_recoveryEd25519PublicKey r)),
     (''forwardTo'', case ir_forwardTo r of None \<Rightarrow> JUndef | Some a \<Rightarrow> JStr a),
     (''selfSignature'', js_bytes (ir_selfSignature r))]"

definition verifyRecordChain :: "webcrypto \<Rightarrow> codec \<Rightarrow> IdentityRecord \<Rightarrow> chain_error option" where
  "verifyRecordChain cr enc rec =
     (let chain = ir_rotationChain rec in
      if chain = [] then None
      else if MAX_ROTATION_CHAIN < length chain then Some TooManyEntries
      else (case verifyChainLinks cr enc chain (ir_address rec) of
              Some bad \<Rightarrow> Some bad
            | None \<Rightarrow>
                let lst = chain ! (length chain - 1) in
                if \<not> sameBytes (nextEd25519PublicKey lst) (ir_ed25519PublicKey rec)
                   \<or> \<not> sameBytes (nextX25519PublicKey lst) (ir_x25519PublicKey rec) then Some TerminalOtherKey
                else if nextRevision lst \<noteq> ir_revision rec then Some TerminalOtherRevision
                else None))"

record AddressHistory =
  ah_address :: string
  ah_chain :: "RotationEntryWire list"

definition verifyHistory :: "webcrypto \<Rightarrow> codec \<Rightarrow> AddressHistory \<Rightarrow> string \<Rightarrow> chain_error option" where
  "verifyHistory cr enc hist addr =
     (if toLowerCase (ah_address hist) \<noteq> toLowerCase addr then Some HistoryOtherAddress
      else if chainTruncated (ah_chain hist) then Some HistoryNotFromFirst
      else verifyChainLinks cr enc (ah_chain hist) addr)"

subsection \<open>What acceptance means\<close>

lemma sameBytes_iff: "sameBytes a b \<longleftrightarrow> (\<exists>v. a = Some v \<and> b = Some v)"
  by (auto simp: sameBytes_def sameFrom_iff split: option.splits)

definition linked :: "webcrypto \<Rightarrow> RotationEntryWire \<Rightarrow> RotationEntryWire \<Rightarrow> bool" where
  "linked cr p e \<longleftrightarrow> linkError cr 0 p e = None"

lemma linkError_None: "linkError cr i p e = None \<longleftrightarrow> linked cr p e"
  by (auto simp: linkError_def linked_def)

lemma linkError_SomeD: "linkError cr i p e = Some x \<Longrightarrow> \<not> linked cr p e"
  using linkError_None [of cr i p e] by simp

lemma linkedD:
  assumes "linked cr p e"
  shows "rotatedAt p < rotatedAt e" "nextRevision p < nextRevision e"
    "\<exists>k. retiredEd25519PublicKey e = Some k \<and> nextEd25519PublicKey p = Some k"
    "\<exists>k. retiredX25519PublicKey e = Some k \<and> nextX25519PublicKey p = Some k"
    "prevSignatureHash e = Some (sha256 cr (signature p))"
  using assms by (auto simp: linked_def linkError_def sameBytes_iff split: if_splits)

lemma linkedI:
  assumes "retiredEd25519PublicKey e = Some k" "nextEd25519PublicKey p = Some k"
    "retiredX25519PublicKey e = Some x" "nextX25519PublicKey p = Some x"
    "prevSignatureHash e = Some (sha256 cr (signature p))"
    "rotatedAt p < rotatedAt e" "nextRevision p < nextRevision e"
  shows "linked cr p e"
  using assms by (simp add: linked_def linkError_def sameBytes_iff)

definition entryOk :: "webcrypto \<Rightarrow> codec \<Rightarrow> string \<Rightarrow> RotationEntryWire \<Rightarrow> bool" where
  "entryOk cr enc addr e \<longleftrightarrow> verifyRotationEntry cr enc e = None \<and> toLowerCase (re_address e) = toLowerCase addr"

fun chainOk :: "webcrypto \<Rightarrow> codec \<Rightarrow> string \<Rightarrow> RotationEntryWire list \<Rightarrow> bool" where
  "chainOk cr enc addr [] = True"
| "chainOk cr enc addr [e] = entryOk cr enc addr e"
| "chainOk cr enc addr (p # e # es) = (entryOk cr enc addr p \<and> linked cr p e \<and> chainOk cr enc addr (e # es))"

lemma chainOk_Cons:
  "chainOk cr enc addr (p # es) \<longleftrightarrow>
     entryOk cr enc addr p \<and> chainOk cr enc addr es \<and> (es \<noteq> [] \<longrightarrow> linked cr p (hd es))"
  by (cases es) auto

lemma linksFrom_None:
  "linksFrom cr enc addr i prev chain = None \<longleftrightarrow>
     chainOk cr enc addr chain \<and> (chain \<noteq> [] \<longrightarrow> prev \<noteq> None \<longrightarrow> linked cr (the prev) (hd chain))"
  by (induction cr enc addr i prev chain rule: linksFrom.induct)
    (auto simp: chainOk_Cons entryOk_def linkError_None dest: linkError_SomeD split: option.splits)

lemma verifyChainLinks_None: "verifyChainLinks cr enc chain addr = None \<longleftrightarrow> chainOk cr enc addr chain"
  by (simp add: verifyChainLinks_def linksFrom_None)

lemma chainOk_append:
  "chainOk cr enc addr (xs @ ys) \<longleftrightarrow>
     chainOk cr enc addr xs \<and> chainOk cr enc addr ys \<and> (xs \<noteq> [] \<longrightarrow> ys \<noteq> [] \<longrightarrow> linked cr (last xs) (hd ys))"
proof (induction xs)
  case (Cons x xs)
  then show ?case by (cases xs) (auto simp: chainOk_Cons)
qed simp

lemma chainOk_drop: "chainOk cr enc addr xs \<Longrightarrow> chainOk cr enc addr (drop n xs)"
  using chainOk_append [of cr enc addr "take n xs" "drop n xs"] by simp

text \<open>An accepted chain advances in time and revision from each entry to every later one.\<close>

lemma chainOk_sorted:
  "chainOk cr enc addr xs \<Longrightarrow> sorted_wrt (\<lambda>a b. rotatedAt a < rotatedAt b \<and> nextRevision a < nextRevision b) xs"
proof (induction xs)
  case (Cons x xs)
  then have s: "sorted_wrt (\<lambda>a b. rotatedAt a < rotatedAt b \<and> nextRevision a < nextRevision b) xs"
    by (simp add: chainOk_Cons)
  show ?case
  proof (cases xs)
    case (Cons y ys)
    with Cons.prems have "linked cr x y" by simp
    from linkedD [OF this] s Cons show ?thesis by auto
  qed simp
qed simp

lemma chainOk_sorted_times: "chainOk cr enc addr xs \<Longrightarrow> sorted_wrt (<) (map rotatedAt xs)"
  using chainOk_sorted by (fastforce simp: sorted_wrt_map intro: sorted_wrt_mono_rel [rotated])

lemma chainOk_nth: "chainOk cr enc addr xs \<Longrightarrow> Suc i < length xs \<Longrightarrow> linked cr (xs ! i) (xs ! Suc i)"
proof (induction cr enc addr xs arbitrary: i rule: chainOk.induct)
  case (3 cr enc addr p e es)
  then show ?case by (cases i) auto
qed auto

lemma chainOk_entries: "chainOk cr enc addr xs \<Longrightarrow> e \<in> set xs \<Longrightarrow> entryOk cr enc addr e"
  by (induction cr enc addr xs rule: chainOk.induct) auto

text \<open>What an accepted entry guarantees, signature by signature.\<close>

lemma verifyRotationEntry_NoneD:
  assumes "verifyRotationEntry cr enc e = None"
  shows "verifyCtx cr (authorizingEd25519PublicKey e) ROTATION_CTX (encodeRotationConsentBytes enc e) (signature e)"
    "verifyCtx cr (nextEd25519PublicKey e) ROTATION_ACCEPT_CTX (encodeRotationAcceptBytes enc e) (nextSignature e)"
    "\<not> sameBytes (retiredEd25519PublicKey e) (nextEd25519PublicKey e)"
    "opt_length (prevSignatureHash e) \<in> {0, 32}"
    "opt_length (retiredEd25519PublicKey e) = 32" "opt_length (authorizingEd25519PublicKey e) = 32"
  using assms by (auto simp: verifyRotationEntry_def ED25519_SIZE_def split: if_splits option.splits)

lemma verifyRecordChain_None:
  "verifyRecordChain cr enc r = None \<longleftrightarrow>
     ir_rotationChain r = [] \<or>
     length (ir_rotationChain r) \<le> MAX_ROTATION_CHAIN \<and> chainOk cr enc (ir_address r) (ir_rotationChain r)
     \<and> sameBytes (nextEd25519PublicKey (last (ir_rotationChain r))) (ir_ed25519PublicKey r)
     \<and> sameBytes (nextX25519PublicKey (last (ir_rotationChain r))) (ir_x25519PublicKey r)
     \<and> nextRevision (last (ir_rotationChain r)) = ir_revision r"
  by (auto simp: verifyRecordChain_def Let_def last_conv_nth simp flip: verifyChainLinks_None split: option.splits if_splits)

lemma verifyHistory_None:
  "verifyHistory cr enc h addr = None \<longleftrightarrow>
     toLowerCase (ah_address h) = toLowerCase addr \<and> \<not> chainTruncated (ah_chain h) \<and> chainOk cr enc addr (ah_chain h)"
  by (auto simp: verifyHistory_def simp flip: verifyChainLinks_None)

lemma strictly_sorted_mset_eq:
  fixes f :: "'a \<Rightarrow> nat"
  assumes "sorted_wrt (<) (map f xs)" "sorted_wrt (<) (map f ys)" "mset xs = mset ys"
  shows "xs = ys"
  using assms
proof (induction xs arbitrary: ys)
  case (Cons x xs)
  then obtain y ys' where y: "ys = y # ys'" by (cases ys) auto
  have "x = y"
  proof (rule ccontr)
    assume "x \<noteq> y"
    then have "x \<in> set ys'" "y \<in> set xs" using Cons.prems(3) y by (metis list.set_intros(1) mset_eq_setD set_ConsD)+
    then show False using Cons.prems(1,2) y by force
  qed
  with Cons y show ?case by simp
qed simp

subsection \<open>A concrete chain\<close>

text \<open>
  Signing an entry the way the ceremony does, with demonstration keys, so that the properties can be
  seen to apply to chains the verifier accepts.
\<close>

definition sign_entry :: "webcrypto \<Rightarrow> codec \<Rightarrow> bytes \<Rightarrow> bytes \<Rightarrow> RotationEntryWire \<Rightarrow> RotationEntryWire" where
  "sign_entry cr enc old new e =
     (let s = e\<lparr>signature := Some (ed25519_sign cr old (ROTATION_CTX @ encodeRotationConsentBytes enc e))\<rparr>
      in s\<lparr>nextSignature := Some (ed25519_sign cr new (ROTATION_ACCEPT_CTX @ encodeRotationAcceptBytes enc s))\<rparr>)"

definition demo_key :: "nat \<Rightarrow> bytes" where
  "demo_key n = replicate 32 (word_of_nat n)"

definition demo_base :: "nat \<Rightarrow> bytes option \<Rightarrow> RotationEntryWire" where
  "demo_base n prev =
     \<lparr>re_version = 1, re_address = ''al@x.io'',
      retiredEd25519PublicKey = Some (demo_key n), retiredX25519PublicKey = Some (demo_key (n + 100)),
      nextEd25519PublicKey = Some (demo_key (n + 1)), nextX25519PublicKey = Some (demo_key (n + 101)),
      rotatedAt = 1000 + n, nextRevision = n + 1, prevSignatureHash = prev,
      authorizingEd25519PublicKey = Some (demo_key n), deviceCredential = None, deviceSignature = None,
      signature = None, nextSignature = None\<rparr>"

definition demo_step :: "nat \<Rightarrow> bytes option \<Rightarrow> RotationEntryWire" where
  "demo_step n prev = sign_entry demo_crypto demo_codec (demo_key n) (demo_key (n + 1)) (demo_base n prev)"

definition demo_chain :: "RotationEntryWire list" where
  "demo_chain =
     (let a = demo_step 1 None; b = demo_step 2 (Some (sha256 demo_crypto (signature a)));
          c = demo_step 3 (Some (sha256 demo_crypto (signature b)))
      in [a, b, c])"

lemma verifyCtx_sign:
  "ed25519_laws cr \<Longrightarrow> length seed = 32 \<Longrightarrow>
   verifyCtx cr (Some (ed25519_public cr seed)) ctx body (Some (ed25519_sign cr seed (ctx @ body)))"
  unfolding ed25519_laws_def verifyCtx_def opt_length_def opt_bytes_def by (auto split: option.splits)

lemma signed_bytes_ignore [simp]:
  "encodeRotationConsentBytes enc (e\<lparr>signature := g\<rparr>) = encodeRotationConsentBytes enc e"
  "encodeRotationConsentBytes enc (e\<lparr>nextSignature := h\<rparr>) = encodeRotationConsentBytes enc e"
  "encodeRotationAcceptBytes enc (e\<lparr>nextSignature := h\<rparr>) = encodeRotationAcceptBytes enc e"
  "encodeRotationDeviceBytes enc (e\<lparr>deviceSignature := d\<rparr>) = encodeRotationDeviceBytes enc e"
  "encodeRotationDeviceBytes enc (e\<lparr>signature := g\<rparr>) = encodeRotationDeviceBytes enc e"
  "encodeRotationDeviceBytes enc (e\<lparr>nextSignature := h\<rparr>) = encodeRotationDeviceBytes enc e"
  by (simp_all add: rotation_bytes_defs)

lemma verifyRotationEntry_NoneI:
  assumes "re_version e \<noteq> 0" "re_address e \<noteq> []"
    "opt_length (retiredEd25519PublicKey e) = 32" "opt_length (nextEd25519PublicKey e) = 32"
    "opt_length (authorizingEd25519PublicKey e) = 32"
    "retiredEd25519PublicKey e \<noteq> nextEd25519PublicKey e" "retiredX25519PublicKey e \<noteq> nextX25519PublicKey e"
    "rotatedAt e \<noteq> 0" "nextRevision e \<noteq> 0" "opt_length (prevSignatureHash e) \<in> {0, 32}"
    "verifyCtx cr (authorizingEd25519PublicKey e) ROTATION_CTX (encodeRotationConsentBytes enc e) (signature e)"
    "case deviceCredential e of
       None \<Rightarrow> opt_length (deviceSignature e) = 0
     | Some c \<Rightarrow> verifyCtx cr (subject c) ROTATION_DEVICE_CTX (encodeRotationDeviceBytes enc e) (deviceSignature e)"
    "verifyCtx cr (nextEd25519PublicKey e) ROTATION_ACCEPT_CTX (encodeRotationAcceptBytes enc e) (nextSignature e)"
  shows "verifyRotationEntry cr enc e = None"
  using assms by (auto simp: verifyRotationEntry_def ED25519_SIZE_def sameBytes_iff split: option.splits)

lemma pad32_replicate [simp]: "pad32 (replicate 32 b) = replicate 32 b"
  by (simp add: pad32_def)

lemma demo_key_eq: "n < 256 \<Longrightarrow> m < 256 \<Longrightarrow> demo_key n = demo_key m \<longleftrightarrow> n = m"
  by (auto simp: demo_key_def word_of_nat_eq_iff take_bit_nat_def)

lemma sign_entry_select [simp]:
  "re_address (sign_entry cr enc a b e) = re_address e"
  "retiredEd25519PublicKey (sign_entry cr enc a b e) = retiredEd25519PublicKey e"
  "retiredX25519PublicKey (sign_entry cr enc a b e) = retiredX25519PublicKey e"
  "nextEd25519PublicKey (sign_entry cr enc a b e) = nextEd25519PublicKey e"
  "nextX25519PublicKey (sign_entry cr enc a b e) = nextX25519PublicKey e"
  "rotatedAt (sign_entry cr enc a b e) = rotatedAt e"
  "nextRevision (sign_entry cr enc a b e) = nextRevision e"
  "prevSignatureHash (sign_entry cr enc a b e) = prevSignatureHash e"
  "deviceCredential (sign_entry cr enc a b e) = deviceCredential e"
  "deviceSignature (sign_entry cr enc a b e) = deviceSignature e"
  "encodeRotationDeviceBytes enc (sign_entry cr enc a b e) = encodeRotationDeviceBytes enc e"
  by (simp_all add: sign_entry_def Let_def)

lemma sign_entry_ok:
  assumes "ed25519_laws cr" "length old = 32" "length new = 32"
    "authorizingEd25519PublicKey e = Some (ed25519_public cr old)" "nextEd25519PublicKey e = Some (ed25519_public cr new)"
    "re_version e \<noteq> 0" "re_address e \<noteq> []" "opt_length (retiredEd25519PublicKey e) = 32"
    "retiredEd25519PublicKey e \<noteq> nextEd25519PublicKey e" "retiredX25519PublicKey e \<noteq> nextX25519PublicKey e"
    "rotatedAt e \<noteq> 0" "nextRevision e \<noteq> 0" "opt_length (prevSignatureHash e) \<in> {0, 32}"
    "case deviceCredential e of
       None \<Rightarrow> opt_length (deviceSignature e) = 0
     | Some c \<Rightarrow> verifyCtx cr (subject c) ROTATION_DEVICE_CTX (encodeRotationDeviceBytes enc e) (deviceSignature e)"
  shows "verifyRotationEntry cr enc (sign_entry cr enc old new e) = None"
proof -
  have pub: "opt_length (Some (ed25519_public cr old)) = 32" "opt_length (Some (ed25519_public cr new)) = 32"
    using assms(1-3) by (simp_all add: ed25519_laws_def opt_length_def)
  show ?thesis
    by (rule verifyRotationEntry_NoneI) (use assms pub verifyCtx_sign in \<open>simp_all add: sign_entry_def Let_def split: option.splits\<close>)
qed

lemma demo_key_public: "ed25519_public demo_crypto (demo_key n) = demo_key n" "length (demo_key n) = 32"
  by (simp_all add: demo_crypto_def demo_key_def)

lemma demo_step_ok:
  assumes "n < 100" "prev = None \<or> opt_length prev = 32"
  shows "entryOk demo_crypto demo_codec ''AL@x.io'' (demo_step n prev)"
proof -
  have "verifyRotationEntry demo_crypto demo_codec (demo_step n prev) = None"
    unfolding demo_step_def
    by (rule sign_entry_ok [OF demo_ed25519_laws])
      (use assms in \<open>auto simp: demo_base_def demo_key_eq demo_key_public opt_length_def\<close>)
  moreover have "toLowerCase ''al@x.io'' = toLowerCase ''AL@x.io''" by code_simp
  ultimately show ?thesis by (simp add: entryOk_def demo_step_def demo_base_def)
qed

lemma demo_digest_length: "opt_length (Some (sha256 demo_crypto x)) = 32"
  by (simp add: opt_length_def sha256_def demo_crypto_def)

lemma demo_step_linked:
  "linked demo_crypto (demo_step n p) (demo_step (n + 1) (Some (sha256 demo_crypto (signature (demo_step n p)))))"
  by (rule linkedI) (simp_all add: demo_step_def demo_base_def ac_simps)

lemma demo_chain_ok: "chainOk demo_crypto demo_codec ''AL@x.io'' demo_chain"
proof -
  have l: "linked demo_crypto (demo_step 1 p) (demo_step 2 (Some (sha256 demo_crypto (signature (demo_step 1 p)))))"
    "linked demo_crypto (demo_step 2 p) (demo_step 3 (Some (sha256 demo_crypto (signature (demo_step 2 p)))))" for p
    using demo_step_linked [of 1 p] demo_step_linked [of 2 p] by (simp_all add: eval_nat_numeral)
  show ?thesis
    unfolding demo_chain_def Let_def chainOk.simps by (intro conjI l demo_step_ok) (simp_all add: demo_digest_length)
qed

lemma demo_chain_digests: "inj_on (\<lambda>e. sha256 demo_crypto (signature e)) (set demo_chain)"
proof -
  have "sha256 demo_crypto (signature (demo_step n p)) ! 1 = word_of_nat n" for n p
    by (simp add: sha256_def demo_step_def sign_entry_def Let_def opt_bytes_def demo_crypto_def demo_key_def pad32_def)
  then show ?thesis unfolding demo_chain_def Let_def
    by (auto simp: inj_on_def dest!: arg_cong [where f = "\<lambda>b. b ! 1"])
qed

subsection \<open>Properties\<close>

text \<open>
  C22. An accepted chain is a strict line: from every entry to every later one the rotation time and
  the revision increase, each entry retires exactly the two keys its predecessor handed over and
  names the predecessor by the digest of its consent, every entry belongs to the address, and every
  entry carries a consent that verifies under its authorizing key and an acceptance that verifies
  under the key taking over.
\<close>

theorem accepted_chain_is_a_line:
  assumes "verifyChainLinks cr enc chain addr = None"
  shows "(\<forall>i j. i < j \<and> j < length chain \<longrightarrow>
             rotatedAt (chain ! i) < rotatedAt (chain ! j) \<and> nextRevision (chain ! i) < nextRevision (chain ! j))
       \<and> (\<forall>i. Suc i < length chain \<longrightarrow>
             retiredEd25519PublicKey (chain ! Suc i) = nextEd25519PublicKey (chain ! i)
             \<and> retiredX25519PublicKey (chain ! Suc i) = nextX25519PublicKey (chain ! i)
             \<and> prevSignatureHash (chain ! Suc i) = Some (sha256 cr (signature (chain ! i))))
       \<and> (\<forall>e\<in>set chain. toLowerCase (re_address e) = toLowerCase addr
             \<and> verifyCtx cr (authorizingEd25519PublicKey e) ROTATION_CTX (encodeRotationConsentBytes enc e) (signature e)
             \<and> verifyCtx cr (nextEd25519PublicKey e) ROTATION_ACCEPT_CTX (encodeRotationAcceptBytes enc e) (nextSignature e))"
proof -
  have ok: "chainOk cr enc addr chain" using assms by (simp add: verifyChainLinks_None)
  show ?thesis
    using chainOk_sorted [OF ok] chainOk_nth [OF ok] chainOk_entries [OF ok] linkedD verifyRotationEntry_NoneD(1,2)
    by (fastforce simp: sorted_wrt_iff_nth_less entryOk_def)
qed

theorem accepted_chain_is_a_line_witness:
  "verifyChainLinks demo_crypto demo_codec demo_chain ''AL@x.io'' = None
   \<and> rotatedAt (demo_chain ! 0) < rotatedAt (demo_chain ! 2)"
proof -
  have v: "verifyChainLinks demo_crypto demo_codec demo_chain ''AL@x.io'' = None"
    by (simp add: verifyChainLinks_None demo_chain_ok)
  have "length demo_chain = 3" by (simp add: demo_chain_def Let_def)
  then show ?thesis using accepted_chain_is_a_line [OF v] v by simp
qed

text \<open>
  Entries cannot be reordered: two accepted chains with the same entries, counted with their
  multiplicity, are the same chain, whatever address each was checked for.
\<close>

lemma chain_not_reorderable:
  assumes "verifyChainLinks cr enc c1 a1 = None" and "verifyChainLinks cr enc c2 a2 = None" and "mset c1 = mset c2"
  shows "c1 = c2"
  using assms strictly_sorted_mset_eq chainOk_sorted_times unfolding verifyChainLinks_None by metis

text \<open>
  No entry can be dropped from the middle: when the entries' consents have different SHA-256
  digests, removing a stretch that has entries before and after it makes the verifier refuse the
  chain. Dropping the oldest entries is accepted, and \<open>chainTruncated\<close> reports it.
\<close>

lemma chain_gap_refused:
  assumes "verifyChainLinks cr enc (xs @ ys @ zs) addr = None" and "xs \<noteq> []" and "ys \<noteq> []" and "zs \<noteq> []"
    and "inj_on (\<lambda>e. sha256 cr (signature e)) (set (xs @ ys @ zs))"
  shows "verifyChainLinks cr enc (xs @ zs) addr \<noteq> None
       \<and> verifyChainLinks cr enc (ys @ zs) addr = None
       \<and> (length (sha256 cr (signature (last xs))) = 32 \<longrightarrow> chainTruncated (ys @ zs))"
proof -
  have ok: "chainOk cr enc addr (xs @ ys @ zs)" using assms(1) by (simp add: verifyChainLinks_None)
  then have l: "linked cr (last ys) (hd zs)" "linked cr (last xs) (hd ys)" "chainOk cr enc addr (ys @ zs)"
    using assms(2-4) by (auto simp: chainOk_append)
  have "last xs \<noteq> last ys"
    using chainOk_sorted [OF ok] assms(2,3) by (force simp: sorted_wrt_append dest: last_in_set)
  then have "sha256 cr (signature (last xs)) \<noteq> sha256 cr (signature (last ys))"
    using assms(2,3,5) by (auto dest!: inj_onD [where x = "last xs" and y = "last ys"])
  then have "\<not> linked cr (last xs) (hd zs)" using linkedD(5) [OF l(1)] linkedD(5) by fastforce
  moreover have "length (sha256 cr (signature (last xs))) = 32 \<longrightarrow> chainTruncated (ys @ zs)"
    using linkedD(5) [OF l(2)] assms(3) by (cases ys) (auto simp: chainTruncated_def opt_length_def)
  ultimately show ?thesis using assms(2,4) l(3) by (auto simp: verifyChainLinks_None chainOk_append)
qed

end
