(* ===== verification/Keys.thy ===== *)
theory Keys
  imports Protobuf
begin

section \<open>Account keys and the retired-key ring\<close>

text \<open>
  \<open>lib/crypto/keys.ts\<close> (the identity keypair, its generation from the platform's exported keys, and
  its JSON payload form) and \<open>lib/crypto/retiredKeys.ts\<close> (the generations an account used to hold).
  The platform's random bytes are arguments. A non-extractable \<open>CryptoKey\<close> handle is modelled by the
  raw key it was imported from.
\<close>

record IdentityKeyPair =
  ed25519Public :: bytes
  ed25519Private :: bytes
  x25519Public :: bytes
  x25519Private :: bytes
  kp_deviceId :: bytes
  kp_createdAt :: nat

definition ED25519_PKCS8_PREFIX :: bytes where
  "ED25519_PKCS8_PREFIX =
    [0x30, 0x2e, 0x02, 0x01, 0x00, 0x30, 0x05, 0x06, 0x03, 0x2b, 0x65, 0x70, 0x04, 0x22, 0x04, 0x20]"

definition X25519_PKCS8_PREFIX :: bytes where
  "X25519_PKCS8_PREFIX =
    [0x30, 0x2e, 0x02, 0x01, 0x00, 0x30, 0x05, 0x06, 0x03, 0x2b, 0x65, 0x6e, 0x04, 0x22, 0x04, 0x20]"

text \<open>\<open>slice(16, 48)\<close> of an exported PKCS8 document.\<close>

definition extractEd25519Seed :: "bytes \<Rightarrow> bytes" where
  "extractEd25519Seed pkcs8 = take 32 (drop 16 pkcs8)"

definition extractX25519Private :: "bytes \<Rightarrow> bytes" where
  "extractX25519Private pkcs8 = take 32 (drop 16 pkcs8)"

text \<open>The two byte operations that turn 16 random bytes into a version 4 UUID.\<close>

definition uuid4 :: "bytes \<Rightarrow> bytes" where
  "uuid4 r = (let d = r[6 := or (and (r ! 6) 0x0f) 0x40] in d[8 := or (and (d ! 8) 0x3f) 0x80])"

definition generateIdentityKeyPair ::
    "bytes \<Rightarrow> bytes \<Rightarrow> bytes \<Rightarrow> bytes \<Rightarrow> bytes \<Rightarrow> nat \<Rightarrow> IdentityKeyPair" where
  "generateIdentityKeyPair ed25519Pkcs8 ed25519PubRaw x25519Pkcs8 x25519PubRaw rnd now_ms =
     \<lparr>ed25519Public = ed25519PubRaw,
      ed25519Private = extractEd25519Seed ed25519Pkcs8 @ ed25519PubRaw,
      x25519Public = x25519PubRaw,
      x25519Private = extractX25519Private x25519Pkcs8,
      kp_deviceId = uuid4 rnd,
      kp_createdAt = now_ms div 1000\<rparr>"

text \<open>
  The PKCS8 document \<open>importEd25519PrivateKey\<close> and \<open>importX25519PrivateKey\<close> build: 48 zero bytes with
  the prefix and the key set into them. \<open>TypedArray.set\<close> throws when the source does not fit.
\<close>

definition pkcs8Of :: "bytes \<Rightarrow> bytes \<Rightarrow> bytes option" where
  "pkcs8Of pre key =
     (if length key > 32 then None else Some (pre @ key @ replicate (32 - length key) 0))"

definition importEd25519PrivateKey :: "bytes \<Rightarrow> bytes option" where
  "importEd25519PrivateKey seed = pkcs8Of ED25519_PKCS8_PREFIX seed"

definition importX25519PrivateKey :: "bytes \<Rightarrow> bytes option" where
  "importX25519PrivateKey raw = pkcs8Of X25519_PKCS8_PREFIX raw"

text \<open>The payload object, before \<open>JSON.stringify\<close> and after \<open>JSON.parse\<close>.\<close>

definition keyPairToPayloadJSON :: "IdentityKeyPair \<Rightarrow> (string \<times> jsval) list" where
  "keyPairToPayloadJSON kp =
    [(''ed25519_public'', JStr (toBase64 (ed25519Public kp))),
     (''ed25519_private'', JStr (toBase64 (ed25519Private kp))),
     (''x25519_public'', JStr (toBase64 (x25519Public kp))),
     (''x25519_private'', JStr (toBase64 (x25519Private kp))),
     (''device_id'', JStr (toBase64 (kp_deviceId kp))),
     (''created_at'', JNum (int (kp_createdAt kp)))]"

definition payloadBytes :: "(string \<times> jsval) list \<Rightarrow> string \<Rightarrow> bytes option" where
  "payloadBytes d k = (case map_of d k of Some (JStr s) \<Rightarrow> fromBase64 s | _ \<Rightarrow> None)"

definition keyPairFromPayloadJSON :: "(string \<times> jsval) list \<Rightarrow> IdentityKeyPair option" where
  "keyPairFromPayloadJSON d =
     (case (payloadBytes d ''ed25519_public'', payloadBytes d ''ed25519_private'', payloadBytes d ''x25519_public'',
            payloadBytes d ''x25519_private'', payloadBytes d ''device_id'', map_of d ''created_at'') of
        (Some ep, Some es, Some xp, Some xs, Some dev, Some (JNum t)) \<Rightarrow>
          Some \<lparr>ed25519Public = ep, ed25519Private = es, x25519Public = xp, x25519Private = xs,
                kp_deviceId = dev, kp_createdAt = nat t\<rparr>
      | _ \<Rightarrow> None)"

subsection \<open>Retired generations\<close>

record RetiredKeys =
  generation :: nat
  rk_x25519Public :: bytes
  rk_x25519Derive :: bytes
  rk_aliasRoot :: "bytes option"
  rk_retiredAt :: nat

definition retiredRef :: "string \<Rightarrow> string" where
  "retiredRef addr = ''retired-keys:'' @ toLowerCase addr"

type_synonym ring_store = "(string, RetiredKeys list) jsmap"

text \<open>
  \<open>retiredKeys\<close> reads the device store; a read that fails (\<open>readable = False\<close>) gives the empty list,
  like a missing entry.
\<close>

definition retiredKeys :: "bool \<Rightarrow> ring_store \<Rightarrow> string \<Rightarrow> RetiredKeys list" where
  "retiredKeys readable st addr =
     (if \<not> readable then [] else (case map_of st (retiredRef addr) of None \<Rightarrow> [] | Some l \<Rightarrow> l))"

definition retainRetiredKeys ::
    "bool \<Rightarrow> ring_store \<Rightarrow> string \<Rightarrow> bytes \<Rightarrow> bytes \<Rightarrow> bytes option \<Rightarrow> nat \<Rightarrow> ring_store" where
  "retainRetiredKeys readable st addr xpub xderive aliasRoot at =
     (let existing = retiredKeys readable st addr;
          entry = \<lparr>generation = length existing, rk_x25519Public = xpub, rk_x25519Derive = xderive,
                   rk_aliasRoot = aliasRoot, rk_retiredAt = at\<rparr>
      in AList.update (retiredRef addr) (existing @ [entry]) st)"

text \<open>\<open>None\<close> when importing the private key throws; nothing is written then.\<close>

definition retainRetiredFromKeyPair ::
    "bool \<Rightarrow> ring_store \<Rightarrow> string \<Rightarrow> IdentityKeyPair \<Rightarrow> bytes option \<Rightarrow> nat \<Rightarrow> ring_store option" where
  "retainRetiredFromKeyPair readable st addr kp aliasRoot at =
     (let existing = retiredKeys readable st addr in
      if \<exists>r\<in>set existing. bytesEqual (rk_x25519Public r) (x25519Public kp) then Some st
      else (case importX25519PrivateKey (x25519Private kp) of
              None \<Rightarrow> None
            | Some _ \<Rightarrow>
                let entry = \<lparr>generation = length existing, rk_x25519Public = x25519Public kp,
                             rk_x25519Derive = x25519Private kp, rk_aliasRoot = aliasRoot, rk_retiredAt = at\<rparr>
                in Some (AList.update (retiredRef addr) (existing @ [entry]) st)))"

record DecryptOnlyKeys =
  do_address :: string
  do_x25519Public :: bytes
  do_x25519Derive :: bytes
  do_aliasRoot :: "bytes option"

definition asDecryptOnly :: "string \<Rightarrow> RetiredKeys \<Rightarrow> DecryptOnlyKeys" where
  "asDecryptOnly addr r =
     \<lparr>do_address = addr, do_x25519Public = rk_x25519Public r, do_x25519Derive = rk_x25519Derive r,
      do_aliasRoot = rk_aliasRoot r\<rparr>"

text \<open>Generations are numbered by position, and no mailbox key is kept twice.\<close>

definition ring_ok :: "RetiredKeys list \<Rightarrow> bool" where
  "ring_ok rs \<longleftrightarrow> map generation rs = [0..<length rs] \<and> distinct (map rk_x25519Public rs)"

lemma ring_ok_snoc:
  "ring_ok rs \<Longrightarrow> generation r = length rs \<Longrightarrow> rk_x25519Public r \<notin> rk_x25519Public ` set rs \<Longrightarrow> ring_ok (rs @ [r])"
  by (auto simp: ring_ok_def)

subsection \<open>Properties\<close>

text \<open>
  A keypair survives its payload form: parsing what \<open>keyPairToPayloadJSON\<close> renders gives the same
  keypair back, every key byte and the creation time included.
\<close>

lemma key_payload_roundtrip: "keyPairFromPayloadJSON (keyPairToPayloadJSON kp) = Some kp"
  by (simp add: keyPairFromPayloadJSON_def keyPairToPayloadJSON_def payloadBytes_def fromBase64_toBase64)

text \<open>
  C30. Retaining the outgoing generation keeps every generation already kept, in order, and leaves the
  ring numbered by position with no mailbox key twice; afterwards the outgoing mailbox key is in the
  ring with its private key (or was already there), and retaining it again changes nothing. This
  holds when the device store can be read.
\<close>

theorem retain_keeps_ring:
  assumes "ring_ok (retiredKeys True st addr)" and "length (x25519Private kp) \<le> 32"
    and "retainRetiredFromKeyPair True st addr kp root at = Some st'"
  shows "ring_ok (retiredKeys True st' addr)
       \<and> (\<exists>more'. retiredKeys True st' addr = retiredKeys True st addr @ more')
       \<and> x25519Public kp \<in> rk_x25519Public ` set (retiredKeys True st' addr)
       \<and> retainRetiredFromKeyPair True st' addr kp root' at' = Some st'"
proof (cases "x25519Public kp \<in> rk_x25519Public ` set (retiredKeys True st addr)")
  case True
  then have e: "\<exists>r\<in>set (retiredKeys True st addr). bytesEqual (rk_x25519Public r) (x25519Public kp)" by auto
  then have "st' = st" using assms(3) by (simp only: retainRetiredFromKeyPair_def Let_def if_True option.inject)
  then show ?thesis using assms(1) True e by (simp add: retainRetiredFromKeyPair_def Let_def)
next
  case False
  then have no: "\<not> (\<exists>r\<in>set (retiredKeys True st addr). bytesEqual (rk_x25519Public r) (x25519Public kp))"
    by (metis bytesEqual_iff image_eqI)
  let ?e = "\<lparr>generation = length (retiredKeys True st addr), rk_x25519Public = x25519Public kp,
    rk_x25519Derive = x25519Private kp, rk_aliasRoot = root, rk_retiredAt = at\<rparr>"
  have st': "st' = AList.update (retiredRef addr) (retiredKeys True st addr @ [?e]) st"
    using assms(2,3) no
    by (simp add: retainRetiredFromKeyPair_def Let_def importX25519PrivateKey_def pkcs8Of_def del: bytesEqual_iff)
  then have "retiredKeys True st' addr = retiredKeys True st addr @ [?e]" by (simp add: retiredKeys_def)
  moreover have "ring_ok (retiredKeys True st addr @ [?e])" using assms(1) False by (intro ring_ok_snoc) auto
  ultimately show ?thesis by (simp add: retainRetiredFromKeyPair_def Let_def)
qed

definition demo_kp :: "nat \<Rightarrow> IdentityKeyPair" where
  "demo_kp n =
     \<lparr>ed25519Public = replicate 32 (word_of_nat n),
      ed25519Private = replicate 32 (word_of_nat n) @ replicate 32 (word_of_nat n),
      x25519Public = replicate 32 (word_of_nat (n + 100)), x25519Private = replicate 32 (word_of_nat (n + 100)),
      kp_deviceId = [], kp_createdAt = 0\<rparr>"

theorem retain_keeps_ring_witness:
  "\<exists>st'. retainRetiredFromKeyPair True [] ''a@b'' (demo_kp 1) None 7 = Some st'
     \<and> ring_ok (retiredKeys True st' ''a@b'')
     \<and> retainRetiredFromKeyPair True st' ''a@b'' (demo_kp 1) None 8 = Some st'"
proof -
  obtain st' where st': "retainRetiredFromKeyPair True [] ''a@b'' (demo_kp 1) None 7 = Some st'"
    by (simp add: retainRetiredFromKeyPair_def Let_def importX25519PrivateKey_def pkcs8Of_def retiredKeys_def demo_kp_def)
  have "ring_ok (retiredKeys True [] ''a@b'')" "length (x25519Private (demo_kp 1)) \<le> 32"
    by (simp_all add: ring_ok_def retiredKeys_def demo_kp_def)
  from retain_keeps_ring [OF this st', of None 8] st' show ?thesis by auto
qed

text \<open>
  C31. A read of the ring that fails is taken for an empty ring, so retaining a generation while the
  read fails and the write succeeds replaces the whole ring by that one generation, numbered 0: every
  generation kept before is lost.
\<close>

theorem unreadable_ring_is_overwritten:
  assumes "length (x25519Private kp) \<le> 32"
  shows "\<exists>st' r. retainRetiredFromKeyPair False st addr kp root at = Some st'
           \<and> retiredKeys True st' addr = [r] \<and> generation r = 0 \<and> rk_x25519Public r = x25519Public kp"
  using assms
  by (simp add: retainRetiredFromKeyPair_def Let_def retiredKeys_def importX25519PrivateKey_def pkcs8Of_def)

theorem unreadable_ring_is_overwritten_witness:
  "\<exists>st' r. retainRetiredFromKeyPair False
       [(''retired-keys:a@b'', [\<lparr>generation = 0, rk_x25519Public = [1], rk_x25519Derive = [2],
          rk_aliasRoot = None, rk_retiredAt = 3\<rparr>])] ''a@b'' (demo_kp 1) None 7 = Some st'
     \<and> retiredKeys True st' ''a@b'' = [r] \<and> rk_x25519Public r \<noteq> [1]"
proof -
  have "length (x25519Private (demo_kp 1)) \<le> 32" "x25519Public (demo_kp 1) \<noteq> [1]"
    by (simp_all add: demo_kp_def numeral_eq_Suc)
  with unreadable_ring_is_overwritten [of "demo_kp 1"] show ?thesis by metis
qed

text \<open>
  A generated keypair has the layout the Go side expects: from a PKCS8 export with the standard
  prefix, the private signing key is the 32-byte seed followed by the public key, so that its first 32
  bytes sign and its last 32 are the public key; the mailbox private key is the exported scalar; and
  the device id is 16 bytes with the version and variant bits of a version 4 UUID.
\<close>

lemma generated_keypair_layout:
  fixes xpub :: bytes and now :: nat
  assumes "length seed = 32" and "length xpriv = 32" and "length rnd = 16" and "length pub = 32"
  defines "kp \<equiv> generateIdentityKeyPair (ED25519_PKCS8_PREFIX @ seed) pub (X25519_PKCS8_PREFIX @ xpriv) xpub rnd now"
  shows "take 32 (ed25519Private kp) = seed \<and> drop 32 (ed25519Private kp) = ed25519Public kp
       \<and> length (ed25519Private kp) = 64 \<and> x25519Private kp = xpriv
       \<and> importEd25519PrivateKey (take 32 (ed25519Private kp)) = Some (ED25519_PKCS8_PREFIX @ seed)
       \<and> length (kp_deviceId kp) = 16
       \<and> drop_bit 4 (kp_deviceId kp ! 6) = 4 \<and> drop_bit 6 (kp_deviceId kp ! 8) = 2"
proof -
  have p: "length ED25519_PKCS8_PREFIX = 16" "length X25519_PKCS8_PREFIX = 16"
    by (simp_all add: ED25519_PKCS8_PREFIX_def X25519_PKCS8_PREFIX_def)
  have "drop_bit 4 (or (and b 0x0f) 0x40) = (4::byte)" "drop_bit 6 (or (and b 0x3f) 0x80) = (2::byte)" for b :: byte
    by (rule bit_word_eqI; simp add: bit_simps bit_numeral_rec)+
  then show ?thesis using assms(1-4) p
    by (simp add: kp_def generateIdentityKeyPair_def extractEd25519Seed_def extractX25519Private_def
        importEd25519PrivateKey_def pkcs8Of_def uuid4_def Let_def nth_list_update)
qed

lemma generated_keypair_layout_witness:
  "ed25519Private (generateIdentityKeyPair (ED25519_PKCS8_PREFIX @ replicate 32 5) (replicate 32 6)
      (X25519_PKCS8_PREFIX @ replicate 32 7) (replicate 32 8) (replicate 16 255) 9000) = replicate 32 5 @ replicate 32 6"
proof -
  let ?kp = "generateIdentityKeyPair (ED25519_PKCS8_PREFIX @ replicate 32 5) (replicate 32 6)
      (X25519_PKCS8_PREFIX @ replicate 32 7) (replicate 32 8) (replicate 16 255) 9000"
  have "take 32 (ed25519Private ?kp) = replicate 32 5 \<and> drop 32 (ed25519Private ?kp) = ed25519Public ?kp"
    using generated_keypair_layout [of "replicate 32 5" "replicate 32 7" "replicate 16 255" "replicate 32 6"] by simp
  moreover have "ed25519Public ?kp = replicate 32 6" by (simp add: generateIdentityKeyPair_def)
  ultimately show ?thesis using append_take_drop_id [of 32 "ed25519Private ?kp"] by metis
qed

end
