(* ===== verification/Rotation.thy ===== *)
theory Rotation
  imports Rotation_Verify Keys
begin

section \<open>The re-key ceremony\<close>

text \<open>
  \<open>lib/crypto/rotation.ts\<close>: building and signing the rotated record (\<open>signRotation\<close>, \<open>signCompromise\<close>),
  and the ceremony around it (\<open>runRotation\<close>, \<open>finishRotation\<close>, \<open>resumeRotation\<close>). The generated keypair
  and the clock are arguments, since the source takes them from the platform; the codecs are parameters.
  The injected \<open>RotationSteps\<close> are a record of which optional steps the deployment supplies, an oracle
  that decides whether a call succeeds from everything that happened before it, and the answers of the
  two steps that return something. Every call and every stage report is appended to a trace.
\<close>

datatype RotationSeverity = Routine | Compromised

record RemovalState =
  rs_revision :: nat
  rs_removedBindings :: "RemovedBinding list"

record CompromiseDeclaration =
  cd_address :: string
  cd_removal :: bytes

record RecordState =
  st_version :: nat
  st_revision :: nat
  st_createdAt :: nat
  st_expiresAt :: nat
  st_verificationTier :: nat
  st_requireOnion :: bool
  st_rotationChain :: "RotationEntryWire list"
  st_recoveryEd25519PublicKey :: "bytes option"
  st_forwardTo :: "string option"

record SiblingInput =
  si_address :: string
  si_record :: RecordState
  si_priorHistory :: "RotationEntryWire list"
  si_priorRemoval :: "RemovalState option"

record RotatedSibling =
  sib_address :: string
  sib_record :: bytes
  sib_history :: bytes

text \<open>The enrolled device: its public key, and a signer that may throw.\<close>

record RotationDevice =
  dev_publicKey :: bytes
  dev_sign :: "bytes \<Rightarrow> bytes option"

record RotationInputs =
  in_address :: string
  in_device :: RotationDevice
  in_outgoingAliasRoot :: "bytes option"
  in_current :: IdentityKeyPair
  in_currentRecord :: RecordState
  in_severity :: RotationSeverity
  in_priorRemoval :: "RemovalState option"
  in_deviceCredential :: bytes
  in_priorHistory :: "RotationEntryWire list"
  in_siblings :: "SiblingInput list"

record RotatedRecord =
  rr_next :: IdentityKeyPair
  rr_record :: bytes
  rr_selfSignature :: bytes
  rr_entry :: RotationEntryWire
  rr_history :: bytes
  rr_siblings :: "RotatedSibling list"
  rr_compromise :: "CompromiseDeclaration list"
  rr_rotatedAt :: nat

datatype rotation_error =
    NoAttestation
  | MalformedCredential
  | DeviceRefused
  | PriorEntryUnsigned

subsection \<open>Signing\<close>

definition prefixed :: "bytes \<Rightarrow> bytes \<Rightarrow> bytes" where
  "prefixed ctx body = ctx @ body"

definition domainOf :: "string \<Rightarrow> string" where
  "domainOf addr = (case indexOf (CHR ''@'') addr of None \<Rightarrow> addr | Some i \<Rightarrow> drop (i + 1) addr)"

definition historyObj :: "string \<Rightarrow> RotationEntryWire list \<Rightarrow> (string \<times> jsval) list" where
  "historyObj addr chain =
    [(''version'', JNum 1), (''domain'', JStr (domainOf addr)), (''address'', JStr addr),
     (''chain'', JArr (map (\<lambda>e. JObj (entryObj e)) chain))]"

definition encodeAddressHistory :: "codec \<Rightarrow> (string \<times> jsval) list \<Rightarrow> bytes" where
  "encodeAddressHistory enc h = enc ''dmcn.identity.AddressHistoryRecord'' (canonical (JObj h))"

definition encodeHistory :: "codec \<Rightarrow> string \<Rightarrow> RotationEntryWire list \<Rightarrow> bytes" where
  "encodeHistory enc addr chain = encodeAddressHistory enc (historyObj addr chain)"

text \<open>The removal record \<open>signCompromise\<close> signs, when there is one to sign.\<close>

definition compromiseRecord :: "string \<Rightarrow> RemovalState option \<Rightarrow> bytes \<Rightarrow> nat \<Rightarrow> RemovalRecordFields option" where
  "compromiseRecord addr prior retired at =
     (let bindings = (case prior of None \<Rightarrow> [] | Some p \<Rightarrow> rs_removedBindings p) in
      if \<exists>b\<in>set bindings. bytesEqual (rb_ed25519PublicKey b) retired then None
      else Some \<lparr>rm_version = 1, rm_domain = domainOf addr, rm_address = addr,
                 removedBindings = bindings @ [\<lparr>rb_ed25519PublicKey = retired, rb_removedAt = at\<rparr>],
                 rm_revision = (case prior of None \<Rightarrow> 0 | Some p \<Rightarrow> rs_revision p) + 1,
                 rm_createdAt = at\<rparr>)"

definition signCompromise ::
    "webcrypto \<Rightarrow> codec \<Rightarrow> string \<Rightarrow> RemovalState option \<Rightarrow> bytes \<Rightarrow> IdentityKeyPair \<Rightarrow> nat \<Rightarrow> bytes option" where
  "signCompromise cr enc addr prior retired nxt at =
     (case compromiseRecord addr prior retired at of
        None \<Rightarrow> None
      | Some base \<Rightarrow>
          let selfSignature = ed25519_sign cr (take 32 (ed25519Private nxt))
                                (removalSigningBytes (encodeRemovalSignableBytes enc base))
          in Some (encodeRemovalRecord enc base selfSignature))"

text \<open>The unsigned entry of \<open>rekey\<close>.\<close>

definition baseEntry ::
    "IdentityKeyPair \<Rightarrow> IdentityKeyPair \<Rightarrow> nat \<Rightarrow> Credential \<Rightarrow> string \<Rightarrow> RecordState \<Rightarrow> bytes option \<Rightarrow> RotationEntryWire" where
  "baseEntry cur nxt at cred addr state prevHash =
     \<lparr>re_version = 1, re_address = addr,
      retiredEd25519PublicKey = Some (ed25519Public cur), retiredX25519PublicKey = Some (x25519Public cur),
      nextEd25519PublicKey = Some (ed25519Public nxt), nextX25519PublicKey = Some (x25519Public nxt),
      rotatedAt = at, nextRevision = st_revision state + 1, prevSignatureHash = prevHash,
      authorizingEd25519PublicKey = Some (ed25519Public cur), deviceCredential = Some cred,
      deviceSignature = None, signature = None, nextSignature = None\<rparr>"

text \<open>\<open>[...prior, entry].slice(-MAX_ROTATION_CHAIN)\<close>.\<close>

definition capChain :: "RotationEntryWire list \<Rightarrow> RotationEntryWire list" where
  "capChain chain = drop (length chain - MAX_ROTATION_CHAIN) chain"

definition baseRecord :: "string \<Rightarrow> IdentityKeyPair \<Rightarrow> RecordState \<Rightarrow> RotationEntryWire \<Rightarrow> IdentityRecord" where
  "baseRecord addr nxt state entry =
     \<lparr>ir_version = st_version state, ir_address = addr,
      ir_ed25519PublicKey = Some (ed25519Public nxt), ir_x25519PublicKey = Some (x25519Public nxt),
      ir_createdAt = st_createdAt state, ir_expiresAt = st_expiresAt state, ir_relayHints = [],
      ir_verificationTier = st_verificationTier state, ir_requireOnion = st_requireOnion state,
      ir_revision = st_revision state + 1, ir_rotationChain = capChain (st_rotationChain state @ [entry]),
      ir_recoveryEd25519PublicKey = st_recoveryEd25519PublicKey state, ir_forwardTo = st_forwardTo state,
      ir_selfSignature = None\<rparr>"

text \<open>
  \<open>rekey\<close> of one address. The result is the entry and the signed record as a structure;
  \<open>encodeIdentityRecord\<close> of its object is what the source returns.
\<close>

definition rekey ::
    "webcrypto \<Rightarrow> codec \<Rightarrow> RotationDevice \<Rightarrow> IdentityKeyPair \<Rightarrow> IdentityKeyPair \<Rightarrow> nat \<Rightarrow> Credential \<Rightarrow>
     string \<Rightarrow> RecordState \<Rightarrow> rotation_error + (RotationEntryWire \<times> IdentityRecord)" where
  "rekey cr enc device cur nxt at cred addr state =
     (let prior = st_rotationChain state in
      case (if prior \<noteq> []
            then (case signature (prior ! (length prior - 1)) of
                    None \<Rightarrow> Inl PriorEntryUnsigned
                  | Some s \<Rightarrow> Inr (Some (digest_sha256 cr s)))
            else Inr None) of
        Inl e \<Rightarrow> Inl e
      | Inr prevHash \<Rightarrow>
          let e0 = baseEntry cur nxt at cred addr state prevHash in
          (case dev_sign device (prefixed ROTATION_DEVICE_CTX (encodeRotationDeviceBytes enc e0)) of
             None \<Rightarrow> Inl DeviceRefused
           | Some ds \<Rightarrow>
               let e1 = e0\<lparr>deviceSignature := Some ds\<rparr>;
                   e2 = e1\<lparr>signature := Some (ed25519_sign cr (take 32 (ed25519Private cur))
                              (prefixed ROTATION_CTX (encodeRotationConsentBytes enc e1)))\<rparr>;
                   e3 = e2\<lparr>nextSignature := Some (ed25519_sign cr (take 32 (ed25519Private nxt))
                              (prefixed ROTATION_ACCEPT_CTX (encodeRotationAcceptBytes enc e2)))\<rparr>;
                   base = baseRecord addr nxt state e3;
                   self = signSelfSignature cr (take 32 (ed25519Private nxt))
                            (encodeIdentitySignableBytes enc (identityObj base))
               in Inr (e3, base\<lparr>ir_selfSignature := Some self\<rparr>)))"

fun rekeySiblings ::
    "webcrypto \<Rightarrow> codec \<Rightarrow> RotationDevice \<Rightarrow> IdentityKeyPair \<Rightarrow> IdentityKeyPair \<Rightarrow> nat \<Rightarrow> Credential \<Rightarrow>
     SiblingInput list \<Rightarrow> rotation_error + RotatedSibling list" where
  "rekeySiblings cr enc device cur nxt at cred [] = Inr []"
| "rekeySiblings cr enc device cur nxt at cred (sib # rest) =
     (case rekey cr enc device cur nxt at cred (si_address sib) (si_record sib) of
        Inl e \<Rightarrow> Inl e
      | Inr (entry, rec) \<Rightarrow>
          (case rekeySiblings cr enc device cur nxt at cred rest of
             Inl e \<Rightarrow> Inl e
           | Inr out \<Rightarrow>
               Inr (\<lparr>sib_address = si_address sib, sib_record = encodeIdentityRecord enc (identityObj rec),
                     sib_history = encodeHistory enc (si_address sib) (si_priorHistory sib @ [entry])\<rparr> # out)))"

definition compromiseList ::
    "webcrypto \<Rightarrow> codec \<Rightarrow> bytes \<Rightarrow> IdentityKeyPair \<Rightarrow> nat \<Rightarrow> (string \<times> RemovalState option) list \<Rightarrow> CompromiseDeclaration list" where
  "compromiseList cr enc retired nxt at addrs =
     List.map_filter (\<lambda>(addr, prior).
       map_option (\<lambda>r. \<lparr>cd_address = addr, cd_removal = r\<rparr>) (signCompromise cr enc addr prior retired nxt at)) addrs"

definition signRotation ::
    "webcrypto \<Rightarrow> codec \<Rightarrow> (bytes \<Rightarrow> Credential option) \<Rightarrow> IdentityKeyPair \<Rightarrow> nat \<Rightarrow> RotationInputs \<Rightarrow>
     rotation_error + RotatedRecord" where
  "signRotation cr enc decodeCredential nxt now_ms inputs =
     (if length (in_deviceCredential inputs) = 0 then Inl NoAttestation
      else
        let at = now_ms div 1000; cur = in_current inputs; device = in_device inputs in
        case decodeCredential (in_deviceCredential inputs) of
          None \<Rightarrow> Inl MalformedCredential
        | Some cred \<Rightarrow>
            (case rekey cr enc device cur nxt at cred (in_address inputs) (in_currentRecord inputs) of
               Inl e \<Rightarrow> Inl e
             | Inr (entry, rec) \<Rightarrow>
                 (case rekeySiblings cr enc device cur nxt at cred (in_siblings inputs) of
                    Inl e \<Rightarrow> Inl e
                  | Inr sibs \<Rightarrow>
                      Inr \<lparr>rr_next = nxt,
                           rr_record = encodeIdentityRecord enc (identityObj rec),
                           rr_selfSignature = opt_bytes (ir_selfSignature rec),
                           rr_entry = entry,
                           rr_history = encodeHistory enc (in_address inputs) (in_priorHistory inputs @ [entry]),
                           rr_siblings = sibs,
                           rr_compromise =
                             (if in_severity inputs = Compromised
                              then compromiseList cr enc (ed25519Public cur) nxt at
                                     ((in_address inputs, in_priorRemoval inputs)
                                      # map (\<lambda>s. (si_address s, si_priorRemoval s)) (in_siblings inputs))
                              else []),
                           rr_rotatedAt = at\<rparr>)))"

subsection \<open>What signing guarantees\<close>

definition keypair_ok :: "webcrypto \<Rightarrow> IdentityKeyPair \<Rightarrow> bool" where
  "keypair_ok cr kp \<longleftrightarrow> 32 \<le> length (ed25519Private kp) \<and> ed25519Public kp = ed25519_public cr (take 32 (ed25519Private kp))"

definition device_ok :: "webcrypto \<Rightarrow> RotationDevice \<Rightarrow> Credential \<Rightarrow> bool" where
  "device_ok cr device cred \<longleftrightarrow>
     (\<exists>seed. length seed = 32 \<and> subject cred = Some (ed25519_public cr seed)
        \<and> (\<forall>d. dev_sign device d = Some (ed25519_sign cr seed d)))"

definition sha256_laws :: "webcrypto \<Rightarrow> bool" where
  "sha256_laws cr \<longleftrightarrow> (\<forall>b. length (digest_sha256 cr b) = 32)"

text \<open>What the ceremony reads from the record the directory holds.\<close>

definition stateOf :: "IdentityRecord \<Rightarrow> RecordState" where
  "stateOf r =
     \<lparr>st_version = ir_version r, st_revision = ir_revision r, st_createdAt = ir_createdAt r,
      st_expiresAt = ir_expiresAt r, st_verificationTier = ir_verificationTier r,
      st_requireOnion = ir_requireOnion r, st_rotationChain = ir_rotationChain r,
      st_recoveryEd25519PublicKey = ir_recoveryEd25519PublicKey r, st_forwardTo = ir_forwardTo r\<rparr>"

text \<open>The account the outgoing keypair holds: its record verifies, names the keypair and is older than \<open>at\<close>.\<close>

definition holds_record :: "webcrypto \<Rightarrow> codec \<Rightarrow> IdentityKeyPair \<Rightarrow> nat \<Rightarrow> IdentityRecord \<Rightarrow> bool" where
  "holds_record cr enc cur at r \<longleftrightarrow>
     ir_address r \<noteq> [] \<and> ir_ed25519PublicKey r = Some (ed25519Public cur) \<and> ir_x25519PublicKey r = Some (x25519Public cur)
     \<and> verifyRecordChain cr enc r = None \<and> (\<forall>e\<in>set (ir_rotationChain r). rotatedAt e < at)"

lemma keypair_sign_verifies:
  "ed25519_laws cr \<Longrightarrow> keypair_ok cr kp \<Longrightarrow>
   verifyCtx cr (Some (ed25519Public kp)) ctx body (Some (ed25519_sign cr (take 32 (ed25519Private kp)) (ctx @ body)))"
  using verifyCtx_sign [of cr "take 32 (ed25519Private kp)"] by (simp add: keypair_ok_def)

lemma keypair_public_length: "ed25519_laws cr \<Longrightarrow> keypair_ok cr kp \<Longrightarrow> length (ed25519Public kp) = 32"
  by (simp add: keypair_ok_def ed25519_laws_def)

lemma signable_ignores_selfSignature:
  "encodeIdentitySignableBytes enc (identityObj (r\<lparr>ir_selfSignature := g\<rparr>)) = encodeIdentitySignableBytes enc (identityObj r)"
proof -
  have "pickOwn (identityObj (r\<lparr>ir_selfSignature := g\<rparr>)) IDENTITY_SIGNED_FIELDS = pickOwn (identityObj r) IDENTITY_SIGNED_FIELDS"
    by (simp add: pickOwn_def List.map_filter_simps IDENTITY_SIGNED_FIELDS_def identityObj_def)
  then show ?thesis by (simp add: encodeIdentitySignableBytes_def)
qed

lemma entry_signed: "verifyRotationEntry cr enc e = None \<Longrightarrow> \<exists>g. signature e = Some g \<and> g \<noteq> []"
  using verifyRotationEntry_NoneD(1) [of cr enc e]
  by (cases "signature e") (auto simp: verifyCtx_def opt_length_def)

text \<open>The three signing steps of \<open>rekey\<close>, as one function of the unsigned entry.\<close>

definition nestSign ::
    "webcrypto \<Rightarrow> codec \<Rightarrow> IdentityKeyPair \<Rightarrow> IdentityKeyPair \<Rightarrow> bytes \<Rightarrow> RotationEntryWire \<Rightarrow> RotationEntryWire" where
  "nestSign cr enc cur nxt ds e =
     sign_entry cr enc (take 32 (ed25519Private cur)) (take 32 (ed25519Private nxt)) (e\<lparr>deviceSignature := Some ds\<rparr>)"

definition priorHash :: "webcrypto \<Rightarrow> RotationEntryWire list \<Rightarrow> bytes option" where
  "priorHash cr prior = (if prior = [] then None else Some (sha256 cr (signature (last prior))))"

lemma rekey_eq:
  assumes "\<forall>e\<in>set (st_rotationChain state). signature e \<noteq> None"
  shows "rekey cr enc device cur nxt at cred addr state =
    (let e0 = baseEntry cur nxt at cred addr state (priorHash cr (st_rotationChain state)) in
     case dev_sign device (ROTATION_DEVICE_CTX @ encodeRotationDeviceBytes enc e0) of
       None \<Rightarrow> Inl DeviceRefused
     | Some ds \<Rightarrow>
         let base = baseRecord addr nxt state (nestSign cr enc cur nxt ds e0)
         in Inr (nestSign cr enc cur nxt ds e0,
                 base\<lparr>ir_selfSignature := Some (signSelfSignature cr (take 32 (ed25519Private nxt))
                                  (encodeIdentitySignableBytes enc (identityObj base)))\<rparr>))"
proof (cases "st_rotationChain state = []")
  case True
  then show ?thesis
    by (simp add: rekey_def priorHash_def Let_def nestSign_def sign_entry_def prefixed_def split: option.splits)
next
  case False
  then obtain g where "signature (last (st_rotationChain state)) = Some g" using assms last_in_set by blast
  with False show ?thesis
    by (simp add: rekey_def priorHash_def sha256_def opt_bytes_def last_conv_nth Let_def nestSign_def sign_entry_def
        prefixed_def split: option.splits)
qed

text \<open>The entry \<open>rekey\<close> signs verifies, and links to the chain it extends.\<close>

lemma nestSign_ok:
  assumes "ed25519_laws cr" "keypair_ok cr cur" "keypair_ok cr nxt"
    "ed25519Public cur \<noteq> ed25519Public nxt" "x25519Public cur \<noteq> x25519Public nxt"
    "addr \<noteq> []" "at \<noteq> 0" "opt_length ph \<in> {0, 32}" "length seed = 32" "subject cred = Some (ed25519_public cr seed)"
  shows "verifyRotationEntry cr enc (nestSign cr enc cur nxt
           (ed25519_sign cr seed (ROTATION_DEVICE_CTX @ encodeRotationDeviceBytes enc (baseEntry cur nxt at cred addr state ph)))
           (baseEntry cur nxt at cred addr state ph)) = None"
  unfolding nestSign_def
proof (rule sign_entry_ok [OF assms(1)], goal_cases)
  case 13
  have "encodeRotationDeviceBytes enc (baseEntry cur nxt at cred addr state ph\<lparr>deviceSignature := Some d\<rparr>)
      = encodeRotationDeviceBytes enc (baseEntry cur nxt at cred addr state ph)" for d
    by (rule signed_bytes_ignore)
  then show ?case using verifyCtx_sign [OF assms(1,9)] assms(10) by (simp add: baseEntry_def)
qed (use assms keypair_public_length [OF assms(1)] in \<open>auto simp: baseEntry_def keypair_ok_def opt_length_def\<close>)

lemma nestSign_linked:
  assumes "nextEd25519PublicKey p = Some (ed25519Public cur)" "nextX25519PublicKey p = Some (x25519Public cur)"
    "rotatedAt p < at" "nextRevision p \<le> st_revision state"
  shows "linked cr p (nestSign cr enc cur nxt ds (baseEntry cur nxt at cred addr state (Some (sha256 cr (signature p)))))"
  by (rule linkedI) (use assms in \<open>simp_all add: nestSign_def baseEntry_def\<close>)

lemma priorHash_length: "sha256_laws cr \<Longrightarrow> opt_length (priorHash cr prior) \<in> {0, 32}"
  by (simp add: priorHash_def opt_length_def sha256_def sha256_laws_def)

lemma chainOk_capChain: "chainOk cr enc addr chain \<Longrightarrow> chainOk cr enc addr (capChain chain)"
  unfolding capChain_def by (rule chainOk_drop)

lemma capChain_snoc: "\<exists>pre. capChain (prior @ [e]) = pre @ [e]" "length (capChain chain) \<le> MAX_ROTATION_CHAIN"
  by (auto simp: capChain_def MAX_ROTATION_CHAIN_def)

text \<open>The parties of a ceremony, as every property below assumes them.\<close>

definition ceremony_ok ::
    "webcrypto \<Rightarrow> RotationDevice \<Rightarrow> Credential \<Rightarrow> IdentityKeyPair \<Rightarrow> IdentityKeyPair \<Rightarrow> bool" where
  "ceremony_ok cr device cred cur nxt \<longleftrightarrow>
     ed25519_laws cr \<and> sha256_laws cr \<and> keypair_ok cr cur \<and> keypair_ok cr nxt \<and> device_ok cr device cred
     \<and> ed25519Public cur \<noteq> ed25519Public nxt \<and> x25519Public cur \<noteq> x25519Public nxt"

lemma holds_record_signed:
  "holds_record cr enc cur at r \<Longrightarrow> \<forall>e\<in>set (st_rotationChain (stateOf r)). signature e \<noteq> None"
proof
  fix e
  assume h: "holds_record cr enc cur at r" and "e \<in> set (st_rotationChain (stateOf r))"
  then have e: "e \<in> set (ir_rotationChain r)" by (simp add: stateOf_def)
  then have "chainOk cr enc (ir_address r) (ir_rotationChain r)"
    using h unfolding holds_record_def verifyRecordChain_None by auto
  from chainOk_entries [OF this e] show "signature e \<noteq> None" using entry_signed unfolding entryOk_def by blast
qed

lemma rekey_entry_ok:
  assumes c: "ceremony_ok cr device cred cur nxt" and "holds_record cr enc cur at r" "at \<noteq> 0"
  obtains ds where
    "rekey cr enc device cur nxt at cred (ir_address r) (stateOf r) =
       (let e0 = baseEntry cur nxt at cred (ir_address r) (stateOf r) (priorHash cr (ir_rotationChain r));
            base = baseRecord (ir_address r) nxt (stateOf r) (nestSign cr enc cur nxt ds e0)
        in Inr (nestSign cr enc cur nxt ds e0,
             base\<lparr>ir_selfSignature := Some (signSelfSignature cr (take 32 (ed25519Private nxt))
                                  (encodeIdentitySignableBytes enc (identityObj base)))\<rparr>))"
    "entryOk cr enc (ir_address r)
       (nestSign cr enc cur nxt ds (baseEntry cur nxt at cred (ir_address r) (stateOf r) (priorHash cr (ir_rotationChain r))))"
proof -
  let ?e = "baseEntry cur nxt at cred (ir_address r) (stateOf r) (priorHash cr (ir_rotationChain r))"
  obtain seed where seed: "length seed = 32" "subject cred = Some (ed25519_public cr seed)"
      "\<And>d. dev_sign device d = Some (ed25519_sign cr seed d)"
    using c by (auto simp: ceremony_ok_def device_ok_def)
  let ?ds = "ed25519_sign cr seed (ROTATION_DEVICE_CTX @ encodeRotationDeviceBytes enc ?e)"
  have "verifyRotationEntry cr enc (nestSign cr enc cur nxt ?ds ?e) = None"
    by (rule nestSign_ok) (use assms seed priorHash_length in \<open>auto simp: ceremony_ok_def holds_record_def\<close>)
  then have "entryOk cr enc (ir_address r) (nestSign cr enc cur nxt ?ds ?e)"
    by (simp add: entryOk_def nestSign_def baseEntry_def)
  moreover have "st_rotationChain (stateOf r) = ir_rotationChain r" by (simp add: stateOf_def)
  ultimately show thesis
    using that rekey_eq [OF holds_record_signed [OF assms(2)], of cr enc device cur nxt at cred "ir_address r"] seed(3)
    by (simp add: Let_def)
qed

lemma rekey_chain_ok:
  assumes "holds_record cr enc cur at r"
    and "entryOk cr enc (ir_address r)
       (nestSign cr enc cur nxt ds (baseEntry cur nxt at cred (ir_address r) (stateOf r) (priorHash cr (ir_rotationChain r))))"
  shows "chainOk cr enc (ir_address r) (ir_rotationChain r @
       [nestSign cr enc cur nxt ds (baseEntry cur nxt at cred (ir_address r) (stateOf r) (priorHash cr (ir_rotationChain r)))])"
proof (cases "ir_rotationChain r = []")
  case False
  then have "linked cr (last (ir_rotationChain r))
      (nestSign cr enc cur nxt ds (baseEntry cur nxt at cred (ir_address r) (stateOf r) (priorHash cr (ir_rotationChain r))))"
    using assms(1) unfolding priorHash_def
    by (auto simp: holds_record_def verifyRecordChain_None sameBytes_iff stateOf_def intro!: nestSign_linked)
  with False assms show ?thesis
    by (auto simp: chainOk_append holds_record_def verifyRecordChain_None)
qed (use assms in simp)

lemma signSelfSignature_verifies:
  assumes "ed25519_laws cr" "keypair_ok cr kp"
  shows "verifySelfSignature cr (Some (ed25519Public kp)) d
           (Some (signSelfSignature cr (take 32 (ed25519Private kp)) d)) = Some True"
  using assms by (simp add: verifySelfSignature_def signSelfSignature_def keypair_ok_def ed25519_laws_def)

subsection \<open>Properties of signing\<close>

lemma rekey_record_verifies_lemma:
  assumes "ceremony_ok cr device cred cur nxt" and "holds_record cr enc cur at r" and "at \<noteq> 0"
  shows "\<exists>entry rec. rekey cr enc device cur nxt at cred (ir_address r) (stateOf r) = Inr (entry, rec)
       \<and> verifyRecordChain cr enc rec = None
       \<and> verifySelfSignature cr (ir_ed25519PublicKey rec) (encodeIdentitySignableBytes enc (identityObj rec))
             (ir_selfSignature rec) = Some True
       \<and> holds_record cr enc nxt (Suc at) rec
       \<and> ir_revision rec = Suc (ir_revision r) \<and> last (ir_rotationChain rec) = entry
       \<and> ir_version rec = ir_version r \<and> ir_createdAt rec = ir_createdAt r \<and> ir_expiresAt rec = ir_expiresAt r
       \<and> ir_verificationTier rec = ir_verificationTier r \<and> ir_requireOnion rec = ir_requireOnion r
       \<and> ir_recoveryEd25519PublicKey rec = ir_recoveryEd25519PublicKey r \<and> ir_forwardTo rec = ir_forwardTo r"
proof -
  obtain ds where rk: "rekey cr enc device cur nxt at cred (ir_address r) (stateOf r) =
       (let e0 = baseEntry cur nxt at cred (ir_address r) (stateOf r) (priorHash cr (ir_rotationChain r));
            base = baseRecord (ir_address r) nxt (stateOf r) (nestSign cr enc cur nxt ds e0)
        in Inr (nestSign cr enc cur nxt ds e0,
             base\<lparr>ir_selfSignature := Some (signSelfSignature cr (take 32 (ed25519Private nxt))
                                  (encodeIdentitySignableBytes enc (identityObj base)))\<rparr>))"
    and ok: "entryOk cr enc (ir_address r)
       (nestSign cr enc cur nxt ds (baseEntry cur nxt at cred (ir_address r) (stateOf r) (priorHash cr (ir_rotationChain r))))"
    using rekey_entry_ok [OF assms] .
  let ?e = "nestSign cr enc cur nxt ds (baseEntry cur nxt at cred (ir_address r) (stateOf r) (priorHash cr (ir_rotationChain r)))"
  let ?base = "baseRecord (ir_address r) nxt (stateOf r) ?e"
  let ?rec = "?base\<lparr>ir_selfSignature := Some (signSelfSignature cr (take 32 (ed25519Private nxt))
                                  (encodeIdentitySignableBytes enc (identityObj ?base)))\<rparr>"
  obtain pre where pre: "capChain (ir_rotationChain r @ [?e]) = pre @ [?e]" using capChain_snoc(1) by blast
  have ch: "chainOk cr enc (ir_address r) (pre @ [?e])"
    using chainOk_capChain [OF rekey_chain_ok [OF assms(2) ok]] pre by simp
  have rc: "ir_rotationChain ?rec = pre @ [?e]" using pre by (simp add: baseRecord_def stateOf_def)
  have vr: "verifyRecordChain cr enc ?rec = None"
    unfolding verifyRecordChain_None rc using ch capChain_snoc(2) [of "ir_rotationChain r @ [?e]"] pre
    by (simp add: baseRecord_def nestSign_def baseEntry_def sameBytes_iff stateOf_def)
  have "set (pre @ [?e]) \<subseteq> set (ir_rotationChain r @ [?e])"
    using set_drop_subset unfolding pre [symmetric] capChain_def by metis
  moreover have "rotatedAt ?e = at" by (simp add: nestSign_def baseEntry_def)
  ultimately have old: "\<forall>e\<in>set (pre @ [?e]). rotatedAt e < Suc at"
    using assms(2) unfolding holds_record_def by fastforce
  have hr: "holds_record cr enc nxt (Suc at) ?rec"
    unfolding holds_record_def rc using vr old assms(2) by (simp add: baseRecord_def holds_record_def)
  have ss: "verifySelfSignature cr (ir_ed25519PublicKey ?rec) (encodeIdentitySignableBytes enc (identityObj ?rec))
             (ir_selfSignature ?rec) = Some True"
    unfolding signable_ignores_selfSignature
    using signSelfSignature_verifies assms(1) by (simp add: baseRecord_def ceremony_ok_def)
  show ?thesis
    by (intro exI [of _ ?e] exI [of _ ?rec] conjI vr ss hr)
      (simp_all add: rk Let_def rc, simp_all add: baseRecord_def stateOf_def)
qed

text \<open>
  C1. A re-key produces a record the network accepts. When the outgoing keypair holds an address whose
  record verifies, and the clock is past every earlier rotation, \<open>rekey\<close> succeeds and its record passes
  \<open>verifyRecordChain\<close> and carries a self-signature of the new key that verifies; the record names the new
  keys, its revision is one more, and every other field the owner signs (version, creation and expiry,
  tier, onion requirement, recovery key, forward) is inherited.
\<close>

theorem rekey_record_verifies:
  assumes "ceremony_ok cr device cred cur nxt" and "holds_record cr enc cur at r" and "at \<noteq> 0"
  shows "\<exists>entry rec. rekey cr enc device cur nxt at cred (ir_address r) (stateOf r) = Inr (entry, rec)
       \<and> verifyRecordChain cr enc rec = None
       \<and> verifySelfSignature cr (ir_ed25519PublicKey rec) (encodeIdentitySignableBytes enc (identityObj rec))
             (ir_selfSignature rec) = Some True
       \<and> holds_record cr enc nxt (Suc at) rec
       \<and> ir_revision rec = Suc (ir_revision r) \<and> last (ir_rotationChain rec) = entry
       \<and> ir_version rec = ir_version r \<and> ir_createdAt rec = ir_createdAt r \<and> ir_expiresAt rec = ir_expiresAt r
       \<and> ir_verificationTier rec = ir_verificationTier r \<and> ir_requireOnion rec = ir_requireOnion r
       \<and> ir_recoveryEd25519PublicKey rec = ir_recoveryEd25519PublicKey r \<and> ir_forwardTo rec = ir_forwardTo r"
  using assms by (rule rekey_record_verifies_lemma)

definition demo_device :: RotationDevice where
  "demo_device = \<lparr>dev_publicKey = demo_key 9, dev_sign = (\<lambda>d. Some (ed25519_sign demo_crypto (demo_key 9) d))\<rparr>"

definition demo_cred :: Credential where
  "demo_cred = \<lparr>subject = Some (demo_key 9), cred_msg = [1, 2, 3]\<rparr>"

definition demo_record :: IdentityRecord where
  "demo_record =
     \<lparr>ir_version = 1, ir_address = ''al@x.io'', ir_ed25519PublicKey = Some (demo_key 1),
      ir_x25519PublicKey = Some (demo_key 101), ir_createdAt = 1, ir_expiresAt = 0, ir_relayHints = [],
      ir_verificationTier = 2, ir_requireOnion = True, ir_revision = 1, ir_rotationChain = [],
      ir_recoveryEd25519PublicKey = None, ir_forwardTo = None, ir_selfSignature = None\<rparr>"

lemma demo_kp_ok: "keypair_ok demo_crypto (demo_kp n)"
  by (simp add: keypair_ok_def demo_kp_def demo_crypto_def)

lemma demo_ceremony_ok: "ceremony_ok demo_crypto demo_device demo_cred (demo_kp 1) (demo_kp 2)"
proof -
  have "demo_key 9 = ed25519_public demo_crypto (demo_key 9)" "length (demo_key 9) = 32"
    by (simp_all add: demo_key_def demo_crypto_def)
  then have "device_ok demo_crypto demo_device demo_cred"
    unfolding device_ok_def by (intro exI [of _ "demo_key 9"]) (simp add: demo_device_def demo_cred_def)
  then show ?thesis
    by (simp add: ceremony_ok_def demo_ed25519_laws demo_kp_ok sha256_laws_def)
      (simp add: demo_crypto_def demo_kp_def)
qed

lemma demo_holds: "holds_record demo_crypto demo_codec (demo_kp 1) 50 demo_record"
  by (simp add: holds_record_def demo_record_def demo_kp_def demo_key_def verifyRecordChain_def)

theorem rekey_record_verifies_witness:
  "\<exists>entry rec. rekey demo_crypto demo_codec demo_device (demo_kp 1) (demo_kp 2) 50 demo_cred
      ''al@x.io'' (stateOf demo_record) = Inr (entry, rec)
     \<and> verifyRecordChain demo_crypto demo_codec rec = None \<and> ir_requireOnion rec"
  using rekey_record_verifies [OF demo_ceremony_ok demo_holds] by (fastforce simp: demo_record_def)

lemma capChain_cap: "capChain (capChain chain @ [e]) = capChain (chain @ [e])"
  by (cases "length chain \<le> MAX_ROTATION_CHAIN") (simp_all add: capChain_def MAX_ROTATION_CHAIN_def Suc_diff_le [symmetric] not_le)

lemma capChain_eq_Nil: "capChain chain = [] \<longleftrightarrow> chain = []"
  by (cases chain) (auto simp: capChain_def MAX_ROTATION_CHAIN_def)

lemma last_capChain: "chain \<noteq> [] \<Longrightarrow> last (capChain chain) = last chain"
  by (simp add: capChain_def MAX_ROTATION_CHAIN_def last_drop)

text \<open>
  C23. The complete history keeps verifying as it grows, past the cap of the record's own chain: when the
  address's history verifies and the record carries its capped window, the history extended with the
  new entry verifies from the first rotation on, and the new record carries the capped window of it.
\<close>

theorem rekey_extends_history:
  assumes "ceremony_ok cr device cred cur nxt" and "holds_record cr enc cur at r" and "at \<noteq> 0"
    and "verifyHistory cr enc \<lparr>ah_address = ir_address r, ah_chain = prior\<rparr> (ir_address r) = None"
    and "ir_rotationChain r = capChain prior"
  shows "\<exists>entry rec. rekey cr enc device cur nxt at cred (ir_address r) (stateOf r) = Inr (entry, rec)
       \<and> verifyHistory cr enc \<lparr>ah_address = ir_address r, ah_chain = prior @ [entry]\<rparr> (ir_address r) = None
       \<and> ir_rotationChain rec = capChain (prior @ [entry])"
proof -
  obtain ds where rk: "rekey cr enc device cur nxt at cred (ir_address r) (stateOf r) =
       (let e0 = baseEntry cur nxt at cred (ir_address r) (stateOf r) (priorHash cr (ir_rotationChain r));
            base = baseRecord (ir_address r) nxt (stateOf r) (nestSign cr enc cur nxt ds e0)
        in Inr (nestSign cr enc cur nxt ds e0,
             base\<lparr>ir_selfSignature := Some (signSelfSignature cr (take 32 (ed25519Private nxt))
                                  (encodeIdentitySignableBytes enc (identityObj base)))\<rparr>))"
    and ok: "entryOk cr enc (ir_address r)
       (nestSign cr enc cur nxt ds (baseEntry cur nxt at cred (ir_address r) (stateOf r) (priorHash cr (ir_rotationChain r))))"
    using rekey_entry_ok [OF assms(1-3)] .
  let ?e = "nestSign cr enc cur nxt ds (baseEntry cur nxt at cred (ir_address r) (stateOf r) (priorHash cr (ir_rotationChain r)))"
  have "chainOk cr enc (ir_address r) (prior @ [?e])" and "\<not> chainTruncated (prior @ [?e])"
  proof -
    show "chainOk cr enc (ir_address r) (prior @ [?e])"
      using rekey_chain_ok [OF assms(2) ok] assms(4,5) ok capChain_eq_Nil [of prior] last_capChain [of prior]
      by (auto simp: chainOk_append verifyHistory_None)
    show "\<not> chainTruncated (prior @ [?e])"
    proof (cases prior)
      case Nil
      then have "prevSignatureHash ?e = None" using assms(5) by (simp add: nestSign_def baseEntry_def priorHash_def capChain_def)
      then show ?thesis using Nil by (simp add: chainTruncated_def opt_length_def)
    next
      case (Cons p ps)
      then show ?thesis using assms(4) by (simp add: verifyHistory_None chainTruncated_def)
    qed
  qed
  then have "verifyHistory cr enc \<lparr>ah_address = ir_address r, ah_chain = prior @ [?e]\<rparr> (ir_address r) = None"
    by (simp add: verifyHistory_None)
  moreover have "ir_rotationChain (baseRecord (ir_address r) nxt (stateOf r) ?e) = capChain (prior @ [?e])"
    using capChain_cap [of prior] assms(5) by (simp add: baseRecord_def stateOf_def)
  ultimately show ?thesis unfolding rk Let_def by simp
qed

theorem rekey_extends_history_witness:
  "\<exists>entry rec. rekey demo_crypto demo_codec demo_device (demo_kp 1) (demo_kp 2) 50 demo_cred
      ''al@x.io'' (stateOf demo_record) = Inr (entry, rec)
     \<and> verifyHistory demo_crypto demo_codec \<lparr>ah_address = ''al@x.io'', ah_chain = [entry]\<rparr> ''al@x.io'' = None"
proof -
  have a: "ir_address demo_record = ''al@x.io''" "ir_rotationChain demo_record = capChain []"
    by (simp_all add: demo_record_def capChain_def)
  have "verifyHistory demo_crypto demo_codec \<lparr>ah_address = ir_address demo_record, ah_chain = []\<rparr> (ir_address demo_record) = None"
    by (simp add: verifyHistory_None chainTruncated_def)
  from rekey_extends_history [OF demo_ceremony_ok demo_holds _ this a(2)] show ?thesis by (auto simp: a)
qed

text \<open>
  A compromise declaration only ever extends the tombstones an address has: the record it signs
  keeps every earlier binding in order, adds exactly the retired key, and advances the revision by one;
  its signature verifies under the key taking over; and once the retired key is covered, declaring it
  again signs nothing, so a resumed ceremony may repeat it.
\<close>

lemma compromise_appends:
  assumes "ed25519_laws cr" and "keypair_ok cr nxt"
    and "compromiseRecord addr prior retired at = Some base"
  shows "removedBindings base = (case prior of None \<Rightarrow> [] | Some p \<Rightarrow> rs_removedBindings p)
             @ [\<lparr>rb_ed25519PublicKey = retired, rb_removedAt = at\<rparr>]
       \<and> rm_revision base = Suc (case prior of None \<Rightarrow> 0 | Some p \<Rightarrow> rs_revision p)
       \<and> (\<exists>sig. signCompromise cr enc addr prior retired nxt at = Some (encodeRemovalRecord enc base sig)
             \<and> ed25519_verify cr (ed25519Public nxt) (removalSigningBytes (encodeRemovalSignableBytes enc base)) sig = Some True)
       \<and> signCompromise cr enc addr (Some \<lparr>rs_revision = rm_revision base, rs_removedBindings = removedBindings base\<rparr>)
             retired nxt at' = None"
proof -
  have verifies: "ed25519_verify cr (ed25519Public nxt) d (ed25519_sign cr (take 32 (ed25519Private nxt)) d) = Some True" for d
    using assms(1,2) by (simp add: ed25519_laws_def keypair_ok_def)
  have b: "removedBindings base = (case prior of None \<Rightarrow> [] | Some p \<Rightarrow> rs_removedBindings p)
             @ [\<lparr>rb_ed25519PublicKey = retired, rb_removedAt = at\<rparr>]"
    "rm_revision base = Suc (case prior of None \<Rightarrow> 0 | Some p \<Rightarrow> rs_revision p)"
    using assms(3) by (auto simp: compromiseRecord_def Let_def split: if_splits)
  then have "compromiseRecord addr (Some \<lparr>rs_revision = rm_revision base, rs_removedBindings = removedBindings base\<rparr>) retired at' = None"
    by (simp add: compromiseRecord_def)
  then show ?thesis using b assms(3) verifies by (auto simp: signCompromise_def Let_def)
qed

end
