(* ===== verification/Ceremony.thy ===== *)
theory Ceremony
  imports Rotation
begin

section \<open>The order of the re-key ceremony\<close>

text \<open>
  \<open>runRotation\<close>, \<open>finishRotation\<close> and \<open>resumeRotation\<close> of \<open>lib/crypto/rotation.ts\<close>. A ceremony is a
  sequence of calls of the injected steps. Each is recorded in a trace with whether it succeeded; a
  call that must succeed ends the ceremony when it throws, and one inside a \<open>try\<close> whose error is
  swallowed does not. Which calls throw is up to an oracle that sees the whole trace, so every
  interleaving of failures is covered.
\<close>

record FilterList =
  fl_allow_mode :: bool
  fl_domains :: "string list"
  fl_senders :: "string list"
  fl_allow_verified :: bool
  fl_sender_keys :: "string list"

definition emptyFilterList :: FilterList where
  "emptyFilterList = \<lparr>fl_allow_mode = False, fl_domains = [], fl_senders = [], fl_allow_verified = False, fl_sender_keys = []\<rparr>"

datatype RotationPhase = Signed | Published | Rekeyed

record RotationCheckpoint =
  cp_address :: string
  cp_phase :: RotationPhase
  cp_startedAt :: nat
  cp_oldEd25519Public :: bytes
  cp_newEd25519Public :: bytes
  cp_mailFilter :: "FilterList option"
  cp_compromise :: "CompromiseDeclaration list option"

datatype RotationStage = Signing | Publishing | RekeyingMailbox | SwappingKeys | RestoringSession | Done

datatype step =
    Stage RotationStage
  | StampGenerations
  | ReadMailFilter
  | StageKeys string IdentityKeyPair
  | SaveCheckpoint RotationCheckpoint
  | Publish bytes bytes "RotatedSibling list"
  | AskPublished string bytes
  | DeclareStolen "CompromiseDeclaration list"
  | RenameMailbox IdentityKeyPair
  | TearDownPush
  | RetainRetired string IdentityKeyPair "bytes option" nat
  | CommitKeys string IdentityKeyPair
  | ReestablishSessions string IdentityKeyPair
  | WriteMailFilter FilterList IdentityKeyPair
  | DetachSharedUnlock string
  | ResealStorage IdentityKeyPair
  | ClearCheckpoint string

type_synonym trace = "(step \<times> bool) list"

text \<open>
  The injected steps: which optional ones exist, whether a call succeeds after a trace, what
  \<open>readMailFilter\<close> answers, and what the directory answers to \<open>published\<close>.
\<close>

record RotationSteps =
  has_stampGenerations :: bool
  has_declareStolen :: bool
  has_readMailFilter :: bool
  has_writeMailFilter :: bool
  has_published :: bool
  has_resealStorage :: bool
  succeeds :: "trace \<Rightarrow> step \<Rightarrow> bool"
  filterAnswer :: "FilterList option"
  publishedAnswer :: "trace \<Rightarrow> bool"

datatype action = Must step | Swallow step | Mark RotationStage

fun perform :: "RotationSteps \<Rightarrow> trace \<Rightarrow> action list \<Rightarrow> trace \<times> bool" where
  "perform st tr [] = (tr, True)"
| "perform st tr (Must s # rest) =
     (if succeeds st tr s then perform st (tr @ [(s, True)]) rest else (tr @ [(s, False)], False))"
| "perform st tr (Swallow s # rest) = perform st (tr @ [(s, succeeds st tr s)]) rest"
| "perform st tr (Mark g # rest) = perform st (tr @ [(Stage g, True)]) rest"

definition optional :: "bool \<Rightarrow> action \<Rightarrow> action list" where
  "optional present a = (if present then [a] else [])"

definition finishScript ::
    "RotationSteps \<Rightarrow> string \<Rightarrow> IdentityKeyPair \<Rightarrow> IdentityKeyPair \<Rightarrow> bytes option \<Rightarrow> nat \<Rightarrow>
     FilterList option \<Rightarrow> CompromiseDeclaration list option \<Rightarrow> action list" where
  "finishScript st addr nxt outgoing aliasRoot at mailFilter compromise =
     (case compromise of
        Some c \<Rightarrow> optional (c \<noteq> [] \<and> has_declareStolen st) (Must (DeclareStolen c))
      | None \<Rightarrow> [])
     @ [Mark RekeyingMailbox,
        Must (RenameMailbox nxt),
        Must (SaveCheckpoint \<lparr>cp_address = addr, cp_phase = Rekeyed, cp_startedAt = at,
                cp_oldEd25519Public = ed25519Public outgoing, cp_newEd25519Public = ed25519Public nxt,
                cp_mailFilter = None, cp_compromise = None\<rparr>),
        Mark SwappingKeys,
        Must TearDownPush,
        Must (RetainRetired addr outgoing aliasRoot at),
        Must (CommitKeys addr nxt),
        Mark RestoringSession,
        Must (ReestablishSessions addr nxt)]
     @ (case mailFilter of
          Some l \<Rightarrow> optional (has_writeMailFilter st) (Must (WriteMailFilter l nxt))
        | None \<Rightarrow> [])
     @ [Must (DetachSharedUnlock addr)]
     @ optional (has_resealStorage st) (Swallow (ResealStorage nxt))
     @ [Must (ClearCheckpoint addr), Mark Done]"

definition finishRotation ::
    "RotationSteps \<Rightarrow> trace \<Rightarrow> string \<Rightarrow> IdentityKeyPair \<Rightarrow> IdentityKeyPair \<Rightarrow> bytes option \<Rightarrow> nat \<Rightarrow>
     FilterList option \<Rightarrow> CompromiseDeclaration list option \<Rightarrow> trace \<times> bool" where
  "finishRotation st tr addr nxt outgoing aliasRoot at mailFilter compromise =
     perform st tr (finishScript st addr nxt outgoing aliasRoot at mailFilter compromise)"

text \<open>
  \<open>steps.published?.(..)\<close>: nothing is asked when the step is absent (the answer is then undefined,
  which is false); the call may throw, \<open>None\<close>.
\<close>

definition askPublished :: "RotationSteps \<Rightarrow> trace \<Rightarrow> string \<Rightarrow> bytes \<Rightarrow> trace \<times> bool option" where
  "askPublished st tr addr pub =
     (if \<not> has_published st then (tr, Some False)
      else if succeeds st tr (AskPublished addr pub)
      then (tr @ [(AskPublished addr pub, True)], Some (publishedAnswer st tr))
      else (tr @ [(AskPublished addr pub, False)], None))"

text \<open>
  \<open>runRotation\<close>, given the outcome of \<open>signRotation\<close>. The result is the trace and whether the ceremony
  completed; a ceremony that does not complete has thrown.
\<close>

definition runCheckpoint :: "RotationSteps \<Rightarrow> RotationInputs \<Rightarrow> RotatedRecord \<Rightarrow> RotationCheckpoint" where
  "runCheckpoint st inputs sr =
     \<lparr>cp_address = in_address inputs, cp_phase = Signed, cp_startedAt = rr_rotatedAt sr,
      cp_oldEd25519Public = ed25519Public (in_current inputs), cp_newEd25519Public = ed25519Public (rr_next sr),
      cp_mailFilter = (if has_readMailFilter st then filterAnswer st else None),
      cp_compromise = (if rr_compromise sr \<noteq> [] then Some (rr_compromise sr) else None)\<rparr>"

definition runRotation ::
    "RotationSteps \<Rightarrow> RotationInputs \<Rightarrow> rotation_error + RotatedRecord \<Rightarrow> trace \<times> bool" where
  "runRotation st inputs signing =
     (case perform st [] (optional (has_stampGenerations st) (Must StampGenerations) @ [Mark Signing]) of
        (t0, False) \<Rightarrow> (t0, False)
      | (t0, True) \<Rightarrow>
          (case signing of
             Inl e \<Rightarrow> (t0, False)
           | Inr sr \<Rightarrow>
               let cp = runCheckpoint st inputs sr; addr = in_address inputs; nxt = rr_next sr in
               (case perform st t0 (optional (has_readMailFilter st) (Must ReadMailFilter)
                       @ [Must (StageKeys addr nxt), Must (SaveCheckpoint cp), Mark Publishing]) of
                  (t1, False) \<Rightarrow> (t1, False)
                | (t1, True) \<Rightarrow>
                    let pub = Publish (rr_record sr) (rr_history sr) (rr_siblings sr);
                        landed = (if succeeds st t1 pub then (t1 @ [(pub, True)], Some True)
                                  else askPublished st (t1 @ [(pub, False)]) addr (ed25519Public nxt))
                    in (if snd landed \<noteq> Some True then (fst landed, False)
                        else (case perform st (fst landed) [Must (SaveCheckpoint (cp\<lparr>cp_phase := Published\<rparr>))] of
                                (t2, False) \<Rightarrow> (t2, False)
                              | (t2, True) \<Rightarrow>
                                  finishRotation st t2 addr nxt (in_current inputs) (in_outgoingAliasRoot inputs)
                                    (rr_rotatedAt sr) (cp_mailFilter cp) (Some (rr_compromise sr)))))))"

definition resumeRotation ::
    "RotationSteps \<Rightarrow> RotationCheckpoint \<Rightarrow> IdentityKeyPair \<Rightarrow> IdentityKeyPair \<Rightarrow> bytes option \<Rightarrow> trace \<times> bool" where
  "resumeRotation st cp nxt outgoing aliasRoot =
     (let finish = (\<lambda>t. finishRotation st t (cp_address cp) nxt outgoing aliasRoot (cp_startedAt cp)
                          (cp_mailFilter cp) (cp_compromise cp)) in
      if cp_phase cp = Signed then
        (case askPublished st [] (cp_address cp) (ed25519Public nxt) of
           (t, None) \<Rightarrow> (t, False)
         | (t, Some True) \<Rightarrow> finish t
         | (t, Some False) \<Rightarrow> perform st t [Must (ClearCheckpoint (cp_address cp))])
      else finish [])"

subsection \<open>Order\<close>

text \<open>Whenever \<open>b\<close> is called, \<open>a\<close> has been called and succeeded before.\<close>

definition precedes :: "trace \<Rightarrow> step \<Rightarrow> step \<Rightarrow> bool" where
  "precedes tr a b \<longleftrightarrow> (\<forall>pre r post. tr = pre @ (b, r) # post \<longrightarrow> (a, True) \<in> set pre)"

fun stepOf :: "action \<Rightarrow> step" where
  "stepOf (Must s) = s"
| "stepOf (Swallow s) = s"
| "stepOf (Mark g) = Stage g"

lemma perform_append:
  "perform st tr (xs @ ys) = (case perform st tr xs of (t, True) \<Rightarrow> perform st t ys | (t, False) \<Rightarrow> (t, False))"
  by (induction st tr xs rule: perform.induct) auto

text \<open>A run appends to the trace, and only calls of the script.\<close>

lemma perform_extends:
  "\<exists>new. fst (perform st tr xs) = tr @ new \<and> fst ` set new \<subseteq> stepOf ` set xs"
proof (induction st tr xs rule: perform.induct)
  case (2 st tr s rest)
  show ?case
  proof (cases "succeeds st tr s")
    case True
    then obtain new where "fst (perform st (tr @ [(s, True)]) rest) = (tr @ [(s, True)]) @ new"
        "fst ` set new \<subseteq> stepOf ` set rest" using 2 by blast
    then show ?thesis using True by (intro exI [of _ "(s, True) # new"]) auto
  qed (auto intro: exI [of _ "[(s, False)]"])
next
  case (3 st tr s rest)
  then obtain new where "fst (perform st (tr @ [(s, succeeds st tr s)]) rest) = (tr @ [(s, succeeds st tr s)]) @ new"
      "fst ` set new \<subseteq> stepOf ` set rest" by blast
  then show ?case by (intro exI [of _ "(s, succeeds st tr s) # new"]) auto
next
  case (4 st tr g rest)
  then obtain new where "fst (perform st (tr @ [(Stage g, True)]) rest) = (tr @ [(Stage g, True)]) @ new"
      "fst ` set new \<subseteq> stepOf ` set rest" by blast
  then show ?case by (intro exI [of _ "(Stage g, True) # new"]) auto
qed simp

text \<open>A run that completes has done every call that must succeed.\<close>

lemma perform_done:
  "perform st tr xs = (t, True) \<Longrightarrow> Must s \<in> set xs \<Longrightarrow> (s, True) \<in> set t"
proof (induction st tr xs rule: perform.induct)
  case (2 st tr s' rest)
  then have "perform st (tr @ [(s', True)]) rest = (t, True)" by (auto split: if_splits)
  moreover obtain new where "fst (perform st (tr @ [(s', True)]) rest) = (tr @ [(s', True)]) @ new"
    using perform_extends by blast
  ultimately show ?case using 2 by (auto split: if_splits)
qed auto

lemma precedes_append:
  "b \<notin> fst ` set t \<Longrightarrow> (a, True) \<in> set t \<Longrightarrow> precedes (t @ new) a b"
  unfolding precedes_def
proof (intro allI impI)
  fix pre r post
  assume b: "b \<notin> fst ` set t" and a: "(a, True) \<in> set t" and eq: "t @ new = pre @ (b, r) # post"
  have "length t \<le> length pre"
  proof (rule ccontr)
    assume l: "\<not> length t \<le> length pre"
    then have "t ! length pre = (b, r)" using eq by (metis nth_append nth_append_length not_le)
    then have "(b, r) \<in> set t" using l by (metis nth_mem not_le)
    then show False using b by force
  qed
  then have "t = take (length t) pre" using eq by (metis append_eq_append_conv_if)
  then show "(a, True) \<in> set pre" using a in_set_takeD by metis
qed

lemma precedes_absent: "b \<notin> fst ` set tr \<Longrightarrow> precedes tr a b"
  unfolding precedes_def by force

lemma precedes_extend: "precedes t a b \<Longrightarrow> b \<notin> fst ` set new \<Longrightarrow> precedes (t @ new) a b"
  unfolding precedes_def
proof (intro allI impI)
  fix pre r post
  assume p: "\<forall>pre r post. t = pre @ (b, r) # post \<longrightarrow> (a, True) \<in> set pre"
    and nb: "b \<notin> fst ` set new" and eq: "t @ new = pre @ (b, r) # post"
  from eq obtain us where "t @ us = pre \<and> new = us @ (b, r) # post \<or> t = pre @ us \<and> us @ new = (b, r) # post"
    by (auto simp: append_eq_append_conv2)
  then show "(a, True) \<in> set pre"
  proof
    assume "t @ us = pre \<and> new = us @ (b, r) # post"
    then show ?thesis using nb by force
  next
    assume u: "t = pre @ us \<and> us @ new = (b, r) # post"
    then show ?thesis using p nb by (cases us) force+
  qed
qed

text \<open>In a script, a call that must succeed precedes everything that only comes after it.\<close>

lemma perform_precedes:
  assumes "xs = us @ Must a # vs" and "b \<notin> stepOf ` set us" and "b \<noteq> a" and "b \<notin> fst ` set tr"
  shows "precedes (fst (perform st tr xs)) a b"
proof -
  obtain t c where t: "perform st tr (us @ [Must a]) = (t, c)" by fastforce
  obtain new where new: "t = tr @ new" "fst ` set new \<subseteq> stepOf ` set (us @ [Must a])"
    using perform_extends [of st tr "us @ [Must a]"] t by auto
  have nb: "b \<notin> fst ` set t" using new assms(2-4) by auto
  have eq: "perform st tr xs = (if c then perform st t vs else (t, False))"
    using perform_append [of st tr "us @ [Must a]" vs] t assms(1) by (auto split: bool.splits)
  show ?thesis
  proof (cases c)
    case True
    then have "(a, True) \<in> set t" using perform_done [of st tr "us @ [Must a]" t a] t by simp
    moreover obtain n2 where "fst (perform st t vs) = t @ n2" using perform_extends by blast
    ultimately show ?thesis using precedes_append [OF nb] eq True by simp
  next
    case False
    then show ?thesis using precedes_absent [OF nb] eq by simp
  qed
qed

definition publishOf :: "RotatedRecord \<Rightarrow> step" where
  "publishOf sr = Publish (rr_record sr) (rr_history sr) (rr_siblings sr)"

lemma perform_steps: "perform st tr xs = (t, c) \<Longrightarrow> fst ` set t \<subseteq> fst ` set tr \<union> stepOf ` set xs"
proof -
  assume a: "perform st tr xs = (t, c)"
  obtain new where "fst (perform st tr xs) = tr @ new" "fst ` set new \<subseteq> stepOf ` set xs" using perform_extends by blast
  then show ?thesis using a by (auto simp: image_Un simp del: image_subset_iff)
qed

lemma perform_absent:
  "b \<notin> fst ` set tr \<Longrightarrow> b \<notin> stepOf ` set xs \<Longrightarrow> b \<notin> fst ` set (fst (perform st tr xs))"
  using perform_steps [of st tr xs "fst (perform st tr xs)" "snd (perform st tr xs)"] by (auto simp del: image_subset_iff)

lemma askPublished_steps:
  "askPublished st tr addr pub = (t, c) \<Longrightarrow> \<exists>new. t = tr @ new \<and> fst ` set new \<subseteq> {AskPublished addr pub}"
  by (auto simp: askPublished_def split: if_splits)

text \<open>
  How a run goes: it stops before the publish is called; or the publish is called, after the keys were
  staged and the first checkpoint written, and the run stops before the second checkpoint is written;
  or the second checkpoint is written and \<open>finishRotation\<close> takes over.
\<close>

definition stagedSteps :: "RotationSteps \<Rightarrow> RotationInputs \<Rightarrow> RotatedRecord \<Rightarrow> trace \<Rightarrow> bool" where
  "stagedSteps st inputs sr t1 \<longleftrightarrow>
     fst ` set t1 \<subseteq> {StampGenerations, Stage Signing, ReadMailFilter, StageKeys (in_address inputs) (rr_next sr),
        SaveCheckpoint (runCheckpoint st inputs sr), Stage Publishing}
     \<and> (StageKeys (in_address inputs) (rr_next sr), True) \<in> set t1
     \<and> (SaveCheckpoint (runCheckpoint st inputs sr), True) \<in> set t1"

definition landingSteps :: "RotationSteps \<Rightarrow> RotationInputs \<Rightarrow> RotatedRecord \<Rightarrow> trace \<Rightarrow> bool" where
  "landingSteps st inputs sr new \<longleftrightarrow>
     fst ` set new \<subseteq> {AskPublished (in_address inputs) (ed25519Public (rr_next sr)),
        SaveCheckpoint (runCheckpoint st inputs sr\<lparr>cp_phase := Published\<rparr>)}"

lemma runRotation_cases:
  obtains
    (early) "fst ` set (fst (runRotation st inputs (Inr sr))) \<subseteq>
        {StampGenerations, Stage Signing, ReadMailFilter, StageKeys (in_address inputs) (rr_next sr),
         SaveCheckpoint (runCheckpoint st inputs sr)}"
      "\<not> snd (runRotation st inputs (Inr sr))"
  | (middle) t1 b new where "runRotation st inputs (Inr sr) = (t1 @ (publishOf sr, b) # new, False)"
      "stagedSteps st inputs sr t1" "landingSteps st inputs sr new"
      "(SaveCheckpoint (runCheckpoint st inputs sr\<lparr>cp_phase := Published\<rparr>), True) \<notin> set new"
  | (late) t1 b new where "runRotation st inputs (Inr sr) =
        finishRotation st (t1 @ (publishOf sr, b) # new @ [(SaveCheckpoint (runCheckpoint st inputs sr\<lparr>cp_phase := Published\<rparr>), True)])
          (in_address inputs) (rr_next sr) (in_current inputs)
          (in_outgoingAliasRoot inputs) (rr_rotatedAt sr) (cp_mailFilter (runCheckpoint st inputs sr)) (Some (rr_compromise sr))"
      "stagedSteps st inputs sr t1" "landingSteps st inputs sr new"
proof -
  let ?cp = "runCheckpoint st inputs sr"
  let ?save = "SaveCheckpoint (?cp\<lparr>cp_phase := Published\<rparr>)"
  let ?s0 = "optional (has_stampGenerations st) (Must StampGenerations) @ [Mark Signing]"
  let ?s1 = "optional (has_readMailFilter st) (Must ReadMailFilter)
      @ [Must (StageKeys (in_address inputs) (rr_next sr)), Must (SaveCheckpoint ?cp)]"
  obtain t0 c0 where t0: "perform st [] ?s0 = (t0, c0)" by fastforce
  obtain u1 c1 where u1: "perform st t0 ?s1 = (u1, c1)" by fastforce
  define t1 where "t1 = u1 @ [(Stage Publishing, True)]"
  have s1: "perform st t0 (optional (has_readMailFilter st) (Must ReadMailFilter)
      @ [Must (StageKeys (in_address inputs) (rr_next sr)), Must (SaveCheckpoint ?cp), Mark Publishing])
      = (if c1 then (t1, True) else (u1, False))"
    using perform_append [of st t0 ?s1 "[Mark Publishing]"] u1 by (auto simp: t1_def)
  have sub0: "fst ` set t0 \<subseteq> {StampGenerations, Stage Signing}"
    using perform_steps [OF t0] by (auto simp: optional_def split: if_splits)
  have sub1: "fst ` set u1 \<subseteq> {StampGenerations, Stage Signing, ReadMailFilter, StageKeys (in_address inputs) (rr_next sr), SaveCheckpoint ?cp}"
    using perform_steps [OF u1] sub0 by (auto simp: optional_def split: if_splits)
  show thesis
  proof (cases "c0 \<and> c1")
    case False
    then show ?thesis using early t0 s1 sub0 sub1 by (cases c0; cases c1) (fastforce simp: runRotation_def Let_def)+
  next
    case True
    then have c: "c0" "c1" by simp_all
    then have staged: "stagedSteps st inputs sr t1"
      using perform_done [of st t0 ?s1 u1] u1 sub1 by (auto simp: stagedSteps_def t1_def)
    obtain t2 ans where land: "(if succeeds st t1 (publishOf sr) then (t1 @ [(publishOf sr, True)], Some True)
        else askPublished st (t1 @ [(publishOf sr, False)]) (in_address inputs) (ed25519Public (rr_next sr))) = (t2, ans)"
      by fastforce
    have "\<exists>b new. t2 = t1 @ (publishOf sr, b) # new
        \<and> fst ` set new \<subseteq> {AskPublished (in_address inputs) (ed25519Public (rr_next sr))}"
    proof (cases "succeeds st t1 (publishOf sr)")
      case True
      then show ?thesis using land by auto
    next
      case False
      then show ?thesis using land askPublished_steps by fastforce
    qed
    then obtain b new where t2: "t2 = t1 @ (publishOf sr, b) # new" "landingSteps st inputs sr new" "?save \<notin> fst ` set new"
      by (auto simp: landingSteps_def)
    have run: "runRotation st inputs (Inr sr) = (if ans \<noteq> Some True then (t2, False)
        else if succeeds st t2 ?save
        then finishRotation st (t2 @ [(?save, True)]) (in_address inputs) (rr_next sr) (in_current inputs)
          (in_outgoingAliasRoot inputs) (rr_rotatedAt sr) (cp_mailFilter ?cp) (Some (rr_compromise sr))
        else (t2 @ [(?save, False)], False))"
      using land by (simp add: runRotation_def t0 s1 c Let_def flip: publishOf_def)
    show ?thesis
    proof (cases "ans = Some True")
      case False
      then show ?thesis using middle [of t1 b new] run t2 staged by force
    next
      case True
      then show ?thesis
      proof (cases "succeeds st t2 ?save")
        case True
        then show ?thesis using late [of t1 b new] run t2 staged \<open>ans = Some True\<close> by simp
      next
        case False
        then have "landingSteps st inputs sr (new @ [(?save, False)])" "(?save, True) \<notin> set (new @ [(?save, False)])"
          using t2 by (force simp: landingSteps_def)+
        then show ?thesis using middle [of t1 b "new @ [(?save, False)]"] run t2 staged \<open>ans = Some True\<close> False by simp
      qed
    qed
  qed
qed

text \<open>A check on scripts: no call of \<open>b\<close> comes before the first \<open>Must a\<close>.\<close>

fun guards :: "step \<Rightarrow> step \<Rightarrow> action list \<Rightarrow> bool" where
  "guards a b [] = True"
| "guards a b (x # xs) = (x = Must a \<or> stepOf x \<noteq> b \<and> guards a b xs)"

lemma guards_append [simp]: "guards a b (xs @ ys) \<longleftrightarrow> guards a b xs \<and> (Must a \<in> set xs \<or> guards a b ys)"
  by (induction xs) auto

lemma guards_split: "guards a b xs \<Longrightarrow> b \<notin> stepOf ` set xs \<or> (\<exists>us vs. xs = us @ Must a # vs \<and> b \<notin> stepOf ` set us)"
proof (induction xs)
  case (Cons x xs)
  show ?case
  proof (cases "x = Must a")
    case True
    then have "x # xs = [] @ Must a # xs \<and> b \<notin> stepOf ` set []" by simp
    then show ?thesis by blast
  next
    case False
    then have g: "stepOf x \<noteq> b" "guards a b xs" using Cons.prems by auto
    from Cons.IH [OF g(2)] show ?thesis
    proof
      assume "\<exists>us vs. xs = us @ Must a # vs \<and> b \<notin> stepOf ` set us"
      then obtain us vs where "xs = us @ Must a # vs" "b \<notin> stepOf ` set us" by blast
      then have "x # xs = (x # us) @ Must a # vs" "b \<notin> stepOf ` set (x # us)" using g(1) by auto
      then show ?thesis by blast
    qed (use g(1) in auto)
  qed
qed simp

lemma perform_guards:
  assumes "guards a b xs" and "b \<noteq> a" and "b \<notin> fst ` set tr"
  shows "precedes (fst (perform st tr xs)) a b"
  using guards_split [OF assms(1)]
proof
  assume "b \<notin> stepOf ` set xs"
  then have "b \<notin> fst ` set (fst (perform st tr xs))" using assms(3) by (metis perform_absent)
  then show ?thesis by (rule precedes_absent)
next
  assume "\<exists>us vs. xs = us @ Must a # vs \<and> b \<notin> stepOf ` set us"
  then show ?thesis using perform_precedes assms(2,3) by blast
qed

lemma finish_guards:
  "guards TearDownPush (CommitKeys addr nxt) (finishScript st addr nxt out root at mf c)"
  "guards (RetainRetired addr out root at) (CommitKeys addr nxt) (finishScript st addr nxt out root at mf c)"
  "guards (RenameMailbox nxt) (CommitKeys addr nxt) (finishScript st addr nxt out root at mf c)"
  "guards (CommitKeys addr nxt) (ClearCheckpoint addr) (finishScript st addr nxt out root at mf c)"
  "guards (ReestablishSessions addr nxt) (ClearCheckpoint addr) (finishScript st addr nxt out root at mf c)"
  by (auto simp: finishScript_def optional_def split: option.splits)

lemma finish_order:
  fixes addr nxt out root at
  defines "commit \<equiv> CommitKeys addr nxt" and "clear \<equiv> ClearCheckpoint addr"
  shows "commit \<notin> fst ` set t \<Longrightarrow> precedes (fst (finishRotation st t addr nxt out root at mf c)) TearDownPush commit"
    "commit \<notin> fst ` set t \<Longrightarrow> precedes (fst (finishRotation st t addr nxt out root at mf c)) (RetainRetired addr out root at) commit"
    "commit \<notin> fst ` set t \<Longrightarrow> precedes (fst (finishRotation st t addr nxt out root at mf c)) (RenameMailbox nxt) commit"
    "clear \<notin> fst ` set t \<Longrightarrow> precedes (fst (finishRotation st t addr nxt out root at mf c)) commit clear"
    "clear \<notin> fst ` set t \<Longrightarrow> precedes (fst (finishRotation st t addr nxt out root at mf c)) (ReestablishSessions addr nxt) clear"
  unfolding finishRotation_def commit_def clear_def
  by (auto intro!: perform_guards finish_guards)

lemma finish_extends: "\<exists>new. fst (finishRotation st t addr nxt out root at mf c) = t @ new
    \<and> fst ` set new \<subseteq> stepOf ` set (finishScript st addr nxt out root at mf c)"
  using perform_extends by (simp add: finishRotation_def)

lemma finish_no_publish: "publishOf sr \<notin> stepOf ` set (finishScript st addr nxt out root at mf c)"
  by (auto simp: finishScript_def publishOf_def optional_def split: option.splits)

subsection \<open>The persisted checkpoint\<close>

text \<open>What the checkpoint store holds after a trace.\<close>

fun checkpointAfter :: "RotationCheckpoint option \<Rightarrow> trace \<Rightarrow> RotationCheckpoint option" where
  "checkpointAfter c [] = c"
| "checkpointAfter c ((SaveCheckpoint cp, True) # rest) = checkpointAfter (Some cp) rest"
| "checkpointAfter c ((ClearCheckpoint addr, True) # rest) = checkpointAfter None rest"
| "checkpointAfter c (x # rest) = checkpointAfter c rest"

lemma checkpointAfter_append: "checkpointAfter c (xs @ ys) = checkpointAfter (checkpointAfter c xs) ys"
  by (induction c xs rule: checkpointAfter.induct) auto

text \<open>Without a successful clear, the store holds what it held or something saved since.\<close>

lemma checkpointAfter_kept:
  "(\<forall>addr. (ClearCheckpoint addr, True) \<notin> set xs) \<Longrightarrow>
   checkpointAfter c xs = c \<or> (\<exists>cp. checkpointAfter c xs = Some cp \<and> (SaveCheckpoint cp, True) \<in> set xs)"
  by (induction c xs rule: checkpointAfter.induct) auto

text \<open>A successful save that is the only one in the trace is what the store holds after it.\<close>

lemma checkpointAfter_saved:
  "(\<forall>addr. (ClearCheckpoint addr, True) \<notin> set xs) \<Longrightarrow> (SaveCheckpoint cp, True) \<in> set xs \<Longrightarrow>
   (\<forall>cp'. (SaveCheckpoint cp', True) \<in> set xs \<longrightarrow> cp' = cp) \<Longrightarrow> checkpointAfter c xs = Some cp"
proof -
  assume a: "\<forall>addr. (ClearCheckpoint addr, True) \<notin> set xs" "(SaveCheckpoint cp, True) \<in> set xs"
    "\<forall>cp'. (SaveCheckpoint cp', True) \<in> set xs \<longrightarrow> cp' = cp"
  obtain us vs where u: "xs = us @ (SaveCheckpoint cp, True) # vs" using a(2) split_list by fast
  have "checkpointAfter c xs = checkpointAfter (Some cp) vs" by (simp add: u checkpointAfter_append)
  moreover have "\<forall>addr. (ClearCheckpoint addr, True) \<notin> set vs" using a(1) u by simp
  from checkpointAfter_kept [OF this, of "Some cp"]
  have "checkpointAfter (Some cp) vs = Some cp \<or> (\<exists>cp'. checkpointAfter (Some cp) vs = Some cp' \<and> (SaveCheckpoint cp', True) \<in> set xs)"
    unfolding u by fastforce
  ultimately show ?thesis using a(3) by metis
qed

definition rekeyedCheckpoint :: "string \<Rightarrow> nat \<Rightarrow> IdentityKeyPair \<Rightarrow> IdentityKeyPair \<Rightarrow> RotationCheckpoint" where
  "rekeyedCheckpoint addr at out nxt =
     \<lparr>cp_address = addr, cp_phase = Rekeyed, cp_startedAt = at, cp_oldEd25519Public = ed25519Public out,
      cp_newEd25519Public = ed25519Public nxt, cp_mailFilter = None, cp_compromise = None\<rparr>"

text \<open>\<open>finishScript\<close> up to, and without, its last two actions.\<close>

definition finishBody where
  "finishBody st addr nxt out root at mf c = butlast (butlast (finishScript st addr nxt out root at mf c))"

lemma finishScript_body:
  "finishScript st addr nxt out root at mf c = finishBody st addr nxt out root at mf c @ [Must (ClearCheckpoint addr), Mark Done]"
  by (simp add: finishBody_def finishScript_def butlast_append)

lemma finishBody_steps:
  "ClearCheckpoint a \<notin> stepOf ` set (finishBody st addr nxt out root at mf c)"
  "SaveCheckpoint cp \<in> stepOf ` set (finishBody st addr nxt out root at mf c) \<longleftrightarrow> cp = rekeyedCheckpoint addr at out nxt"
  by (auto simp: finishBody_def finishScript_def butlast_append optional_def rekeyedCheckpoint_def split: option.splits)

text \<open>A finish that does not complete leaves a checkpoint if there was one; one that completes leaves none.\<close>

lemma finish_checkpoint:
  assumes "finishRotation st t addr nxt out root at mf c = (t', ok)" and "checkpointAfter c0 t = Some cp"
  shows "if ok then checkpointAfter c0 t' = None
         else checkpointAfter c0 t' = Some cp \<or> checkpointAfter c0 t' = Some (rekeyedCheckpoint addr at out nxt)"
proof -
  let ?b = "finishBody st addr nxt out root at mf c"
  obtain u d where u: "perform st t ?b = (u, d)" by fastforce
  obtain new where new: "u = t @ new" "fst ` set new \<subseteq> stepOf ` set ?b"
    using perform_extends [of st t ?b] u by auto
  have clr: "\<forall>a. (ClearCheckpoint a, True) \<notin> set new" using new(2) finishBody_steps(1) by force
  have sav: "(SaveCheckpoint cp', True) \<in> set new \<Longrightarrow> cp' = rekeyedCheckpoint addr at out nxt" for cp'
    using new(2) finishBody_steps(2) by force
  have body: "checkpointAfter c0 u = Some cp \<or> checkpointAfter c0 u = Some (rekeyedCheckpoint addr at out nxt)"
    using checkpointAfter_kept [OF clr, of "Some cp"] sav assms(2) by (auto simp: new(1) checkpointAfter_append)
  have "(t', ok) = (if d then (if succeeds st u (ClearCheckpoint addr)
          then (u @ [(ClearCheckpoint addr, True), (Stage Done, True)], True) else (u @ [(ClearCheckpoint addr, False)], False))
        else (u, False))"
    using assms(1) u by (auto simp: finishRotation_def finishScript_body perform_append split: bool.splits)
  then show ?thesis using body by (auto simp: checkpointAfter_append split: if_splits)
qed

lemma staged_no_finish:
  "stagedSteps st inputs sr t1 \<Longrightarrow> landingSteps st inputs sr new \<Longrightarrow>
   s \<notin> {StampGenerations, Stage Signing, ReadMailFilter, Stage Publishing, publishOf sr} \<Longrightarrow>
   (\<forall>a k. s \<noteq> StageKeys a k) \<Longrightarrow> (\<forall>cp. s \<noteq> SaveCheckpoint cp) \<Longrightarrow> (\<forall>a k. s \<noteq> AskPublished a k) \<Longrightarrow>
   s \<notin> fst ` set (t1 @ (publishOf sr, b) # new @ [(SaveCheckpoint cp', True)])
   \<and> s \<notin> fst ` set (t1 @ (publishOf sr, b) # new)"
  unfolding stagedSteps_def landingSteps_def by (simp add: image_Un subset_eq) blast

lemma staged_no_publish: "stagedSteps st inputs sr t1 \<Longrightarrow> publishOf sr \<notin> fst ` set t1"
  unfolding stagedSteps_def publishOf_def by blast

text \<open>What a run's order comes down to: facts of a step that only \<open>finishRotation\<close> makes.\<close>

lemma run_finish_order:
  assumes "\<And>t mf. b \<notin> fst ` set t \<Longrightarrow> precedes (fst (finishRotation st t (in_address inputs) (rr_next sr) (in_current inputs)
        (in_outgoingAliasRoot inputs) (rr_rotatedAt sr) mf (Some (rr_compromise sr)))) a b"
    and "b \<in> {CommitKeys (in_address inputs) (rr_next sr), ClearCheckpoint (in_address inputs)}"
  shows "precedes (fst (runRotation st inputs (Inr sr))) a b"
proof -
  have b: "b \<notin> {StampGenerations, Stage Signing, ReadMailFilter, Stage Publishing, publishOf sr}"
    "\<forall>a k. b \<noteq> StageKeys a k" "\<forall>cp. b \<noteq> SaveCheckpoint cp" "\<forall>a k. b \<noteq> AskPublished a k"
    using assms(2) by (auto simp: publishOf_def)
  show ?thesis
  proof (cases st inputs sr rule: runRotation_cases)
    case early
    then have "b \<notin> fst ` set (fst (runRotation st inputs (Inr sr)))" using b by auto
    then show ?thesis by (rule precedes_absent)
  next
    case (middle t1 f new)
    have "b \<notin> fst ` set (t1 @ (publishOf sr, f) # new)" using staged_no_finish [OF middle(2,3) b] by blast
    then show ?thesis using precedes_absent middle(1) by simp
  next
    case (late t1 f new)
    show ?thesis unfolding late(1) by (rule assms(1), rule staged_no_finish [OF late(2,3) b, THEN conjunct1])
  qed
qed

subsection \<open>Properties\<close>

text \<open>
  C2. The order of the ceremony, whatever fails. The new record is never offered to the directory before
  the new keys are staged and the first checkpoint is written; the keystore is never re-wrapped before
  the mailbox was renamed, the push registration withdrawn and the outgoing generation retained; and the
  checkpoint is never cleared before the keystore was re-wrapped and the sessions re-established.
\<close>

theorem rotation_order:
  "let tr = fst (runRotation st inputs (Inr sr)); addr = in_address inputs; nxt = rr_next sr in
   precedes tr (StageKeys addr nxt) (Publish (rr_record sr) (rr_history sr) (rr_siblings sr))
   \<and> precedes tr (SaveCheckpoint (runCheckpoint st inputs sr)) (Publish (rr_record sr) (rr_history sr) (rr_siblings sr))
   \<and> precedes tr (RenameMailbox nxt) (CommitKeys addr nxt)
   \<and> precedes tr TearDownPush (CommitKeys addr nxt)
   \<and> precedes tr (RetainRetired addr (in_current inputs) (in_outgoingAliasRoot inputs) (rr_rotatedAt sr)) (CommitKeys addr nxt)
   \<and> precedes tr (CommitKeys addr nxt) (ClearCheckpoint addr)
   \<and> precedes tr (ReestablishSessions addr nxt) (ClearCheckpoint addr)"
proof -
  have pub: "precedes (fst (runRotation st inputs (Inr sr))) x (publishOf sr)"
    if x: "x = StageKeys (in_address inputs) (rr_next sr) \<or> x = SaveCheckpoint (runCheckpoint st inputs sr)" for x
  proof (cases st inputs sr rule: runRotation_cases)
    case early
    then have "publishOf sr \<notin> fst ` set (fst (runRotation st inputs (Inr sr)))" by (auto simp: publishOf_def)
    then show ?thesis by (rule precedes_absent)
  next
    case (middle t1 f new)
    then have "(x, True) \<in> set t1" using x by (auto simp: stagedSteps_def)
    then show ?thesis using precedes_append [OF staged_no_publish] middle by simp
  next
    case (late t1 f new)
    then have "(x, True) \<in> set t1" using x by (auto simp: stagedSteps_def)
    moreover obtain n2 where "fst (runRotation st inputs (Inr sr)) = t1 @ n2"
      using finish_extends [of st "t1 @ (publishOf sr, f) # new @ [(SaveCheckpoint (runCheckpoint st inputs sr\<lparr>cp_phase := Published\<rparr>), True)]"]
        late(1) by (metis append_assoc)
    ultimately show ?thesis using precedes_append [OF staged_no_publish] late(2) by simp
  qed
  show ?thesis unfolding Let_def
  proof (intro conjI)
    show "precedes (fst (runRotation st inputs (Inr sr))) (StageKeys (in_address inputs) (rr_next sr))
        (Publish (rr_record sr) (rr_history sr) (rr_siblings sr))"
      and "precedes (fst (runRotation st inputs (Inr sr))) (SaveCheckpoint (runCheckpoint st inputs sr))
        (Publish (rr_record sr) (rr_history sr) (rr_siblings sr))"
      using pub by (simp_all add: publishOf_def)
  qed (simp_all add: run_finish_order finish_order)
qed

lemma trace_member: "fst ` set t \<subseteq> S \<Longrightarrow> (x, b) \<in> set t \<Longrightarrow> x \<in> S"
  by force

lemma staged_checkpoint:
  assumes "stagedSteps st inputs sr t1" "landingSteps st inputs sr new"
    "(SaveCheckpoint (runCheckpoint st inputs sr\<lparr>cp_phase := Published\<rparr>), True) \<notin> set new"
  shows "checkpointAfter c0 (t1 @ (publishOf sr, b) # new) = Some (runCheckpoint st inputs sr)"
proof -
  note m1 = assms(1) [unfolded stagedSteps_def, THEN conjunct1, THEN trace_member]
  note m2 = assms(2) [unfolded landingSteps_def, THEN trace_member]
  have c: "(ClearCheckpoint a, True) \<notin> set t1" "(ClearCheckpoint a, True) \<notin> set new" for a
    using m1 [of "ClearCheckpoint a" True] m2 [of "ClearCheckpoint a" True] by auto
  have s: "(SaveCheckpoint cp', True) \<in> set t1 \<Longrightarrow> cp' = runCheckpoint st inputs sr" "(SaveCheckpoint cp', True) \<notin> set new" for cp'
    using m1 [of "SaveCheckpoint cp'" True] m2 [of "SaveCheckpoint cp'" True] assms(3) by auto
  show ?thesis
  proof (rule checkpointAfter_saved)
    show "(SaveCheckpoint (runCheckpoint st inputs sr), True) \<in> set (t1 @ (publishOf sr, b) # new)"
      using assms(1) by (simp add: stagedSteps_def)
  qed (use c s in \<open>simp_all add: publishOf_def\<close>)
qed

text \<open>
  C3. A ceremony interrupted at or after the publish can be finished. Whatever fails from the publish
  call on, the checkpoint store holds a checkpoint of this address naming the staged key, the outgoing
  key and the rotation's own time; and a ceremony that completes leaves no checkpoint.
\<close>

theorem interrupted_ceremony_keeps_checkpoint:
  assumes "runRotation st inputs (Inr sr) = (tr, ok)"
  shows "if ok then checkpointAfter c0 tr = None
         else publishOf sr \<in> fst ` set tr \<longrightarrow>
           (\<exists>cp. checkpointAfter c0 tr = Some cp \<and> cp_address cp = in_address inputs
              \<and> cp_newEd25519Public cp = ed25519Public (rr_next sr)
              \<and> cp_oldEd25519Public cp = ed25519Public (in_current inputs) \<and> cp_startedAt cp = rr_rotatedAt sr)"
proof (cases st inputs sr rule: runRotation_cases)
  case early
  then show ?thesis using assms by (auto simp: publishOf_def)
next
  case (middle t1 f new)
  then show ?thesis using staged_checkpoint [OF middle(2-4), of c0 f] assms by (simp add: runCheckpoint_def)
next
  case (late t1 f new)
  have s: "checkpointAfter c0 (t1 @ (publishOf sr, f) # new @ [(SaveCheckpoint (runCheckpoint st inputs sr\<lparr>cp_phase := Published\<rparr>), True)])
      = Some (runCheckpoint st inputs sr\<lparr>cp_phase := Published\<rparr>)"
    using checkpointAfter_append [of c0 "t1 @ (publishOf sr, f) # new"] by simp
  from finish_checkpoint [OF trans [OF late(1) [symmetric] assms] s] show ?thesis
    by (auto simp: runCheckpoint_def rekeyedCheckpoint_def split: if_splits)
qed

lemma perform_all_succeed: "(\<And>t s. succeeds st t s) \<Longrightarrow> snd (perform st tr xs)"
  by (induction st tr xs rule: perform.induct) auto

text \<open>
  C24. Resuming finishes what was published and discards what was not. With steps that succeed, a resume
  from any checkpoint past \<open>signed\<close>, or from one at \<open>signed\<close> whose record the directory says it has,
  completes with the outgoing generation retained and the keystore re-wrapped, in that order, and the
  checkpoint cleared. From \<open>signed\<close>, when the directory does not have the record, the resume clears the
  checkpoint and calls nothing else that changes anything.
\<close>

theorem resume_completes_or_discards:
  assumes "\<And>t s. succeeds st t s" and "resumeRotation st cp nxt out root = (tr, ok)"
  defines "landed \<equiv> cp_phase cp \<noteq> Signed \<or> has_published st \<and> publishedAnswer st []"
  shows "ok \<and> checkpointAfter (Some cp) tr = None
    \<and> (landed \<longrightarrow> (CommitKeys (cp_address cp) nxt, True) \<in> set tr
          \<and> precedes tr (RetainRetired (cp_address cp) out root (cp_startedAt cp)) (CommitKeys (cp_address cp) nxt))
    \<and> (\<not> landed \<longrightarrow> fst ` set tr \<subseteq> {AskPublished (cp_address cp) (ed25519Public nxt), ClearCheckpoint (cp_address cp)})"
proof -
  let ?fin = "\<lambda>t. finishRotation st t (cp_address cp) nxt out root (cp_startedAt cp) (cp_mailFilter cp) (cp_compromise cp)"
  have fin: "ok \<and> checkpointAfter (Some cp) tr = None \<and> (CommitKeys (cp_address cp) nxt, True) \<in> set tr
      \<and> precedes tr (RetainRetired (cp_address cp) out root (cp_startedAt cp)) (CommitKeys (cp_address cp) nxt)"
    if t: "?fin t = (tr, ok)" "fst ` set t \<subseteq> {AskPublished (cp_address cp) (ed25519Public nxt)}" for t
  proof -
    have ok: ok using perform_all_succeed [OF assms(1)] t(1) by (metis finishRotation_def snd_conv)
    have "checkpointAfter (Some cp) t = Some cp"
      using checkpointAfter_kept [of t "Some cp"] t(2) by force
    from finish_checkpoint [OF t(1) this] ok have "checkpointAfter (Some cp) tr = None" by simp
    moreover have "(CommitKeys (cp_address cp) nxt, True) \<in> set tr"
      by (rule perform_done [of st t "finishScript st (cp_address cp) nxt out root (cp_startedAt cp) (cp_mailFilter cp) (cp_compromise cp)"])
        (use t(1) ok in \<open>simp_all add: finishRotation_def finishScript_def\<close>)
    moreover have "CommitKeys (cp_address cp) nxt \<notin> fst ` set t" using t(2) by auto
    then have "precedes tr (RetainRetired (cp_address cp) out root (cp_startedAt cp)) (CommitKeys (cp_address cp) nxt)"
      using finish_order(2) t(1) by (metis fst_conv)
    ultimately show ?thesis using ok by blast
  qed
  show ?thesis
  proof (cases landed)
    case True
    then obtain t where "?fin t = (tr, ok)" "fst ` set t \<subseteq> {AskPublished (cp_address cp) (ed25519Public nxt)}"
      using assms(1,2) by (cases "cp_phase cp = Signed") (auto simp: landed_def resumeRotation_def Let_def askPublished_def)
    from fin [OF this] True show ?thesis by simp
  next
    case False
    then show ?thesis using assms(1,2)
      by (auto simp: landed_def resumeRotation_def Let_def askPublished_def split: if_splits)
  qed
qed

definition demo_steps :: "(trace \<Rightarrow> step \<Rightarrow> bool) \<Rightarrow> RotationSteps" where
  "demo_steps f =
     \<lparr>has_stampGenerations = False, has_declareStolen = True, has_readMailFilter = True, has_writeMailFilter = True,
      has_published = True, has_resealStorage = True, succeeds = f, filterAnswer = Some emptyFilterList,
      publishedAnswer = (\<lambda>_. True)\<rparr>"

definition demo_inputs :: RotationInputs where
  "demo_inputs =
     \<lparr>in_address = ''al@x.io'', in_device = demo_device, in_outgoingAliasRoot = None, in_current = demo_kp 1,
      in_currentRecord = stateOf demo_record, in_severity = Routine, in_priorRemoval = None,
      in_deviceCredential = [1], in_priorHistory = [], in_siblings = []\<rparr>"

definition demo_rotated :: RotatedRecord where
  "demo_rotated =
     \<lparr>rr_next = demo_kp 2, rr_record = [1], rr_selfSignature = [2], rr_entry = demo_step 1 None, rr_history = [3],
      rr_siblings = [], rr_compromise = [], rr_rotatedAt = 50\<rparr>"

text \<open>A run whose push teardown throws.\<close>

definition demo_run :: "trace \<times> bool" where
  "demo_run = runRotation (demo_steps (\<lambda>t s. s \<noteq> TearDownPush)) demo_inputs (Inr demo_rotated)"

lemmas ceremony_simps = runRotation_def resumeRotation_def finishRotation_def finishScript_def optional_def askPublished_def
  runCheckpoint_def demo_steps_def demo_inputs_def demo_rotated_def publishOf_def Let_def

lemma demo_run_trace:
  "\<not> snd demo_run" "publishOf demo_rotated \<in> fst ` set (fst demo_run)"
  "checkpointAfter None (fst demo_run) = Some (rekeyedCheckpoint ''al@x.io'' 50 (demo_kp 1) (demo_kp 2))"
  by (simp_all add: demo_run_def ceremony_simps rekeyedCheckpoint_def)

theorem interrupted_ceremony_keeps_checkpoint_witness:
  "\<not> snd demo_run \<and> (\<exists>cp. checkpointAfter None (fst demo_run) = Some cp \<and> cp_startedAt cp = 50)"
proof -
  have r: "runRotation (demo_steps (\<lambda>t s. s \<noteq> TearDownPush)) demo_inputs (Inr demo_rotated) = (fst demo_run, snd demo_run)"
    by (simp add: demo_run_def)
  have "rr_rotatedAt demo_rotated = 50" by (simp add: demo_rotated_def)
  with interrupted_ceremony_keeps_checkpoint [OF r, of None] demo_run_trace show ?thesis by auto
qed

theorem resume_completes_or_discards_witness:
  "snd (resumeRotation (demo_steps (\<lambda>t s. True)) (rekeyedCheckpoint ''al@x.io'' 50 (demo_kp 1) (demo_kp 2)) (demo_kp 2) (demo_kp 1) None)"
proof -
  let ?cp = "rekeyedCheckpoint ''al@x.io'' 50 (demo_kp 1) (demo_kp 2)"
  have "succeeds (demo_steps (\<lambda>t s. True)) t s" for t s by (simp add: demo_steps_def)
  from resume_completes_or_discards [OF this prod.collapse [symmetric], of ?cp "demo_kp 2" "demo_kp 1" None]
  show ?thesis by blast
qed

text \<open>
  C32. The mail filter does not survive an interruption after the mailbox was re-keyed. The checkpoint
  \<open>finishRotation\<close> writes at \<open>rekeyed\<close> carries no mail filter, whatever filter the run had read, and no
  resume from it, whatever the steps do, writes the filter back.
\<close>

theorem rekeyed_checkpoint_drops_filter:
  assumes "SaveCheckpoint cp \<in> stepOf ` set (finishScript st addr nxt out root at (Some mf) c)"
  shows "cp_phase cp = Rekeyed \<and> cp_mailFilter cp = None
       \<and> (\<forall>l k. WriteMailFilter l k \<notin> fst ` set (fst (resumeRotation st' cp nxt' out' root')))"
proof -
  have "SaveCheckpoint cp \<in> stepOf ` set (finishBody st addr nxt out root at (Some mf) c)"
    using assms by (auto simp: finishScript_body)
  then have cp: "cp = rekeyedCheckpoint addr at out nxt" using finishBody_steps(2) by blast
  have "WriteMailFilter l k \<notin> stepOf ` set (finishScript st' addr nxt' out' root' at None None)" for l k
    by (auto simp: finishScript_def optional_def)
  then have "WriteMailFilter l k \<notin> fst ` set (fst (finishRotation st' [] addr nxt' out' root' at None None))" for l k
    unfolding finishRotation_def by (intro perform_absent) auto
  then show ?thesis by (simp add: cp rekeyedCheckpoint_def resumeRotation_def)
qed

theorem rekeyed_checkpoint_drops_filter_witness:
  "checkpointAfter None (fst demo_run) = Some (rekeyedCheckpoint ''al@x.io'' 50 (demo_kp 1) (demo_kp 2))
   \<and> filterAnswer (demo_steps (\<lambda>t s. True)) = Some emptyFilterList
   \<and> (\<forall>l k. WriteMailFilter l k \<notin> fst ` set (fst (resumeRotation (demo_steps (\<lambda>t s. True))
          (rekeyedCheckpoint ''al@x.io'' 50 (demo_kp 1) (demo_kp 2)) (demo_kp 2) (demo_kp 1) None)))"
proof -
  have "SaveCheckpoint (rekeyedCheckpoint ''al@x.io'' 50 (demo_kp 1) (demo_kp 2))
      \<in> stepOf ` set (finishScript (demo_steps (\<lambda>t s. True)) ''al@x.io'' (demo_kp 2) (demo_kp 1) None 50 (Some emptyFilterList) None)"
    by (simp add: finishScript_def rekeyedCheckpoint_def)
  from rekeyed_checkpoint_drops_filter [OF this] demo_run_trace(3) show ?thesis by (simp add: demo_steps_def)
qed

end
