(* ===== verification/Lineage.thy ===== *)
theory Lineage
  imports Rotation
begin

section \<open>Explaining a key change\<close>

text \<open>
  \<open>lib/trust/lineage.ts\<close>: what the directory's answer proves about the disappearance of a pinned key.
  The decoders of the generated codec are parameters that may fail (\<open>None\<close>, a thrown error), as is the
  directory fetch. A function of the source that may throw returns an option here, \<open>None\<close> for a throw.
\<close>

datatype KeyChange = Replaced nat | Recovered nat | ReportedStolen nat | Unexplained

record IdentityRecordResponse =
  srv_address :: string
  srv_record :: string
  srv_removal :: "string option"
  srv_history :: "string option"

text \<open>A decoded removal record with the signature it carries.\<close>

record AddressRemoval =
  removalFields :: RemovalRecordFields
  rm_selfSignature :: "bytes option"

record wire_decoders =
  decodeIdentityRecord :: "bytes \<Rightarrow> IdentityRecord option"
  decodeAddressHistory :: "bytes \<Rightarrow> AddressHistory option"
  decodeAddressRemoval :: "bytes \<Rightarrow> AddressRemoval option"

record Handover =
  ho_at :: nat
  ho_byRecoveryKey :: bool

text \<open>\<open>retiredAt\<close>: \<open>toBase64\<close> of an absent key throws, and an absent authorizing key reads as empty.\<close>

fun retiredAt :: "RotationEntryWire list \<Rightarrow> string \<Rightarrow> Handover option option" where
  "retiredAt [] pinned = Some None"
| "retiredAt (e # rest) pinned =
     (case retiredEd25519PublicKey e of
        None \<Rightarrow> None
      | Some k \<Rightarrow>
          if toBase64 k \<noteq> pinned then retiredAt rest pinned
          else Some (Some \<lparr>ho_at = rotatedAt e,
                 ho_byRecoveryKey = toBase64 (opt_bytes (authorizingEd25519PublicKey e)) \<noteq> pinned\<rparr>))"

definition retiredInLineage ::
    "webcrypto \<Rightarrow> codec \<Rightarrow> wire_decoders \<Rightarrow> string \<Rightarrow> string \<Rightarrow> IdentityRecord \<Rightarrow> string option \<Rightarrow> Handover option option" where
  "retiredInLineage cr enc dec addr pinned rec hist =
     (case retiredAt (ir_rotationChain rec) pinned of
        None \<Rightarrow> None
      | Some (Some h) \<Rightarrow> Some (Some h)
      | Some None \<Rightarrow>
          (if hist = None \<or> hist = Some [] then Some None
           else (case Option.bind (fromBase64 (the hist)) (decodeAddressHistory dec) of
                   None \<Rightarrow> None
                 | Some h \<Rightarrow>
                     if verifyHistory cr enc h addr \<noteq> None then Some None
                     else if ah_chain h = [] then Some None
                     else (case (nextEd25519PublicKey (last (ah_chain h)), ir_ed25519PublicKey rec) of
                             (Some a, Some b) \<Rightarrow>
                               if toBase64 a \<noteq> toBase64 b then Some None
                               else if verifyChainLinks cr enc (ah_chain h) addr \<noteq> None then Some None
                               else retiredAt (ah_chain h) pinned
                           | _ \<Rightarrow> None))))"

definition declaredStolen ::
    "webcrypto \<Rightarrow> codec \<Rightarrow> wire_decoders \<Rightarrow> string \<Rightarrow> string \<Rightarrow> IdentityRecord \<Rightarrow> string option \<Rightarrow> nat option option" where
  "declaredStolen cr enc dec addr pinned rec removal =
     (if removal = None \<or> removal = Some [] then Some None
      else (case Option.bind (fromBase64 (the removal)) (decodeAddressRemoval dec) of
              None \<Rightarrow> None
            | Some rm \<Rightarrow>
                if toLowerCase (rm_address (removalFields rm)) \<noteq> toLowerCase addr then Some None
                else (case find (\<lambda>b. toBase64 (rb_ed25519PublicKey b) = pinned) (removedBindings (removalFields rm)) of
                        None \<Rightarrow> Some None
                      | Some hit \<Rightarrow>
                          (case (ir_ed25519PublicKey rec, rm_selfSignature rm) of
                             (Some pub, Some sig) \<Rightarrow>
                               if ed25519_verify cr pub
                                    (removalSigningBytes (encodeRemovalSignableBytes enc (removalFields rm))) sig = Some True
                               then Some (Some (rb_removedAt hit)) else Some None
                           | _ \<Rightarrow> Some None))))"

definition explainKeyChange ::
    "webcrypto \<Rightarrow> codec \<Rightarrow> wire_decoders \<Rightarrow> string \<Rightarrow> string \<Rightarrow> IdentityRecordResponse \<Rightarrow> KeyChange option" where
  "explainKeyChange cr enc dec addr pinned served =
     (case Option.bind (fromBase64 (srv_record served)) (decodeIdentityRecord dec) of
        None \<Rightarrow> None
      | Some rec \<Rightarrow>
          if toLowerCase (ir_address rec) \<noteq> toLowerCase addr then Some Unexplained
          else (case verifySelfSignature cr (ir_ed25519PublicKey rec)
                       (encodeIdentitySignableBytes enc (identityObj rec)) (ir_selfSignature rec) of
                  None \<Rightarrow> None
                | Some False \<Rightarrow> Some Unexplained
                | Some True \<Rightarrow>
                    if verifyRecordChain cr enc rec \<noteq> None then Some Unexplained
                    else (case declaredStolen cr enc dec addr pinned rec (srv_removal served) of
                            None \<Rightarrow> None
                          | Some (Some at) \<Rightarrow> Some (ReportedStolen at)
                          | Some None \<Rightarrow>
                              (case retiredInLineage cr enc dec addr pinned rec (srv_history served) of
                                 None \<Rightarrow> None
                               | Some None \<Rightarrow> Some Unexplained
                               | Some (Some h) \<Rightarrow>
                                   Some (if ho_byRecoveryKey h then Recovered (ho_at h) else Replaced (ho_at h))))))"

definition loadKeyChange ::
    "webcrypto \<Rightarrow> codec \<Rightarrow> wire_decoders \<Rightarrow> (string \<Rightarrow> IdentityRecordResponse option) \<Rightarrow> string \<Rightarrow> string \<Rightarrow> KeyChange" where
  "loadKeyChange cr enc dec fetchIdentityRecord addr pinned =
     (case Option.bind (fetchIdentityRecord addr) (explainKeyChange cr enc dec addr pinned) of
        None \<Rightarrow> Unexplained
      | Some k \<Rightarrow> k)"

subsection \<open>What an explanation rests on\<close>

lemma retiredAt_Some:
  "retiredAt chain pinned = Some (Some h) \<Longrightarrow>
   \<exists>e\<in>set chain. map_option toBase64 (retiredEd25519PublicKey e) = Some pinned \<and> ho_at h = rotatedAt e
     \<and> (ho_byRecoveryKey h \<longleftrightarrow> toBase64 (opt_bytes (authorizingEd25519PublicKey e)) \<noteq> pinned)"
  by (induction chain pinned rule: retiredAt.induct) (auto split: option.splits if_splits)

lemma retiredInLineage_Some:
  assumes "retiredInLineage cr enc dec addr pinned rec hist = Some (Some h)" "verifyRecordChain cr enc rec = None"
    and "toLowerCase (ir_address rec) = toLowerCase addr"
  obtains chain where "retiredAt chain pinned = Some (Some h)" "chainOk cr enc addr chain"
    "chain \<noteq> []" "nextEd25519PublicKey (last chain) = ir_ed25519PublicKey rec"
proof (cases "retiredAt (ir_rotationChain rec) pinned = Some (Some h)")
  case True
  then have ne: "ir_rotationChain rec \<noteq> []" by auto
  then have "chainOk cr enc (ir_address rec) (ir_rotationChain rec)"
      "sameBytes (nextEd25519PublicKey (last (ir_rotationChain rec))) (ir_ed25519PublicKey rec)"
    using assms(2) by (auto simp: verifyRecordChain_None)
  moreover have "chainOk cr enc a xs \<Longrightarrow> toLowerCase a = toLowerCase addr \<Longrightarrow> chainOk cr enc addr xs" for a xs
    by (induction xs) (auto simp: chainOk_Cons entryOk_def)
  ultimately show thesis using that [OF True] ne assms(3) by (auto simp: sameBytes_iff)
next
  case False
  then obtain hs ha where h: "Option.bind (fromBase64 hs) (decodeAddressHistory dec) = Some ha"
      "retiredAt (ah_chain ha) pinned = Some (Some h)" "verifyChainLinks cr enc (ah_chain ha) addr = None" "ah_chain ha \<noteq> []"
      "map_option toBase64 (nextEd25519PublicKey (last (ah_chain ha))) = map_option toBase64 (ir_ed25519PublicKey rec)"
    using assms(1) unfolding retiredInLineage_def by (auto split: option.splits if_splits)
  have "nextEd25519PublicKey (last (ah_chain ha)) = ir_ed25519PublicKey rec"
    using h(5) base64.encode_eq_iff by (cases "nextEd25519PublicKey (last (ah_chain ha))"; cases "ir_ed25519PublicKey rec") auto
  then show thesis using that h by (auto simp: verifyChainLinks_None)
qed

lemma explainKeyChange_cases:
  assumes "explainKeyChange cr enc dec addr pinned served = Some k" "k \<noteq> Unexplained"
  obtains rec where "Option.bind (fromBase64 (srv_record served)) (decodeIdentityRecord dec) = Some rec"
    "toLowerCase (ir_address rec) = toLowerCase addr"
    "verifySelfSignature cr (ir_ed25519PublicKey rec) (encodeIdentitySignableBytes enc (identityObj rec)) (ir_selfSignature rec) = Some True"
    "verifyRecordChain cr enc rec = None"
    "case declaredStolen cr enc dec addr pinned rec (srv_removal served) of
       Some (Some at) \<Rightarrow> k = ReportedStolen at
     | Some None \<Rightarrow> \<exists>h. retiredInLineage cr enc dec addr pinned rec (srv_history served) = Some (Some h)
                    \<and> k = (if ho_byRecoveryKey h then Recovered (ho_at h) else Replaced (ho_at h))
     | None \<Rightarrow> False"
proof (cases "Option.bind (fromBase64 (srv_record served)) (decodeIdentityRecord dec)")
  case None
  then show thesis using assms(1) by (simp add: explainKeyChange_def)
next
  case (Some rec)
  note ex = assms(1) [unfolded explainKeyChange_def Some option.case]
  have a: "toLowerCase (ir_address rec) = toLowerCase addr" using ex assms(2) by (auto split: if_splits)
  have v: "verifySelfSignature cr (ir_ed25519PublicKey rec) (encodeIdentitySignableBytes enc (identityObj rec)) (ir_selfSignature rec) = Some True"
    using ex a assms(2) by (simp split: option.splits bool.splits)
  have c: "verifyRecordChain cr enc rec = None" using ex a v assms(2) by (simp split: if_splits)
  show thesis
    by (rule that [OF Some a v c]) (use ex a v c assms(2) in \<open>auto split: option.splits\<close>)
qed

text \<open>An absent authorizing key never reads as a key whose base64 is that of 32 bytes.\<close>

lemma consent_by_pinned:
  assumes "entryOk cr enc addr e" "map_option toBase64 (retiredEd25519PublicKey e) = Some pinned"
    and "toBase64 (opt_bytes (authorizingEd25519PublicKey e)) = pinned"
  shows "\<exists>k. toBase64 k = pinned \<and> length k = 32 \<and> retiredEd25519PublicKey e = Some k
     \<and> verifyCtx cr (Some k) ROTATION_CTX (encodeRotationConsentBytes enc e) (signature e)"
proof -
  obtain k where k: "retiredEd25519PublicKey e = Some k" "toBase64 k = pinned"
    using assms(2) by (auto simp only: map_option_eq_Some)
  have v: "verifyRotationEntry cr enc e = None" using assms(1) by (simp add: entryOk_def)
  then have l: "length k = 32" "opt_length (authorizingEd25519PublicKey e) = 32"
    using k verifyRotationEntry_NoneD(5,6) [OF v] by (simp_all add: opt_length_def)
  have "opt_bytes (authorizingEd25519PublicKey e) = k"
    using assms(3) k(2) base64.encode_eq_iff [of "opt_bytes (authorizingEd25519PublicKey e)" k] by simp
  then have "authorizingEd25519PublicKey e = Some k" using l by (auto simp: opt_bytes_def opt_length_def split: option.splits)
  then show ?thesis using verifyRotationEntry_NoneD(1) [OF v] k l by auto
qed

lemma retiredAt_snoc:
  assumes "\<forall>e\<in>set pre. \<exists>k. retiredEd25519PublicKey e = Some k \<and> toBase64 k \<noteq> pinned"
    and "retiredEd25519PublicKey e = Some k" "toBase64 k = pinned" "authorizingEd25519PublicKey e = Some k"
  shows "retiredAt (pre @ [e]) pinned = Some (Some \<lparr>ho_at = rotatedAt e, ho_byRecoveryKey = False\<rparr>)"
  using assms by (induction pre) (auto simp: opt_bytes_def)

lemma chainOk_retired: "chainOk cr enc addr xs \<Longrightarrow> e \<in> set xs \<Longrightarrow> \<exists>k. retiredEd25519PublicKey e = Some k"
  using verifyRotationEntry_NoneD(5) [of cr enc e] chainOk_entries [of cr enc addr xs e]
  by (cases "retiredEd25519PublicKey e") (auto simp: entryOk_def opt_length_def)

subsection \<open>Properties\<close>

text \<open>
  C33. The reassuring answer is earned. \<open>replaced\<close> is only given when the served record is the address's
  own and its owner's self-signature verifies, and a chain that verifies for the address and hands over
  to the key the record publishes contains an entry in which the very key that was pinned, as its own
  authorizing key, consented to its retirement at the reported time.
\<close>

theorem replaced_means_pinned_key_consented:
  assumes "explainKeyChange cr enc dec addr pinned served = Some (Replaced at)"
  shows "\<exists>rec chain e k. Option.bind (fromBase64 (srv_record served)) (decodeIdentityRecord dec) = Some rec
       \<and> toLowerCase (ir_address rec) = toLowerCase addr
       \<and> verifySelfSignature cr (ir_ed25519PublicKey rec) (encodeIdentitySignableBytes enc (identityObj rec)) (ir_selfSignature rec) = Some True
       \<and> verifyChainLinks cr enc chain addr = None \<and> chain \<noteq> [] \<and> nextEd25519PublicKey (last chain) = ir_ed25519PublicKey rec
       \<and> e \<in> set chain \<and> rotatedAt e = at \<and> retiredEd25519PublicKey e = Some k \<and> toBase64 k = pinned
       \<and> verifyCtx cr (Some k) ROTATION_CTX (encodeRotationConsentBytes enc e) (signature e)"
proof -
  from assms obtain rec where rec: "Option.bind (fromBase64 (srv_record served)) (decodeIdentityRecord dec) = Some rec"
    "toLowerCase (ir_address rec) = toLowerCase addr"
    "verifySelfSignature cr (ir_ed25519PublicKey rec) (encodeIdentitySignableBytes enc (identityObj rec)) (ir_selfSignature rec) = Some True"
    "verifyRecordChain cr enc rec = None"
    "\<exists>h. retiredInLineage cr enc dec addr pinned rec (srv_history served) = Some (Some h)
        \<and> Replaced at = (if ho_byRecoveryKey h then Recovered (ho_at h) else Replaced (ho_at h))"
    by (rule explainKeyChange_cases) (auto split: option.splits)
  then obtain h where h: "retiredInLineage cr enc dec addr pinned rec (srv_history served) = Some (Some h)"
    "\<not> ho_byRecoveryKey h" "ho_at h = at" by (auto split: if_splits)
  obtain chain where c: "retiredAt chain pinned = Some (Some h)" "chainOk cr enc addr chain" "chain \<noteq> []"
    "nextEd25519PublicKey (last chain) = ir_ed25519PublicKey rec"
    using retiredInLineage_Some [OF h(1) rec(4,2)] .
  obtain e where e: "e \<in> set chain" "map_option toBase64 (retiredEd25519PublicKey e) = Some pinned" "rotatedAt e = at"
    "toBase64 (opt_bytes (authorizingEd25519PublicKey e)) = pinned"
    using retiredAt_Some [OF c(1)] h by auto
  from consent_by_pinned [OF chainOk_entries [OF c(2) e(1)] e(2,4)] rec(1-3) c e show ?thesis
    unfolding verifyChainLinks_None by blast
qed

text \<open>
  C34. \<open>reported-stolen\<close> is only given when the served record is the address's own and self-signed, and a
  removal record of that address names the pinned key with the reported time and is signed, under the
  removal context, by the key the record publishes now.
\<close>

theorem stolen_means_current_key_declared:
  assumes "explainKeyChange cr enc dec addr pinned served = Some (ReportedStolen at)"
  shows "\<exists>rec rm pub sig b. Option.bind (fromBase64 (srv_record served)) (decodeIdentityRecord dec) = Some rec
       \<and> verifySelfSignature cr (ir_ed25519PublicKey rec) (encodeIdentitySignableBytes enc (identityObj rec)) (ir_selfSignature rec) = Some True
       \<and> Option.bind (Option.bind (srv_removal served) fromBase64) (decodeAddressRemoval dec) = Some rm
       \<and> toLowerCase (rm_address (removalFields rm)) = toLowerCase addr
       \<and> b \<in> set (removedBindings (removalFields rm)) \<and> toBase64 (rb_ed25519PublicKey b) = pinned \<and> rb_removedAt b = at
       \<and> ir_ed25519PublicKey rec = Some pub
       \<and> ed25519_verify cr pub (ADDRESS_REMOVAL_CTX @ encodeRemovalSignableBytes enc (removalFields rm)) sig = Some True"
proof -
  from assms obtain rec where rec: "Option.bind (fromBase64 (srv_record served)) (decodeIdentityRecord dec) = Some rec"
    "verifySelfSignature cr (ir_ed25519PublicKey rec) (encodeIdentitySignableBytes enc (identityObj rec)) (ir_selfSignature rec) = Some True"
    "declaredStolen cr enc dec addr pinned rec (srv_removal served) = Some (Some at)"
    by (rule explainKeyChange_cases) (auto split: option.splits if_splits)
  then show ?thesis
    unfolding declaredStolen_def removalSigningBytes_def
    by (auto split: option.splits if_splits dest!: find_Some_in)
qed

text \<open>
  Evidence that does not hold up explains nothing: a record for another address, one whose
  self-signature does not verify, or one whose chain is refused gives \<open>unexplained\<close>; and an
  unreachable directory or malformed evidence gives it too, so the question always gets an answer.
\<close>

lemma bad_evidence_explains_nothing:
  "(fetch addr = None \<or> explainKeyChange cr enc dec addr pinned (the (fetch addr)) = None
      \<longrightarrow> loadKeyChange cr enc dec fetch addr pinned = Unexplained)
   \<and> (fetch addr = Some served \<and> Option.bind (fromBase64 (srv_record served)) (decodeIdentityRecord dec) = Some rec
        \<and> (toLowerCase (ir_address rec) \<noteq> toLowerCase addr
           \<or> verifySelfSignature cr (ir_ed25519PublicKey rec) (encodeIdentitySignableBytes enc (identityObj rec)) (ir_selfSignature rec) \<noteq> Some True
           \<or> verifyRecordChain cr enc rec \<noteq> None)
      \<longrightarrow> loadKeyChange cr enc dec fetch addr pinned = Unexplained)"
proof (intro conjI impI, goal_cases)
  case 1
  then show ?case by (cases "fetch addr") (auto simp: loadKeyChange_def)
next
  case 2
  then have l: "loadKeyChange cr enc dec fetch addr pinned =
      (case explainKeyChange cr enc dec addr pinned served of None \<Rightarrow> Unexplained | Some k \<Rightarrow> k)"
    and r: "Option.bind (fromBase64 (srv_record served)) (decodeIdentityRecord dec) = Some rec"
    by (simp_all add: loadKeyChange_def)
  have "explainKeyChange cr enc dec addr pinned served \<in> {None, Some Unexplained}"
    by (rule ccontr) (use explainKeyChange_cases [of cr enc dec addr pinned served] 2 r in force)
  then show ?case using l by auto
qed

lemma rekey_shape:
  assumes "rekey cr enc device cur nxt at cred addr state = Inr (entry, rec)"
  shows "retiredEd25519PublicKey entry = Some (ed25519Public cur)" "authorizingEd25519PublicKey entry = Some (ed25519Public cur)"
    "rotatedAt entry = at" "ir_rotationChain rec = capChain (st_rotationChain state @ [entry])" "ir_address rec = addr"
    "ir_ed25519PublicKey rec = Some (ed25519Public nxt)"
  using assms
  by (auto simp: rekey_def Let_def baseEntry_def baseRecord_def split: option.splits if_splits sum.splits)

lemma rekeyed_verifies:
  assumes "ceremony_ok cr device cred cur nxt" and "holds_record cr enc cur at r" and "at \<noteq> 0"
    and "rekey cr enc device cur nxt at cred (ir_address r) (stateOf r) = Inr (entry, rec)"
  shows "verifyRecordChain cr enc rec = None"
    "verifySelfSignature cr (ir_ed25519PublicKey rec) (encodeIdentitySignableBytes enc (identityObj rec)) (ir_selfSignature rec) = Some True"
  using rekey_record_verifies_lemma [OF assms(1-3)] assms(4) by auto

lemma set_capChain: "set (capChain xs) \<subseteq> set xs"
  by (simp add: capChain_def set_drop_subset)

lemma find_snoc: "\<forall>x\<in>set xs. \<not> P x \<Longrightarrow> P y \<Longrightarrow> find P (xs @ [y]) = Some y"
  by (induction xs) auto

lemma compromise_declared:
  assumes "ed25519_laws cr" "keypair_ok cr nxt" "ir_ed25519PublicKey rec = Some (ed25519Public nxt)"
    and "compromiseRecord addr prior retired at = Some base" "rmb \<noteq> []" "decodeAddressRemoval dec rmb = Some rm"
    "removalFields rm = base"
    "rm_selfSignature rm = Some (ed25519_sign cr (take 32 (ed25519Private nxt)) (removalSigningBytes (encodeRemovalSignableBytes enc base)))"
  shows "declaredStolen cr enc dec addr (toBase64 retired) rec (Some (toBase64 rmb)) = Some (Some at)"
proof -
  let ?bs = "case prior of None \<Rightarrow> [] | Some p \<Rightarrow> rs_removedBindings p"
  let ?b = "\<lparr>rb_ed25519PublicKey = retired, rb_removedAt = at\<rparr>"
  have base: "\<forall>b\<in>set ?bs. rb_ed25519PublicKey b \<noteq> retired" "removedBindings base = ?bs @ [?b]" "rm_address base = addr"
    using assms(4) by (auto simp: compromiseRecord_def Let_def split: if_splits)
  then have rm: "rm_address (removalFields rm) = addr" "removedBindings (removalFields rm) = ?bs @ [?b]" using assms(7) by auto
  have "find (\<lambda>b. toBase64 (rb_ed25519PublicKey b) = toBase64 retired) (removedBindings (removalFields rm)) = Some ?b"
    unfolding rm by (rule find_snoc) (use base(1) base64.encode_eq_iff in auto)
  moreover have "ed25519_verify cr (ed25519Public nxt) d (ed25519_sign cr (take 32 (ed25519Private nxt)) d) = Some True" for d
    using assms(1,2) by (simp add: ed25519_laws_def keypair_ok_def)
  ultimately show ?thesis using assms(3,5-8) rm by (simp add: declaredStolen_def fromBase64_toBase64 toBase64_eq_Nil)
qed

lemma rekey_explained_lemma:
  assumes "ceremony_ok cr device cred cur nxt" and "holds_record cr enc cur at r" and "at \<noteq> 0"
    and rk: "rekey cr enc device cur nxt at cred (ir_address r) (stateOf r) = Inr (entry, rec)"
    and served: "srv_record served = toBase64 (encodeIdentityRecord enc (identityObj rec))"
    and decode: "decodeIdentityRecord dec (encodeIdentityRecord enc (identityObj rec)) = Some rec"
    and fresh: "\<forall>e\<in>set (ir_rotationChain r). retiredEd25519PublicKey e \<noteq> Some (ed25519Public cur)"
  shows "(srv_removal served = None \<longrightarrow>
            explainKeyChange cr enc dec (ir_address r) (toBase64 (ed25519Public cur)) served = Some (Replaced at))
       \<and> (\<forall>prior base rmb rm. compromiseRecord (ir_address r) prior (ed25519Public cur) at = Some base
            \<and> signCompromise cr enc (ir_address r) prior (ed25519Public cur) nxt at = Some rmb \<and> rmb \<noteq> []
            \<and> srv_removal served = Some (toBase64 rmb) \<and> decodeAddressRemoval dec rmb = Some rm
            \<and> removalFields rm = base
            \<and> rm_selfSignature rm = Some (ed25519_sign cr (take 32 (ed25519Private nxt))
                  (removalSigningBytes (encodeRemovalSignableBytes enc base)))
            \<longrightarrow> explainKeyChange cr enc dec (ir_address r) (toBase64 (ed25519Public cur)) served = Some (ReportedStolen at))"
proof -
  note shape = rekey_shape [OF rk]
  have ok: "verifyRecordChain cr enc rec = None"
    "verifySelfSignature cr (ir_ed25519PublicKey rec) (encodeIdentitySignableBytes enc (identityObj rec)) (ir_selfSignature rec) = Some True"
    using rekeyed_verifies [OF assms(1-3) rk] by simp_all
  have ex: "explainKeyChange cr enc dec (ir_address r) pinned served =
      (case declaredStolen cr enc dec (ir_address r) pinned rec (srv_removal served) of
         None \<Rightarrow> None
       | Some (Some at) \<Rightarrow> Some (ReportedStolen at)
       | Some None \<Rightarrow>
           (case retiredInLineage cr enc dec (ir_address r) pinned rec (srv_history served) of
              None \<Rightarrow> None
            | Some None \<Rightarrow> Some Unexplained
            | Some (Some h) \<Rightarrow> Some (if ho_byRecoveryKey h then Recovered (ho_at h) else Replaced (ho_at h))))" for pinned
    using served decode ok shape(5) by (simp add: explainKeyChange_def fromBase64_toBase64)
  obtain pre where pre: "capChain (ir_rotationChain r @ [entry]) = pre @ [entry]" using capChain_snoc(1) by blast
  have rc: "ir_rotationChain rec = pre @ [entry]" using shape(4) pre by (simp add: stateOf_def)
  have "chainOk cr enc (ir_address rec) (pre @ [entry])" using ok(1) rc by (simp add: verifyRecordChain_None)
  then have "\<exists>k. retiredEd25519PublicKey e = Some k" if "e \<in> set pre" for e using chainOk_retired that by fastforce
  moreover have "e \<in> set pre \<Longrightarrow> e \<in> set (ir_rotationChain r) \<or> e = entry" for e
    using set_capChain [of "ir_rotationChain r @ [entry]"] unfolding pre by auto
  moreover have "entry \<notin> set pre"
    using chainOk_sorted_times [OF \<open>chainOk cr enc (ir_address rec) (pre @ [entry])\<close>] by (auto simp: sorted_wrt_append)
  ultimately have "\<forall>e\<in>set pre. \<exists>k. retiredEd25519PublicKey e = Some k \<and> toBase64 k \<noteq> toBase64 (ed25519Public cur)"
    using fresh base64.encode_eq_iff by (metis (full_types))
  from retiredAt_snoc [OF this shape(1) refl shape(2)]
  have replaced: "retiredAt (ir_rotationChain rec) (toBase64 (ed25519Public cur)) = Some (Some \<lparr>ho_at = at, ho_byRecoveryKey = False\<rparr>)"
    by (simp add: rc shape(3))
  show ?thesis
  proof (intro conjI impI allI)
    assume "srv_removal served = None"
    then show "explainKeyChange cr enc dec (ir_address r) (toBase64 (ed25519Public cur)) served = Some (Replaced at)"
      using replaced by (simp add: ex declaredStolen_def retiredInLineage_def)
  next
    fix prior base rmb rm
    assume h: "compromiseRecord (ir_address r) prior (ed25519Public cur) at = Some base
            \<and> signCompromise cr enc (ir_address r) prior (ed25519Public cur) nxt at = Some rmb \<and> rmb \<noteq> []
            \<and> srv_removal served = Some (toBase64 rmb) \<and> decodeAddressRemoval dec rmb = Some rm
            \<and> removalFields rm = base
            \<and> rm_selfSignature rm = Some (ed25519_sign cr (take 32 (ed25519Private nxt))
                  (removalSigningBytes (encodeRemovalSignableBytes enc base)))"
    have "declaredStolen cr enc dec (ir_address r) (toBase64 (ed25519Public cur)) rec (Some (toBase64 rmb)) = Some (Some at)"
      by (rule compromise_declared) (use h shape(6) assms(1) in \<open>auto simp: ceremony_ok_def\<close>)
    then show "explainKeyChange cr enc dec (ir_address r) (toBase64 (ed25519Public cur)) served = Some (ReportedStolen at)"
      using h by (simp add: ex)
  qed
qed

definition demo_rekeyed :: "RotationEntryWire \<times> IdentityRecord" where
  "demo_rekeyed = (case rekey demo_crypto demo_codec demo_device (demo_kp 1) (demo_kp 2) 50 demo_cred
      ''al@x.io'' (stateOf demo_record) of Inr p \<Rightarrow> p | Inl _ \<Rightarrow> (demo_entry, demo_record))"

definition demo_removal :: AddressRemoval where
  "demo_removal =
     (let base = \<lparr>rm_version = 1, rm_domain = ''x.io'', rm_address = ''al@x.io'',
           removedBindings = [\<lparr>rb_ed25519PublicKey = ed25519Public (demo_kp 1), rb_removedAt = 50\<rparr>],
           rm_revision = 1, rm_createdAt = 50\<rparr>
      in \<lparr>removalFields = base,
          rm_selfSignature = Some (ed25519_sign demo_crypto (take 32 (ed25519Private (demo_kp 2)))
            (removalSigningBytes (encodeRemovalSignableBytes demo_codec base)))\<rparr>)"

definition demo_decoders :: wire_decoders where
  "demo_decoders =
     \<lparr>decodeIdentityRecord = (\<lambda>_. Some (snd demo_rekeyed)), decodeAddressHistory = (\<lambda>_. None),
      decodeAddressRemoval = (\<lambda>_. Some demo_removal)\<rparr>"

definition demo_served :: "string option \<Rightarrow> IdentityRecordResponse" where
  "demo_served removal =
     \<lparr>srv_address = ''al@x.io'', srv_record = toBase64 (encodeIdentityRecord demo_codec (identityObj (snd demo_rekeyed))),
      srv_removal = removal, srv_history = None\<rparr>"

definition demo_pin :: string where
  "demo_pin = toBase64 (ed25519Public (demo_kp 1))"

lemma demo_rekeyed_eq:
  "rekey demo_crypto demo_codec demo_device (demo_kp 1) (demo_kp 2) 50 demo_cred
     (ir_address demo_record) (stateOf demo_record) = Inr (fst demo_rekeyed, snd demo_rekeyed)"
  using rekey_record_verifies_lemma [OF demo_ceremony_ok demo_holds]
  by (auto simp: demo_rekeyed_def demo_record_def)

lemma demo_decoded:
  "srv_record (demo_served rmv) = toBase64 (encodeIdentityRecord demo_codec (identityObj (snd demo_rekeyed)))"
  "decodeIdentityRecord demo_decoders (encodeIdentityRecord demo_codec (identityObj (snd demo_rekeyed))) = Some (snd demo_rekeyed)"
  "\<forall>e\<in>set (ir_rotationChain demo_record). retiredEd25519PublicKey e \<noteq> Some (ed25519Public (demo_kp 1))"
  by (simp_all add: demo_served_def demo_decoders_def demo_record_def)

text \<open>
  What the ceremony publishes is what a contact's client reads. A contact who pinned the outgoing
  key, and is served the record a re-key produced, is told the key was replaced at the rotation's time;
  and when the owner declared the key compromised, and the tombstone the ceremony signed is served too,
  the contact is told it was reported stolen at that time. The decoders are assumed to give back what
  was encoded.
\<close>

lemma rekey_is_explained:
  assumes "ceremony_ok cr device cred cur nxt" and "holds_record cr enc cur at r" and "at \<noteq> 0"
    and rk: "rekey cr enc device cur nxt at cred (ir_address r) (stateOf r) = Inr (entry, rec)"
    and served: "srv_record served = toBase64 (encodeIdentityRecord enc (identityObj rec))"
    and decode: "decodeIdentityRecord dec (encodeIdentityRecord enc (identityObj rec)) = Some rec"
    and fresh: "\<forall>e\<in>set (ir_rotationChain r). retiredEd25519PublicKey e \<noteq> Some (ed25519Public cur)"
  shows "(srv_removal served = None \<longrightarrow>
            explainKeyChange cr enc dec (ir_address r) (toBase64 (ed25519Public cur)) served = Some (Replaced at))
       \<and> (\<forall>prior base rmb rm. compromiseRecord (ir_address r) prior (ed25519Public cur) at = Some base
            \<and> signCompromise cr enc (ir_address r) prior (ed25519Public cur) nxt at = Some rmb \<and> rmb \<noteq> []
            \<and> srv_removal served = Some (toBase64 rmb) \<and> decodeAddressRemoval dec rmb = Some rm
            \<and> removalFields rm = base
            \<and> rm_selfSignature rm = Some (ed25519_sign cr (take 32 (ed25519Private nxt))
                  (removalSigningBytes (encodeRemovalSignableBytes enc base)))
            \<longrightarrow> explainKeyChange cr enc dec (ir_address r) (toBase64 (ed25519Public cur)) served = Some (ReportedStolen at))"
  using assms by (rule rekey_explained_lemma)

lemma demo_explained:
  "explainKeyChange demo_crypto demo_codec demo_decoders ''al@x.io'' demo_pin (demo_served None) = Some (Replaced 50)"
  "explainKeyChange demo_crypto demo_codec demo_decoders ''al@x.io'' demo_pin (demo_served (Some (toBase64 [0, 0, 0]))) = Some (ReportedStolen 50)"
proof -
  note ex = rekey_explained_lemma [OF demo_ceremony_ok demo_holds _ demo_rekeyed_eq demo_decoded]
  have a: "ir_address demo_record = ''al@x.io''" by (simp add: demo_record_def)
  show "explainKeyChange demo_crypto demo_codec demo_decoders ''al@x.io'' demo_pin (demo_served None) = Some (Replaced 50)"
    using ex [of None] by (simp add: demo_served_def demo_pin_def a)
  have b: "compromiseRecord ''al@x.io'' None (ed25519Public (demo_kp 1)) 50 = Some (removalFields demo_removal)"
    by (simp add: compromiseRecord_def demo_removal_def domainOf_def Let_def)
  have d: "declaredStolen demo_crypto demo_codec demo_decoders ''al@x.io'' demo_pin (snd demo_rekeyed) (Some (toBase64 [0, 0, 0])) = Some (Some 50)"
    unfolding demo_pin_def
    by (rule compromise_declared [OF demo_ed25519_laws demo_kp_ok rekey_shape(6) [OF demo_rekeyed_eq] b, where rm = demo_removal])
      (simp_all add: demo_decoders_def demo_removal_def Let_def)
  have ok: "verifyRecordChain demo_crypto demo_codec (snd demo_rekeyed) = None"
    "verifySelfSignature demo_crypto (ir_ed25519PublicKey (snd demo_rekeyed)) (encodeIdentitySignableBytes demo_codec
       (identityObj (snd demo_rekeyed))) (ir_selfSignature (snd demo_rekeyed)) = Some True"
    using rekeyed_verifies [OF demo_ceremony_ok demo_holds _ demo_rekeyed_eq] by simp_all
  show "explainKeyChange demo_crypto demo_codec demo_decoders ''al@x.io'' demo_pin (demo_served (Some (toBase64 [0, 0, 0]))) = Some (ReportedStolen 50)"
    using ok d rekey_shape(5) [OF demo_rekeyed_eq] a
    by (simp add: explainKeyChange_def demo_served_def demo_decoders_def fromBase64_toBase64)
qed

theorem replaced_means_pinned_key_consented_witness:
  "\<exists>chain e. verifyChainLinks demo_crypto demo_codec chain ''al@x.io'' = None \<and> e \<in> set chain \<and> rotatedAt e = 50"
  using replaced_means_pinned_key_consented [OF demo_explained(1)] by blast

theorem stolen_means_current_key_declared_witness:
  "\<exists>rm b. Option.bind (fromBase64 (toBase64 [0, 0, 0])) (decodeAddressRemoval demo_decoders) = Some rm
      \<and> b \<in> set (removedBindings (removalFields rm)) \<and> toBase64 (rb_ed25519PublicKey b) = demo_pin \<and> rb_removedAt b = 50"
  using stolen_means_current_key_declared [OF demo_explained(2)] by (auto simp: demo_served_def)

end
