(* ===== verification/Personal_Store.thy ===== *)
theory Personal_Store
  imports Keys
begin

section \<open>Personal storage\<close>

text \<open>
  \<open>lib/api/personalStore.ts\<close>: the owner's per-account state, kept sealed on the home relay, or in the
  device's IndexedDB once the relay has said it offers no storage. The relay is a parameter: a record of
  functions from its state to an answer or an error, with the new state for the operations that write.
  The JSON text codec of the language is a parameter too, so that the plaintext type is free. The random
  values of a seal are an argument. The session-wide verdict about the relay and the number of times its
  listeners have been told are part of the store's state.
\<close>

datatype store_error = ApiError string nat | Conflict | Unreadable | SealFailed

record 'v StorageEntry =
  se_key :: string
  se_value :: 'v
  se_version :: nat

text \<open>A page of a listing: keys with the sealed value (absent when values were not asked for) and version.\<close>

record KvListResp =
  kv_items :: "(string \<times> SealedBlobJSON option \<times> nat) list"
  next_cursor :: string

record ('r, 'v) store_env =
  e_crypto :: webcrypto
  e_order :: "SealedRecipientJSON list \<Rightarrow> SealedRecipientJSON list"
  stringify :: "'v \<Rightarrow> bytes"
  parse :: "bytes \<Rightarrow> 'v option"
  kv_get :: "'r \<Rightarrow> string \<Rightarrow> store_error + (SealedBlobJSON \<times> nat) option"
  kv_put :: "'r \<Rightarrow> string \<Rightarrow> SealedBlobJSON \<Rightarrow> nat \<Rightarrow> store_error + ('r \<times> nat)"
  kv_list :: "'r \<Rightarrow> string \<Rightarrow> bool \<Rightarrow> string \<Rightarrow> store_error + KvListResp"
  kv_delete :: "'r \<Rightarrow> string \<Rightarrow> store_error + 'r"

record 'v PersonalStore =
  ps_owner :: string
  ps_x25519Public :: bytes
  ps_x25519Derive :: bytes
  ps_retired :: "RetiredKeys list"
  localOnly :: bool
  relayHasNoStorage :: bool
  notified :: nat
  ps_idb :: "(string, 'v \<times> nat) jsmap"

type_synonym seal_randoms = "bytes \<times> bytes \<times> bytes \<times> bytes"

definition newStore :: "string \<Rightarrow> IdentityKeyPair \<Rightarrow> RetiredKeys list \<Rightarrow> bool \<Rightarrow> 'v PersonalStore" where
  "newStore addr kp ring verdict =
     \<lparr>ps_owner = addr, ps_x25519Public = x25519Public kp, ps_x25519Derive = x25519Private kp, ps_retired = ring,
      localOnly = verdict, relayHasNoStorage = verdict, notified = 0, ps_idb = []\<rparr>"

definition ns :: "'v PersonalStore \<Rightarrow> string \<Rightarrow> string" where
  "ns st key = ps_owner st @ ''::'' @ key"

definition isUnsupported :: "store_error \<Rightarrow> bool" where
  "isUnsupported err = (case err of ApiError code status \<Rightarrow> code = ''storage_unsupported'' \<or> status = 501 | _ \<Rightarrow> False)"

definition markStorageLocalOnly :: "'v PersonalStore \<Rightarrow> 'v PersonalStore" where
  "markStorageLocalOnly st =
     (if relayHasNoStorage st then st else st\<lparr>relayHasNoStorage := True, notified := notified st + 1\<rparr>)"

text \<open>\<open>unsupported(err)\<close>: \<open>None\<close> when the error is to be rethrown, else the store with the fallback latched.\<close>

definition unsupported :: "'v PersonalStore \<Rightarrow> store_error \<Rightarrow> 'v PersonalStore option" where
  "unsupported st err = (if isUnsupported err then Some (markStorageLocalOnly (st\<lparr>localOnly := True\<rparr>)) else None)"

definition psSeal :: "('r, 'v) store_env \<Rightarrow> 'v PersonalStore \<Rightarrow> seal_randoms \<Rightarrow> 'v \<Rightarrow> store_error + SealedBlobJSON" where
  "psSeal env st rnd v =
     (case rnd of (cek, nonce, eph, wn) \<Rightarrow>
        (case sealToRecipients (e_crypto env) cek nonce (stringify env v) [(ps_x25519Public st, eph, wn)] of
           Inl _ \<Rightarrow> Inl SealFailed
         | Inr blob \<Rightarrow> Inr blob))"

text \<open>\<open>open\<close>: the current key, else the first retired generation that opens the blob.\<close>

fun openRetired :: "('r, 'v) store_env \<Rightarrow> SealedBlobJSON \<Rightarrow> RetiredKeys list \<Rightarrow> bytes option" where
  "openRetired env blob [] = None"
| "openRetired env blob (r # rs) =
     (case openSealed (e_crypto env) (e_order env) blob (rk_x25519Derive r) (rk_x25519Public r) of
        Inr p \<Rightarrow> Some p
      | Inl _ \<Rightarrow> openRetired env blob rs)"

definition psOpen :: "('r, 'v) store_env \<Rightarrow> 'v PersonalStore \<Rightarrow> SealedBlobJSON \<Rightarrow> (bytes \<times> bool) option" where
  "psOpen env st blob =
     (case openSealed (e_crypto env) (e_order env) blob (ps_x25519Derive st) (ps_x25519Public st) of
        Inr p \<Rightarrow> Some (p, False)
      | Inl _ \<Rightarrow> map_option (\<lambda>p. (p, True)) (openRetired env blob (ps_retired st)))"

definition unsealWithSource :: "('r, 'v) store_env \<Rightarrow> 'v PersonalStore \<Rightarrow> SealedBlobJSON \<Rightarrow> ('v \<times> bool) option" where
  "unsealWithSource env st blob =
     (case psOpen env st blob of
        None \<Rightarrow> None
      | Some (p, retired) \<Rightarrow> map_option (\<lambda>v. (v, retired)) (parse env p))"

definition unseal :: "('r, 'v) store_env \<Rightarrow> 'v PersonalStore \<Rightarrow> SealedBlobJSON \<Rightarrow> 'v option" where
  "unseal env st blob = map_option fst (unsealWithSource env st blob)"

subsection \<open>The device-local fallback\<close>

definition localGet :: "'v PersonalStore \<Rightarrow> string \<Rightarrow> 'v StorageEntry option" where
  "localGet st key =
     map_option (\<lambda>(v, n). \<lparr>se_key = key, se_value = v, se_version = n\<rparr>) (map_of (ps_idb st) (ns st key))"

definition localVersion :: "'v PersonalStore \<Rightarrow> string \<Rightarrow> nat" where
  "localVersion st key = (case map_of (ps_idb st) (ns st key) of None \<Rightarrow> 0 | Some (v, n) \<Rightarrow> n)"

definition localPut :: "'v PersonalStore \<Rightarrow> string \<Rightarrow> 'v \<Rightarrow> nat \<Rightarrow> store_error + ('v PersonalStore \<times> nat)" where
  "localPut st key v expected =
     (let n = localVersion st key + 1 in
      if 0 < expected \<and> localVersion st key \<noteq> expected then Inl Conflict
      else Inr (st\<lparr>ps_idb := AList.update (ns st key) (v, n) (ps_idb st)\<rparr>, n))"

definition localDelete :: "'v PersonalStore \<Rightarrow> string \<Rightarrow> 'v PersonalStore" where
  "localDelete st key = st\<lparr>ps_idb := AList.delete (ns st key) (ps_idb st)\<rparr>"

definition localList :: "'v PersonalStore \<Rightarrow> string \<Rightarrow> 'v StorageEntry list" where
  "localList st prefix' =
     map (\<lambda>(k, v, n). \<lparr>se_key = drop (length (ps_owner st) + 2) k, se_value = v, se_version = n\<rparr>)
       (filter (\<lambda>(k, _). startsWith (ns st prefix') k) (ps_idb st))"

subsection \<open>The public operations\<close>

definition psGet ::
    "('r, 'v) store_env \<Rightarrow> 'r \<Rightarrow> 'v PersonalStore \<Rightarrow> string \<Rightarrow> 'v PersonalStore \<times> (store_error + 'v StorageEntry option)" where
  "psGet env r st key =
     (if localOnly st then (st, Inr (localGet st key))
      else (case kv_get env r key of
              Inr None \<Rightarrow> (st, Inr None)
            | Inr (Some (blob, n)) \<Rightarrow>
                (case unseal env st blob of
                   None \<Rightarrow> (st, Inl Unreadable)
                 | Some v \<Rightarrow> (st, Inr (Some \<lparr>se_key = key, se_value = v, se_version = n\<rparr>)))
            | Inl err \<Rightarrow>
                (case unsupported st err of
                   None \<Rightarrow> (st, Inl err)
                 | Some st' \<Rightarrow> (st', Inr (localGet st' key)))))"

text \<open>A write that fails leaves the relay's state as it was.\<close>

definition psPutLocal :: "'r \<Rightarrow> 'v PersonalStore \<Rightarrow> string \<Rightarrow> 'v \<Rightarrow> nat \<Rightarrow> 'r \<times> 'v PersonalStore \<times> (store_error + nat)" where
  "psPutLocal r st key v expected =
     (case localPut st key v expected of Inl e \<Rightarrow> (r, st, Inl e) | Inr (st', n) \<Rightarrow> (r, st', Inr n))"

definition psPut ::
    "('r, 'v) store_env \<Rightarrow> 'r \<Rightarrow> 'v PersonalStore \<Rightarrow> seal_randoms \<Rightarrow> string \<Rightarrow> 'v \<Rightarrow> nat \<Rightarrow>
     'r \<times> 'v PersonalStore \<times> (store_error + nat)" where
  "psPut env r st rnd key v expected =
     (if localOnly st then psPutLocal r st key v expected
      else (case (case psSeal env st rnd v of Inl e \<Rightarrow> Inl e | Inr blob \<Rightarrow> kv_put env r key blob expected) of
              Inr (r', n) \<Rightarrow> (r', st, Inr n)
            | Inl err \<Rightarrow>
                (if (case err of ApiError code _ \<Rightarrow> code = ''storage_conflict'' | _ \<Rightarrow> False) then (r, st, Inl Conflict)
                 else (case unsupported st err of
                         None \<Rightarrow> (r, st, Inl err)
                       | Some st' \<Rightarrow> psPutLocal r st' key v expected))))"

text \<open>
  The paging loop of \<open>listInternal\<close> with values, bounded by \<open>fuel\<close> pages. An entry that cannot be
  unsealed is skipped; \<open>None\<close> is running out of fuel.
\<close>

definition pageEntries :: "('r, 'v) store_env \<Rightarrow> 'v PersonalStore \<Rightarrow> KvListResp \<Rightarrow> 'v StorageEntry list" where
  "pageEntries env st res =
     List.map_filter (\<lambda>(k, sealed', n). Option.bind sealed' (\<lambda>b.
        map_option (\<lambda>v. \<lparr>se_key = k, se_value = v, se_version = n\<rparr>) (unseal env st b))) (kv_items res)"

fun listPages ::
    "('r, 'v) store_env \<Rightarrow> 'r \<Rightarrow> 'v PersonalStore \<Rightarrow> string \<Rightarrow> string \<Rightarrow> nat \<Rightarrow> (store_error + 'v StorageEntry list) option" where
  "listPages env r st prefix' cursor 0 = None"
| "listPages env r st prefix' cursor (Suc fuel) =
     (case kv_list env r prefix' True cursor of
        Inl e \<Rightarrow> Some (Inl e)
      | Inr res \<Rightarrow>
          (if next_cursor res = [] then Some (Inr (pageEntries env st res))
           else (case listPages env r st prefix' (next_cursor res) fuel of
                   None \<Rightarrow> None
                 | Some (Inl e) \<Rightarrow> Some (Inl e)
                 | Some (Inr rest) \<Rightarrow> Some (Inr (pageEntries env st res @ rest)))))"

definition psList ::
    "('r, 'v) store_env \<Rightarrow> 'r \<Rightarrow> 'v PersonalStore \<Rightarrow> string \<Rightarrow> nat \<Rightarrow>
     ('v PersonalStore \<times> (store_error + 'v StorageEntry list)) option" where
  "psList env r st prefix' fuel =
     (if localOnly st then Some (st, Inr (localList st prefix'))
      else (case listPages env r st prefix' [] fuel of
              None \<Rightarrow> None
            | Some (Inr out) \<Rightarrow> Some (st, Inr out)
            | Some (Inl err) \<Rightarrow>
                (case unsupported st err of
                   None \<Rightarrow> Some (st, Inl err)
                 | Some st' \<Rightarrow> Some (st', Inr (localList st' prefix')))))"

text \<open>The same loop without values, for the keys alone.\<close>

fun keyPages ::
    "('r, 'v) store_env \<Rightarrow> 'r \<Rightarrow> string \<Rightarrow> string \<Rightarrow> nat \<Rightarrow> (store_error + (string \<times> nat) list) option" where
  "keyPages env r prefix' cursor 0 = None"
| "keyPages env r prefix' cursor (Suc fuel) =
     (case kv_list env r prefix' False cursor of
        Inl e \<Rightarrow> Some (Inl e)
      | Inr res \<Rightarrow>
          (let out = map (\<lambda>(k, _, n). (k, n)) (kv_items res) in
           if next_cursor res = [] then Some (Inr out)
           else (case keyPages env r prefix' (next_cursor res) fuel of
                   None \<Rightarrow> None
                 | Some (Inl e) \<Rightarrow> Some (Inl e)
                 | Some (Inr rest) \<Rightarrow> Some (Inr (out @ rest)))))"

definition psListKeys ::
    "('r, 'v) store_env \<Rightarrow> 'r \<Rightarrow> 'v PersonalStore \<Rightarrow> string \<Rightarrow> nat \<Rightarrow>
     ('v PersonalStore \<times> (store_error + (string \<times> nat) list)) option" where
  "psListKeys env r st prefix' fuel =
     (let here = (\<lambda>x. map (\<lambda>e. (se_key e, se_version e)) (localList x prefix')) in
      if localOnly st then Some (st, Inr (here st))
      else (case keyPages env r prefix' [] fuel of
              None \<Rightarrow> None
            | Some (Inr out) \<Rightarrow> Some (st, Inr out)
            | Some (Inl err) \<Rightarrow>
                (case unsupported st err of
                   None \<Rightarrow> Some (st, Inl err)
                 | Some st' \<Rightarrow> Some (st', Inr (here st')))))"

definition psDelete ::
    "('r, 'v) store_env \<Rightarrow> 'r \<Rightarrow> 'v PersonalStore \<Rightarrow> string \<Rightarrow> 'r \<times> 'v PersonalStore \<times> (store_error + unit)" where
  "psDelete env r st key =
     (if localOnly st then (r, localDelete st key, Inr ())
      else (case kv_delete env r key of
              Inr r' \<Rightarrow> (r', st, Inr ())
            | Inl err \<Rightarrow>
                (case unsupported st err of
                   None \<Rightarrow> (r, st, Inl err)
                 | Some st' \<Rightarrow> (r, localDelete st' key, Inr ()))))"

subsection \<open>The sweep after a rotation\<close>

definition RESEAL_SKIP :: "string list" where
  "RESEAL_SKIP = [''sent/'', ''sent-body/'', ''flags/'']"

definition resealSkipped :: "string \<Rightarrow> bool" where
  "resealSkipped key = (\<exists>p\<in>set RESEAL_SKIP. startsWith p key)"

text \<open>The items of one page; each entry re-put uses its own random values, by position.\<close>

fun resealItems ::
    "('r, 'v) store_env \<Rightarrow> (nat \<Rightarrow> seal_randoms) \<Rightarrow> 'r \<Rightarrow> 'v PersonalStore \<Rightarrow> (string \<times> SealedBlobJSON option \<times> nat) list \<Rightarrow>
     nat \<times> nat \<Rightarrow> 'r \<times> 'v PersonalStore \<times> nat \<times> nat" where
  "resealItems env rnd r st [] (done', failed) = (r, st, done', failed)"
| "resealItems env rnd r st ((key, sealed', n) # items) (done', failed) =
     (case sealed' of
        None \<Rightarrow> resealItems env rnd r st items (done', failed)
      | Some blob \<Rightarrow>
          if resealSkipped key then resealItems env rnd r st items (done', failed)
          else (case unsealWithSource env st blob of
                  None \<Rightarrow> resealItems env rnd r st items (done', failed + 1)
                | Some (v, False) \<Rightarrow> resealItems env rnd r st items (done', failed)
                | Some (v, True) \<Rightarrow>
                    (case psPut env r st (rnd (length items)) key v n of
                       (r', st', Inr _) \<Rightarrow> resealItems env rnd r' st' items (done' + 1, failed)
                     | (r', st', Inl _) \<Rightarrow> resealItems env rnd r' st' items (done', failed + 1))))"

fun resealPages ::
    "('r, 'v) store_env \<Rightarrow> (nat \<Rightarrow> nat \<Rightarrow> seal_randoms) \<Rightarrow> 'r \<Rightarrow> 'v PersonalStore \<Rightarrow> string \<Rightarrow> nat \<times> nat \<Rightarrow> nat \<Rightarrow>
     ('r \<times> 'v PersonalStore \<times> (store_error + nat \<times> nat)) option" where
  "resealPages env rnd r st cursor counts 0 = None"
| "resealPages env rnd r st cursor counts (Suc fuel) =
     (case kv_list env r [] True cursor of
        Inl e \<Rightarrow> Some (r, st, Inl e)
      | Inr res \<Rightarrow>
          (case resealItems env (rnd fuel) r st (kv_items res) counts of
             (r', st', d, f) \<Rightarrow>
               if next_cursor res = [] then Some (r', st', Inr (d, f))
               else resealPages env rnd r' st' (next_cursor res) (d, f) fuel))"

definition resealRetired ::
    "('r, 'v) store_env \<Rightarrow> (nat \<Rightarrow> nat \<Rightarrow> seal_randoms) \<Rightarrow> 'r \<Rightarrow> 'v PersonalStore \<Rightarrow> nat \<Rightarrow>
     ('r \<times> 'v PersonalStore \<times> (store_error + nat \<times> nat)) option" where
  "resealRetired env rnd r st fuel =
     (if localOnly st \<or> ps_retired st = [] then Some (r, st, Inr (0, 0))
      else resealPages env rnd r st [] (0, 0) fuel)"

subsection \<open>The storage interface\<close>

text \<open>
  What the stores built on personal storage rely on: a versioned key-value map with compare-and-swap.
  A write with a positive expected version succeeds only at that version, every write gives the key a
  higher version, and no operation touches another key.
\<close>

locale kv_store =
  fixes get :: "'s \<Rightarrow> string \<Rightarrow> ('v \<times> nat) option"
    and put :: "'s \<Rightarrow> string \<Rightarrow> 'v \<Rightarrow> nat \<Rightarrow> store_error + ('s \<times> nat)"
    and del :: "'s \<Rightarrow> string \<Rightarrow> 's"
  assumes put_get: "put s k v e = Inr (s', n) \<Longrightarrow> get s' k = Some (v, n)"
    and put_other: "put s k v e = Inr (s', n) \<Longrightarrow> k' \<noteq> k \<Longrightarrow> get s' k' = get s k'"
    and put_newer: "put s k v e = Inr (s', n) \<Longrightarrow> get s k = Some (w, m) \<Longrightarrow> m < n"
    and put_positive: "put s k v e = Inr (s', n) \<Longrightarrow> 0 < n"
    and put_refused: "put s k v e = Inl err \<longleftrightarrow>
          err = Conflict \<and> 0 < e \<and> (\<forall>w. get s k \<noteq> Some (w, e))"
    and del_get: "get (del s k) k = None"
    and del_other: "k' \<noteq> k \<Longrightarrow> get (del s k) k' = get s k'"
begin

lemma put_unconditional: "\<exists>s' n. put s k v 0 = Inr (s', n)"
  using put_refused [of s k v 0] by (metis less_numeral_extra(3) old.sum.exhaust surj_pair)

lemma cas_accepted: "get s k = Some (w, e) \<Longrightarrow> \<exists>s' n. put s k v e = Inr (s', n) \<and> e < n"
  using put_refused [of s k v e] put_newer by (metis old.sum.exhaust surj_pair)

text \<open>A write based on what was read before another write is refused: no update is lost.\<close>

lemma stale_write_refused:
  assumes "get s k = Some (w, e)" "0 < e" "put s k v e' = Inr (s', n)"
  shows "put s' k u e = Inl Conflict"
proof -
  have "get s' k = Some (v, n)" "e < n" using put_get [OF assms(3)] put_newer [OF assms(3,1)] .
  then show ?thesis using put_refused [of s' k u e Conflict] assms(2) by simp
qed

text \<open>A key that was deleted is refused too, until it is written again.\<close>

lemma write_after_delete_refused: "0 < e \<Longrightarrow> put (del s k) k u e = Inl Conflict"
  using put_refused [of "del s k" k u e Conflict] del_get by simp

end

definition localRead :: "'v PersonalStore \<Rightarrow> string \<Rightarrow> ('v \<times> nat) option" where
  "localRead st key = map_option (\<lambda>e. (se_value e, se_version e)) (localGet st key)"

lemma localRead_eq: "localRead st key = map_of (ps_idb st) (ns st key)"
  by (cases "map_of (ps_idb st) (ns st key)") (auto simp: localRead_def localGet_def)

lemma ns_inj: "ns st k = ns st k' \<longleftrightarrow> k = k'"
  by (simp add: ns_def)

lemma ns_idb [simp]: "ns (st\<lparr>ps_idb := m\<rparr>) = ns st"
  by (simp add: ns_def fun_eq_iff)

text \<open>Local entries have positive versions, since the first write gives version 1.\<close>

definition idb_ok :: "'v PersonalStore \<Rightarrow> bool" where
  "idb_ok st \<longleftrightarrow> (\<forall>k v n. map_of (ps_idb st) k = Some (v, n) \<longrightarrow> 0 < n)"

lemma localPut_Inr:
  "localPut st k v e = Inr (st', n) \<longleftrightarrow>
     \<not> (0 < e \<and> localVersion st k \<noteq> e) \<and> n = localVersion st k + 1
     \<and> st' = st\<lparr>ps_idb := AList.update (ns st k) (v, n) (ps_idb st)\<rparr>"
  by (auto simp: localPut_def Let_def)

interpretation local_kv: kv_store localRead localPut localDelete
proof
  fix st st' :: "'v PersonalStore" and k k' v e n w m
  assume p: "localPut st k v e = Inr (st', n)"
  show "localRead st' k = Some (v, n)" using p by (auto simp: localPut_Inr localRead_eq)
  show "k' \<noteq> k \<Longrightarrow> localRead st' k' = localRead st k'" using p by (auto simp: localPut_Inr localRead_eq ns_inj)
  show "localRead st k = Some (w, m) \<Longrightarrow> m < n" using p by (auto simp: localPut_Inr localRead_eq localVersion_def)
  show "0 < n" using p by (auto simp: localPut_Inr)
next
  fix st :: "'v PersonalStore" and k v e err
  show "localPut st k v e = Inl err \<longleftrightarrow> err = Conflict \<and> 0 < e \<and> (\<forall>w. localRead st k \<noteq> Some (w, e))"
    by (auto simp: localPut_def Let_def localVersion_def localRead_eq split: option.splits)
qed (simp_all add: localRead_eq localDelete_def ns_inj)

subsection \<open>Reading what was written\<close>

definition relay_laws :: "('r, 'v) store_env \<Rightarrow> bool" where
  "relay_laws env \<longleftrightarrow>
     (\<forall>r k b e r' n. kv_put env r k b e = Inr (r', n) \<longrightarrow>
        kv_get env r' k = Inr (Some (b, n)) \<and> (\<forall>k'. k' \<noteq> k \<longrightarrow> kv_get env r' k' = kv_get env r k'))"

definition sealing_ok :: "('r, 'v) store_env \<Rightarrow> 'v PersonalStore \<Rightarrow> bool" where
  "sealing_ok env st \<longleftrightarrow>
     gcm_laws (e_crypto env) \<and> x25519_laws (e_crypto env) \<and> hkdf_laws (e_crypto env)
     \<and> length (ps_x25519Derive st) = 32 \<and> ps_x25519Public st = x25519_public (e_crypto env) (ps_x25519Derive st)
     \<and> (\<forall>rs. mset (e_order env rs) = mset rs) \<and> (\<forall>v. parse env (stringify env v) = Some v)"

definition randoms_ok :: "seal_randoms \<Rightarrow> bool" where
  "randoms_ok rnd = (case rnd of (cek, nonce, eph, wn) \<Rightarrow> length cek = 32 \<and> length nonce = 12 \<and> length eph = 32 \<and> length wn = 12)"

lemma open_single:
  assumes "gcm_laws cr" "x25519_laws cr" "hkdf_laws cr" "length cek = 32" "length nonce = 12" "length priv = 32"
    and s: "sealToRecipients cr cek nonce plain [(x25519_public cr priv, eph, wn)] = Inr blob"
    and "length eph = 32" "length wn = 12" "mset (order (blob_recipients blob)) = mset (blob_recipients blob)"
  shows "openSealed cr order blob priv (x25519_public cr priv) = Inr plain"
proof -
  obtain r where r: "r \<in> set (blob_recipients blob)" "tryRecord cr blob priv (x25519_public cr priv) r = Some plain"
    using sealed_record_opens [OF assms(1-7) _ assms(8,9)] by auto
  have "length (blob_recipients blob) = 1"
    using s by (auto simp: sealToRecipients_def Let_def split: sum.splits if_splits)
  then have "blob_recipients blob = [r]" using r(1) by (cases "blob_recipients blob") auto
  then have "order (blob_recipients blob) = [r]" using assms(10) by simp
  then show ?thesis using r(2) by (simp add: openSealed_def)
qed

lemma unseal_seal:
  assumes "sealing_ok env st" "randoms_ok rnd" "psSeal env st rnd v = Inr blob"
  shows "unsealWithSource env st blob = Some (v, False)"
proof -
  obtain cek nonce eph wn where rnd: "rnd = (cek, nonce, eph, wn)" by (cases rnd) auto
  have s: "sealToRecipients (e_crypto env) cek nonce (stringify env v) [(ps_x25519Public st, eph, wn)] = Inr blob"
    using assms(3) by (auto simp: psSeal_def rnd split: sum.splits)
  have "openSealed (e_crypto env) (e_order env) blob (ps_x25519Derive st) (ps_x25519Public st) = Inr (stringify env v)"
    using assms(1,2) s open_single by (auto simp: sealing_ok_def randoms_ok_def rnd)
  then show ?thesis using assms(1) by (simp add: unsealWithSource_def psOpen_def sealing_ok_def)
qed

lemma psPut_relay:
  assumes "\<not> localOnly st" "psPut env r st rnd k v e = (r', st', Inr n)" "\<not> localOnly st'"
  obtains blob where "psSeal env st rnd v = Inr blob" "kv_put env r k blob e = Inr (r', n)" "st' = st"
proof -
  have "localOnly x" if "unsupported st err = Some x" for err x
    using that by (auto simp: unsupported_def markStorageLocalOnly_def split: if_splits)
  moreover have "localOnly (fst (snd (psPutLocal r x k v e))) = localOnly x" for x
    by (auto simp: psPutLocal_def localPut_def Let_def split: sum.splits)
  ultimately have f: "localOnly st'" if "unsupported st err = Some x" "psPutLocal r x k v e = (r', st', Inr n)" for err x
    using that by (metis fst_conv snd_conv)
  show thesis using assms that f
    by (auto simp: psPut_def split: sum.splits prod.splits if_splits option.splits)
qed

lemma psPutLocal_Inr:
  "psPutLocal r st k v e = (r', st', Inr n) \<longleftrightarrow> r' = r \<and> localPut st k v e = Inr (st', n)"
  by (auto simp: psPutLocal_def split: sum.splits)

lemma localPut_localOnly: "localPut st k v e = Inr (st', n) \<Longrightarrow> localOnly st' = localOnly st"
  by (auto simp: localPut_Inr)

lemma psPut_then_local:
  assumes "localOnly st'" "psPut env r st rnd k v e = (r', st', Inr n)"
  obtains st0 where "localPut st0 k v e = Inr (st', n)" "r' = r"
  using assms localPut_localOnly
  by (auto simp: psPut_def psPutLocal_Inr split: sum.splits prod.splits if_splits option.splits)

text \<open>The value a key reads as, wherever it is kept.\<close>

definition readValue :: "('r, 'v) store_env \<Rightarrow> 'r \<Rightarrow> 'v PersonalStore \<Rightarrow> string \<Rightarrow> 'v option" where
  "readValue env r st key = (case snd (psGet env r st key) of Inr (Some e) \<Rightarrow> Some (se_value e) | _ \<Rightarrow> None)"

lemma psPut_not_localOnly:
  "psPut env r st rnd k v e = (r', st', res) \<Longrightarrow> \<not> localOnly st \<Longrightarrow>
   \<forall>b err. kv_put env r k b e = Inl err \<longrightarrow> \<not> isUnsupported err \<Longrightarrow> st' = st \<and> (\<forall>err. res = Inl err \<longrightarrow> r' = r)"
  by (auto simp: psPut_def unsupported_def psSeal_def isUnsupported_def split: sum.splits prod.splits if_splits option.splits)

lemma reseal_step:
  assumes "relay_laws env" "sealing_ok env st" "randoms_ok rnd" "\<not> localOnly st"
    and "\<forall>b err. kv_put env r k b e = Inl err \<longrightarrow> \<not> isUnsupported err"
    and "kv_get env r k = Inr (Some (blob, e))" "unsealWithSource env st blob = Some (v, True)"
    and "psPut env r st rnd k v e = (r', st', res)"
  shows "st' = st" "readValue env r' st k' = readValue env r st k'" "k' \<noteq> k \<Longrightarrow> kv_get env r' k' = kv_get env r k'"
proof -
  show st: "st' = st" using psPut_not_localOnly [OF assms(8,4,5)] by blast
  have "(\<forall>x. x \<noteq> k \<longrightarrow> kv_get env r' x = kv_get env r x) \<and> readValue env r' st k = Some v"
  proof (cases res)
    case (Inl err)
    then have "r' = r" using psPut_not_localOnly [OF assms(8,4,5)] by blast
    then show ?thesis using assms(4,6,7) by (simp add: readValue_def psGet_def unseal_def)
  next
    case (Inr n)
    then obtain b where b: "psSeal env st rnd v = Inr b" "kv_put env r k b e = Inr (r', n)"
      using psPut_relay [of st env r rnd k v e r' st' n] assms(4,8) st by auto
    have "unsealWithSource env st b = Some (v, False)" using unseal_seal [OF assms(2,3) b(1)] .
    then show ?thesis using assms(1,4) b(2) unfolding relay_laws_def by (simp add: readValue_def psGet_def unseal_def)
  qed
  moreover have "readValue env r st k = Some v" using assms(4,6,7) by (simp add: readValue_def psGet_def unseal_def)
  ultimately show "readValue env r' st k' = readValue env r st k'" "k' \<noteq> k \<Longrightarrow> kv_get env r' k' = kv_get env r k'"
    by (cases "k' = k"; simp add: readValue_def psGet_def)+
qed

text \<open>A relay that keeps blobs in an association list, as the witnesses use it.\<close>

definition demo_env :: "((string, SealedBlobJSON \<times> nat) jsmap, bytes) store_env" where
  "demo_env =
     \<lparr>e_crypto = demo_crypto, e_order = id, stringify = id, parse = Some,
      kv_get = (\<lambda>r k. if k = ''none'' then Inl (ApiError ''storage_unsupported'' 400) else Inr (map_of r k)),
      kv_put = (\<lambda>r k b e. let m = (case map_of r k of None \<Rightarrow> 0 | Some (_, n) \<Rightarrow> n) in
                  if k = ''none'' \<or> 0 < e \<and> m \<noteq> e then Inl (ApiError ''storage_conflict'' 409)
                  else Inr (AList.update k (b, m + 1) r, m + 1)),
      kv_list = (\<lambda>r p vs c. Inr \<lparr>kv_items = map (\<lambda>(k, b, n). (k, Some b, n)) r, next_cursor = []\<rparr>),
      kv_delete = (\<lambda>r k. Inr (AList.delete k r))\<rparr>"

definition demo_store :: "bool \<Rightarrow> bytes PersonalStore" where
  "demo_store local = newStore ''al@x.io'' (demo_kp 1) [] local"

definition demo_randoms :: seal_randoms where
  "demo_randoms = (replicate 32 1, replicate 12 2, replicate 32 3, replicate 12 4)"

lemma demo_relay_laws: "relay_laws demo_env"
  by (auto simp: relay_laws_def demo_env_def Let_def split: if_splits)

lemma demo_kp_x25519: "x25519Public (demo_kp n) = x25519_public demo_crypto (x25519Private (demo_kp n))" "length (x25519Private (demo_kp n)) = 32"
  by (simp_all add: demo_kp_def demo_crypto_def pad32_def)

lemma demo_sealing_ok: "sealing_ok demo_env (demo_store b)"
  using demo_laws demo_kp_x25519 [of 1] by (simp add: sealing_ok_def demo_env_def demo_store_def newStore_def)

lemma demo_randoms_ok: "randoms_ok demo_randoms"
  by (simp add: randoms_ok_def demo_randoms_def)

lemma demo_put:
  assumes "k \<noteq> ''none''"
  shows "\<exists>r'. psPut demo_env [] (demo_store False) demo_randoms k v 0 = (r', demo_store False, Inr 1)"
proof -
  have "\<exists>priv. length priv = 32 \<and> x25519Public (demo_kp 1) = x25519_public demo_crypto priv"
    using demo_kp_x25519 [of 1] by blast
  then obtain blob where "sealToRecipients demo_crypto (replicate 32 1) (replicate 12 2) v
      [(x25519Public (demo_kp 1), replicate 32 3, replicate 12 4)] = Inr blob"
    using sealToRecipients_total [OF demo_x25519_laws, of "[(x25519Public (demo_kp 1), replicate 32 3, replicate 12 4)]"
      "replicate 32 1" "replicate 12 2" v] by auto
  then show ?thesis using assms
    by (simp add: psPut_def psSeal_def demo_randoms_def demo_env_def demo_store_def newStore_def Let_def)
qed

subsection \<open>Properties\<close>

text \<open>
  What is put is what is read, on the relay or in the fallback: after a successful \<open>put\<close>, a \<open>get\<close>
  of the key in the store as it then stands gives the value and the version \<open>put\<close> answered, whether
  the value went to the relay, sealed to the owner, or to the device because the store was, or in the
  course of the call became, device-local.
\<close>

lemma put_then_get:
  assumes "relay_laws env" and "sealing_ok env st" and "randoms_ok rnd"
    and "psPut env r st rnd k v e = (r', st', Inr n)"
  shows "psGet env r' st' k = (st', Inr (Some \<lparr>se_key = k, se_value = v, se_version = n\<rparr>))"
proof (cases "localOnly st'")
  case True
  obtain st0 where p: "localPut st0 k v e = Inr (st', n)" using psPut_then_local [OF True assms(4)] .
  have "localRead st' k = Some (v, n)" using local_kv.put_get [OF p] .
  then have "localGet st' k = Some \<lparr>se_key = k, se_value = v, se_version = n\<rparr>"
    by (auto simp: localRead_def localGet_def)
  then show ?thesis using True by (simp add: psGet_def)
next
  case False
  then have nl: "\<not> localOnly st"
    using assms(4) localPut_localOnly [of st k v e st' n] by (auto simp: psPut_def psPutLocal_Inr)
  obtain blob where b: "psSeal env st rnd v = Inr blob" "kv_put env r k blob e = Inr (r', n)" "st' = st"
    using psPut_relay [OF nl assms(4) False] .
  have "unseal env st blob = Some v" using unseal_seal [OF assms(2,3) b(1)] by (simp add: unseal_def)
  moreover have "kv_get env r' k = Inr (Some (blob, n))" using assms(1) b(2) unfolding relay_laws_def by blast
  ultimately show ?thesis using nl b(3) by (simp add: psGet_def)
qed

text \<open>
  Compare-and-swap loses no update in the fallback: when a key has been read at version \<open>e\<close> and
  someone else writes it, or deletes it, a write expecting \<open>e\<close> is refused with a conflict and changes
  nothing, while a write expecting the version that is there succeeds with a higher one.
\<close>

lemma stale_put_conflicts:
  assumes "localOnly st" and "localRead st k = Some (w, m)" and "0 < m"
    and "psPut env r st rnd k v e = (r1, st1, Inr n)"
  shows "psPut env r1 st1 rnd' k u m = (r1, st1, Inl Conflict)
       \<and> psPut env r (localDelete st k) rnd' k u m = (r, localDelete st k, Inl Conflict)
       \<and> (\<exists>r2 st2 n2. psPut env r1 st1 rnd' k u n = (r2, st2, Inr n2) \<and> n < n2)"
proof -
  have p: "localPut st k v e = Inr (st1, n)" "r1 = r" using assms(1,4) by (auto simp: psPut_def psPutLocal_Inr)
  have l: "localOnly st1" "localOnly (localDelete st k)" using assms(1) localPut_localOnly [OF p(1)] by (simp_all add: localDelete_def)
  have a: "localPut st1 k u m = Inl Conflict" using local_kv.stale_write_refused [OF assms(2,3) p(1)] .
  have b: "localPut (localDelete st k) k u m = Inl Conflict" using local_kv.write_after_delete_refused [OF assms(3)] .
  obtain st2 n2 where c: "localPut st1 k u n = Inr (st2, n2)" "n < n2"
    using local_kv.cas_accepted [OF local_kv.put_get [OF p(1)]] by blast
  show ?thesis using l a b c by (simp add: psPut_def psPutLocal_def)
qed

text \<open>
  The fallback is entered only on the relay's definitive answer, and announced once: a read that
  fails with any other error is rethrown and leaves the store unchanged; an answer that storage is
  unsupported makes the store device-local for good, serves the device's copy, and notifies the
  listeners exactly when the session had not learned it before.
\<close>

lemma fallback_only_when_unsupported:
  assumes "\<not> localOnly st" and "kv_get env r k = Inl err"
  shows "(\<not> isUnsupported err \<longrightarrow> psGet env r st k = (st, Inl err))
       \<and> (isUnsupported err \<longrightarrow>
            (let st' = fst (psGet env r st k) in
             localOnly st' \<and> relayHasNoStorage st' \<and> ps_idb st' = ps_idb st
             \<and> snd (psGet env r st k) = Inr (localGet st k)
             \<and> notified st' = notified st + (if relayHasNoStorage st then 0 else 1)
             \<and> psGet env r st' k = (st', Inr (localGet st k))))"
  using assms
  by (simp add: psGet_def unsupported_def markStorageLocalOnly_def localGet_def ns_def Let_def)

text \<open>
  A rotation strands nothing the device still has keys for: a blob opens exactly when the current
  key or some retired generation of the ring opens it, and it is reported as opened by a retired one
  exactly when the current key does not open it.
\<close>

lemma retired_blobs_stay_readable:
  "(psOpen env st blob \<noteq> None \<longleftrightarrow>
      (\<exists>p. openSealed (e_crypto env) (e_order env) blob (ps_x25519Derive st) (ps_x25519Public st) = Inr p)
      \<or> (\<exists>g\<in>set (ps_retired st). \<exists>p. openSealed (e_crypto env) (e_order env) blob (rk_x25519Derive g) (rk_x25519Public g) = Inr p))
   \<and> (\<forall>p retired. psOpen env st blob = Some (p, retired) \<longrightarrow>
        (retired \<longleftrightarrow> (\<forall>q. openSealed (e_crypto env) (e_order env) blob (ps_x25519Derive st) (ps_x25519Public st) \<noteq> Inr q)))"
proof -
  have r: "openRetired env blob gs \<noteq> None \<longleftrightarrow>
      (\<exists>g\<in>set gs. \<exists>p. openSealed (e_crypto env) (e_order env) blob (rk_x25519Derive g) (rk_x25519Public g) = Inr p)" for gs
    by (induction gs) (auto split: sum.splits)
  show ?thesis
    using r [of "ps_retired st"]
    by (cases "openSealed (e_crypto env) (e_order env) blob (ps_x25519Derive st) (ps_x25519Public st)") (auto simp: psOpen_def)
qed

text \<open>
  The sweep after a rotation changes no value: over a page of entries as the relay holds them, on a
  relay that keeps offering storage, every key reads as the same value after the sweep as before it,
  whether it was re-sealed, skipped or failed; and the counts reported never exceed the entries seen.
\<close>

lemma reseal_preserves_values:
  assumes "relay_laws env" and "sealing_ok env st" and "\<forall>i. randoms_ok (rnd i)" and "\<not> localOnly st"
    and "\<forall>r k b e err. kv_put env r k b e = Inl err \<longrightarrow> \<not> isUnsupported err"
    and "distinct (map fst items)" and "\<forall>(k, b, n)\<in>set items. \<forall>blob. b = Some blob \<longrightarrow> kv_get env r k = Inr (Some (blob, n))"
    and "resealItems env rnd r st items (d, f) = (r', st', d', f')"
  shows "st' = st \<and> (\<forall>k. readValue env r' st k = readValue env r st k)
       \<and> d \<le> d' \<and> f \<le> f' \<and> d' + f' \<le> d + f + length items"
  using assms(6-8)
proof (induction items arbitrary: r d f)
  case (Cons x items)
  obtain k b n where x: "x = (k, b, n)" by (cases x) auto
  have rest: "distinct (map fst items)" "k \<notin> fst ` set items" using Cons.prems(1) x by auto
  have skip: "st' = st \<and> (\<forall>k. readValue env r' st k = readValue env r st k)
       \<and> d \<le> d' \<and> f \<le> f' \<and> d' + f' \<le> d + f + length (x # items)"
    if "resealItems env rnd r st items (d, f) = (r', st', d', f')"
    using Cons.IH [OF rest(1) _ that] Cons.prems(2) by fastforce
  show ?case
  proof (cases "\<exists>blob. b = Some blob \<and> \<not> resealSkipped k")
    case False
    then show ?thesis using skip Cons.prems(3) x by (cases b) auto
  next
    case True
    then obtain blob where b: "b = Some blob" "\<not> resealSkipped k" by blast
    show ?thesis
    proof (cases "unsealWithSource env st blob")
      case None
      then have "resealItems env rnd r st items (d, f + 1) = (r', st', d', f')" using Cons.prems(3) x b by simp
      from Cons.IH [OF rest(1) _ this] Cons.prems(2) show ?thesis by fastforce
    next
      case (Some vr)
      obtain v rt where vr: "vr = (v, rt)" by (cases vr) auto
      show ?thesis
      proof (cases rt)
        case False
        then show ?thesis using skip Cons.prems(3) x b Some vr by simp
      next
        case True
        obtain r1 st1 res where put: "psPut env r st (rnd (length items)) k v n = (r1, st1, res)"
          by (cases "psPut env r st (rnd (length items)) k v n") auto
        have get: "kv_get env r k = Inr (Some (blob, n))" using Cons.prems(2) x b by auto
        have step: "st1 = st" "\<And>k'. readValue env r1 st k' = readValue env r st k'"
            "\<And>k'. k' \<noteq> k \<Longrightarrow> kv_get env r1 k' = kv_get env r k'"
          using reseal_step [OF assms(1,2) _ assms(4) _ get _ put] assms(3,5) Some vr True by auto
        obtain d1 f1 where go: "resealItems env rnd r1 st items (d1, f1) = (r', st', d', f')" "d \<le> d1" "f \<le> f1" "d1 + f1 = d + f + 1"
          using Cons.prems(3) x b Some vr True put step(1) by (cases res) auto
        have "\<forall>(k, b, n)\<in>set items. \<forall>blob. b = Some blob \<longrightarrow> kv_get env r1 k = Inr (Some (blob, n))"
          using Cons.prems(2) step(3) rest(2) by (auto simp: image_iff split: prod.splits)
        from Cons.IH [OF rest(1) this go(1)] go step(2) show ?thesis by auto
      qed
    qed
  qed
qed simp

end
