(* ===== verification/Pins.thy ===== *)
theory Pins
  imports Lineage Personal_Store
begin

section \<open>Pinned identities\<close>

text \<open>
  \<open>lib/trust/pinnedKey.ts\<close> (what a pin covers and how it is compared), \<open>lib/trust/pinStore.ts\<close> (the
  device's own pins and their reconciliation with the synced copy), the pin-writing part of
  \<open>lib/api/contactStore.ts\<close>, and the operations of \<open>lib/hooks/useContacts.ts\<close> on them. An absent string
  is the empty string, as every test of the source treats the two alike. The wall clock is an argument.
\<close>

record PinnedFacts =
  pf_ed25519Pub :: string
  pf_x25519Pub :: string
  pf_adminKeyCustody :: bool
  pf_noIdentity :: bool

record DirectoryFacts =
  df_ed25519_pub :: string
  df_x25519_pub :: string
  df_admin_key_custody :: bool
  df_legacy :: bool

datatype PinVerdict = Unpinned | Match | Changed | RecordChanged

datatype TrustProvenance = InPerson | FingerprintCompared | NetworkVouched | OrgVerified | UserApproved

record ContactRecord =
  cr_v :: nat
  cr_address :: string
  cr_name :: string
  cr_fingerprint :: string
  cr_notes :: string
  cr_updatedAt :: nat
  cr_deviceId :: string
  cr_provenance :: "TrustProvenance option"
  cr_ed25519Pub :: string
  cr_x25519Pub :: string
  cr_pinnedAt :: nat
  cr_adminKeyCustody :: bool
  cr_noIdentity :: bool
  cr_pinSeq :: nat

definition absentIdentityFacts :: PinnedFacts where
  "absentIdentityFacts = \<lparr>pf_ed25519Pub = [], pf_x25519Pub = [], pf_adminKeyCustody = False, pf_noIdentity = True\<rparr>"

definition directoryFacts :: "DirectoryFacts \<Rightarrow> PinnedFacts" where
  "directoryFacts dir =
     (if df_legacy dir \<or> df_ed25519_pub dir = [] then absentIdentityFacts
      else \<lparr>pf_ed25519Pub = df_ed25519_pub dir, pf_x25519Pub = df_x25519_pub dir,
            pf_adminKeyCustody = df_admin_key_custody dir, pf_noIdentity = False\<rparr>)"

definition contactFacts :: "ContactRecord option \<Rightarrow> PinnedFacts option" where
  "contactFacts contact =
     (case contact of
        None \<Rightarrow> None
      | Some c \<Rightarrow>
          if cr_noIdentity c then Some absentIdentityFacts
          else if cr_ed25519Pub c = [] then None
          else Some \<lparr>pf_ed25519Pub = cr_ed25519Pub c, pf_x25519Pub = cr_x25519Pub c,
                     pf_adminKeyCustody = cr_adminKeyCustody c, pf_noIdentity = False\<rparr>)"

definition changedFacts :: "PinnedFacts \<Rightarrow> PinnedFacts \<Rightarrow> string list" where
  "changedFacts pinned observed =
     (if pf_noIdentity pinned \<noteq> pf_noIdentity observed then [''DMCN identity'']
      else (if pf_ed25519Pub pinned \<noteq> [] \<and> pf_ed25519Pub pinned \<noteq> pf_ed25519Pub observed then [''signing key''] else [])
        @ (if pf_x25519Pub pinned \<noteq> [] \<and> pf_x25519Pub pinned \<noteq> pf_x25519Pub observed then [''encryption key''] else [])
        @ (if pf_adminKeyCustody pinned \<noteq> pf_adminKeyCustody observed then [''key custody by their provider''] else []))"

definition checkPin :: "ContactRecord option \<Rightarrow> PinnedFacts option \<Rightarrow> PinVerdict" where
  "checkPin contact observed =
     (case (contactFacts contact, observed) of
        (Some pinned, Some obs) \<Rightarrow>
          if pf_ed25519Pub obs = [] \<and> \<not> pf_noIdentity obs then Unpinned
          else if length (changedFacts pinned obs) = 0 then Match
          else if pf_noIdentity pinned \<noteq> pf_noIdentity obs then Changed
          else if pf_ed25519Pub pinned \<noteq> pf_ed25519Pub obs then Changed
          else if pf_x25519Pub pinned \<noteq> [] \<and> pf_x25519Pub pinned \<noteq> pf_x25519Pub obs then Changed
          else RecordChanged
      | _ \<Rightarrow> Unpinned)"

definition hasPinnedKey :: "ContactRecord option \<Rightarrow> bool" where
  "hasPinnedKey contact = (case contact of None \<Rightarrow> False | Some c \<Rightarrow> cr_ed25519Pub c \<noteq> [])"

text \<open>The sentence \<open>pinnedKeyWarning\<close> picks; the wording itself is left to the source.\<close>

datatype KeyWarning = WarnStolen nat | WarnReplaced nat | WarnRecovered nat | WarnNoRecord

definition pinnedKeyWarning :: "KeyChange option \<Rightarrow> KeyWarning" where
  "pinnedKeyWarning change =
     (case change of
        Some (ReportedStolen at) \<Rightarrow> WarnStolen at
      | Some (Replaced at) \<Rightarrow> WarnReplaced at
      | Some (Recovered at) \<Rightarrow> WarnRecovered at
      | _ \<Rightarrow> WarnNoRecord)"

subsection \<open>The device's pins\<close>

record LocalPin =
  lp_owner :: string
  lp_address :: string
  lp_facts :: PinnedFacts
  lp_seq :: nat
  lp_pinnedAt :: nat

type_synonym pin_store = "(string, LocalPin) jsmap"

definition pinId :: "string \<Rightarrow> string \<Rightarrow> string" where
  "pinId owner addr = norm owner @ ''|'' @ norm addr"

text \<open>The two flags say whether the device database can be read, and written, at this moment.\<close>

definition loadPin :: "bool \<Rightarrow> pin_store \<Rightarrow> string \<Rightarrow> string \<Rightarrow> LocalPin option" where
  "loadPin readable pins owner addr = (if readable then map_of pins (pinId owner addr) else None)"

definition loadPins :: "bool \<Rightarrow> pin_store \<Rightarrow> string \<Rightarrow> (string, LocalPin) jsmap" where
  "loadPins readable pins owner =
     (if readable
      then fold (\<lambda>p out. if lp_owner p = norm owner \<and> lp_address p \<noteq> [] then AList.update (lp_address p) p out else out)
             (map snd pins) []
      else [])"

definition savePin :: "bool \<Rightarrow> pin_store \<Rightarrow> LocalPin \<Rightarrow> pin_store" where
  "savePin writable pins pin =
     (if writable then AList.update (pinId (lp_owner pin) (lp_address pin)) pin pins else pins)"

definition deletePin :: "bool \<Rightarrow> pin_store \<Rightarrow> string \<Rightarrow> string \<Rightarrow> pin_store" where
  "deletePin writable pins owner addr = (if writable then AList.delete (pinId owner addr) pins else pins)"

definition makePin :: "nat \<Rightarrow> string \<Rightarrow> string \<Rightarrow> PinnedFacts \<Rightarrow> nat \<Rightarrow> LocalPin" where
  "makePin now owner addr facts seq =
     \<lparr>lp_owner = norm owner, lp_address = norm addr, lp_facts = facts, lp_seq = max 1 seq, lp_pinnedAt = now\<rparr>"

datatype PinAnomaly = KvMissing | KvConflict

record PinDecision =
  pd_facts :: "PinnedFacts option"
  pd_seq :: nat
  pd_anomaly :: "PinAnomaly option"
  pd_adopt :: "LocalPin option"
  pd_heal :: bool

definition samePin :: "PinnedFacts \<Rightarrow> PinnedFacts \<Rightarrow> bool" where
  "samePin a b \<longleftrightarrow> pf_ed25519Pub a = pf_ed25519Pub b \<and> pf_x25519Pub a = pf_x25519Pub b
     \<and> pf_adminKeyCustody a = pf_adminKeyCustody b"

text \<open>\<open>localFacts\<close> of \<open>reconcilePin\<close>: three of the four fields, so that the absence flag is not carried.\<close>

definition localFacts :: "LocalPin \<Rightarrow> PinnedFacts" where
  "localFacts p = (lp_facts p)\<lparr>pf_noIdentity := False\<rparr>"

definition reconcilePin ::
    "nat \<Rightarrow> string \<Rightarrow> string \<Rightarrow> LocalPin option \<Rightarrow> PinnedFacts option \<Rightarrow> nat \<Rightarrow> PinDecision" where
  "reconcilePin now owner addr local kv kvSeq =
     (let kvSeqN = (if kvSeq \<noteq> 0 then kvSeq else if kv \<noteq> None then 1 else 0);
          noKey = (case kv of None \<Rightarrow> True | Some f \<Rightarrow> pf_ed25519Pub f = []) in
      case local of
        None \<Rightarrow>
          if noKey then \<lparr>pd_facts = None, pd_seq = 0, pd_anomaly = None, pd_adopt = None, pd_heal = False\<rparr>
          else \<lparr>pd_facts = kv, pd_seq = kvSeqN, pd_anomaly = None,
                pd_adopt = Some (makePin now owner addr (the kv) kvSeqN), pd_heal = False\<rparr>
      | Some p \<Rightarrow>
          if noKey then \<lparr>pd_facts = Some (localFacts p), pd_seq = lp_seq p, pd_anomaly = Some KvMissing,
                         pd_adopt = None, pd_heal = True\<rparr>
          else if samePin (localFacts p) (the kv)
          then \<lparr>pd_facts = Some (localFacts p), pd_seq = max (lp_seq p) kvSeqN, pd_anomaly = None,
                pd_adopt = None, pd_heal = False\<rparr>
          else if lp_seq p < kvSeqN
          then \<lparr>pd_facts = kv, pd_seq = kvSeqN, pd_anomaly = None,
                pd_adopt = Some (makePin now owner addr (the kv) kvSeqN), pd_heal = False\<rparr>
          else \<lparr>pd_facts = Some (localFacts p), pd_seq = lp_seq p, pd_anomaly = Some KvConflict,
                pd_adopt = None, pd_heal = False\<rparr>)"

end
