(* ===== verification/Contacts.thy ===== *)
theory Contacts
  imports Pins "HOL-Library.Char_ord" "HOL-Library.List_Lexorder"
begin

section \<open>The address book\<close>

text \<open>
  \<open>lib/api/contactStore.ts\<close>, the address book kept in personal storage, and the operations of
  \<open>lib/hooks/useContacts.ts\<close>, which join it with the device's pins. A \<open>moment\<close> gathers what one call
  takes from its surroundings: the clock, whether the device database can be read and written, the
  random values of its seals, and what the owner's other devices do to the relay between the call's
  read and its write. A call that throws keeps the effects it had before the throw. Fire-and-forget
  calls take effect in program order. React's setters are assignments to the state.
\<close>

definition contactId :: "string \<Rightarrow> string" where
  "contactId address = urlSafe (toBase64 (utf8 (norm address)))"

definition contactKey :: "string \<Rightarrow> string" where
  "contactKey address = ''contacts/'' @ contactId address"

record 'r moment =
  m_now :: nat
  m_readable :: bool
  m_writable :: bool
  m_rnd :: "nat \<Rightarrow> seal_randoms"
  m_others :: "nat \<Rightarrow> 'r \<Rightarrow> 'r"

record ContactStore =
  cs_store :: "ContactRecord PersonalStore"
  cs_deviceHex :: string

record ContactPatch =
  cp_name :: "string option"
  cp_notes :: "string option"

datatype contact_error = ReadFailed store_error | NoContact | WriteFailed store_error

datatype pin_mode = Lazy | Force

type_synonym 'r contact_env = "('r, ContactRecord) store_env"

subsection \<open>The store\<close>

definition newContactStore :: "ContactRecord PersonalStore \<Rightarrow> bytes \<Rightarrow> ContactStore" where
  "newContactStore st dev = \<lparr>cs_store = st, cs_deviceHex = toHex dev\<rparr>"

definition csList ::
    "'r contact_env \<Rightarrow> 'r \<Rightarrow> ContactStore \<Rightarrow> nat \<Rightarrow> (ContactStore \<times> (store_error + ContactRecord list)) option" where
  "csList env r cs fuel =
     map_option (\<lambda>(st, res). (cs\<lparr>cs_store := st\<rparr>, map_sum id (map se_value) res))
       (psList env r (cs_store cs) ''contacts/'' fuel)"

definition csPut ::
    "'r contact_env \<Rightarrow> 'r moment \<Rightarrow> 'r \<Rightarrow> ContactStore \<Rightarrow> ContactRecord \<Rightarrow> 'r \<times> ContactStore \<times> (store_error + nat)" where
  "csPut env m r cs c =
     (case psPut env r (cs_store cs) (m_rnd m 0) (contactKey (cr_address c))
             (c\<lparr>cr_v := 3, cr_updatedAt := m_now m, cr_deviceId := cs_deviceHex cs\<rparr>) 0 of
        (r', st', res) \<Rightarrow> (r', cs\<lparr>cs_store := st'\<rparr>, res))"

definition applyPatch :: "nat \<Rightarrow> string \<Rightarrow> ContactPatch \<Rightarrow> ContactRecord \<Rightarrow> ContactRecord" where
  "applyPatch now dev patch c =
     c\<lparr>cr_name := case_option (cr_name c) id (cp_name patch), cr_notes := case_option (cr_notes c) id (cp_notes patch),
       cr_v := 3, cr_updatedAt := now, cr_deviceId := dev\<rparr>"

text \<open>One turn of the loop of \<open>update\<close>, then the loop: one retry, on a conflict of the write.\<close>

definition updateOnce ::
    "'r contact_env \<Rightarrow> 'r moment \<Rightarrow> nat \<Rightarrow> 'r \<Rightarrow> ContactStore \<Rightarrow> string \<Rightarrow> ContactPatch \<Rightarrow>
     'r \<times> ContactStore \<times> (contact_error + ContactRecord)" where
  "updateOnce env m attempt r cs address patch =
     (case psGet env r (cs_store cs) (contactKey address) of
        (st, Inl e) \<Rightarrow> (r, cs\<lparr>cs_store := st\<rparr>, Inl (ReadFailed e))
      | (st, Inr None) \<Rightarrow> (r, cs\<lparr>cs_store := st\<rparr>, Inl NoContact)
      | (st, Inr (Some entry)) \<Rightarrow>
          (let rec = applyPatch (m_now m) (cs_deviceHex cs) patch (se_value entry) in
           case psPut env (m_others m attempt r) st (m_rnd m attempt) (contactKey address) rec (se_version entry) of
             (r', st', Inr _) \<Rightarrow> (r', cs\<lparr>cs_store := st'\<rparr>, Inr rec)
           | (r', st', Inl e) \<Rightarrow> (r', cs\<lparr>cs_store := st'\<rparr>, Inl (WriteFailed e))))"

definition csUpdate ::
    "'r contact_env \<Rightarrow> 'r moment \<Rightarrow> 'r \<Rightarrow> ContactStore \<Rightarrow> string \<Rightarrow> ContactPatch \<Rightarrow>
     'r \<times> ContactStore \<times> (contact_error + ContactRecord)" where
  "csUpdate env m r cs address patch =
     (case updateOnce env m 0 r cs address patch of
        (r1, cs1, Inl (WriteFailed Conflict)) \<Rightarrow> updateOnce env m 1 r1 cs1 address patch
      | out \<Rightarrow> out)"

definition pinnedRecord :: "nat \<Rightarrow> string \<Rightarrow> PinnedFacts \<Rightarrow> nat \<Rightarrow> ContactRecord \<Rightarrow> ContactRecord" where
  "pinnedRecord now dev facts seq c =
     c\<lparr>cr_v := 3, cr_ed25519Pub := pf_ed25519Pub facts, cr_x25519Pub := pf_x25519Pub facts,
       cr_adminKeyCustody := pf_adminKeyCustody facts, cr_pinSeq := max 1 seq,
       cr_pinnedAt := now, cr_updatedAt := now, cr_deviceId := dev\<rparr>"

definition writePin ::
    "'r contact_env \<Rightarrow> 'r moment \<Rightarrow> 'r \<Rightarrow> ContactStore \<Rightarrow> string \<Rightarrow> PinnedFacts \<Rightarrow> nat \<Rightarrow> pin_mode \<Rightarrow>
     'r \<times> ContactStore \<times> (store_error + unit)" where
  "writePin env m r cs address facts seq mode =
     (case psGet env r (cs_store cs) (contactKey address) of
        (st, Inl e) \<Rightarrow> (r, cs\<lparr>cs_store := st\<rparr>, Inl e)
      | (st, Inr None) \<Rightarrow> (r, cs\<lparr>cs_store := st\<rparr>, Inr ())
      | (st, Inr (Some entry)) \<Rightarrow>
          if mode = Lazy \<and> cr_ed25519Pub (se_value entry) \<noteq> [] then (r, cs\<lparr>cs_store := st\<rparr>, Inr ())
          else (case psPut env (m_others m 0 r) st (m_rnd m 0) (contactKey address)
                       (pinnedRecord (m_now m) (cs_deviceHex cs) facts seq (se_value entry)) (se_version entry) of
                  (r', st', _) \<Rightarrow> (r', cs\<lparr>cs_store := st'\<rparr>, Inr ())))"

definition pinContactKey ::
    "'r contact_env \<Rightarrow> 'r moment \<Rightarrow> 'r \<Rightarrow> ContactStore \<Rightarrow> string \<Rightarrow> PinnedFacts \<Rightarrow> 'r \<times> ContactStore \<times> (store_error + unit)" where
  "pinContactKey env m r cs address facts = writePin env m r cs address facts 1 Lazy"

definition repinContactKey ::
    "'r contact_env \<Rightarrow> 'r moment \<Rightarrow> 'r \<Rightarrow> ContactStore \<Rightarrow> string \<Rightarrow> PinnedFacts \<Rightarrow> nat \<Rightarrow> 'r \<times> ContactStore \<times> (store_error + unit)" where
  "repinContactKey env m r cs address facts seq = writePin env m r cs address facts seq Force"

definition healPin ::
    "'r contact_env \<Rightarrow> 'r moment \<Rightarrow> 'r \<Rightarrow> ContactStore \<Rightarrow> string \<Rightarrow> PinnedFacts \<Rightarrow> nat \<Rightarrow> 'r \<times> ContactStore \<times> (store_error + unit)" where
  "healPin env m r cs address facts seq = writePin env m r cs address facts seq Force"

definition csDelete :: "'r contact_env \<Rightarrow> 'r \<Rightarrow> ContactStore \<Rightarrow> string \<Rightarrow> 'r \<times> ContactStore \<times> (store_error + unit)" where
  "csDelete env r cs address =
     (case psDelete env r (cs_store cs) (contactKey address) of (r', st', res) \<Rightarrow> (r', cs\<lparr>cs_store := st'\<rparr>, res))"

subsection \<open>The contacts of a session\<close>

record Contact =
  ct_address :: string
  ct_name :: string
  ct_fingerprint :: string

record AllowlistInput =
  al_address :: string
  al_name :: string
  al_fingerprint :: string
  al_provenance :: TrustProvenance
  al_ed25519Pub :: string
  al_x25519Pub :: string
  al_adminKeyCustody :: bool
  al_noIdentity :: bool

type_synonym PinAlert = "string \<times> PinAnomaly"

record 'r book =
  bk_owner :: string
  bk_relay :: 'r
  bk_store :: ContactStore
  bk_pins :: pin_store
  bk_records :: "ContactRecord list"
  bk_alerts :: "PinAlert list"

definition plainRecord :: "Contact \<Rightarrow> ContactRecord" where
  "plainRecord c =
     \<lparr>cr_v = 2, cr_address = ct_address c, cr_name = ct_name c, cr_fingerprint = ct_fingerprint c, cr_notes = [],
      cr_updatedAt = 0, cr_deviceId = [], cr_provenance = None, cr_ed25519Pub = [], cr_x25519Pub = [], cr_pinnedAt = 0,
      cr_adminKeyCustody = False, cr_noIdentity = False, cr_pinSeq = 0\<rparr>"

text \<open>A content signature: the compared fields joined by bars, the rows sorted and joined by newlines.\<close>

definition provenanceName :: "TrustProvenance option \<Rightarrow> string" where
  "provenanceName p =
     (case p of None \<Rightarrow> [] | Some InPerson \<Rightarrow> ''in_person'' | Some FingerprintCompared \<Rightarrow> ''fingerprint''
      | Some NetworkVouched \<Rightarrow> ''network_vouched'' | Some OrgVerified \<Rightarrow> ''org_verified'' | Some UserApproved \<Rightarrow> ''user_approved'')"

definition recordsSig :: "ContactRecord list \<Rightarrow> string" where
  "recordsSig list =
     joinWith ''\<newline>'' (sort (map (\<lambda>r. joinWith ''|''
       [norm (cr_address r), showNat (cr_v r), showNat (cr_updatedAt r), cr_name r, cr_fingerprint r,
        provenanceName (cr_provenance r), cr_ed25519Pub r, cr_x25519Pub r,
        (if cr_adminKeyCustody r then ''1'' else []), showNat (cr_pinSeq r)]) list))"

definition anomalyName :: "PinAnomaly \<Rightarrow> string" where
  "anomalyName a = (case a of KvMissing \<Rightarrow> ''kv_missing'' | KvConflict \<Rightarrow> ''kv_conflict'')"

definition alertsSig :: "PinAlert list \<Rightarrow> string" where
  "alertsSig list = joinWith ''\<newline>'' (sort (map (\<lambda>(a, an). norm a @ ''|'' @ anomalyName an) list))"

text \<open>
  \<open>{ ...rec, ...facts, pinSeq }\<close>: the three fields every fact set carries are replaced; the absence flag
  is only ever set, since a fact set without it has no such property to spread.
\<close>

definition mergeFacts :: "ContactRecord \<Rightarrow> PinnedFacts \<Rightarrow> nat \<Rightarrow> ContactRecord" where
  "mergeFacts c f seq =
     c\<lparr>cr_ed25519Pub := pf_ed25519Pub f, cr_x25519Pub := pf_x25519Pub f, cr_adminKeyCustody := pf_adminKeyCustody f,
       cr_noIdentity := pf_noIdentity f \<or> cr_noIdentity c, cr_pinSeq := seq\<rparr>"

definition decisionFor :: "'r moment \<Rightarrow> string \<Rightarrow> (string, LocalPin) jsmap \<Rightarrow> ContactRecord \<Rightarrow> PinDecision" where
  "decisionFor m owner localPins c =
     reconcilePin (m_now m) owner (cr_address c) (map_of localPins (norm (cr_address c)))
       (contactFacts (Some c)) (cr_pinSeq c)"

definition shownRecord :: "PinDecision \<Rightarrow> ContactRecord \<Rightarrow> ContactRecord" where
  "shownRecord d c = (case pd_facts d of None \<Rightarrow> c | Some f \<Rightarrow> mergeFacts c f (pd_seq d))"

text \<open>The loop body of \<open>applyLocalPins\<close>, with the state it writes: relay, store, pins.\<close>

definition applyPin ::
    "'r contact_env \<Rightarrow> 'r moment \<Rightarrow> string \<Rightarrow> (string, LocalPin) jsmap \<Rightarrow> ContactRecord \<Rightarrow>
     'r \<times> ContactStore \<times> pin_store \<Rightarrow> 'r \<times> ContactStore \<times> pin_store" where
  "applyPin env m owner localPins c s =
     (case s of (r, cs, pins) \<Rightarrow>
        (let d = decisionFor m owner localPins c;
             pins' = (case pd_adopt d of None \<Rightarrow> pins | Some p \<Rightarrow> savePin (m_writable m) pins p) in
         case (if pd_heal d then pd_facts d else None) of
           None \<Rightarrow> (r, cs, pins')
         | Some f \<Rightarrow> (case healPin env m r cs (cr_address c) f (pd_seq d) of (r', cs', _) \<Rightarrow> (r', cs', pins'))))"

definition applyLocalPins ::
    "'r contact_env \<Rightarrow> 'r moment \<Rightarrow> string \<Rightarrow> 'r \<times> ContactStore \<times> pin_store \<Rightarrow> ContactRecord list \<Rightarrow>
     ('r \<times> ContactStore \<times> pin_store) \<times> ContactRecord list \<times> PinAlert list" where
  "applyLocalPins env m owner s list =
     (let localPins = loadPins (m_readable m) (snd (snd s)) owner in
      (fold (applyPin env m owner localPins) list s,
       map (\<lambda>c. shownRecord (decisionFor m owner localPins c) c) list,
       List.map_filter (\<lambda>c. map_option (Pair (cr_address c)) (pd_anomaly (decisionFor m owner localPins c))) list))"

text \<open>\<open>load\<close>: a listing that fails changes nothing; one that does not end never gets here.\<close>

definition loadContacts :: "'r contact_env \<Rightarrow> 'r moment \<Rightarrow> nat \<Rightarrow> 'r book \<Rightarrow> 'r book" where
  "loadContacts env m fuel b =
     (case csList env (bk_relay b) (bk_store b) fuel of
        None \<Rightarrow> b
      | Some (cs, Inl _) \<Rightarrow> b\<lparr>bk_store := cs\<rparr>
      | Some (cs, Inr list) \<Rightarrow>
          (case applyLocalPins env m (bk_owner b) (bk_relay b, cs, bk_pins b) list of
             ((r', cs', pins'), records, alerts) \<Rightarrow>
               b\<lparr>bk_relay := r', bk_store := cs', bk_pins := pins',
                 bk_records := (if recordsSig (bk_records b) = recordsSig records then bk_records b else records),
                 bk_alerts := (if alertsSig (bk_alerts b) = alertsSig alerts then bk_alerts b else alerts)\<rparr>))"

definition isFor :: "string \<Rightarrow> ContactRecord \<Rightarrow> bool" where
  "isFor address c \<longleftrightarrow> norm (cr_address c) = norm address"

definition contactByAddress :: "'r book \<Rightarrow> string \<Rightarrow> ContactRecord option" where
  "contactByAddress b address =
     map_of (fold (\<lambda>c. AList.update (norm (cr_address c)) c) (bk_records b) []) (norm address)"

definition nameFor :: "'r book \<Rightarrow> string \<Rightarrow> string" where
  "nameFor b address =
     (case contactByAddress b address of
        None \<Rightarrow> address
      | Some c \<Rightarrow> if trim (cr_name c) = [] \<or> norm (trim (cr_name c)) = norm address then address else trim (cr_name c))"

definition addContact :: "'r contact_env \<Rightarrow> 'r moment \<Rightarrow> Contact \<Rightarrow> 'r book \<Rightarrow> 'r book \<times> (store_error + unit)" where
  "addContact env m c b =
     (case csPut env m (bk_relay b) (bk_store b) (plainRecord c) of
        (r', cs', Inl e) \<Rightarrow> (b\<lparr>bk_relay := r', bk_store := cs'\<rparr>, Inl e)
      | (r', cs', Inr _) \<Rightarrow>
          (b\<lparr>bk_relay := r', bk_store := cs',
             bk_records := filter (\<lambda>c'. \<not> isFor (ct_address c) c') (bk_records b)
               @ [(plainRecord c)\<lparr>cr_updatedAt := m_now m\<rparr>]\<rparr>, Inr ()))"

definition updateContact ::
    "'r contact_env \<Rightarrow> 'r moment \<Rightarrow> string \<Rightarrow> ContactPatch \<Rightarrow> 'r book \<Rightarrow> 'r book \<times> (contact_error + unit)" where
  "updateContact env m address patch b =
     (case csUpdate env m (bk_relay b) (bk_store b) address patch of
        (r', cs', Inl e) \<Rightarrow> (b\<lparr>bk_relay := r', bk_store := cs'\<rparr>, Inl e)
      | (r', cs', Inr rec) \<Rightarrow>
          (b\<lparr>bk_relay := r', bk_store := cs',
             bk_records := map (\<lambda>c. if isFor address c then rec else c) (bk_records b)\<rparr>, Inr ()))"

definition inputRecord :: "AllowlistInput \<Rightarrow> nat \<Rightarrow> ContactRecord" where
  "inputRecord i seq =
     \<lparr>cr_v = 3, cr_address = al_address i, cr_name = al_name i, cr_fingerprint = al_fingerprint i, cr_notes = [],
      cr_updatedAt = 0, cr_deviceId = [], cr_provenance = Some (al_provenance i), cr_ed25519Pub = al_ed25519Pub i,
      cr_x25519Pub = al_x25519Pub i, cr_pinnedAt = 0, cr_adminKeyCustody = al_adminKeyCustody i,
      cr_noIdentity = al_noIdentity i, cr_pinSeq = seq\<rparr>"

definition inputFacts :: "AllowlistInput \<Rightarrow> PinnedFacts" where
  "inputFacts i =
     (if al_noIdentity i then absentIdentityFacts
      else \<lparr>pf_ed25519Pub = al_ed25519Pub i, pf_x25519Pub = al_x25519Pub i,
            pf_adminKeyCustody = al_adminKeyCustody i, pf_noIdentity = False\<rparr>)"

definition allowlist :: "'r contact_env \<Rightarrow> 'r moment \<Rightarrow> AllowlistInput \<Rightarrow> 'r book \<Rightarrow> 'r book \<times> (store_error + unit)" where
  "allowlist env m i b =
     (if bk_owner b = [] then (b, Inr ())
      else
        (let pinning = (al_ed25519Pub i \<noteq> [] \<or> al_noIdentity i);
             held = (case loadPin (m_readable m) (bk_pins b) (bk_owner b) (al_address i) of None \<Rightarrow> 0 | Some p \<Rightarrow> lp_seq p);
             seq = (if pinning then held + 1 else 0);
             pins' = (if pinning
                      then savePin (m_writable m) (bk_pins b) (makePin (m_now m) (bk_owner b) (al_address i) (inputFacts i) seq)
                      else bk_pins b) in
         case csPut env m (bk_relay b) (bk_store b) (inputRecord i seq) of
           (r', cs', Inl e) \<Rightarrow> (b\<lparr>bk_relay := r', bk_store := cs', bk_pins := pins'\<rparr>, Inl e)
         | (r', cs', Inr _) \<Rightarrow>
             (b\<lparr>bk_relay := r', bk_store := cs', bk_pins := pins',
                bk_records := filter (\<lambda>c. \<not> isFor (al_address i) c) (bk_records b)
                  @ [(inputRecord i seq)\<lparr>cr_updatedAt := m_now m\<rparr>],
                bk_alerts := filter (\<lambda>(a, _). norm a \<noteq> norm (al_address i)) (bk_alerts b)\<rparr>, Inr ())))"

definition pinKey :: "'r contact_env \<Rightarrow> 'r moment \<Rightarrow> string \<Rightarrow> PinnedFacts \<Rightarrow> 'r book \<Rightarrow> 'r book" where
  "pinKey env m address facts b =
     (if bk_owner b = [] \<or> pf_ed25519Pub facts = [] then b
      else if loadPin (m_readable m) (bk_pins b) (bk_owner b) address \<noteq> None then b
      else
        (case pinContactKey env m (bk_relay b) (bk_store b) address facts of
           (r', cs', _) \<Rightarrow>
             b\<lparr>bk_relay := r', bk_store := cs',
               bk_pins := savePin (m_writable m) (bk_pins b) (makePin (m_now m) (bk_owner b) address facts 1),
               bk_records := map (\<lambda>c. if isFor address c \<and> cr_ed25519Pub c = []
                                      then (mergeFacts c facts 1)\<lparr>cr_pinnedAt := m_now m\<rparr> else c) (bk_records b)\<rparr>))"

definition removeContact :: "'r contact_env \<Rightarrow> 'r moment \<Rightarrow> string \<Rightarrow> 'r book \<Rightarrow> 'r book \<times> (store_error + unit)" where
  "removeContact env m address b =
     (case csDelete env (bk_relay b) (bk_store b) address of
        (r', cs', Inl e) \<Rightarrow> (b\<lparr>bk_relay := r', bk_store := cs'\<rparr>, Inl e)
      | (r', cs', Inr _) \<Rightarrow>
          (b\<lparr>bk_relay := r', bk_store := cs',
             bk_pins := (if bk_owner b = [] then bk_pins b else deletePin (m_writable m) (bk_pins b) (bk_owner b) address),
             bk_records := filter (\<lambda>c. \<not> isFor address c) (bk_records b),
             bk_alerts := filter (\<lambda>(a, _). norm a \<noteq> norm address) (bk_alerts b)\<rparr>, Inr ()))"

text \<open>
  \<open>migrateLegacy\<close>: \<open>None\<close> is no readable legacy list. The list is cleared once every contact was put,
  and kept when a put fails.
\<close>

fun putAll :: "'r contact_env \<Rightarrow> 'r moment \<Rightarrow> 'r \<Rightarrow> ContactStore \<Rightarrow> Contact list \<Rightarrow> 'r \<times> ContactStore \<times> bool" where
  "putAll env m r cs [] = (r, cs, True)"
| "putAll env m r cs (c # rest) =
     (case csPut env m r cs (plainRecord c) of
        (r', cs', Inl _) \<Rightarrow> (r', cs', False)
      | (r', cs', Inr _) \<Rightarrow> putAll env m r' cs' rest)"

definition migrateLegacy ::
    "'r contact_env \<Rightarrow> 'r moment \<Rightarrow> Contact list option \<Rightarrow> 'r \<Rightarrow> ContactStore \<Rightarrow> 'r \<times> ContactStore \<times> Contact list option" where
  "migrateLegacy env m saved r cs =
     (case saved of
        None \<Rightarrow> (r, cs, None)
      | Some list \<Rightarrow>
          (case putAll env m r cs list of
             (r', cs', ok) \<Rightarrow> (r', cs', if ok then None else Some list)))"

subsection \<open>Sessions\<close>

text \<open>The calls a session makes, in any order, and the state they lead to.\<close>

datatype 'r book_event =
    Poll "'r moment" nat
  | Add "'r moment" Contact
  | Rename "'r moment" string ContactPatch
  | Allow "'r moment" AllowlistInput
  | Pin "'r moment" string PinnedFacts
  | Remove "'r moment" string

fun bookStep :: "'r contact_env \<Rightarrow> 'r book_event \<Rightarrow> 'r book \<Rightarrow> 'r book" where
  "bookStep env (Poll m fuel) b = loadContacts env m fuel b"
| "bookStep env (Add m c) b = fst (addContact env m c b)"
| "bookStep env (Rename m a patch) b = fst (updateContact env m a patch b)"
| "bookStep env (Allow m i) b = fst (allowlist env m i b)"
| "bookStep env (Pin m a facts) b = pinKey env m a facts b"
| "bookStep env (Remove m a) b = fst (removeContact env m a b)"

definition bookRun :: "'r contact_env \<Rightarrow> 'r book_event list \<Rightarrow> 'r book \<Rightarrow> 'r book" where
  "bookRun env evs b = fold (bookStep env) evs b"

text \<open>
  The calls under which a pin for \<open>a\<close> is expected to survive: the database is not writable while
  unreadable, and the contact is not removed by the owner.
\<close>

definition io_sound :: "'r moment \<Rightarrow> bool" where
  "io_sound m \<longleftrightarrow> (m_writable m \<longrightarrow> m_readable m)"

fun keepsPin :: "string \<Rightarrow> 'r book_event \<Rightarrow> bool" where
  "keepsPin a (Poll m _) = io_sound m"
| "keepsPin a (Add m _) = True"
| "keepsPin a (Rename m _ _) = True"
| "keepsPin a (Allow m _) = io_sound m"
| "keepsPin a (Pin m _ _) = io_sound m"
| "keepsPin a (Remove m a') = (norm a' \<noteq> norm a)"

subsection \<open>The pin store's invariant\<close>

definition pins_ok :: "pin_store \<Rightarrow> bool" where
  "pins_ok pins \<longleftrightarrow> distinct (map fst pins)
     \<and> (\<forall>(k, p)\<in>set pins. k = pinId (lp_owner p) (lp_address p) \<and> norm (lp_owner p) = lp_owner p
          \<and> norm (lp_address p) = lp_address p \<and> CHR ''|'' \<notin> set (lp_owner p) \<and> 1 \<le> lp_seq p)"

lemma split_at_bar: "c \<notin> set a \<Longrightarrow> c \<notin> set b \<Longrightarrow> a @ c # x = b @ c # y \<longleftrightarrow> a = b \<and> x = y"
  by (induction a arbitrary: b; case_tac b) auto

lemma pinId_inj: "pinId owner a = pinId owner b \<longleftrightarrow> norm a = norm b"
  by (simp add: pinId_def)

lemma set_delete: "x \<in> set (AList.delete k m) \<Longrightarrow> x \<in> set m"
  by (auto simp: AList.delete_eq)

lemma pins_ok_save:
  assumes "pins_ok pins" "norm (lp_owner p) = lp_owner p" "norm (lp_address p) = lp_address p"
    "CHR ''|'' \<notin> set (lp_owner p)" "1 \<le> lp_seq p"
  shows "pins_ok (savePin w pins p)"
  using assms by (auto simp: pins_ok_def savePin_def dest!: set_update)

lemma pins_ok_delete: "pins_ok pins \<Longrightarrow> pins_ok (deletePin w pins owner a)"
  by (auto simp: pins_ok_def deletePin_def dest!: set_delete)

lemma makePin_fields [simp]:
  "lp_owner (makePin now owner a f n) = norm owner" "lp_address (makePin now owner a f n) = norm a"
  "lp_seq (makePin now owner a f n) = max 1 n" "lp_facts (makePin now owner a f n) = f"
  by (simp_all add: makePin_def)

lemma pins_ok_savePin: "pins_ok pins \<Longrightarrow> CHR ''|'' \<notin> set (norm owner) \<Longrightarrow> pins_ok (savePin w pins (makePin now owner a f n))"
  by (rule pins_ok_save) simp_all

lemma fold_index:
  "map_of (fold (\<lambda>p out. if Q p then AList.update (key p) p out else out) ps acc) k =
     (case filter (\<lambda>p. Q p \<and> key p = k) ps of [] \<Rightarrow> map_of acc k | p # qs \<Rightarrow> Some (last (p # qs)))"
  by (induction ps arbitrary: acc) (auto split: list.splits)

lemma loadPins_lookup:
  assumes ok: "pins_ok pins" and bar: "CHR ''|'' \<notin> set (norm owner)" and ne: "norm a \<noteq> []"
  shows "map_of (loadPins rd pins owner) (norm a) = loadPin rd pins owner a"
proof (cases rd)
  case True
  let ?hit = "\<lambda>p. (lp_owner p = norm owner \<and> lp_address p \<noteq> []) \<and> lp_address p = norm a"
  have hit: "p \<in> set (filter ?hit (map snd pins)) \<longleftrightarrow> map_of pins (pinId owner a) = Some p" for p
  proof
    assume "p \<in> set (filter ?hit (map snd pins))"
    then obtain k where k: "(k, p) \<in> set pins" "lp_owner p = norm owner" "lp_address p = norm a" by auto
    then have "k = pinId owner a" using ok by (auto simp: pins_ok_def pinId_def)
    then show "map_of pins (pinId owner a) = Some p" using k(1) ok by (auto simp: pins_ok_def)
  next
    assume m: "map_of pins (pinId owner a) = Some p"
    then have p: "(pinId owner a, p) \<in> set pins" by (rule map_of_SomeD)
    then have "norm owner @ CHR ''|'' # norm a = lp_owner p @ CHR ''|'' # lp_address p" "CHR ''|'' \<notin> set (lp_owner p)"
      using ok by (auto simp: pins_ok_def pinId_def)
    then have "lp_owner p = norm owner" "lp_address p = norm a" using split_at_bar [OF bar, of "lp_owner p" "norm a" "lp_address p"] by simp_all
    then show "p \<in> set (filter ?hit (map snd pins))" using p ne by force
  qed
  have "(case filter ?hit (map snd pins) of [] \<Rightarrow> None | p # qs \<Rightarrow> Some (last (p # qs))) = map_of pins (pinId owner a)"
  proof (cases "filter ?hit (map snd pins)")
    case Nil
    then have "map_of pins (pinId owner a) \<noteq> Some p" for p using hit [of p] by (simp add: filter_empty_conv)
    then show ?thesis using Nil by (metis list.case(1) not_Some_eq)
  next
    case (Cons p qs)
    then have "map_of pins (pinId owner a) = Some (last (p # qs))" using hit [of "last (p # qs)"] by (metis last_in_set list.distinct(1))
    then show ?thesis using Cons by simp
  qed
  then show ?thesis
    using True fold_index [of "\<lambda>p. lp_owner p = norm owner \<and> lp_address p \<noteq> []" lp_address "map snd pins" "[]" "norm a"]
    by (simp add: loadPins_def loadPin_def cong: list.case_cong)
qed (simp add: loadPins_def loadPin_def)

subsection \<open>What each call does to a held pin\<close>

definition kept :: "LocalPin \<Rightarrow> LocalPin option \<Rightarrow> bool" where
  "kept p now = (case now of None \<Rightarrow> False | Some p' \<Rightarrow> p' = p \<or> lp_seq p < lp_seq p')"

lemma kept_refl [simp]: "kept p (Some p)"
  by (simp add: kept_def)

lemma kept_trans: "kept p (Some q) \<Longrightarrow> kept q x \<Longrightarrow> kept p x"
  by (auto simp: kept_def split: option.splits)

lemma adopt_pin:
  assumes "pd_adopt (reconcilePin now owner addr held kv seq) = Some p"
  shows "\<exists>f n. p = makePin now owner addr f n" "held = Some q \<Longrightarrow> lp_seq q < lp_seq p"
  using assms by (auto simp: reconcilePin_def Let_def split: option.splits if_splits)

lemma applyPin_pins:
  "snd (snd (applyPin env m owner lps c s)) =
     (case pd_adopt (decisionFor m owner lps c) of None \<Rightarrow> snd (snd s) | Some p \<Rightarrow> savePin (m_writable m) (snd (snd s)) p)"
  by (auto simp: applyPin_def Let_def split: prod.splits option.splits if_splits)

lemma map_of_savePin:
  "map_of (savePin w pins p) k = (if w \<and> k = pinId (lp_owner p) (lp_address p) then Some p else map_of pins k)"
  by (simp add: savePin_def)

lemma pinId_norm [simp]: "pinId (norm owner) (norm a) = pinId owner a"
  by (simp add: pinId_def)

lemma applyPin_keeps:
  assumes "map_of lps (norm a) = Some p" "kept p (map_of (snd (snd s)) (pinId owner a))"
  shows "kept p (map_of (snd (snd (applyPin env m owner lps c s))) (pinId owner a))"
proof (cases "pd_adopt (decisionFor m owner lps c)")
  case None
  then show ?thesis using assms(2) by (simp add: applyPin_pins)
next
  case (Some q)
  then obtain f n where q: "q = makePin (m_now m) owner (cr_address c) f n"
    unfolding decisionFor_def using adopt_pin(1) by blast
  have "norm (cr_address c) = norm a \<Longrightarrow> lp_seq p < lp_seq q"
    using adopt_pin(2) [OF Some [unfolded decisionFor_def]] assms(1) by simp
  then show ?thesis using assms(2) Some q by (auto simp: applyPin_pins map_of_savePin pinId_inj kept_def)
qed

lemma applyPin_ok:
  assumes "pins_ok (snd (snd s))" "CHR ''|'' \<notin> set (norm owner)"
  shows "pins_ok (snd (snd (applyPin env m owner lps c s)))"
proof (cases "pd_adopt (decisionFor m owner lps c)")
  case (Some q)
  then obtain f n where "q = makePin (m_now m) owner (cr_address c) f n"
    unfolding decisionFor_def using adopt_pin(1) by blast
  then show ?thesis using pins_ok_savePin [OF assms] Some by (simp add: applyPin_pins)
qed (use assms in \<open>simp add: applyPin_pins\<close>)

lemma fold_applyPin_ok:
  "pins_ok (snd (snd s)) \<Longrightarrow> CHR ''|'' \<notin> set (norm owner) \<Longrightarrow> pins_ok (snd (snd (fold (applyPin env m owner lps) list s)))"
  by (induction list arbitrary: s) (simp_all add: applyPin_ok)

lemma fold_applyPin_keeps:
  "map_of lps (norm a) = Some p \<Longrightarrow> kept p (map_of (snd (snd s)) (pinId owner a)) \<Longrightarrow>
   kept p (map_of (snd (snd (fold (applyPin env m owner lps) list s))) (pinId owner a))"
  by (induction list arbitrary: s) (simp_all add: applyPin_keeps)

lemma unwritable_applyPin: "\<not> m_writable m \<Longrightarrow> snd (snd (fold (applyPin env m owner lps) list s)) = snd (snd s)"
  by (induction list arbitrary: s) (auto simp: applyPin_pins savePin_def split: option.splits)

lemma loadContacts_pins:
  "bk_owner (loadContacts env m fuel b) = bk_owner b \<and>
   (bk_pins (loadContacts env m fuel b) = bk_pins b \<or>
    (\<exists>list cs. bk_pins (loadContacts env m fuel b) =
       snd (snd (fold (applyPin env m (bk_owner b) (loadPins (m_readable m) (bk_pins b) (bk_owner b))) list
         (bk_relay b, cs, bk_pins b)))))"
proof (cases "csList env (bk_relay b) (bk_store b) fuel")
  case None
  then show ?thesis by (simp add: loadContacts_def)
next
  case (Some x)
  obtain cs res where x: "x = (cs, res)" by (cases x)
  show ?thesis
  proof (cases res)
    case (Inl e)
    then show ?thesis using Some x by (simp add: loadContacts_def)
  next
    case (Inr list)
    let ?s = "fold (applyPin env m (bk_owner b) (loadPins (m_readable m) (bk_pins b) (bk_owner b))) list (bk_relay b, cs, bk_pins b)"
    have "bk_owner (loadContacts env m fuel b) = bk_owner b \<and> bk_pins (loadContacts env m fuel b) = snd (snd ?s)"
      using Some x Inr by (cases ?s) (simp add: loadContacts_def applyLocalPins_def Let_def)
    then show ?thesis by blast
  qed
qed

text \<open>Every call keeps the owner, the store's invariant and, unless it removes the contact, the held pin.\<close>

lemma bookStep_owner: "bk_owner (bookStep env ev b) = bk_owner b"
  using loadContacts_pins
  by (cases ev) (auto simp: addContact_def updateContact_def allowlist_def pinKey_def removeContact_def Let_def
      split: prod.splits sum.splits)

lemma bookStep_ok:
  assumes "pins_ok (bk_pins b)" "CHR ''|'' \<notin> set (norm (bk_owner b))"
  shows "pins_ok (bk_pins (bookStep env ev b))"
proof (cases ev)
  case (Poll m fuel)
  then show ?thesis using loadContacts_pins [of env m fuel b] fold_applyPin_ok [OF _ assms(2)] assms by fastforce
qed (use assms in \<open>auto simp: addContact_def updateContact_def allowlist_def pinKey_def removeContact_def Let_def
      intro: pins_ok_savePin pins_ok_delete split: prod.splits sum.splits\<close>)

lemma bookStep_keeps:
  assumes "pins_ok (bk_pins b)" "CHR ''|'' \<notin> set (norm (bk_owner b))" "norm a \<noteq> []" "keepsPin a ev"
    and held: "map_of (bk_pins b) (pinId (bk_owner b) a) = Some p"
  shows "kept p (map_of (bk_pins (bookStep env ev b)) (pinId (bk_owner b) a))"
proof (cases ev)
  case (Poll m fuel)
  consider "m_readable m" | "\<not> m_writable m" using assms(4) Poll by (auto simp: io_sound_def)
  then show ?thesis
  proof cases
    case 1
    then have "map_of (loadPins (m_readable m) (bk_pins b) (bk_owner b)) (norm a) = Some p"
      using loadPins_lookup [OF assms(1-3)] held by (simp add: loadPin_def)
    from fold_applyPin_keeps [OF this, where owner = "bk_owner b" and env = env and m = m]
    have "kept p (map_of (snd (snd (fold (applyPin env m (bk_owner b) (loadPins (m_readable m) (bk_pins b) (bk_owner b)))
            list (bk_relay b, cs, bk_pins b)))) (pinId (bk_owner b) a))" for list cs
      using held by simp
    then show ?thesis using loadContacts_pins [of env m fuel b] Poll held by (auto simp del: fold_simps)
  next
    case 2
    then show ?thesis using loadContacts_pins [of env m fuel b] unwritable_applyPin Poll held by fastforce
  qed
next
  case (Allow m i)
  then have io: "m_writable m \<Longrightarrow> m_readable m" using assms(4) by (simp add: io_sound_def)
  have "loadPin (m_readable m) (bk_pins b) (bk_owner b) (al_address i) = Some p"
    if "norm (al_address i) = norm a" "m_writable m"
    using held io that by (simp add: loadPin_def pinId_def)
  then show ?thesis using Allow held
    by (auto simp: allowlist_def Let_def map_of_savePin pinId_inj kept_def split: prod.splits sum.splits)
next
  case (Pin m a' facts)
  then have io: "m_writable m \<Longrightarrow> m_readable m" using assms(4) by (simp add: io_sound_def)
  have "loadPin (m_readable m) (bk_pins b) (bk_owner b) a' = Some p" if "norm a' = norm a" "m_writable m"
    using held io that by (simp add: loadPin_def pinId_def)
  then show ?thesis using Pin held
    by (auto simp: pinKey_def map_of_savePin pinId_inj kept_def split: prod.splits)
next
  case (Remove m a')
  then show ?thesis using assms(4) held
    by (auto simp: removeContact_def deletePin_def pinId_inj split: prod.splits sum.splits)
qed (use held in \<open>auto simp: addContact_def updateContact_def split: prod.splits sum.splits\<close>)

lemma bookRun_keeps:
  assumes "pins_ok (bk_pins b)" "CHR ''|'' \<notin> set (norm (bk_owner b))" "norm a \<noteq> []" "\<forall>ev\<in>set evs. keepsPin a ev"
    and "map_of (bk_pins b) (pinId (bk_owner b) a) = Some p"
  shows "pins_ok (bk_pins (bookRun env evs b)) \<and> bk_owner (bookRun env evs b) = bk_owner b
       \<and> kept p (map_of (bk_pins (bookRun env evs b)) (pinId (bk_owner b) a))"
  using assms
proof (induction evs arbitrary: b p)
  case Nil
  then show ?case by (simp add: bookRun_def)
next
  case (Cons ev evs)
  let ?b = "bookStep env ev b"
  have k: "kept p (map_of (bk_pins ?b) (pinId (bk_owner b) a))"
    using bookStep_keeps [OF Cons.prems(1-3) _ Cons.prems(5)] Cons.prems(4) by simp
  then obtain q where q: "map_of (bk_pins ?b) (pinId (bk_owner b) a) = Some q" by (auto simp: kept_def split: option.splits)
  have "pins_ok (bk_pins (bookRun env evs ?b)) \<and> bk_owner (bookRun env evs ?b) = bk_owner b
      \<and> kept q (map_of (bk_pins (bookRun env evs ?b)) (pinId (bk_owner b) a))"
    using Cons.IH [of ?b q] bookStep_ok [OF Cons.prems(1,2)] bookStep_owner [of env ev b] Cons.prems(2-4) q by simp
  then show ?case using kept_trans k q by (auto simp: bookRun_def)
qed

lemma checkPin_Changed:
  assumes "contactFacts (Some c) = Some f" "\<not> pf_noIdentity f" "pf_ed25519Pub f \<noteq> []"
    and "pf_noIdentity obs \<or> pf_ed25519Pub obs \<noteq> [] \<and> pf_ed25519Pub obs \<noteq> pf_ed25519Pub f"
  shows "checkPin (Some c) (Some obs) = Changed"
  using assms by (auto simp: checkPin_def changedFacts_def)

lemma samePin_eq: "samePin f g \<Longrightarrow> \<not> pf_noIdentity f \<Longrightarrow> \<not> pf_noIdentity g \<Longrightarrow> f = g"
  by (cases f; cases g) (simp add: samePin_def)

text \<open>What a row that is not above the held pin's sequence is decided to be.\<close>

lemma decision_low_row:
  assumes "map_of lps (norm (cr_address c)) = Some p" "1 \<le> lp_seq p" "cr_pinSeq c \<le> lp_seq p" "\<not> cr_noIdentity c"
  shows "pd_adopt (decisionFor m owner lps c) = None" "pd_facts (decisionFor m owner lps c) = Some (localFacts p)"
    and "\<not> (\<exists>f. contactFacts (Some c) = Some f \<and> samePin (localFacts p) f) \<Longrightarrow> pd_anomaly (decisionFor m owner lps c) \<noteq> None"
  using assms by (auto simp: decisionFor_def reconcilePin_def Let_def contactFacts_def split: if_splits)

lemma fold_no_adopt:
  "\<forall>c\<in>set list. norm (cr_address c) = norm a \<longrightarrow> pd_adopt (decisionFor m owner lps c) = None \<Longrightarrow>
   map_of (snd (snd (fold (applyPin env m owner lps) list s))) (pinId owner a) = map_of (snd (snd s)) (pinId owner a)"
proof (induction list arbitrary: s)
  case (Cons c list)
  have "map_of (snd (snd (applyPin env m owner lps c s))) (pinId owner a) = map_of (snd (snd s)) (pinId owner a)"
  proof (cases "pd_adopt (decisionFor m owner lps c)")
    case (Some q)
    then obtain f n where "q = makePin (m_now m) owner (cr_address c) f n"
      unfolding decisionFor_def using adopt_pin(1) by blast
    then show ?thesis using Some Cons.prems by (auto simp: applyPin_pins map_of_savePin pinId_inj)
  qed (simp add: applyPin_pins)
  then show ?case using Cons by simp
qed simp

subsection \<open>Properties\<close>

text \<open>
  C37. A held pin only moves up. Whatever the relay serves and whatever the owner's other devices write,
  over any sequence of polls, additions, renames, allowlistings and lazy pins, and removals of other
  contacts, a pin this device holds for a counterparty is still there afterwards, and it is either the
  same pin or one with a strictly higher sequence. The database is assumed not to accept writes while
  its reads fail.
\<close>

theorem held_pin_only_moves_up:
  assumes "pins_ok (bk_pins b)" and "CHR ''|'' \<notin> set (norm (bk_owner b))" and "norm a \<noteq> []"
    and "\<forall>ev\<in>set evs. keepsPin a ev" and "loadPin True (bk_pins b) (bk_owner b) a = Some p"
  shows "\<exists>p'. loadPin True (bk_pins (bookRun env evs b)) (bk_owner b) a = Some p' \<and> (p' = p \<or> lp_seq p < lp_seq p')"
  using bookRun_keeps [OF assms(1-4), of p env] assms(5) by (simp add: loadPin_def kept_def split: option.splits)

text \<open>
  C38. A rolled-back or stripped address book cannot hide a key change. When the device holds a pin with
  a key for a counterparty and no row served for it has a higher sequence or claims an absent identity,
  the poll leaves the pin as it is, every row is shown with the pinned facts, a row that lacks them or
  differs is reported, and the shown row makes any other observed key, or no identity, a change.
\<close>

theorem rollback_cannot_hide_key_change:
  assumes "pins_ok pins" and "CHR ''|'' \<notin> set (norm owner)" and "norm a \<noteq> []" and "m_readable m"
    and "loadPin True pins owner a = Some p" and "pf_ed25519Pub (lp_facts p) \<noteq> []" and "\<not> pf_noIdentity (lp_facts p)"
    and "\<forall>c\<in>set list. isFor a c \<longrightarrow> \<not> cr_noIdentity c \<and> cr_pinSeq c \<le> lp_seq p"
    and "applyLocalPins env m owner (r, cs, pins) list = ((r', cs', pins'), records, alerts)"
    and "i < length list" and "isFor a (list ! i)"
  shows "loadPin True pins' owner a = Some p
       \<and> contactFacts (Some (records ! i)) = Some (lp_facts p)
       \<and> (contactFacts (Some (list ! i)) \<noteq> Some (lp_facts p) \<longrightarrow> (\<exists>an. (cr_address (list ! i), an) \<in> set alerts))
       \<and> (\<forall>obs. pf_noIdentity obs \<or> pf_ed25519Pub obs \<noteq> [] \<and> pf_ed25519Pub obs \<noteq> pf_ed25519Pub (lp_facts p)
            \<longrightarrow> checkPin (Some (records ! i)) (Some obs) = Changed)"
proof -
  let ?lps = "loadPins (m_readable m) pins owner" and ?c = "list ! i"
  have lps: "map_of ?lps (norm a) = Some p" using loadPins_lookup [OF assms(1-3)] assms(4,5) by simp
  have seq: "1 \<le> lp_seq p" using assms(1,5) map_of_SomeD by (fastforce simp: pins_ok_def loadPin_def)
  have low: "map_of ?lps (norm (cr_address c)) = Some p \<and> cr_pinSeq c \<le> lp_seq p \<and> \<not> cr_noIdentity c"
    if "c \<in> set list" "isFor a c" for c using that assms(8) lps by (auto simp: isFor_def)
  have ci: "?c \<in> set list" using assms(10) by simp
  note dec = decision_low_row [OF _ seq, of ?lps ?c m owner]
  have out: "pins' = snd (snd (fold (applyPin env m owner ?lps) list (r, cs, pins)))"
      "records = map (\<lambda>c. shownRecord (decisionFor m owner ?lps c) c) list"
      "alerts = List.map_filter (\<lambda>c. map_option (Pair (cr_address c)) (pd_anomaly (decisionFor m owner ?lps c))) list"
    using assms(9) by (auto simp: applyLocalPins_def Let_def)
  have "\<forall>c\<in>set list. norm (cr_address c) = norm a \<longrightarrow> pd_adopt (decisionFor m owner ?lps c) = None"
    using decision_low_row(1) [OF _ seq] low unfolding isFor_def by blast
  from fold_no_adopt [OF this, of env "(r, cs, pins)"]
  have "map_of pins' (pinId owner a) = map_of pins (pinId owner a)" unfolding out(1) by simp
  then have p: "loadPin True pins' owner a = Some p" using assms(5) by (simp add: loadPin_def)
  have lf: "localFacts p = lp_facts p" using assms(7) by (simp add: localFacts_def)
  have shown: "contactFacts (Some (records ! i)) = Some (lp_facts p)"
    using dec(2) low [OF ci assms(11)] assms(6,7,10) lf
    by (simp add: out(2) shownRecord_def mergeFacts_def contactFacts_def)
  have "\<exists>an. (cr_address ?c, an) \<in> set alerts" if "contactFacts (Some ?c) \<noteq> Some (lp_facts p)"
  proof -
    have "\<not> (\<exists>f. contactFacts (Some ?c) = Some f \<and> samePin (localFacts p) f)"
      using that lf assms(7) low [OF ci assms(11)] samePin_eq [of "lp_facts p"]
      by (force simp: contactFacts_def split: if_splits)
    then obtain an where "pd_anomaly (decisionFor m owner ?lps ?c) = Some an" using dec(3) low [OF ci assms(11)] by auto
    then show ?thesis using ci by (force simp: out(3) map_filter_def)
  qed
  then show ?thesis using p shown checkPin_Changed [OF shown assms(7,6)] by blast
qed

text \<open>
  C39. The confirmed absence of an identity does not survive a rollback. When the owner confirmed that a
  counterparty has no identity, and the relay serves a row from before that, with the old key or with no
  pin, the poll shows the row without the absence: it reads as unpinned against every observation, so
  that a key served afterwards is an ordinary first sighting. A key that the device holds as a pin is
  in the same way shown as an absence when the served row claims one.
\<close>

theorem absence_pin_lost_on_rollback:
  assumes "map_of lps (norm (cr_address c)) = Some p" and "1 \<le> lp_seq p"
  shows "(lp_facts p = absentIdentityFacts \<longrightarrow> cr_pinSeq c \<le> lp_seq p \<longrightarrow> \<not> cr_noIdentity c \<longrightarrow>
            (\<forall>obs. checkPin (Some (shownRecord (decisionFor m owner lps c) c)) obs = Unpinned))
       \<and> (cr_noIdentity c \<longrightarrow>
            checkPin (Some (shownRecord (decisionFor m owner lps c) c)) (Some absentIdentityFacts) = Match)"
proof (intro conjI impI)
  show "\<forall>obs. checkPin (Some (shownRecord (decisionFor m owner lps c) c)) obs = Unpinned"
    if "lp_facts p = absentIdentityFacts" "cr_pinSeq c \<le> lp_seq p" "\<not> cr_noIdentity c"
    using decision_low_row(2) [OF assms that(2,3), of m owner] that
    by (simp add: shownRecord_def mergeFacts_def localFacts_def absentIdentityFacts_def checkPin_def contactFacts_def)
  assume "cr_noIdentity c"
  then have "contactFacts (Some (shownRecord (decisionFor m owner lps c) c)) = Some absentIdentityFacts"
    by (auto simp: shownRecord_def mergeFacts_def contactFacts_def split: option.splits)
  then show "checkPin (Some (shownRecord (decisionFor m owner lps c) c)) (Some absentIdentityFacts) = Match"
    by (simp add: checkPin_def changedFacts_def absentIdentityFacts_def)
qed

text \<open>
  Two addresses share a row exactly when they agree up to case and surrounding space, so adding an address
  twice updates one record.
\<close>

lemma contactKey_inj: "contactKey a = contactKey b \<longleftrightarrow> norm a = norm b"
  by (simp add: contactKey_def contactId_def urlSafe_toBase64_inj utf8_inj)

text \<open>
  A rename writes back the row it read, with every trust field as it was; but what it shows is that row,
  the relay's copy, and not the device's pin, until the next poll.
\<close>

lemma updateOnce_Inr:
  assumes "updateOnce env m n r cs address patch = (r', cs', Inr rec)"
  obtains st entry where "psGet env r (cs_store cs) (contactKey address) = (st, Inr (Some entry))"
    "rec = applyPatch (m_now m) (cs_deviceHex cs) patch (se_value entry)"
  using assms by (auto simp: updateOnce_def Let_def split: prod.splits sum.splits option.splits)

lemma applyPatch_trust [simp]:
  "contactFacts (Some (applyPatch now dev patch c)) = contactFacts (Some c)"
  "cr_provenance (applyPatch now dev patch c) = cr_provenance c" "cr_pinSeq (applyPatch now dev patch c) = cr_pinSeq c"
  "cr_address (applyPatch now dev patch c) = cr_address c"
  by (simp_all add: applyPatch_def contactFacts_def)

lemma csUpdate_Inr:
  assumes "csUpdate env m r cs address patch = (r', cs', Inr rec)"
  obtains r0 and cs0 :: ContactStore and st entry where "psGet env r0 (cs_store cs0) (contactKey address) = (st, Inr (Some entry))"
    "contactFacts (Some rec) = contactFacts (Some (se_value entry))" "cr_provenance rec = cr_provenance (se_value entry)"
    "cr_pinSeq rec = cr_pinSeq (se_value entry)"
proof -
  obtain r1 cs1 res where u: "updateOnce env m 0 r cs address patch = (r1, cs1, res)" by (metis surj_pair)
  consider "updateOnce env m 1 r1 cs1 address patch = (r', cs', Inr rec)" | "res = Inr rec"
    using assms u by (auto simp: csUpdate_def split: sum.splits contact_error.splits store_error.splits)
  then show thesis
  proof cases
    case 1
    then obtain st entry where "psGet env r1 (cs_store cs1) (contactKey address) = (st, Inr (Some entry))"
        "rec = applyPatch (m_now m) (cs_deviceHex cs1) patch (se_value entry)" by (rule updateOnce_Inr)
    from that [OF this(1)] this(2) show thesis by simp
  next
    case 2
    with u have "updateOnce env m 0 r cs address patch = (r1, cs1, Inr rec)" by simp
    then obtain st entry where "psGet env r (cs_store cs) (contactKey address) = (st, Inr (Some entry))"
        "rec = applyPatch (m_now m) (cs_deviceHex cs) patch (se_value entry)" by (rule updateOnce_Inr)
    from that [OF this(1)] this(2) show thesis by simp
  qed
qed

lemma rename_shows_relay_copy:
  assumes "updateContact env m address patch b = (b', Inr ())" "c \<in> set (bk_records b')" "isFor address c"
  shows "\<exists>r0 (cs0 :: ContactStore) st entry. psGet env r0 (cs_store cs0) (contactKey address) = (st, Inr (Some entry))
           \<and> contactFacts (Some c) = contactFacts (Some (se_value entry))"
proof -
  obtain r' cs' rec where u: "csUpdate env m (bk_relay b) (bk_store b) address patch = (r', cs', Inr rec)"
      "bk_records b' = map (\<lambda>c. if isFor address c then rec else c) (bk_records b)"
    using assms(1) by (auto simp: updateContact_def split: prod.splits sum.splits)
  then have "c = rec" using assms(2,3) by auto
  then show ?thesis using csUpdate_Inr [OF u(1)] by metis
qed

subsection \<open>Instances\<close>

text \<open>A relay that offers no storage, a device with one pin, and the rows it may be served.\<close>

definition demo_book_env :: "unit contact_env" where
  "demo_book_env =
     \<lparr>e_crypto = demo_crypto, e_order = id, stringify = (\<lambda>_. []), parse = (\<lambda>_. None),
      kv_get = (\<lambda>_ _. Inl (ApiError ''storage_unsupported'' 501)), kv_put = (\<lambda>_ _ _ _. Inl (ApiError ''storage_unsupported'' 501)),
      kv_list = (\<lambda>_ _ _ _. Inl (ApiError ''storage_unsupported'' 501)), kv_delete = (\<lambda>_ _. Inl (ApiError ''storage_unsupported'' 501))\<rparr>"

definition demo_moment :: "unit moment" where
  "demo_moment = \<lparr>m_now = 9, m_readable = True, m_writable = True, m_rnd = (\<lambda>_. demo_randoms), m_others = (\<lambda>_ r. r)\<rparr>"

definition demo_facts :: "string \<Rightarrow> PinnedFacts" where
  "demo_facts k = \<lparr>pf_ed25519Pub = k, pf_x25519Pub = k, pf_adminKeyCustody = False, pf_noIdentity = False\<rparr>"

definition demo_held :: "PinnedFacts \<Rightarrow> LocalPin" where
  "demo_held f = makePin 5 ''me@x.io'' ''bob@y.io'' f 2"

definition demo_book :: "PinnedFacts \<Rightarrow> unit book" where
  "demo_book f =
     \<lparr>bk_owner = ''me@x.io'', bk_relay = (), bk_store = newContactStore (newStore ''me@x.io'' (demo_kp 1) [] False) [],
      bk_pins = [(''me@x.io|bob@y.io'', demo_held f)], bk_records = [], bk_alerts = []\<rparr>"

definition demo_row :: ContactRecord where
  "demo_row = plainRecord \<lparr>ct_address = ''Bob@y.io'', ct_name = ''Bob'', ct_fingerprint = []\<rparr>"

lemma demo_norm:
  "norm ''me@x.io'' = ''me@x.io''" "norm ''bob@y.io'' = ''bob@y.io''" "norm ''Bob@y.io'' = ''bob@y.io''"
  by code_simp+

lemma demo_book_ok:
  "pins_ok (bk_pins (demo_book f))" "CHR ''|'' \<notin> set (norm (bk_owner (demo_book f)))" "norm ''bob@y.io'' \<noteq> []"
  "loadPin True (bk_pins (demo_book f)) (bk_owner (demo_book f)) ''bob@y.io'' = Some (demo_held f)"
  by (simp_all add: demo_book_def demo_held_def makePin_def pins_ok_def pinId_def demo_norm loadPin_def)

theorem held_pin_only_moves_up_witness:
  "\<exists>p'. loadPin True (bk_pins (bookRun demo_book_env [Pin demo_moment ''Bob@y.io'' (demo_facts ''evil''), Poll demo_moment 1]
          (demo_book (demo_facts ''good'')))) ''me@x.io'' ''bob@y.io'' = Some p'
     \<and> (p' = demo_held (demo_facts ''good'') \<or> 2 < lp_seq p')"
proof -
  let ?evs = "[Pin demo_moment ''Bob@y.io'' (demo_facts ''evil''), Poll demo_moment 1]"
  have "\<forall>ev\<in>set ?evs. keepsPin ''bob@y.io'' ev" by (simp add: io_sound_def demo_moment_def)
  from held_pin_only_moves_up [OF demo_book_ok(1-3) this demo_book_ok(4), of demo_book_env "demo_facts ''good''"]
  moreover have "bk_owner (demo_book f) = ''me@x.io''" "lp_seq (demo_held f) = 2" for f by (simp_all add: demo_book_def demo_held_def)
  ultimately show ?thesis by simp
qed

theorem rollback_cannot_hide_key_change_witness:
  "\<exists>s records alerts. applyLocalPins demo_book_env demo_moment ''me@x.io''
       ((), bk_store (demo_book (demo_facts ''good'')), bk_pins (demo_book (demo_facts ''good''))) [demo_row] = (s, records, alerts)
     \<and> contactFacts (Some (records ! 0)) = Some (demo_facts ''good'')
     \<and> checkPin (Some (records ! 0)) (Some (demo_facts ''evil'')) = Changed"
proof -
  let ?b = "demo_book (demo_facts ''good'')"
  obtain r' cs' pins' records alerts where out:
    "applyLocalPins demo_book_env demo_moment (bk_owner ?b) ((), bk_store ?b, bk_pins ?b) [demo_row] = ((r', cs', pins'), records, alerts)"
    by (metis surj_pair)
  have row: "isFor ''bob@y.io'' ([demo_row] ! 0)" "m_readable demo_moment"
      "\<forall>c\<in>set [demo_row]. isFor ''bob@y.io'' c \<longrightarrow> \<not> cr_noIdentity c \<and> cr_pinSeq c \<le> lp_seq (demo_held (demo_facts ''good''))"
    by (simp_all add: isFor_def demo_row_def plainRecord_def demo_norm demo_moment_def)
  have held: "pf_ed25519Pub (lp_facts (demo_held (demo_facts ''good''))) \<noteq> []" "\<not> pf_noIdentity (lp_facts (demo_held (demo_facts ''good'')))"
      "lp_facts (demo_held (demo_facts ''good'')) = demo_facts ''good''"
    by (simp_all add: demo_held_def demo_facts_def)
  have evil: "pf_ed25519Pub (demo_facts ''evil'') \<noteq> [] \<and> pf_ed25519Pub (demo_facts ''evil'') \<noteq> pf_ed25519Pub (demo_facts ''good'')"
    by (simp add: demo_facts_def)
  from rollback_cannot_hide_key_change [OF demo_book_ok(1-3) row(2) demo_book_ok(4) held(1,2) row(3) out _ row(1)] held(3) evil
  have "contactFacts (Some (records ! 0)) = Some (demo_facts ''good'')" "checkPin (Some (records ! 0)) (Some (demo_facts ''evil'')) = Changed"
    by simp_all
  then show ?thesis using out by (auto simp: demo_book_def)
qed

theorem absence_pin_lost_on_rollback_witness:
  "lp_facts (demo_held absentIdentityFacts) = absentIdentityFacts
   \<and> checkPin (Some (shownRecord (decisionFor demo_moment ''me@x.io'' [(''bob@y.io'', demo_held absentIdentityFacts)] demo_row) demo_row))
       (Some (demo_facts ''evil'')) = Unpinned"
proof -
  have p: "map_of [(''bob@y.io'', demo_held absentIdentityFacts)] (norm (cr_address demo_row)) = Some (demo_held absentIdentityFacts)"
      "1 \<le> lp_seq (demo_held absentIdentityFacts)" "lp_facts (demo_held absentIdentityFacts) = absentIdentityFacts"
      "cr_pinSeq demo_row \<le> lp_seq (demo_held absentIdentityFacts)" "\<not> cr_noIdentity demo_row"
    by (simp_all add: demo_row_def plainRecord_def demo_norm demo_held_def)
  from absence_pin_lost_on_rollback [OF p(1,2), of demo_moment "''me@x.io''"] p(3-5) show ?thesis by blast
qed

end
