(* ===== verification/Shards.thy ===== *)
theory Shards
  imports Encoding
begin

section \<open>Tokens and shards of the search index\<close>

text \<open>
  \<open>lib/search/tokenize.ts\<close> and \<open>lib/search/shardIndex.ts\<close>: the words of a text, the inverted index of
  one shard and the byte form a shard is sealed in. The platform's Unicode tables (normal forms,
  character classes, word segmentation) are a parameter. The growing byte buffer of \<open>Writer\<close> is
  modelled as it is, with writes past its end ignored, as typed arrays do. Numbers are exact, as the
  language's are below $2^{53}$.
\<close>

record unicode =
  u_nfkd :: "string \<Rightarrow> string"
  u_nfc :: "string \<Rightarrow> string"
  u_lower :: "string \<Rightarrow> string"
  u_mark :: "char \<Rightarrow> bool"
  u_word_char :: "char \<Rightarrow> bool"
  u_ideographic :: "char \<Rightarrow> bool"
  u_segments :: "(string \<Rightarrow> (string \<times> bool) list) option"

definition MAX_INDEX_CHARS :: nat where
  "MAX_INDEX_CHARS = 256 * 1024"

definition MAX_TOKEN :: nat where
  "MAX_TOKEN = 40"

definition foldText :: "unicode \<Rightarrow> string \<Rightarrow> string" where
  "foldText u s = u_lower u (u_nfc u (filter (\<lambda>c. \<not> u_mark u c) (u_nfkd u s)))"

definition keep :: "unicode \<Rightarrow> string \<Rightarrow> bool" where
  "keep u token =
     (if length token > MAX_TOKEN then False else length token \<ge> 2 \<or> (\<exists>c\<in>set token. u_ideographic u c))"

text \<open>The maximal runs of word characters, which is what matching \<open>WORD\<close> globally yields.\<close>

function wordRuns :: "unicode \<Rightarrow> string \<Rightarrow> string list" where
  "wordRuns u s =
     (let t = dropWhile (\<lambda>c. \<not> u_word_char u c) s in
      if t = [] then []
      else takeWhile (u_word_char u) t # wordRuns u (dropWhile (u_word_char u) t))"
  by pat_completeness auto
termination
proof (relation "measure (\<lambda>(u, s). length s)", simp_all, goal_cases)
  case (1 u s)
  let ?t = "dropWhile (\<lambda>c. \<not> u_word_char u c) s"
  obtain c r where t: "?t = c # r" "u_word_char u c" using 1 hd_dropWhile [of "\<lambda>c. \<not> u_word_char u c" s] by (cases ?t) auto
  have "length (dropWhile (u_word_char u) ?t) \<le> length r" using t length_dropWhile_le [of "u_word_char u" r] by simp
  moreover have "length ?t \<le> length s" by (rule length_dropWhile_le)
  ultimately show ?case using t by simp
qed

declare wordRuns.simps [simp del]

text \<open>A \<open>Set\<close> keeps its elements in the order they were first added.\<close>

definition takeWords :: "unicode \<Rightarrow> string \<Rightarrow> string list \<Rightarrow> string list" where
  "takeWords u chunk out = fold (\<lambda>m out. if keep u m then setAdd m out else out) (wordRuns u chunk) out"

definition tokenize :: "unicode \<Rightarrow> string \<Rightarrow> string list" where
  "tokenize u text =
     (let folded = foldText u (if length text > MAX_INDEX_CHARS then take MAX_INDEX_CHARS text else text) in
      case u_segments u of
        Some segment \<Rightarrow> fold (\<lambda>(seg, wordLike) out. if wordLike then takeWords u seg out else out) (segment folded) []
      | None \<Rightarrow> takeWords u folded [])"

definition shardOf :: "string \<Rightarrow> string" where
  "shardOf token = take 2 token"

subsection \<open>A shard\<close>

type_synonym Shard = "(string, nat list) jsmap"

text \<open>\<open>addPosting\<close> on one posting list: appended when it is the greatest, else put in its place.\<close>

fun spliceDoc :: "nat \<Rightarrow> nat list \<Rightarrow> nat list" where
  "spliceDoc doc [] = [doc]"
| "spliceDoc doc (d # ds) = (if d < doc then d # spliceDoc doc ds else if d \<noteq> doc then doc # d # ds else d # ds)"

definition insertDoc :: "nat \<Rightarrow> nat list \<Rightarrow> nat list" where
  "insertDoc doc list =
     (if list \<noteq> [] \<and> last list < doc then list @ [doc]
      else if list \<noteq> [] \<and> last list = doc then list
      else spliceDoc doc list)"

definition addPosting :: "string \<Rightarrow> nat \<Rightarrow> Shard \<Rightarrow> Shard" where
  "addPosting token doc shard =
     (case map_of shard token of
        None \<Rightarrow> AList.update token [doc] shard
      | Some list \<Rightarrow> AList.update token (insertDoc doc list) shard)"

definition dropDocs :: "(nat \<Rightarrow> bool) \<Rightarrow> Shard \<Rightarrow> Shard \<times> nat" where
  "dropDocs dead shard =
     (filter (\<lambda>(t, list). list \<noteq> []) (map (\<lambda>(t, list). (t, filter (\<lambda>d. \<not> dead d) list)) shard),
      sum_list (map (\<lambda>(t, list). length list - length (filter (\<lambda>d. \<not> dead d) list)) shard))"

definition prefixDocs :: "Shard \<Rightarrow> string \<Rightarrow> nat list" where
  "prefixDocs shard query =
     fold (\<lambda>(token, list) out. if startsWith query token then fold setAdd list out else out) shard []"

definition byShard :: "string list \<Rightarrow> (string, string list) jsmap" where
  "byShard tokens =
     fold (\<lambda>t out. case map_of out (shardOf t) of
            Some list \<Rightarrow> AList.update (shardOf t) (list @ [t]) out
          | None \<Rightarrow> AList.update (shardOf t) [t] out) tokens []"

subsection \<open>The byte form\<close>

record Writer =
  w_buf :: bytes
  w_n :: nat

definition newWriter :: Writer where
  "newWriter = \<lparr>w_buf = replicate 256 0, w_n = 0\<rparr>"

text \<open>The doubling loop of \<open>grow\<close>; a buffer is never empty, so that it ends.\<close>

function growSize :: "nat \<Rightarrow> nat \<Rightarrow> nat" where
  "growSize sz need = (if 0 < sz \<and> sz < need then growSize (sz * 2) need else sz)"
  by pat_completeness auto
termination
  by (relation "measure (\<lambda>(sz, need). need - sz)") auto

declare growSize.simps [simp del]

definition wGrow :: "nat \<Rightarrow> Writer \<Rightarrow> Writer" where
  "wGrow need w =
     (if w_n w + need \<le> length (w_buf w) then w
      else w\<lparr>w_buf := take (w_n w) (w_buf w)
               @ replicate (growSize (length (w_buf w) * 2) (w_n w + need) - w_n w) 0\<rparr>)"

definition putByte :: "byte \<Rightarrow> Writer \<Rightarrow> Writer" where
  "putByte b w = w\<lparr>w_buf := (w_buf w)[w_n w := b], w_n := w_n w + 1\<rparr>"

function putVarint :: "int \<Rightarrow> Writer \<Rightarrow> Writer" where
  "putVarint v w =
     (if 0x80 \<le> v then putVarint (v div 0x80) (putByte (word_of_int (v mod 0x80 + 0x80)) w)
      else putByte (word_of_int v) w)"
  by pat_completeness auto
termination
  by (relation "measure (\<lambda>(v, w). nat v)") auto

declare putVarint.simps [simp del]

definition wVarint :: "int \<Rightarrow> Writer \<Rightarrow> Writer" where
  "wVarint v w = putVarint v (wGrow 10 w)"

definition wBytes :: "bytes \<Rightarrow> Writer \<Rightarrow> Writer" where
  "wBytes b w =
     (let w' = wGrow (length b) w in
      w'\<lparr>w_buf := take (w_n w') (w_buf w') @ b @ drop (w_n w' + length b) (w_buf w'), w_n := w_n w' + length b\<rparr>)"

definition wDone :: "Writer \<Rightarrow> bytes" where
  "wDone w = take (w_n w) (w_buf w)"

fun writePostings :: "nat \<Rightarrow> nat list \<Rightarrow> Writer \<Rightarrow> Writer" where
  "writePostings prev [] w = w"
| "writePostings prev (d # ds) w = writePostings d ds (wVarint (int d - int prev) w)"

definition writeEntry :: "string \<times> nat list \<Rightarrow> Writer \<Rightarrow> Writer" where
  "writeEntry e w =
     (case e of (token, list) \<Rightarrow>
        (let t = utf8 token in
         writePostings 0 list (wVarint (int (length list)) (wBytes t (wVarint (int (length t)) w)))))"

definition encodeShard :: "Shard \<Rightarrow> bytes" where
  "encodeShard shard = wDone (fold writeEntry shard (wVarint (int (length shard)) newWriter))"

datatype shard_error = Truncated | InvalidArrayLength | UnmodelledText

fun readVarint :: "nat \<Rightarrow> nat \<Rightarrow> bytes \<Rightarrow> shard_error + nat \<times> bytes" where
  "readVarint v mul [] = Inl Truncated"
| "readVarint v mul (b # bs) =
     (let v' = v + (unat b mod 0x80) * mul in
      if unat b < 0x80 then Inr (v', bs) else readVarint v' (mul * 0x80) bs)"

fun readPostings :: "nat \<Rightarrow> nat \<Rightarrow> bytes \<Rightarrow> shard_error + nat list \<times> bytes" where
  "readPostings 0 prev bs = Inr ([], bs)"
| "readPostings (Suc n) prev bs =
     (case readVarint 0 1 bs of
        Inl e \<Rightarrow> Inl e
      | Inr (v, bs') \<Rightarrow>
          (case readPostings n (prev + v) bs' of
             Inl e \<Rightarrow> Inl e
           | Inr (ds, rest) \<Rightarrow> Inr ((prev + v) # ds, rest)))"

text \<open>One entry: a token and its postings. Text beyond the modelled characters is its own error.\<close>

definition readEntry :: "bytes \<Rightarrow> shard_error + (string \<times> nat list) \<times> bytes" where
  "readEntry bs =
     (case readVarint 0 1 bs of
        Inl e \<Rightarrow> Inl e
      | Inr (len, bs1) \<Rightarrow>
          if length bs1 < len then Inl Truncated
          else (case utf8_decode (take len bs1) of
                  None \<Rightarrow> Inl UnmodelledText
                | Some token \<Rightarrow>
                    (case readVarint 0 1 (drop len bs1) of
                       Inl e \<Rightarrow> Inl e
                     | Inr (n, bs2) \<Rightarrow>
                         if 2 ^ 32 \<le> n then Inl InvalidArrayLength
                         else (case readPostings n 0 bs2 of
                                 Inl e \<Rightarrow> Inl e
                               | Inr (list, rest) \<Rightarrow> Inr ((token, list), rest)))))"

fun readEntries :: "nat \<Rightarrow> bytes \<Rightarrow> Shard \<Rightarrow> shard_error + Shard" where
  "readEntries 0 bs shard = Inr shard"
| "readEntries (Suc k) bs shard =
     (case readEntry bs of
        Inl e \<Rightarrow> Inl e
      | Inr ((token, list), rest) \<Rightarrow> readEntries k rest (AList.update token list shard))"

definition decodeShard :: "bytes \<Rightarrow> shard_error + Shard" where
  "decodeShard bs =
     (case readVarint 0 1 bs of
        Inl e \<Rightarrow> Inl e
      | Inr (count, rest) \<Rightarrow> readEntries count rest [])"

subsection \<open>The buffer appends\<close>

definition writer_ok :: "Writer \<Rightarrow> bool" where
  "writer_ok w \<longleftrightarrow> w_n w \<le> length (w_buf w) \<and> 0 < length (w_buf w)"

text \<open>The reference form of a varint: seven bits a byte, least significant first.\<close>

fun varint :: "nat \<Rightarrow> bytes" where
  "varint v = (if 128 \<le> v then word_of_nat (v mod 128 + 128) # varint (v div 128) else [word_of_nat v])"

declare varint.simps [simp del]

fun deltas :: "nat \<Rightarrow> nat list \<Rightarrow> bytes" where
  "deltas prev [] = []"
| "deltas prev (d # ds) = varint (d - prev) @ deltas d ds"

definition entryBytes :: "string \<times> nat list \<Rightarrow> bytes" where
  "entryBytes e = (case e of (token, list) \<Rightarrow>
     varint (length (utf8 token)) @ utf8 token @ varint (length list) @ deltas 0 list)"

definition shardBytes :: "Shard \<Rightarrow> bytes" where
  "shardBytes shard = varint (length shard) @ concat (map entryBytes shard)"

lemma growSize_ge: "0 < sz \<Longrightarrow> need \<le> growSize sz need"
  by (induction sz need rule: growSize.induct) (subst growSize.simps, auto)

lemma wGrow_ok:
  assumes "writer_ok w"
  shows "writer_ok (wGrow need w)" "wDone (wGrow need w) = wDone w" "w_n (wGrow need w) = w_n w"
    and "w_n w + need \<le> length (w_buf (wGrow need w))"
  using assms growSize_ge [of "length (w_buf w) * 2" "w_n w + need"]
  by (auto simp: wGrow_def writer_ok_def wDone_def)

lemma putByte_done:
  "w_n w < length (w_buf w) \<Longrightarrow> wDone (putByte b w) = wDone w @ [b]"
  by (simp add: wDone_def putByte_def take_Suc_conv_app_nth)

lemma putVarint_done:
  assumes "w_n w + length (varint v) \<le> length (w_buf w)"
  shows "wDone (putVarint (int v) w) = wDone w @ varint v
       \<and> w_n (putVarint (int v) w) = w_n w + length (varint v) \<and> length (w_buf (putVarint (int v) w)) = length (w_buf w)"
  using assms
proof (induction v arbitrary: w rule: varint.induct)
  case (1 v)
  show ?case
  proof (cases "128 \<le> v")
    case True
    let ?w = "putByte (word_of_int (int v mod 128 + 128)) w"
    have var: "varint v = word_of_nat (v mod 128 + 128) # varint (v div 128)" using True by (simp add: varint.simps [of v])
    have put: "putVarint (int v) w = putVarint (int (v div 128)) ?w"
      using True by (simp add: putVarint.simps [of "int v"] zdiv_int)
    have i: "int v mod 128 + 128 = int (v mod 128 + 128)" by (simp add: zmod_int)
    have b: "(word_of_int (int v mod 128 + 128) :: byte) = word_of_nat (v mod 128 + 128)" unfolding i of_int_of_nat_eq ..
    have "w_n ?w + length (varint (v div 128)) \<le> length (w_buf ?w)" using 1(2) var by (simp add: putByte_def)
    from 1(1) [OF True this] show ?thesis
      using putByte_done [of w] 1(2) var put b by (simp add: putByte_def)
  next
    case False
    then show ?thesis using 1(2) putByte_done [of w]
      by (simp add: varint.simps [of v] putVarint.simps [of "int v"]) (simp add: putByte_def)
  qed
qed

lemma length_varint: "v < 128 ^ Suc k \<Longrightarrow> length (varint v) \<le> Suc k"
proof (induction k arbitrary: v)
  case 0
  then show ?case by (simp add: varint.simps [of v])
next
  case (Suc k)
  then have "v div 128 < 128 ^ Suc k" by (simp add: less_mult_imp_div_less mult.commute)
  then show ?case using Suc.IH [of "v div 128"] by (simp add: varint.simps [of v])
qed

lemma length_varint_53: "v < 2 ^ 53 \<Longrightarrow> length (varint v) \<le> 10"
  using length_varint [of v 9] by simp

lemma wVarint_done:
  assumes "writer_ok w" "v < 2 ^ 53"
  shows "writer_ok (wVarint (int v) w) \<and> wDone (wVarint (int v) w) = wDone w @ varint v"
proof -
  note g = wGrow_ok [OF assms(1), of 10]
  have "w_n (wGrow 10 w) + length (varint v) \<le> length (w_buf (wGrow 10 w))"
    using g(3,4) length_varint_53 [OF assms(2)] by simp
  from putVarint_done [OF this] this show ?thesis using g by (simp add: wVarint_def writer_ok_def)
qed

lemma wBytes_done:
  assumes "writer_ok w"
  shows "writer_ok (wBytes b w) \<and> wDone (wBytes b w) = wDone w @ b"
  using assms wGrow_ok [OF assms, of "length b"] by (simp add: wBytes_def Let_def writer_ok_def wDone_def)

subsection \<open>What a shard holds\<close>

text \<open>The invariant of a shard: one entry per token, postings strictly ascending, sizes exact numbers.\<close>

definition entry_ok :: "string \<times> nat list \<Rightarrow> bool" where
  "entry_ok e = (case e of (token, list) \<Rightarrow>
     length (utf8 token) < 2 ^ 53 \<and> length list < 2 ^ 32 \<and> sorted_wrt (<) list \<and> (\<forall>d\<in>set list. d < 2 ^ 53))"

definition shard_ok :: "Shard \<Rightarrow> bool" where
  "shard_ok shard \<longleftrightarrow> distinct (map fst shard) \<and> length shard < 2 ^ 53 \<and> (\<forall>e\<in>set shard. entry_ok e)"

lemma writePostings_done:
  assumes "writer_ok w" "sorted_wrt (<) list" "\<forall>d\<in>set list. prev \<le> d \<and> d < 2 ^ 53"
  shows "writer_ok (writePostings prev list w) \<and> wDone (writePostings prev list w) = wDone w @ deltas prev list"
  using assms
proof (induction prev list w rule: writePostings.induct)
  case (2 prev d ds w)
  have v: "int d - int prev = int (d - prev)" "d - prev < 2 ^ 53"
    using 2(4) le_less_trans [OF diff_le_self, of d "2 ^ 53" prev] by (simp_all add: of_nat_diff)
  have "writer_ok (wVarint (int d - int prev) w)" "wDone (wVarint (int d - int prev) w) = wDone w @ varint (d - prev)"
    using wVarint_done [OF 2(2) v(2)] unfolding v(1) by blast+
  then show ?case using 2(1,3,4) by (simp add: less_imp_le)
qed simp

lemma writeEntry_done:
  assumes "writer_ok w" "entry_ok e"
  shows "writer_ok (writeEntry e w) \<and> wDone (writeEntry e w) = wDone w @ entryBytes e"
proof -
  obtain token list where e: "e = (token, list)" by (cases e)
  have sizes: "length (utf8 token) < 2 ^ 53" "length list < 2 ^ 53" "sorted_wrt (<) list" "\<forall>d\<in>set list. 0 \<le> d \<and> d < 2 ^ 53"
    using assms(2) e by (auto simp: entry_ok_def)
  let ?w1 = "wVarint (int (length (utf8 token))) w"
  let ?w2 = "wBytes (utf8 token) ?w1"
  let ?w3 = "wVarint (int (length list)) ?w2"
  have w1: "writer_ok ?w1" "wDone ?w1 = wDone w @ varint (length (utf8 token))" using wVarint_done [OF assms(1) sizes(1)] by simp_all
  have w2: "writer_ok ?w2" "wDone ?w2 = wDone ?w1 @ utf8 token" using wBytes_done [OF w1(1)] by simp_all
  have w3: "writer_ok ?w3" "wDone ?w3 = wDone ?w2 @ varint (length list)" using wVarint_done [OF w2(1) sizes(2)] by simp_all
  show ?thesis using writePostings_done [OF w3(1) sizes(3,4)] w1 w2 w3 e by (simp add: writeEntry_def Let_def entryBytes_def)
qed

lemma fold_writeEntry_done:
  "writer_ok w \<Longrightarrow> \<forall>e\<in>set shard. entry_ok e \<Longrightarrow>
   writer_ok (fold writeEntry shard w) \<and> wDone (fold writeEntry shard w) = wDone w @ concat (map entryBytes shard)"
  by (induction shard arbitrary: w) (simp_all add: writeEntry_done)

lemma encodeShard_bytes: "shard_ok shard \<Longrightarrow> encodeShard shard = shardBytes shard"
proof -
  assume ok: "shard_ok shard"
  have new: "writer_ok newWriter" "wDone newWriter = []" by (simp_all add: writer_ok_def newWriter_def wDone_def)
  from wVarint_done [OF new(1), of "length shard"] fold_writeEntry_done [of "wVarint (int (length shard)) newWriter" shard] new ok
  show ?thesis by (simp add: encodeShard_def shardBytes_def shard_ok_def)
qed

subsection \<open>Reading it back\<close>

lemma readVarint_varint: "readVarint v mul (varint x @ bs) = Inr (v + x * mul, bs)"
proof (induction x arbitrary: v mul rule: varint.induct)
  case (1 x)
  have w: "unat (word_of_nat k :: byte) = k" if "k < 256" for k using that by (simp add: unat_of_nat)
  show ?case
  proof (cases "128 \<le> x")
    case True
    have u: "unat (word_of_nat (x mod 128 + 128) :: byte) = x mod 128 + 128" by (rule w) (simp add: less_le_trans [of _ 128])
    have "varint x = word_of_nat (x mod 128 + 128) # varint (x div 128)" using True by (simp add: varint.simps [of x])
    then have "readVarint v mul (varint x @ bs) = readVarint (v + x mod 128 * mul) (mul * 128) (varint (x div 128) @ bs)"
      using u by (simp add: Let_def del: of_nat_add)
    also have "\<dots> = Inr (v + x mod 128 * mul + x div 128 * (mul * 128), bs)" using 1 [OF True] by simp
    also have "v + x mod 128 * mul + x div 128 * (mul * 128) = v + (x mod 128 + x div 128 * 128) * mul"
      by (simp only: add.assoc add_mult_distrib mult.assoc mult.commute [of mul 128])
    finally show ?thesis by (simp only: mod_div_mult_eq)
  next
    case False
    then show ?thesis using w [of x] by (simp add: varint.simps [of x] Let_def)
  qed
qed

lemma readPostings_deltas:
  "sorted_wrt (<) list \<Longrightarrow> \<forall>d\<in>set list. prev \<le> d \<Longrightarrow> readPostings (length list) prev (deltas prev list @ bs) = Inr (list, bs)"
  by (induction list arbitrary: prev) (auto simp: readVarint_varint less_imp_le)

lemma readEntry_entryBytes:
  assumes "entry_ok e"
  shows "readEntry (entryBytes e @ bs) = Inr (e, bs)"
proof -
  obtain token list where e: "e = (token, list)" by (cases e)
  have "length list < 2 ^ 32" "readPostings (length list) 0 (deltas 0 list @ bs) = Inr (list, bs)"
    using assms e readPostings_deltas [of list 0 bs] by (auto simp: entry_ok_def)
  then show ?thesis using e by (simp add: readEntry_def entryBytes_def readVarint_varint utf8_decode_utf8)
qed

lemma update_fresh: "k \<notin> fst ` set m \<Longrightarrow> AList.update k v m = m @ [(k, v)]"
  by (induction m) auto

lemma readEntries_bytes:
  "\<forall>e\<in>set shard. entry_ok e \<Longrightarrow> distinct (map fst (acc @ shard)) \<Longrightarrow>
   readEntries (length shard) (concat (map entryBytes shard) @ bs) acc = Inr (acc @ shard)"
proof (induction shard arbitrary: acc)
  case (Cons e shard)
  obtain token list where e: "e = (token, list)" by (cases e)
  have "AList.update token list acc = acc @ [e]" using Cons.prems(2) e by (intro update_fresh [of token acc list, folded e]) auto
  then show ?case using Cons e readEntry_entryBytes [of e] by simp
qed simp

lemma shard_roundtrip_lemma: "shard_ok shard \<Longrightarrow> decodeShard (encodeShard shard) = Inr shard"
  using readEntries_bytes [of shard "[]" "[]"]
  by (simp add: encodeShard_bytes decodeShard_def shardBytes_def readVarint_varint shard_ok_def)

subsection \<open>Postings\<close>

text \<open>The documents a shard lists for a token.\<close>

definition posts :: "Shard \<Rightarrow> string \<Rightarrow> nat set" where
  "posts shard t = (case map_of shard t of None \<Rightarrow> {} | Some list \<Rightarrow> set list)"

lemma posts_Nil [simp]: "posts [] t = {}"
  by (simp add: posts_def)

lemma posts_update [simp]: "posts (AList.update t list shard) t' = (if t' = t then set list else posts shard t')"
  by (simp add: posts_def)

lemma spliceDoc_set: "set (spliceDoc doc list) = insert doc (set list)"
  by (induction list) auto

lemma spliceDoc_sorted: "sorted_wrt (<) list \<Longrightarrow> sorted_wrt (<) (spliceDoc doc list)"
  by (induction list) (auto simp: spliceDoc_set)

lemma insertDoc_set: "set (insertDoc doc list) = insert doc (set list)"
  using last_in_set [of list] by (auto simp: insertDoc_def spliceDoc_set)

lemma insertDoc_sorted:
  assumes "sorted_wrt (<) list"
  shows "sorted_wrt (<) (insertDoc doc list)"
proof (cases "list \<noteq> [] \<and> last list < doc")
  case True
  then obtain ys y where "list = ys @ [y]" by (cases list rule: rev_cases) auto
  then have "\<forall>d\<in>set list. d < doc" using True assms by (auto simp: sorted_wrt_append)
  then show ?thesis using assms True by (simp add: insertDoc_def sorted_wrt_append)
next
  case False
  then show ?thesis using assms by (auto simp: insertDoc_def spliceDoc_sorted)
qed

text \<open>
  The invariant the index keeps of a shard: entries for short tokens of that shard, each with ascending
  document numbers below the next free one.
\<close>

definition shard_wf :: "string \<Rightarrow> nat \<Rightarrow> Shard \<Rightarrow> bool" where
  "shard_wf id' n shard \<longleftrightarrow> distinct (map fst shard) \<and>
     (\<forall>(t, list)\<in>set shard. shardOf t = id' \<and> length t \<le> MAX_TOKEN \<and> sorted_wrt (<) list \<and> (\<forall>d\<in>set list. d < n))"

lemma shard_wf_Nil [simp]: "shard_wf id' n []"
  by (simp add: shard_wf_def)

lemma shard_wf_mono: "shard_wf id' n shard \<Longrightarrow> n \<le> m \<Longrightarrow> shard_wf id' m shard"
  by (fastforce simp: shard_wf_def)

lemma shard_wf_posts: "shard_wf id' n shard \<Longrightarrow> d \<in> posts shard t \<Longrightarrow> d < n \<and> shardOf t = id'"
  by (fastforce simp: shard_wf_def posts_def split: option.splits dest: map_of_SomeD)

lemma length_utf8: "length (utf8 s) \<le> 2 * length s"
  by (induction s) (simp_all add: utf8_def utf8_char_def Let_def)

lemma sorted_below: "sorted_wrt (<) list \<Longrightarrow> \<forall>d\<in>set list. d < n \<Longrightarrow> length list \<le> (n :: nat)"
proof -
  assume a: "sorted_wrt (<) list" "\<forall>d\<in>set list. d < n"
  then have "card (set list) = length list" by (intro distinct_card) (simp add: strict_sorted_iff)
  moreover have "card (set list) \<le> card {..<n}" using a(2) by (intro card_mono) auto
  ultimately show ?thesis by simp
qed

lemma shard_wf_ok:
  assumes "shard_wf id' n shard" "n < 2 ^ 32" "length shard < 2 ^ 53"
  shows "shard_ok shard"
proof -
  have "entry_ok (t, list)" if "(t, list) \<in> set shard" for t list
  proof -
    have e: "length t \<le> MAX_TOKEN" "sorted_wrt (<) list" "\<forall>d\<in>set list. d < n" using assms(1) that by (auto simp: shard_wf_def)
    have "length (utf8 t) \<le> 80" using length_utf8 [of t] e(1) by (simp add: MAX_TOKEN_def)
    moreover have "length list < 2 ^ 32" using sorted_below [OF e(2,3)] assms(2) by simp
    moreover have "\<forall>d\<in>set list. d < 2 ^ 53" using e(3) assms(2) by fastforce
    ultimately show ?thesis using e(2) by (simp add: entry_ok_def)
  qed
  then show ?thesis using assms(1,3) by (auto simp: shard_ok_def shard_wf_def)
qed

lemma addPosting_wf:
  assumes "shard_wf id' n shard" "shardOf t = id'" "length t \<le> MAX_TOKEN" "doc < n"
  shows "shard_wf id' n (addPosting t doc shard)" "posts (addPosting t doc shard) t' = (if t' = t then insert doc (posts shard t) else posts shard t')"
    and "length (addPosting t doc shard) \<le> length shard + 1"
proof -
  have upd: "x \<in> set (AList.update k v m) \<Longrightarrow> x = (k, v) \<or> x \<in> set m" for x k v and m :: Shard
    by (induction m) (auto split: if_splits)
  have old: "sorted_wrt (<) (insertDoc doc list) \<and> (\<forall>d\<in>set (insertDoc doc list). d < n)" if "map_of shard t = Some list" for list
    using map_of_SomeD [OF that] assms(1,4) insertDoc_sorted insertDoc_set by (fastforce simp: shard_wf_def)
  show "shard_wf id' n (addPosting t doc shard)"
    using assms old unfolding addPosting_def shard_wf_def
    by (cases "map_of shard t") (auto dest!: upd)
  show "posts (addPosting t doc shard) t' = (if t' = t then insert doc (posts shard t) else posts shard t')"
    by (cases "map_of shard t") (auto simp: addPosting_def insertDoc_set posts_def)
  have "length (AList.update k v m) \<le> length m + 1" for k v and m :: Shard by (induction m) auto
  then show "length (addPosting t doc shard) \<le> length shard + 1" by (simp add: addPosting_def split: option.splits)
qed

lemma addPostings_wf:
  assumes "shard_wf id' n shard" "\<forall>t\<in>set ts. shardOf t = id' \<and> length t \<le> MAX_TOKEN" "doc < n"
  shows "shard_wf id' n (fold (\<lambda>t. addPosting t doc) ts shard)
       \<and> posts (fold (\<lambda>t. addPosting t doc) ts shard) t' = (if t' \<in> set ts then insert doc (posts shard t') else posts shard t')
       \<and> length (fold (\<lambda>t. addPosting t doc) ts shard) \<le> length shard + length ts"
  using assms
proof (induction ts arbitrary: shard)
  case (Cons t ts)
  have t: "shardOf t = id'" "length t \<le> MAX_TOKEN" using Cons.prems(2) by auto
  note a = addPosting_wf [OF Cons.prems(1) t Cons.prems(3)]
  from Cons.IH [OF a(1)] Cons.prems(2,3) show ?case using a(2) [of t'] a(3) by auto
qed simp

lemma dropDocs_wf:
  assumes "shard_wf id' n shard"
  shows "shard_wf id' n (fst (dropDocs dead shard))" "posts (fst (dropDocs dead shard)) t = {d \<in> posts shard t. \<not> dead d}"
    and "length (fst (dropDocs dead shard)) \<le> length shard"
proof -
  let ?g = "\<lambda>(t, list). (t, filter (\<lambda>d. \<not> dead d) list)"
  have len: "length (filter P (map f xs)) \<le> length xs" for P :: "string \<times> nat list \<Rightarrow> bool" and f :: "string \<times> nat list \<Rightarrow> string \<times> nat list" and xs
    using length_filter_le [of P "map f xs"] by simp
  have fst: "map fst (map ?g shard) = map fst shard" by (induction shard) auto
  have d: "distinct (map fst shard)" using assms by (simp add: shard_wf_def)
  have dist: "distinct (map fst (filter (\<lambda>(t, list). list \<noteq> []) (map ?g shard)))"
    by (rule distinct_map_filter) (simp only: fst d)
  show "shard_wf id' n (fst (dropDocs dead shard))"
    using assms dist by (auto simp: dropDocs_def shard_wf_def sorted_wrt_filter)
  show "length (fst (dropDocs dead shard)) \<le> length shard" by (simp add: dropDocs_def len)
  have "map_of (filter (\<lambda>(t, list). list \<noteq> []) (map ?g shard)) t =
      (case map_of shard t of None \<Rightarrow> None | Some list \<Rightarrow> if filter (\<lambda>d. \<not> dead d) list = [] then None else Some (filter (\<lambda>d. \<not> dead d) list))"
    using d
  proof (induction shard)
    case (Cons x shard)
    obtain t' list where x: "x = (t', list)" by (cases x)
    have "t = t' \<Longrightarrow> map_of shard t = None" using Cons.prems x by (simp add: map_of_eq_None_iff)
    then show ?case using Cons x by (auto split: option.splits if_splits)
  qed simp
  then show "posts (fst (dropDocs dead shard)) t = {d \<in> posts shard t. \<not> dead d}"
    by (auto simp: dropDocs_def posts_def filter_empty_conv split: option.splits)
qed

lemma prefixDocs_set:
  assumes "distinct (map fst shard)"
  shows "set (prefixDocs shard q) = {d. \<exists>t. startsWith q t \<and> d \<in> posts shard t}"
proof -
  have f: "set (fold (\<lambda>(token, list) out. if startsWith q token then fold setAdd list out else out) sh acc)
      = set acc \<union> {d. \<exists>(t, list)\<in>set sh. startsWith q t \<and> d \<in> set list}" for sh acc
    by (induction sh arbitrary: acc) (auto split: prod.splits)
  have "set (prefixDocs shard q) = {d. \<exists>(t, list)\<in>set shard. startsWith q t \<and> d \<in> set list}"
    using f [of shard "[]"] by (simp add: prefixDocs_def)
  also have "\<dots> = {d. \<exists>t. startsWith q t \<and> d \<in> posts shard t}"
    using assms by (fastforce simp: posts_def split: option.splits dest: map_of_SomeD)
  finally show ?thesis .
qed

lemma byShard_groups:
  "distinct (map fst (byShard ts)) \<and> fst ` set (byShard ts) = shardOf ` set ts
   \<and> (\<forall>(id', l)\<in>set (byShard ts). set l = {t \<in> set ts. shardOf t = id'} \<and> length l \<le> length ts)"
proof -
  let ?step = "\<lambda>out t. case map_of out (shardOf t) of
       Some list \<Rightarrow> AList.update (shardOf t) (list @ [t]) out | None \<Rightarrow> AList.update (shardOf t) [t] out"
  let ?P = "\<lambda>out ts. distinct (map fst out) \<and> fst ` set out = shardOf ` set ts
     \<and> (\<forall>(id', l)\<in>set out. set l = {t \<in> set ts. shardOf t = id'} \<and> length l \<le> length ts)"
  have upd: "x \<in> set (AList.update k v m) \<longleftrightarrow> x = (k, v) \<or> x \<in> set m \<and> fst x \<noteq> k" if "distinct (map fst m)"
    for x k v and m :: "(string, string list) jsmap" using that by (induction m) auto
  have "?P (foldl ?step [] ts) ts"
  proof (induction ts rule: rev_induct)
    case (snoc t ts)
    let ?out = "foldl ?step [] ts"
    have d: "distinct (map fst ?out)" "fst ` set ?out = shardOf ` set ts"
      and g: "\<And>id' l. (id', l) \<in> set ?out \<Longrightarrow> set l = {t \<in> set ts. shardOf t = id'} \<and> length l \<le> length ts"
      using snoc by auto
    obtain l where l: "foldl ?step [] (ts @ [t]) = AList.update (shardOf t) (l @ [t]) ?out"
      "set l = {t' \<in> set ts. shardOf t' = shardOf t}" "length l \<le> length ts"
    proof (cases "map_of ?out (shardOf t)")
      case None
      then have "shardOf t \<notin> shardOf ` set ts" using d(2) by (simp add: map_of_eq_None_iff)
      then have "{t' \<in> set ts. shardOf t' = shardOf t} = {}" by (auto simp: image_iff)
      then show ?thesis using that [of "[]"] None by simp
    next
      case (Some list)
      then show ?thesis using that [of list] g [OF map_of_SomeD [OF Some]] by auto
    qed
    have keys: "fst ` set (AList.update (shardOf t) (l @ [t]) ?out) = insert (shardOf t) (fst ` set ?out)"
      by (simp add: dom_update)
    let ?new = "AList.update (shardOf t) (l @ [t]) ?out"
    have "set m = {t' \<in> set (ts @ [t]). shardOf t' = id'} \<and> length m \<le> length (ts @ [t])" if "(id', m) \<in> set ?new" for id' m
    proof (cases "id' = shardOf t")
      case True
      then have "m = l @ [t]" using that upd [OF d(1), of "(id', m)"] by simp
      then show ?thesis using True l(2,3) by auto
    next
      case False
      then have "(id', m) \<in> set ?out" using that upd [OF d(1), of "(id', m)"] by simp
      from g [OF this] False show ?thesis by auto
    qed
    moreover have "distinct (map fst ?new)" using d(1) by simp
    moreover have "fst ` set ?new = shardOf ` set (ts @ [t])" using keys d(2) by simp
    ultimately show ?case unfolding l(1) by blast
  qed simp
  then show ?thesis by (simp add: byShard_def foldl_conv_fold)
qed

lemma tokenize_keep: "t \<in> set (tokenize u text) \<Longrightarrow> keep u t"
proof -
  have t1: "set (fold (\<lambda>m out. if keep u m then setAdd m out else out) ws acc) \<subseteq> set acc \<union> {t. keep u t}" for ws acc
  proof (induction ws arbitrary: acc)
    case (Cons w ws)
    show ?case using Cons [of acc] Cons [of "setAdd w acc"] by (cases "keep u w") auto
  qed simp
  have t2: "set (fold (\<lambda>(seg, wordLike) out. if wordLike then takeWords u seg out else out) segs acc) \<subseteq> set acc \<union> {t. keep u t}" for segs acc
  proof (induction segs arbitrary: acc)
    case (Cons x segs)
    obtain seg wl where x: "x = (seg, wl)" by (cases x)
    show ?case using Cons [of acc] Cons [of "takeWords u seg acc"] t1 [of "wordRuns u seg" acc] x
      by (cases wl) (auto simp: takeWords_def)
  qed simp
  show "t \<in> set (tokenize u text) \<Longrightarrow> keep u t"
    using t1 [of _ "[]"] t2 [of _ "[]"] by (auto simp: tokenize_def Let_def takeWords_def split: option.splits)
qed

subsection \<open>The byte form is faithful\<close>

text \<open>
  C35. For a shard whose lists increase and stay in the range of the language's exact integers, the
  growing buffer of the encoder holds exactly the documented layout, and decoding it gives the shard
  back, in its order.
\<close>

theorem shard_roundtrip:
  assumes "shard_ok shard"
  shows "decodeShard (encodeShard shard) = Inr shard \<and> encodeShard shard = shardBytes shard"
  using assms shard_roundtrip_lemma encodeShard_bytes by blast

theorem shard_roundtrip_witness:
  "decodeShard (encodeShard [(''he'', [1, 300]), (''hi'', [2])]) = Inr [(''he'', [1, 300]), (''hi'', [2])]
   \<and> encodeShard [(''he'', [1, 300]), (''hi'', [2])] = shardBytes [(''he'', [1, 300]), (''hi'', [2])]"
proof -
  have "length (utf8 ''he'') < 2 ^ 53" "length (utf8 ''hi'') < 2 ^ 53" using length_utf8 [of "''he''"] length_utf8 [of "''hi''"] by simp_all
  then have "shard_ok [(''he'', [1, 300]), (''hi'', [2])]" by (simp add: shard_ok_def entry_ok_def)
  then show ?thesis by (rule shard_roundtrip)
qed

end
