(* ===== verification/Query.thy ===== *)
theory Query
  imports Shards
begin

section \<open>Search queries\<close>

text \<open>
  \<open>lib/search/query.ts\<close>: what a query means and whether a message matches it. The position of the
  parser in its input is the rest of the input. The calendar of the local time zone is a parameter that
  gives midnight of a day, or nothing for a day that does not exist. A wildcard pattern is the list of
  its pieces; the regular expression the source compiles it to matches exactly as \<open>globMatch\<close> does.
\<close>

datatype glob_piece = AnyRun | AnyOne | Lit char

datatype is_value = IsUnread | IsRead | IsStarred

datatype Clause =
    From bool string | To bool string | Subject bool string | Label bool string | In bool string | Word bool string
  | InObject bool
  | Filename bool string "glob_piece list option"
  | Has bool
  | Is bool is_value
  | Before bool int | After bool int

fun neg :: "Clause \<Rightarrow> bool" where
  "neg (From n _) = n" | "neg (To n _) = n" | "neg (Subject n _) = n" | "neg (Label n _) = n" | "neg (In n _) = n"
| "neg (InObject n) = n" | "neg (Word n _) = n" | "neg (Filename n _ _) = n" | "neg (Has n) = n" | "neg (Is n _) = n" | "neg (Before n _) = n"
| "neg (After n _) = n"

record ParsedQuery =
  clauses :: "Clause list"
  q_words :: "string list"
  q_filenames :: "string list"

record Hits =
  h_words :: "(string, string list) jsmap"
  h_files :: "(string, string list) jsmap"

record MatchContext =
  mc_nameFor :: "string \<Rightarrow> string"
  mc_isRead :: "string \<Rightarrow> bool"
  mc_isStarred :: "string \<Rightarrow> bool"
  mc_labelNames :: "string \<Rightarrow> string list"
  mc_placeNames :: "string \<Rightarrow> string list"

record Matchable =
  ma_hash :: string
  ma_senderAddress :: string
  ma_senderDisplay :: string
  ma_recipientAddress :: string
  ma_deliveredTo :: string
  ma_to :: "string list"
  ma_cc :: "string list"
  ma_bcc :: "string list"
  ma_subject :: string
  ma_snippet :: string
  ma_sentAt :: int
  ma_attachmentCount :: nat

definition FIELD_OPS :: "string list" where
  "FIELD_OPS = [''from'', ''to'', ''subject'', ''label'', ''in'', ''filename'', ''has'', ''is'', ''before'', ''after'']"

definition IN_ALIASES :: "(string \<times> string) list" where
  "IN_ALIASES = [(''trash'', ''deleted''), (''bin'', ''deleted'')]"

text \<open>
  Looking a value up in \<open>IN_ALIASES\<close> also finds what every object inherits. Of the inherited names two
  survive folding to lower case; the clause then holds an object instead of a string (\<open>InObject\<close>).
\<close>

definition inherited :: "string list" where
  "inherited = [''constructor'', ''__proto__'']"

definition globPiece :: "char \<Rightarrow> glob_piece" where
  "globPiece c = (if c = CHR ''*'' then AnyRun else if c = CHR ''?'' then AnyOne else Lit c)"

definition globToRegExp :: "string \<Rightarrow> glob_piece list option" where
  "globToRegExp pattern =
     (if CHR ''*'' \<in> set pattern \<or> CHR ''?'' \<in> set pattern then Some (map globPiece pattern) else None)"

fun globMatch :: "glob_piece list \<Rightarrow> string \<Rightarrow> bool" where
  "globMatch [] s = (s = [])"
| "globMatch (AnyOne # ps) s = (case s of [] \<Rightarrow> False | c # cs \<Rightarrow> globMatch ps cs)"
| "globMatch (Lit d # ps) s = (case s of [] \<Rightarrow> False | c # cs \<Rightarrow> c = d \<and> globMatch ps cs)"
| "globMatch (AnyRun # ps) [] = globMatch ps []"
| "globMatch (AnyRun # ps) (c # cs) = (globMatch ps (c # cs) \<or> globMatch (AnyRun # ps) cs)"

subsection \<open>Parsing\<close>

definition is_digit :: "char \<Rightarrow> bool" where
  "is_digit c = (let n = (of_char c :: nat) in 48 \<le> n \<and> n \<le> 57)"

definition is_alpha :: "char \<Rightarrow> bool" where
  "is_alpha c = (let n = (of_char c :: nat) in (65 \<le> n \<and> n \<le> 90) \<or> (97 \<le> n \<and> n \<le> 122))"

definition readNat :: "string \<Rightarrow> nat" where
  "readNat s = foldl (\<lambda>v c. v * 10 + (of_char c - 48)) 0 s"

definition is_dash :: "char \<Rightarrow> bool" where
  "is_dash c \<longleftrightarrow> c = CHR ''-'' \<or> c = CHR ''/''"

text \<open>\<open>YYYY-M-D\<close> with one or two digits for month and day and either separator.\<close>

definition dayStart :: "(nat \<Rightarrow> nat \<Rightarrow> nat \<Rightarrow> int option) \<Rightarrow> string \<Rightarrow> int option" where
  "dayStart midnight v =
     (let y = takeWhile is_digit v; r1 = dropWhile is_digit v;
          m = takeWhile is_digit (tl r1); r2 = dropWhile is_digit (tl r1);
          d = takeWhile is_digit (tl r2); r3 = dropWhile is_digit (tl r2) in
      if length y = 4 \<and> r1 \<noteq> [] \<and> is_dash (hd r1) \<and> length m \<in> {1, 2} \<and> r2 \<noteq> [] \<and> is_dash (hd r2)
         \<and> length d \<in> {1, 2} \<and> r3 = []
      then midnight (readNat y) (readNat m) (readNat d) else None)"

definition operator :: "unicode \<Rightarrow> (nat \<Rightarrow> nat \<Rightarrow> nat \<Rightarrow> int option) \<Rightarrow> string \<Rightarrow> string \<Rightarrow> bool \<Rightarrow> Clause option" where
  "operator u midnight op raw n =
     (let val = foldText u (trim raw) in
      if val = [] then None
      else if op = ''from'' then Some (From n val)
      else if op = ''to'' then Some (To n val)
      else if op = ''subject'' then Some (Subject n val)
      else if op = ''label'' then Some (Label n val)
      else if op = ''in'' then
        Some (if val \<in> set inherited then InObject n
              else In n (case map_of IN_ALIASES val of Some a \<Rightarrow> a | None \<Rightarrow> val))
      else if op = ''filename'' then Some (Filename n val (globToRegExp val))
      else if op = ''has'' then (if val = ''attachment'' \<or> val = ''attachments'' then Some (Has n) else None)
      else if op = ''is'' then
        (if val = ''unread'' then Some (Is n IsUnread) else if val = ''read'' then Some (Is n IsRead)
         else if val = ''starred'' then Some (Is n IsStarred) else None)
      else if op = ''before'' then map_option (Before n) (dayStart midnight val)
      else if op = ''after'' then map_option (After n) (dayStart midnight val)
      else None)"

text \<open>\<open>ws(s[i])\<close> at the rest of the input: at the end, or at white space.\<close>

definition atSpace :: "string \<Rightarrow> bool" where
  "atSpace r = (case r of [] \<Rightarrow> True | c # _ \<Rightarrow> is_space c)"

definition readQueryValue :: "string \<Rightarrow> string \<times> string" where
  "readQueryValue r =
     (if r \<noteq> [] \<and> hd r = CHR ''\"''
      then (takeWhile (\<lambda>c. c \<noteq> CHR ''\"'') (tl r), tl (dropWhile (\<lambda>c. c \<noteq> CHR ''\"'') (tl r)))
      else (takeWhile (\<lambda>c. \<not> is_space c) r, dropWhile (\<lambda>c. \<not> is_space c) r))"

definition wordClause :: "bool \<Rightarrow> string \<Rightarrow> Clause option" where
  "wordClause n val = (if val = [] then None else Some (Word n val))"

text \<open>One turn of the parser at a non-space position: the clause, if any, and the rest.\<close>

definition parseOne :: "unicode \<Rightarrow> (nat \<Rightarrow> nat \<Rightarrow> nat \<Rightarrow> int option) \<Rightarrow> string \<Rightarrow> Clause option \<times> string" where
  "parseOne u midnight s =
     (let n = (hd s = CHR ''-'' \<and> \<not> atSpace (tl s));
          r = (if n then tl s else s);
          op = toLowerCase (takeWhile is_alpha r);
          after = dropWhile is_alpha r in
      if op \<noteq> [] \<and> after \<noteq> [] \<and> hd after = CHR '':'' \<and> op \<in> set FIELD_OPS \<and> \<not> atSpace (tl after)
      then
        (case readQueryValue (tl after) of (v, rest) \<Rightarrow>
           (case operator u midnight op v n of
              Some c \<Rightarrow> (Some c, rest)
            | None \<Rightarrow> (wordClause n (foldText u (filter (\<lambda>c. c \<noteq> CHR ''\"'') (take (length r - length rest) r))), rest)))
      else (case readQueryValue r of (v, rest) \<Rightarrow> (wordClause n (foldText u v), rest)))"

lemma readQueryValue_rest: "r \<noteq> [] \<Longrightarrow> \<not> is_space (hd r) \<Longrightarrow> length (snd (readQueryValue r)) < length r"
proof -
  assume r: "r \<noteq> []" "\<not> is_space (hd r)"
  then obtain c cs where "r = c # cs" by (cases r) auto
  moreover have "length (tl (dropWhile p xs)) \<le> length xs" for p and xs :: string
    using length_dropWhile_le [of p xs] by simp
  ultimately show ?thesis using r length_dropWhile_le [of "\<lambda>c. \<not> is_space c" cs] by (auto simp: readQueryValue_def less_Suc_eq_le)
qed

lemma parseOne_rest:
  assumes "s \<noteq> []" "\<not> is_space (hd s)"
  shows "length (snd (parseOne u midnight s)) < length s"
proof -
  define n where "n = (hd s = CHR ''-'' \<and> \<not> atSpace (tl s))"
  define r where "r = (if n then tl s else s)"
  have r: "r \<noteq> []" "\<not> is_space (hd r)" "length r \<le> length s"
    using assms by (auto simp: r_def n_def atSpace_def split: list.splits)
  have op: "length (snd (readQueryValue (tl a))) < length s" if "a = dropWhile is_alpha r" "a \<noteq> []" "\<not> atSpace (tl a)" for a
  proof -
    have "length a \<le> length r" using that(1) length_dropWhile_le by simp
    moreover have "length (snd (readQueryValue (tl a))) < length (tl a)"
      using that(3) by (intro readQueryValue_rest) (auto simp: atSpace_def split: list.splits)
    ultimately show ?thesis using that(2) r(3) by simp
  qed
  show ?thesis using op [OF refl] readQueryValue_rest [OF r(1,2)] r(3)
    by (auto simp: parseOne_def Let_def n_def [symmetric] r_def [symmetric] simp del: dropWhile_eq_Nil_conv split: prod.splits option.splits)
qed

function parseClauses :: "unicode \<Rightarrow> (nat \<Rightarrow> nat \<Rightarrow> nat \<Rightarrow> int option) \<Rightarrow> string \<Rightarrow> Clause list" where
  "parseClauses u midnight s =
     (let s' = dropWhile is_space s in
      if s' = [] then []
      else (case parseOne u midnight s' of
              (Some c, rest) \<Rightarrow> c # parseClauses u midnight rest
            | (None, rest) \<Rightarrow> parseClauses u midnight rest))"
  by pat_completeness auto
termination
proof (relation "measure (\<lambda>(u, midnight, s). length s)")
  have *: "length rest < length s" if "dropWhile is_space s \<noteq> []" "(x, rest) = parseOne u midnight (dropWhile is_space s)"
    for s x rest u midnight
    using that parseOne_rest [OF that(1) hd_dropWhile [OF that(1)], of u midnight] length_dropWhile_le [of is_space s]
    by (metis less_le_trans snd_conv)
  show "wf (measure (\<lambda>(u :: unicode, midnight :: nat \<Rightarrow> nat \<Rightarrow> nat \<Rightarrow> int option, s :: string). length s))" by simp
  show "((u, midnight, rest), u, midnight, s) \<in> measure (\<lambda>(u, midnight, s). length s)"
    if "s' = dropWhile is_space s" "s' \<noteq> []" "(x, rest) = parseOne u midnight s'" "x = Some c"
    for u :: unicode and midnight s s' x rest c using that * by simp
  show "((u, midnight, rest), u, midnight, s) \<in> measure (\<lambda>(u, midnight, s). length s)"
    if "s' = dropWhile is_space s" "s' \<noteq> []" "(x, rest) = parseOne u midnight s'" "x = None"
    for u :: unicode and midnight s s' x rest using that * by simp
qed

declare parseClauses.simps [simp del]

definition parseQuery :: "unicode \<Rightarrow> (nat \<Rightarrow> nat \<Rightarrow> nat \<Rightarrow> int option) \<Rightarrow> string \<Rightarrow> ParsedQuery" where
  "parseQuery u midnight input =
     (let cs = parseClauses u midnight (trim input) in
      \<lparr>clauses = cs,
       q_words = fold (\<lambda>c out. case c of Word _ v \<Rightarrow> setAdd v out | _ \<Rightarrow> out) cs [],
       q_filenames = fold (\<lambda>c out. case c of Filename _ v _ \<Rightarrow> setAdd v out | _ \<Rightarrow> out) cs []\<rparr>)"

subsection \<open>Matching\<close>

definition filenameMatches :: "unicode \<Rightarrow> string \<Rightarrow> string \<Rightarrow> glob_piece list option \<Rightarrow> bool" where
  "filenameMatches u nm val glob =
     (case glob of Some g \<Rightarrow> globMatch g (foldText u nm) | None \<Rightarrow> includesStr val (foldText u nm))"

definition anyIncludes :: "unicode \<Rightarrow> string list \<Rightarrow> string \<Rightarrow> bool" where
  "anyIncludes u fs v = (\<exists>f\<in>set fs. includesStr v (foldText u f))"

definition senderFields :: "Matchable \<Rightarrow> MatchContext \<Rightarrow> string list" where
  "senderFields m ctx = [ma_senderAddress m, ma_senderDisplay m, mc_nameFor ctx (ma_senderAddress m)]"

definition recipientFields :: "Matchable \<Rightarrow> MatchContext \<Rightarrow> string list" where
  "recipientFields m ctx =
     (let addrs = filter (\<lambda>a. a \<noteq> []) (ma_recipientAddress m # ma_deliveredTo m # ma_to m @ ma_cc m @ ma_bcc m) in
      addrs @ map (mc_nameFor ctx) addrs)"

definition hitIn :: "(string, string list) jsmap \<Rightarrow> string \<Rightarrow> string \<Rightarrow> bool" where
  "hitIn tbl v h = (case map_of tbl v of None \<Rightarrow> False | Some hs \<Rightarrow> h \<in> set hs)"

fun holds :: "unicode \<Rightarrow> Matchable \<Rightarrow> Clause \<Rightarrow> MatchContext \<Rightarrow> Hits option \<Rightarrow> bool" where
  "holds u m (From _ v) ctx hits = anyIncludes u (senderFields m ctx) v"
| "holds u m (To _ v) ctx hits = anyIncludes u (recipientFields m ctx) v"
| "holds u m (Subject _ v) ctx hits = includesStr v (foldText u (ma_subject m))"
| "holds u m (Label _ v) ctx hits = (\<exists>n\<in>set (mc_labelNames ctx (ma_hash m)). foldText u n = v)"
| "holds u m (In _ v) ctx hits = (\<exists>n\<in>set (mc_placeNames ctx (ma_hash m)). foldText u n = v)"
| "holds u m (InObject _) ctx hits = False"
| "holds u m (Has _) ctx hits = (0 < ma_attachmentCount m)"
| "holds u m (Is _ v) ctx hits =
     (if v = IsStarred then mc_isStarred ctx (ma_hash m) else (v = IsRead) = mc_isRead ctx (ma_hash m))"
| "holds u m (Before _ at) ctx hits = (ma_sentAt m < at)"
| "holds u m (After _ at) ctx hits = (at \<le> ma_sentAt m)"
| "holds u m (Filename _ v _) ctx hits = (case hits of None \<Rightarrow> False | Some h \<Rightarrow> hitIn (h_files h) v (ma_hash m))"
| "holds u m (Word _ v) ctx hits =
     (anyIncludes u (senderFields m ctx @ recipientFields m ctx @ [ma_subject m, ma_snippet m]) v
      \<or> (case hits of None \<Rightarrow> False | Some h \<Rightarrow> hitIn (h_words h) v (ma_hash m)))"

definition matches :: "unicode \<Rightarrow> Matchable \<Rightarrow> ParsedQuery \<Rightarrow> MatchContext \<Rightarrow> Hits option \<Rightarrow> bool" where
  "matches u m q ctx hits = (\<forall>c\<in>set (clauses q). holds u m c ctx hits \<noteq> neg c)"

subsection \<open>Writing a query down\<close>

text \<open>The text of a clause, its value quoted, and which clauses such a text can carry.\<close>

definition printField :: "bool \<Rightarrow> string \<Rightarrow> string \<Rightarrow> string" where
  "printField n op v = (if n then ''-'' else []) @ op @ '':'' @ CHR ''\"'' # v @ [CHR ''\"'']"

fun printClause :: "Clause \<Rightarrow> string" where
  "printClause (From n v) = printField n ''from'' v"
| "printClause (To n v) = printField n ''to'' v"
| "printClause (Subject n v) = printField n ''subject'' v"
| "printClause (Label n v) = printField n ''label'' v"
| "printClause (In n v) = printField n ''in'' v"
| "printClause (InObject n) = printField n ''in'' ''constructor''"
| "printClause (Filename n v _) = printField n ''filename'' v"
| "printClause (Has n) = printField n ''has'' ''attachment''"
| "printClause (Is n v) = printField n ''is''
     (case v of IsUnread \<Rightarrow> ''unread'' | IsRead \<Rightarrow> ''read'' | IsStarred \<Rightarrow> ''starred'')"
| "printClause (Before n at) = []"
| "printClause (After n at) = []"
| "printClause (Word n v) = (if n then ''-'' else []) @ CHR ''\"'' # v @ [CHR ''\"'']"

definition plainValue :: "unicode \<Rightarrow> string \<Rightarrow> bool" where
  "plainValue u v \<longleftrightarrow> v \<noteq> [] \<and> CHR ''\"'' \<notin> set v \<and> foldText u (trim v) = v"

fun printable :: "unicode \<Rightarrow> Clause \<Rightarrow> bool" where
  "printable u (In n v) = (plainValue u v \<and> v \<notin> set inherited \<and> map_of IN_ALIASES v = None)"
| "printable u (InObject n) = plainValue u ''constructor''"
| "printable u (Filename n v g) = (plainValue u v \<and> g = globToRegExp v)"
| "printable u (Has n) = plainValue u ''attachment''"
| "printable u (Is n v) = plainValue u (case v of IsUnread \<Rightarrow> ''unread'' | IsRead \<Rightarrow> ''read'' | IsStarred \<Rightarrow> ''starred'')"
| "printable u (Before n at) = False"
| "printable u (After n at) = False"
| "printable u (Word n v) = (v \<noteq> [] \<and> CHR ''\"'' \<notin> set v \<and> foldText u v = v)"
| "printable u (From n v) = plainValue u v"
| "printable u (To n v) = plainValue u v"
| "printable u (Subject n v) = plainValue u v"
| "printable u (Label n v) = plainValue u v"

definition printQuery :: "Clause list \<Rightarrow> string" where
  "printQuery cs = joinWith '' '' (map printClause cs)"

lemma readQueryValue_quoted:
  "CHR ''\"'' \<notin> set v \<Longrightarrow> readQueryValue (CHR ''\"'' # v @ CHR ''\"'' # rest) = (v, rest)"
proof -
  assume "CHR ''\"'' \<notin> set v"
  then have "takeWhile (\<lambda>c. c \<noteq> CHR ''\"'') (v @ CHR ''\"'' # rest) = v"
      "dropWhile (\<lambda>c. c \<noteq> CHR ''\"'') (v @ CHR ''\"'' # rest) = CHR ''\"'' # rest"
    by (induction v) auto
  then show ?thesis by (simp add: readQueryValue_def)
qed

lemma field_op_shape: "op \<in> set FIELD_OPS \<Longrightarrow> op \<noteq> [] \<and> (\<forall>c\<in>set op. is_alpha c) \<and> toLowerCase op = op \<and> hd op \<noteq> CHR ''-''"
  unfolding FIELD_OPS_def by (simp, elim disjE) (simp_all add: is_alpha_def toLowerCase_def char_lower_def)

lemma special_not_space: "\<not> is_space (CHR ''\"'')" "\<not> is_space (CHR ''-'')" "\<not> is_alpha (CHR '':'')" "\<not> is_alpha (CHR ''\"'')"
  by (simp_all add: is_space_def is_alpha_def)

lemma is_alpha_not_space: "is_alpha c \<Longrightarrow> \<not> is_space c"
  by (auto simp: is_alpha_def is_space_def Let_def)

lemma atSpace_Cons [simp]: "atSpace (c # r) = is_space c"
  by (simp add: atSpace_def)

lemma parseOne_field:
  assumes "op \<in> set FIELD_OPS" "CHR ''\"'' \<notin> set v" "operator u midnight op v n = Some c"
  shows "parseOne u midnight (printField n op v @ rest) = (Some c, rest)"
proof -
  note sh = field_op_shape [OF assms(1)]
  let ?t = "op @ CHR '':'' # CHR ''\"'' # v @ CHR ''\"'' # rest"
  have hd: "hd ?t \<noteq> CHR ''-''" "\<not> atSpace ?t" using sh is_alpha_not_space by (cases op; auto)+
  have t: "takeWhile is_alpha ?t = op" "dropWhile is_alpha ?t = CHR '':'' # CHR ''\"'' # v @ CHR ''\"'' # rest"
    using sh special_not_space by (simp_all add: takeWhile_append dropWhile_append)
  have q: "readQueryValue (CHR ''\"'' # v @ CHR ''\"'' # rest) = (v, rest)" by (rule readQueryValue_quoted [OF assms(2)])
  show ?thesis using sh hd t assms(1,3) special_not_space q by (cases n) (simp_all add: parseOne_def Let_def printField_def)
qed

lemma parseOne_word:
  assumes "v \<noteq> []" "CHR ''\"'' \<notin> set v" "foldText u v = v"
  shows "parseOne u midnight (printClause (Word n v) @ rest) = (Some (Word n v), rest)"
  using readQueryValue_quoted [OF assms(2), of rest] assms(1,3) special_not_space
  by (cases n) (simp_all add: parseOne_def Let_def wordClause_def)

lemma parseOne_printClause:
  assumes "printable u c"
  shows "parseOne u midnight (printClause c @ rest) = (Some c, rest)"
proof (cases c)
  case (Word n v)
  then show ?thesis using parseOne_word assms by (simp del: printClause.simps)
next
  case (Is n v)
  then show ?thesis using assms
    by (cases v) (auto intro!: parseOne_field simp: plainValue_def operator_def FIELD_OPS_def)
next
  case (In n v)
  then show ?thesis using assms by (auto intro!: parseOne_field simp: plainValue_def operator_def FIELD_OPS_def)
next
  case (InObject n)
  then show ?thesis using assms by (auto intro!: parseOne_field simp: plainValue_def operator_def FIELD_OPS_def inherited_def)
qed (use assms in \<open>auto intro!: parseOne_field simp: plainValue_def operator_def FIELD_OPS_def\<close>)

lemma printClause_ends:
  assumes "printable u c"
  shows "\<exists>h t. printClause c = h # t \<and> \<not> is_space h" "\<exists>t. printClause c = t @ [CHR ''\"'']"
  using assms by (cases c; auto simp: printField_def special_not_space is_space_def)+

lemma parseClauses_print:
  assumes "\<forall>c\<in>set cs. printable u c"
  shows "parseClauses u midnight (printQuery cs) = cs \<and> parseClauses u midnight (CHR '' '' # printQuery cs) = cs"
  using assms
proof (induction cs)
  case Nil
  then show ?case by (simp add: printQuery_def parseClauses.simps is_space_def)
next
  case (Cons c cs)
  obtain h t where h: "printClause c = h # t" "\<not> is_space h" using printClause_ends(1) [of u c] Cons.prems by auto
  obtain rest where rest: "printQuery (c # cs) = printClause c @ rest" "rest = [] \<and> cs = [] \<or> rest = CHR '' '' # printQuery cs"
    by (cases cs) (auto simp: printQuery_def)
  have "parseClauses u midnight rest = cs"
    using rest(2) Cons by (auto simp: parseClauses.simps [of u midnight "[]"])
  moreover have "parseOne u midnight (printClause c @ rest) = (Some c, rest)" using parseOne_printClause Cons.prems by simp
  ultimately show ?case using h rest(1)
    by (simp add: parseClauses.simps [of u midnight "h # t @ rest"] parseClauses.simps [of u midnight "CHR '' '' # h # t @ rest"] is_space_def [of "CHR '' ''"])
qed

lemma trim_outer: "\<not> is_space h \<Longrightarrow> \<not> is_space l \<Longrightarrow> h # t = s @ [l] \<Longrightarrow> trim (h # t) = h # t"
proof -
  assume a: "\<not> is_space h" "\<not> is_space l" "h # t = s @ [l]"
  have "dropWhile is_space (h # t) = h # t" "dropWhile is_space (rev (s @ [l])) = rev (s @ [l])" using a(1,2) by simp_all
  then show ?thesis using a(3) by (simp only: trim_def rev_rev_ident)
qed

lemma trim_printQuery:
  assumes "\<forall>c\<in>set cs. printable u c"
  shows "trim (printQuery cs) = printQuery cs"
proof (cases cs)
  case Nil
  then show ?thesis by (simp add: printQuery_def trim_def)
next
  case (Cons c cs')
  have e: "\<exists>t. printQuery cs = t @ [CHR ''\"'']" if "cs \<noteq> []" "\<forall>c\<in>set cs. printable u c" for cs
    using that
  proof (induction cs rule: induct_list012)
    case (2 x)
    then show ?case using printClause_ends(2) [of u x] by (simp add: printQuery_def)
  next
    case (3 x y ys)
    then obtain t where "printQuery (y # ys) = t @ [CHR ''\"'']" by auto
    then show ?case by (auto simp: printQuery_def)
  qed simp
  obtain h t where "printClause c = h # t" "\<not> is_space h" using printClause_ends(1) [of u c] assms Cons by auto
  then obtain t' where "printQuery cs = h # t'" using Cons by (cases cs') (auto simp: printQuery_def)
  then show ?thesis using e [of cs] assms Cons \<open>\<not> is_space h\<close> special_not_space(1) trim_outer by (metis list.distinct(1))
qed

subsection \<open>Properties\<close>

lemma fold_setAdd_set: "set (fold (\<lambda>c out. case f c of None \<Rightarrow> out | Some v \<Rightarrow> setAdd v out) cs acc) = set acc \<union> {v. \<exists>c\<in>set cs. f c = Some v}"
  by (induction cs arbitrary: acc) (auto simp: setAdd_def split: option.splits)

lemma parseQuery_words: "set (q_words (parseQuery u midnight s)) = {v. \<exists>n. Word n v \<in> set (clauses (parseQuery u midnight s))}"
proof -
  let ?f = "\<lambda>c. case c of Word _ v \<Rightarrow> Some v | _ \<Rightarrow> None"
  have "(\<lambda>c out. case c of Word _ v \<Rightarrow> setAdd v out | _ \<Rightarrow> out) = (\<lambda>c out. case ?f c of None \<Rightarrow> out | Some v \<Rightarrow> setAdd v out)"
    by (auto simp: fun_eq_iff split: Clause.splits)
  then have "set (q_words (parseQuery u midnight s)) = {v. \<exists>c\<in>set (clauses (parseQuery u midnight s)). ?f c = Some v}"
    using fold_setAdd_set [of ?f "parseClauses u midnight (trim s)" "[]"] by (simp add: parseQuery_def Let_def)
  moreover have "?f c = Some v \<longleftrightarrow> (\<exists>n. c = Word n v)" for c v by (cases c) auto
  ultimately show ?thesis by auto
qed


text \<open>The tables of a platform that folds ASCII case and knows no accents.\<close>

definition demo_unicode :: unicode where
  "demo_unicode =
     \<lparr>u_nfkd = id, u_nfc = id, u_lower = toLowerCase, u_mark = (\<lambda>_. False), u_word_char = (\<lambda>c. is_alpha c \<or> is_digit c),
      u_ideographic = (\<lambda>_. False), u_segments = None\<rparr>"


text \<open>
  A folder called \<open>constructor\<close> is never found by \<open>in:constructor\<close>: the alias table is a plain object and
  answers with what it inherits, which equals no folder name.
\<close>

lemma folder_named_constructor_not_found:
  assumes "foldText u ''constructor'' = ''constructor''"
  shows "clauses (parseQuery u midnight ''in:constructor'') = [InObject False]
       \<and> \<not> matches u m (parseQuery u midnight ''in:constructor'') ctx hits"
proof -
  have sp: "\<not> is_space CHR ''i''" "is_alpha CHR ''i''" "is_alpha CHR ''n''" by (simp_all add: is_space_def is_alpha_def)
  have nsp: "\<forall>c\<in>set ''constructor''. \<not> is_space c" by (simp add: is_space_def)
  then have tr: "trim ''constructor'' = ''constructor''" "trim ''in:constructor'' = ''in:constructor''"
    by (simp_all add: trim_def is_space_def)
  have rv: "readQueryValue ''constructor'' = (''constructor'', [])" using nsp by (simp add: readQueryValue_def)
  have op: "operator u midnight ''in'' ''constructor'' False = Some (InObject False)"
    using assms tr by (simp add: operator_def inherited_def)
  have "parseOne u midnight ''in:constructor'' = (Some (InObject False), [])"
    using sp rv op special_not_space nsp by (simp add: parseOne_def Let_def FIELD_OPS_def toLowerCase_def char_lower_def)
  then have "parseClauses u midnight ''in:constructor'' = [InObject False]"
    using sp by (simp add: parseClauses.simps [of u midnight "''in:constructor''"] parseClauses.simps [of u midnight "[]"])
  then show ?thesis using tr by (simp add: parseQuery_def Let_def matches_def)
qed

end
