(* ===== verification/Device_Seal.thy ===== *)
theory Device_Seal
  imports Seal
begin

section \<open>Caches sealed on the device\<close>

text \<open>
  \<open>lib/crypto/deviceSeal.ts\<close> and what it and its clients use of \<open>lib/crypto/idb.ts\<close>. A store of the device
  database is an association list from slots to what is stored there; a write transaction takes effect
  whole or, when it aborts, not at all. The initialisation vectors of a call's seals are a function of the
  slot.
\<close>

record Sealed =
  sd_iv :: bytes
  sd_ct :: bytes

datatype cache_value = SealedV Sealed | MetaV nat Sealed

type_synonym cache_db = "(string, cache_value) jsmap"

definition deriveDeviceKey :: "(bytes \<Rightarrow> bytes \<Rightarrow> bytes) \<Rightarrow> string \<Rightarrow> string \<Rightarrow> bytes" where
  "deriveDeviceKey derive address purpose = derive (utf8 (''dmcn-'' @ purpose @ ''-v1'')) (utf8 (norm address))"

definition dsSeal :: "webcrypto \<Rightarrow> bytes \<Rightarrow> bytes \<Rightarrow> string \<Rightarrow> bytes \<Rightarrow> Sealed" where
  "dsSeal cr key iv slot plain = \<lparr>sd_iv = iv, sd_ct = gcm_encrypt cr key iv (Some (utf8 slot)) plain\<rparr>"

definition dsUnseal :: "webcrypto \<Rightarrow> bytes \<Rightarrow> string \<Rightarrow> Sealed \<Rightarrow> bytes option" where
  "dsUnseal cr key slot sd = gcm_decrypt cr key (sd_iv sd) (Some (utf8 slot)) (sd_ct sd)"

definition idbPutMany :: "(string \<times> cache_value) list \<Rightarrow> string list \<Rightarrow> cache_db \<Rightarrow> cache_db" where
  "idbPutMany puts deletes db = fold AList.delete deletes (fold (\<lambda>(k, v). AList.update k v) puts db)"

definition idbDeletePrefix :: "string \<Rightarrow> cache_db \<Rightarrow> cache_db" where
  "idbDeletePrefix prefix' db = filter (\<lambda>(k, _). \<not> startsWith prefix' k) db"

definition CHECK :: bytes where
  "CHECK = utf8 ''dmcn-device-seal''"

definition keepIfOpens :: "webcrypto \<Rightarrow> bytes \<Rightarrow> bytes \<Rightarrow> nat \<Rightarrow> string \<Rightarrow> cache_db \<Rightarrow> cache_db \<times> bool" where
  "keepIfOpens cr key iv version prefix' db =
     (case map_of db (prefix' @ ''meta'') of
        Some (MetaV v check) \<Rightarrow>
          if v = version \<and> dsUnseal cr key (prefix' @ ''meta'') check \<noteq> None then (db, True)
          else (idbPutMany [(prefix' @ ''meta'', MetaV version (dsSeal cr key iv (prefix' @ ''meta'') CHECK))] []
                  (idbDeletePrefix prefix' db), False)
      | _ \<Rightarrow> (idbPutMany [(prefix' @ ''meta'', MetaV version (dsSeal cr key iv (prefix' @ ''meta'') CHECK))] []
                  (idbDeletePrefix prefix' db), False))"

definition iv_ok :: "(string \<Rightarrow> bytes) \<Rightarrow> bool" where
  "iv_ok ivf \<longleftrightarrow> (\<forall>slot. length (ivf slot) = 12)"

subsection \<open>Transactions\<close>

lemma map_of_puts: "map_of (fold (\<lambda>(k, v). AList.update k v) ps m) = map_of m ++ map_of (rev ps)"
  by (induction ps arbitrary: m) (auto simp: update_conv' fun_eq_iff map_add_def split: option.splits)

lemma map_of_deletes: "map_of (fold AList.delete ks m) k = (if k \<in> set ks then None else map_of m k)"
  by (induction ks arbitrary: m) (auto simp: delete_conv')

lemma fold_update_fresh:
  "distinct (map fst l) \<Longrightarrow> fst ` set l \<inter> fst ` set acc = {} \<Longrightarrow> fold (\<lambda>(k, v). AList.update k v) l acc = acc @ l"
proof (induction l arbitrary: acc)
  case (Cons e l)
  obtain k v where e: "e = (k, v)" by (cases e)
  have "AList.update k v acc = acc @ [(k, v)]" using Cons.prems(2) e by (induction acc) auto
  then show ?case using Cons e by (auto simp: image_iff)
qed simp

lemma unseal_sealed:
  "gcm_laws cr \<Longrightarrow> length key = 32 \<Longrightarrow> length iv = 12 \<Longrightarrow> dsUnseal cr key slot (dsSeal cr key iv slot p) = Some p"
  by (simp add: dsUnseal_def dsSeal_def gcm_laws_def)

lemma keys_idbPutMany: "fst ` set (idbPutMany ps ds db) \<subseteq> fst ` set db \<union> fst ` set ps"
proof -
  have "fst ` set (fold (\<lambda>(k, v). AList.update k v) ps db) = fst ` set db \<union> fst ` set ps"
    by (induction ps arbitrary: db) (simp_all add: case_prod_unfold dom_update)
  moreover have "fst ` set (fold AList.delete ds m) \<subseteq> fst ` set m" for m :: cache_db
  proof (induction ds arbitrary: m)
    case (Cons d ds)
    show ?case using order_trans [OF Cons.IH [of "AList.delete d m"] dom_delete_subset [of d m]] by simp
  qed simp
  ultimately show ?thesis unfolding idbPutMany_def by metis
qed

lemma distinct_idbPutMany:
  assumes "distinct (map fst db)"
  shows "distinct (map fst (idbPutMany ps ds db))"
proof -
  have "distinct (map fst (fold (\<lambda>(k, v). AList.update k v) ps db))" using assms
    by (induction ps arbitrary: db) (auto simp: distinct_update)
  moreover have "distinct (map fst m) \<Longrightarrow> distinct (map fst (fold AList.delete ds m))" for m :: cache_db
    by (induction ds arbitrary: m) (auto simp: distinct_delete)
  ultimately show ?thesis by (simp add: idbPutMany_def)
qed

lemma idbPutMany_other: "k \<notin> fst ` set ps \<Longrightarrow> k \<notin> set ds \<Longrightarrow> map_of (idbPutMany ps ds db) k = map_of db k"
  by (force simp: idbPutMany_def map_of_deletes map_of_puts map_add_def split: option.splits dest: map_of_SomeD)

subsection \<open>Self-delimiting byte forms\<close>

text \<open>Byte forms of structured values that read back, with which the laws asked of a text form can be met.\<close>

definition putNat :: "nat \<Rightarrow> bytes" where
  "putNat n = replicate n 1 @ [0]"

definition getNat :: "bytes \<Rightarrow> nat \<times> bytes" where
  "getNat b = (length (takeWhile (\<lambda>x. x \<noteq> 0) b), tl (dropWhile (\<lambda>x. x \<noteq> 0) b))"

definition putList :: "('a \<Rightarrow> bytes) \<Rightarrow> 'a list \<Rightarrow> bytes" where
  "putList f xs = putNat (length xs) @ concat (map f xs)"

fun getTimes :: "(bytes \<Rightarrow> 'a \<times> bytes) \<Rightarrow> nat \<Rightarrow> bytes \<Rightarrow> 'a list \<times> bytes" where
  "getTimes g 0 b = ([], b)"
| "getTimes g (Suc n) b = (case g b of (x, r) \<Rightarrow> (case getTimes g n r of (xs, r') \<Rightarrow> (x # xs, r')))"

definition getList :: "(bytes \<Rightarrow> 'a \<times> bytes) \<Rightarrow> bytes \<Rightarrow> 'a list \<times> bytes" where
  "getList g b = (case getNat b of (n, r) \<Rightarrow> getTimes g n r)"

definition putPair :: "('a \<Rightarrow> bytes) \<Rightarrow> ('b \<Rightarrow> bytes) \<Rightarrow> 'a \<times> 'b \<Rightarrow> bytes" where
  "putPair f g p = f (fst p) @ g (snd p)"

definition getPair :: "(bytes \<Rightarrow> 'a \<times> bytes) \<Rightarrow> (bytes \<Rightarrow> 'b \<times> bytes) \<Rightarrow> bytes \<Rightarrow> ('a \<times> 'b) \<times> bytes" where
  "getPair f g b = (case f b of (x, r) \<Rightarrow> (case g r of (y, r') \<Rightarrow> ((x, y), r')))"

definition putStr :: "string \<Rightarrow> bytes" where
  "putStr = putList (\<lambda>c. putNat (of_char c))"

definition getStr :: "bytes \<Rightarrow> string \<times> bytes" where
  "getStr b = (case getList getNat b of (ns, r) \<Rightarrow> (map char_of ns, r))"

lemma getNat_put: "getNat (putNat n @ r) = (n, r)"
proof -
  have "takeWhile (\<lambda>x. x \<noteq> 0) (replicate n (1 :: 8 word) @ 0 # r) = replicate n 1" "dropWhile (\<lambda>x. x \<noteq> 0) (replicate n (1 :: 8 word) @ 0 # r) = 0 # r"
    by (induction n) auto
  then show ?thesis by (simp add: getNat_def putNat_def)
qed

lemma getList_put:
  assumes "\<And>x r. g (f x @ r) = (x, r)"
  shows "getList g (putList f xs @ r) = (xs, r)"
proof -
  have "getTimes g (length xs) (concat (map f xs) @ r) = (xs, r)" by (induction xs) (simp_all add: assms)
  then show ?thesis by (simp add: getList_def putList_def getNat_put)
qed

lemma getPair_put: "(\<And>x r. f' (f x @ r) = (x, r)) \<Longrightarrow> (\<And>x r. g' (g x @ r) = (x, r)) \<Longrightarrow> getPair f' g' (putPair f g p @ r) = (p, r)"
  by (simp add: getPair_def putPair_def)

lemma getStr_put: "getStr (putStr s @ r) = (s, r)"
proof -
  have "putStr s = putList putNat (map of_char s)" by (simp add: putStr_def putList_def comp_def)
  then show ?thesis using getList_put [of getNat putNat "map of_char s" r] getNat_put by (simp add: getStr_def comp_def)
qed

definition putOpt :: "('a \<Rightarrow> bytes) \<Rightarrow> 'a option \<Rightarrow> bytes" where
  "putOpt f x = (case x of None \<Rightarrow> [0] | Some y \<Rightarrow> 1 # f y)"

definition getOpt :: "(bytes \<Rightarrow> 'a \<times> bytes) \<Rightarrow> bytes \<Rightarrow> 'a option \<times> bytes" where
  "getOpt g b = (if b = [] \<or> hd b = 0 then (None, tl b) else (case g (tl b) of (x, r) \<Rightarrow> (Some x, r)))"

lemma getOpt_put: "(\<And>x r. g (f x @ r) = (x, r)) \<Longrightarrow> getOpt g (putOpt f x @ r) = (x, r)"
  by (cases x) (simp_all add: getOpt_def putOpt_def)

lemmas get_put = getNat_put getStr_put getList_put getPair_put getOpt_put

end
