(* ===== verification/Search_Index.thy ===== *)
theory Search_Index
  imports Query Device_Seal
begin

section \<open>The on-device search index\<close>

text \<open>
  \<open>lib/search/indexStore.ts\<close>: the index of an account's mail, sealed in
  the device database. The database is an association list from slots to what is stored there; a write
  transaction takes effect whole or, when it aborts, not at all, which is an argument of the operations
  that write. The initialisation vectors of a call's seals are a function of the slot. The mutations run
  one at a time, as \<open>run\<close> arranges in the source; a search runs between two of them. The JSON text of
  the two documents is a parameter.
\<close>

subsection \<open>State\<close>

definition VERSION :: nat where
  "VERSION = 1"

definition CACHE_BUDGET :: nat where
  "CACHE_BUDGET = 16 * 1024 * 1024"

record ManifestJSON =
  mf_v :: nat
  mf_next :: nat
  mf_docs :: "(string \<times> nat) list"
  mf_shards :: "string list"
  mf_orphans :: nat

record search_env =
  se_crypto :: webcrypto
  se_unicode :: unicode
  manifestText :: "ManifestJSON \<Rightarrow> bytes"
  manifestParse :: "bytes \<Rightarrow> ManifestJSON option"
  filesText :: "(nat \<times> string list) list \<Rightarrow> bytes"
  filesParse :: "bytes \<Rightarrow> (nat \<times> string list) list option"

record SearchIndex =
  si_ns :: string
  si_key :: bytes
  si_next :: nat
  si_docs :: "(string, nat) jsmap"
  si_byDoc :: "(nat, string) jsmap"
  si_shardIds :: "string list"
  si_orphans :: nat
  si_cache :: "(string, Shard \<times> nat) jsmap"
  si_dirty :: "string list"
  si_files :: "(nat, string list) jsmap option"
  si_filesDirty :: bool
  si_manifestDirty :: bool

datatype search_error = Unopenable | BadShard shard_error | BadText | TxAborted

type_synonym srch = "cache_db \<times> SearchIndex"

definition nsOf :: "string \<Rightarrow> string" where
  "nsOf address = norm address @ ''::''"

definition forgetSearchIndex :: "string \<Rightarrow> cache_db \<Rightarrow> cache_db" where
  "forgetSearchIndex address db = idbDeletePrefix (nsOf address) db"

definition deriveSearchKey :: "(bytes \<Rightarrow> bytes \<Rightarrow> bytes) \<Rightarrow> string \<Rightarrow> bytes" where
  "deriveSearchKey derive address = deriveDeviceKey derive address ''search''"

definition newIndex :: "string \<Rightarrow> bytes \<Rightarrow> SearchIndex" where
  "newIndex address key =
     \<lparr>si_ns = nsOf address, si_key = key, si_next = 0, si_docs = [], si_byDoc = [], si_shardIds = [], si_orphans = 0,
      si_cache = [], si_dirty = [], si_files = None, si_filesDirty = False, si_manifestDirty = False\<rparr>"

definition slotOf :: "SearchIndex \<Rightarrow> string \<Rightarrow> string" where
  "slotOf idx slot = si_ns idx @ slot"

definition siSeal :: "search_env \<Rightarrow> (string \<Rightarrow> bytes) \<Rightarrow> SearchIndex \<Rightarrow> string \<Rightarrow> bytes \<Rightarrow> string \<times> cache_value" where
  "siSeal env ivf idx slot plain =
     (slotOf idx slot, SealedV (dsSeal (se_crypto env) (si_key idx) (ivf slot) (slotOf idx slot) plain))"

text \<open>\<open>idbGet\<close> and \<open>open\<close> of one slot: nothing stored, unopenable, or the plaintext.\<close>

definition siRead :: "search_env \<Rightarrow> srch \<Rightarrow> string \<Rightarrow> search_error + bytes option" where
  "siRead env s slot =
     (case map_of (fst s) (slotOf (snd s) slot) of
        None \<Rightarrow> Inr None
      | Some (SealedV sd) \<Rightarrow>
          (case dsUnseal (se_crypto env) (si_key (snd s)) (slotOf (snd s) slot) sd of None \<Rightarrow> Inl Unopenable | Some p \<Rightarrow> Inr (Some p))
      | Some (MetaV _ _) \<Rightarrow> Inl Unopenable)"

definition loadManifest :: "search_env \<Rightarrow> srch \<Rightarrow> srch \<times> search_error option" where
  "loadManifest env s =
     (case s of (db, idx) \<Rightarrow>
        (let blank = idx\<lparr>si_docs := [], si_byDoc := [], si_shardIds := [], si_next := 0, si_orphans := 0\<rparr> in
         case siRead env s ''manifest'' of
           Inl e \<Rightarrow> ((db, blank), Some e)
         | Inr None \<Rightarrow> ((db, blank), None)
         | Inr (Some p) \<Rightarrow>
             (case manifestParse env p of
                None \<Rightarrow> ((db, blank), Some BadText)
              | Some m \<Rightarrow>
                  ((db, blank\<lparr>si_next := mf_next m, si_orphans := mf_orphans m,
                      si_docs := fold (\<lambda>(h, d). AList.update h d) (mf_docs m) [],
                      si_byDoc := fold (\<lambda>(h, d). AList.update d h) (mf_docs m) [],
                      si_shardIds := fold setAdd (mf_shards m) []\<rparr>), None))))"

definition openIndex :: "search_env \<Rightarrow> bytes \<Rightarrow> string \<Rightarrow> bytes \<Rightarrow> cache_db \<Rightarrow> srch \<times> search_error option" where
  "openIndex env iv address key db =
     (let idx = newIndex address key in
      case keepIfOpens (se_crypto env) key iv VERSION (si_ns idx) db of
        (db', True) \<Rightarrow> loadManifest env (db', idx)
      | (db', False) \<Rightarrow> ((db', idx), None))"

definition resetIndex :: "search_env \<Rightarrow> bytes \<Rightarrow> srch \<Rightarrow> srch" where
  "resetIndex env iv s =
     (case s of (db, idx) \<Rightarrow>
        (fst (keepIfOpens (se_crypto env) (si_key idx) iv VERSION (si_ns idx) (idbDeletePrefix (si_ns idx) db)),
         idx\<lparr>si_next := 0, si_docs := [], si_byDoc := [], si_shardIds := [], si_orphans := 0, si_cache := [], si_dirty := [],
             si_files := Some [], si_filesDirty := False, si_manifestDirty := False\<rparr>))"

definition reloadIndex :: "search_env \<Rightarrow> srch \<Rightarrow> srch \<times> search_error option" where
  "reloadIndex env s = loadManifest env (fst s, (snd s)\<lparr>si_cache := [], si_files := None\<rparr>)"

definition hasHash :: "SearchIndex \<Rightarrow> string \<Rightarrow> bool" where
  "hasHash idx hash = (map_of (si_docs idx) hash \<noteq> None)"

definition hashes :: "SearchIndex \<Rightarrow> string list" where
  "hashes idx = map fst (si_docs idx)"

subsection \<open>Shards and file names, loaded on demand\<close>

definition getShard :: "search_env \<Rightarrow> string \<Rightarrow> srch \<Rightarrow> srch \<times> (search_error + Shard)" where
  "getShard env id' s =
     (case s of (db, idx) \<Rightarrow>
        (case map_of (si_cache idx) id' of
           Some hit \<Rightarrow> ((db, idx\<lparr>si_cache := AList.update id' hit (AList.delete id' (si_cache idx))\<rparr>), Inr (fst hit))
         | None \<Rightarrow>
             (case (if id' \<in> set (si_shardIds idx) then siRead env s (''s/'' @ id') else Inr None) of
                Inl e \<Rightarrow> (s, Inl e)
              | Inr None \<Rightarrow> ((db, idx\<lparr>si_cache := AList.update id' ([], 0) (si_cache idx)\<rparr>), Inr [])
              | Inr (Some plain) \<Rightarrow>
                  (case decodeShard plain of
                     Inl e \<Rightarrow> (s, Inl (BadShard e))
                   | Inr sh \<Rightarrow> ((db, idx\<lparr>si_cache := AList.update id' (sh, length plain) (si_cache idx)\<rparr>), Inr sh)))))"

fun getShards :: "search_env \<Rightarrow> string list \<Rightarrow> srch \<Rightarrow> srch \<times> search_error option" where
  "getShards env [] s = (s, None)"
| "getShards env (id' # ids) s =
     (case getShard env id' s of
        (s', Inl e) \<Rightarrow> (s', Some e)
      | (s', Inr _) \<Rightarrow> getShards env ids s')"

definition loadFiles :: "search_env \<Rightarrow> srch \<Rightarrow> srch \<times> (search_error + (nat, string list) jsmap)" where
  "loadFiles env s =
     (case s of (db, idx) \<Rightarrow>
        (case si_files idx of
           Some files \<Rightarrow> (s, Inr files)
         | None \<Rightarrow>
             (case siRead env s ''files'' of
                Inl e \<Rightarrow> (s, Inl e)
              | Inr None \<Rightarrow> ((db, idx\<lparr>si_files := Some []\<rparr>), Inr [])
              | Inr (Some p) \<Rightarrow>
                  (case filesParse env p of
                     None \<Rightarrow> (s, Inl BadText)
                   | Some l \<Rightarrow>
                       (let files = fold (\<lambda>(d, ns). AList.update d ns) l [] in
                        ((db, idx\<lparr>si_files := Some files\<rparr>), Inr files))))))"

subsection \<open>Mutations\<close>

text \<open>One group of a message's tokens: the postings go into the cached shard, in place.\<close>

definition addGroup :: "nat \<Rightarrow> string \<times> string list \<Rightarrow> SearchIndex \<Rightarrow> SearchIndex" where
  "addGroup doc g idx =
     (case g of (id', tokens) \<Rightarrow>
        idx\<lparr>si_cache := (case map_of (si_cache idx) id' of
                            Some (sh, n) \<Rightarrow> AList.update id' (fold (\<lambda>t. addPosting t doc) tokens sh, n) (si_cache idx)
                          | None \<Rightarrow> si_cache idx),
            si_shardIds := setAdd id' (si_shardIds idx), si_dirty := setAdd id' (si_dirty idx)\<rparr>)"

definition addMessage :: "search_env \<Rightarrow> string \<Rightarrow> string \<Rightarrow> string list \<Rightarrow> srch \<Rightarrow> srch \<times> search_error option" where
  "addMessage env hash text filenames s =
     (if hasHash (snd s) hash then (s, None)
      else
        (let groups = byShard (tokenize (se_unicode env) text) in
         case getShards env (map fst groups) s of
           (s', Some e) \<Rightarrow> (s', Some e)
         | ((db, idx), None) \<Rightarrow>
             (let doc = si_next idx;
                  idx1 = fold (addGroup doc) groups (idx\<lparr>si_next := doc + 1\<rparr>);
                  names = filter (\<lambda>n. n \<noteq> []) filenames;
                  fin = (\<lambda>ix. ix\<lparr>si_docs := AList.update hash doc (si_docs ix), si_byDoc := AList.update doc hash (si_byDoc ix),
                                 si_manifestDirty := True\<rparr>) in
              if names = [] then ((db, fin idx1), None)
              else (case loadFiles env (db, idx1) of
                      ((db', idx2), Inl e) \<Rightarrow> ((db', idx2), Some e)
                    | ((db', idx2), Inr files) \<Rightarrow>
                        ((db', fin (idx2\<lparr>si_files := Some (AList.update doc names files), si_filesDirty := True\<rparr>)), None)))))"

definition removeOne :: "search_env \<Rightarrow> string \<Rightarrow> srch \<Rightarrow> srch \<times> search_error option" where
  "removeOne env hash s =
     (case s of (db, idx) \<Rightarrow>
        (case map_of (si_docs idx) hash of
           None \<Rightarrow> (s, None)
         | Some doc \<Rightarrow>
             (case loadFiles env (db, idx\<lparr>si_docs := AList.delete hash (si_docs idx), si_byDoc := AList.delete doc (si_byDoc idx),
                                       si_orphans := si_orphans idx + 1, si_manifestDirty := True\<rparr>) of
                (s', Inl e) \<Rightarrow> (s', Some e)
              | ((db', idx'), Inr files) \<Rightarrow>
                  ((db', idx'\<lparr>si_files := Some (AList.delete doc files),
                              si_filesDirty := (si_filesDirty idx' \<or> map_of files doc \<noteq> None)\<rparr>), None))))"

fun removeMessages :: "search_env \<Rightarrow> string list \<Rightarrow> srch \<Rightarrow> srch \<times> search_error option" where
  "removeMessages env [] s = (s, None)"
| "removeMessages env (h # hs) s =
     (case removeOne env h s of (s', Some e) \<Rightarrow> (s', Some e) | (s', None) \<Rightarrow> removeMessages env hs s')"

definition pending :: "SearchIndex \<Rightarrow> bool" where
  "pending idx \<longleftrightarrow> si_manifestDirty idx \<or> si_filesDirty idx \<or> si_dirty idx \<noteq> []"

definition manifestJSON :: "SearchIndex \<Rightarrow> ManifestJSON" where
  "manifestJSON idx =
     \<lparr>mf_v = VERSION, mf_next = si_next idx, mf_docs = si_docs idx, mf_shards = si_shardIds idx, mf_orphans = si_orphans idx\<rparr>"

text \<open>\<open>evict\<close>: clean shards go, oldest first, until the rest fits the budget.\<close>

fun evictFrom :: "string list \<Rightarrow> nat \<Rightarrow> (string, Shard \<times> nat) jsmap \<Rightarrow> (string, Shard \<times> nat) jsmap" where
  "evictFrom dirty tot [] = []"
| "evictFrom dirty tot ((id', sh, n) # rest) =
     (if tot \<le> CACHE_BUDGET then (id', sh, n) # rest
      else if id' \<in> set dirty then (id', sh, n) # evictFrom dirty tot rest
      else evictFrom dirty (tot - n) rest)"

definition evict :: "SearchIndex \<Rightarrow> SearchIndex" where
  "evict idx = idx\<lparr>si_cache := evictFrom (si_dirty idx) (sum_list (map (\<lambda>(_, _, n). n) (si_cache idx))) (si_cache idx)\<rparr>"

definition resize :: "string list \<Rightarrow> (string, Shard \<times> nat) jsmap \<Rightarrow> (string, Shard \<times> nat) jsmap" where
  "resize dirty cache = map (\<lambda>(id', sh, n). (id', sh, if id' \<in> set dirty then length (encodeShard sh) else n)) cache"

definition shardPuts :: "search_env \<Rightarrow> (string \<Rightarrow> bytes) \<Rightarrow> SearchIndex \<Rightarrow> string list \<Rightarrow> (string \<times> cache_value) list" where
  "shardPuts env ivf idx ids =
     List.map_filter (\<lambda>id'. map_option (\<lambda>(sh, _). siSeal env ivf idx (''s/'' @ id') (encodeShard sh)) (map_of (si_cache idx) id')) ids"

definition manifestPut :: "search_env \<Rightarrow> (string \<Rightarrow> bytes) \<Rightarrow> SearchIndex \<Rightarrow> string \<times> cache_value" where
  "manifestPut env ivf idx = siSeal env ivf idx ''manifest'' (manifestText env (manifestJSON idx))"

definition flushNow :: "search_env \<Rightarrow> (string \<Rightarrow> bytes) \<Rightarrow> bool \<Rightarrow> srch \<Rightarrow> srch \<times> search_error option" where
  "flushNow env ivf commits s =
     (case s of (db, idx) \<Rightarrow>
        if \<not> pending idx then (s, None)
        else
          (let puts = shardPuts env ivf idx (si_dirty idx)
                 @ (case (si_filesDirty idx, si_files idx) of
                      (True, Some files) \<Rightarrow> [siSeal env ivf idx ''files'' (filesText env files)] | _ \<Rightarrow> [])
                 @ [manifestPut env ivf idx];
               idx' = idx\<lparr>si_cache := resize (si_dirty idx) (si_cache idx)\<rparr> in
           if \<not> commits then ((db, idx'), Some TxAborted)
           else ((idbPutMany puts [] db,
                  evict (idx'\<lparr>si_dirty := [], si_filesDirty := False, si_manifestDirty := False\<rparr>)), None)))"

definition wantsCompaction :: "SearchIndex \<Rightarrow> bool" where
  "wantsCompaction idx \<longleftrightarrow> 500 < si_orphans idx \<and> length (si_docs idx) < 4 * si_orphans idx"

definition cachedBytes :: "SearchIndex \<Rightarrow> string \<Rightarrow> nat" where
  "cachedBytes idx id' = (case map_of (si_cache idx) id' of Some (_, n) \<Rightarrow> n | None \<Rightarrow> 0)"

text \<open>
  One shard of a compaction batch: the swept shard replaces the cached one, and the batch's writes and
  deletions grow. An emptied shard leaves the index.
\<close>

definition compactOne ::
    "search_env \<Rightarrow> (string \<Rightarrow> bytes) \<Rightarrow> string \<Rightarrow> srch \<times> (string \<times> cache_value) list \<times> string list \<Rightarrow>
     (srch \<times> (string \<times> cache_value) list \<times> string list) \<times> search_error option" where
  "compactOne env ivf id' st =
     (case st of (s, puts, deletes) \<Rightarrow>
        (case getShard env id' s of
           (s', Inl e) \<Rightarrow> ((s', puts, deletes), Some e)
         | ((db, idx), Inr sh) \<Rightarrow>
             (case dropDocs (\<lambda>d. map_of (si_byDoc idx) d = None) sh of
                (sh', removed) \<Rightarrow>
                  if removed = 0 then
                    (((db, idx\<lparr>si_cache := AList.update id' (sh', cachedBytes idx id') (si_cache idx)\<rparr>), puts, deletes), None)
                  else if sh' = [] then
                    (((db, idx\<lparr>si_shardIds := remove1 id' (si_shardIds idx), si_cache := AList.delete id' (si_cache idx)\<rparr>),
                      puts, deletes @ [slotOf idx (''s/'' @ id')]), None)
                  else
                    (((db, idx\<lparr>si_cache := AList.update id' (sh', length (encodeShard sh')) (si_cache idx)\<rparr>),
                      puts @ [siSeal env ivf idx (''s/'' @ id') (encodeShard sh')], deletes), None))))"

fun compactBatch ::
    "search_env \<Rightarrow> (string \<Rightarrow> bytes) \<Rightarrow> string list \<Rightarrow> srch \<times> (string \<times> cache_value) list \<times> string list \<Rightarrow>
     (srch \<times> (string \<times> cache_value) list \<times> string list) \<times> search_error option" where
  "compactBatch env ivf [] st = (st, None)"
| "compactBatch env ivf (id' # ids) st =
     (case compactOne env ivf id' st of (st', Some e) \<Rightarrow> (st', Some e) | (st', None) \<Rightarrow> compactBatch env ivf ids st')"

text \<open>The batches of 32 shards, each in a transaction of its own; \<open>commits k\<close> says whether the k-th lands.\<close>

function compactBatches ::
    "search_env \<Rightarrow> (string \<Rightarrow> bytes) \<Rightarrow> (nat \<Rightarrow> bool) \<Rightarrow> nat \<Rightarrow> string list \<Rightarrow> srch \<Rightarrow> srch \<times> search_error option" where
  "compactBatches env ivf commits k ids s =
     (if ids = [] then (s, None)
      else
        (case compactBatch env ivf (take 32 ids) (s, [], []) of
           ((s', _, _), Some e) \<Rightarrow> (s', Some e)
         | (((db, idx), puts, deletes), None) \<Rightarrow>
             if puts = [] \<and> deletes = [] then compactBatches env ivf commits (k + 1) (drop 32 ids) (db, evict idx)
             else if \<not> commits k then ((db, idx), Some TxAborted)
             else compactBatches env ivf commits (k + 1) (drop 32 ids) (idbPutMany puts deletes db, evict idx)))"
  by pat_completeness auto
termination
  by (relation "measure (\<lambda>(env, ivf, commits, k, ids, s). length ids)") auto

declare compactBatches.simps [simp del]

definition compact :: "search_env \<Rightarrow> (string \<Rightarrow> bytes) \<Rightarrow> (nat \<Rightarrow> bool) \<Rightarrow> srch \<Rightarrow> srch \<times> search_error option" where
  "compact env ivf commits s =
     (case flushNow env ivf (commits 0) s of
        (s1, Some e) \<Rightarrow> (s1, Some e)
      | (s1, None) \<Rightarrow>
          (case compactBatches env ivf commits 2 (si_shardIds (snd s1)) s1 of
             (s2, Some e) \<Rightarrow> (s2, Some e)
           | ((db, idx), None) \<Rightarrow>
               (let idx' = idx\<lparr>si_orphans := 0\<rparr> in
                if \<not> commits 1 then ((db, idx'), Some TxAborted)
                else ((idbPutMany [manifestPut env ivf idx'] [] db, idx'), None))))"

subsection \<open>Searching\<close>

fun foundIn :: "search_env \<Rightarrow> string \<Rightarrow> string list \<Rightarrow> nat list \<Rightarrow> srch \<Rightarrow> srch \<times> (search_error + nat list)" where
  "foundIn env t [] found s = (s, Inr found)"
| "foundIn env t (id' # ids) found s =
     (if id' \<notin> set (si_shardIds (snd s)) then foundIn env t ids found s
      else (case getShard env id' s of
              (s', Inl e) \<Rightarrow> (s', Inl e)
            | (s', Inr sh) \<Rightarrow> foundIn env t ids (fold setAdd (prefixDocs sh t) found) s'))"

definition shardsFor :: "SearchIndex \<Rightarrow> string \<Rightarrow> string list" where
  "shardsFor idx t = (if 2 \<le> length t then [shardOf t] else filter (startsWith t) (si_shardIds idx))"

fun wordDocs :: "search_env \<Rightarrow> string list \<Rightarrow> nat list option \<Rightarrow> srch \<Rightarrow> srch \<times> (search_error + nat list)" where
  "wordDocs env [] docs s = (s, Inr (case docs of None \<Rightarrow> [] | Some ds \<Rightarrow> ds))"
| "wordDocs env (t # ts) docs s =
     (case foundIn env t (shardsFor (snd s) t) [] s of
        (s', Inl e) \<Rightarrow> (s', Inl e)
      | (s', Inr found) \<Rightarrow>
          (let docs' = (case docs of None \<Rightarrow> found | Some ds \<Rightarrow> filter (\<lambda>d. d \<in> set found) ds) in
           if docs' = [] then (s', Inr []) else wordDocs env ts (Some docs') s'))"

definition toHashes :: "SearchIndex \<Rightarrow> nat list \<Rightarrow> string list" where
  "toHashes idx docs = fold setAdd (List.map_filter (map_of (si_byDoc idx)) docs) []"

definition wordHits :: "search_env \<Rightarrow> string \<Rightarrow> srch \<Rightarrow> srch \<times> (search_error + string list)" where
  "wordHits env query s =
     (let tokens = tokenize (se_unicode env) query in
      if tokens = [] then (s, Inr [])
      else (case wordDocs env tokens None s of
              (s', Inl e) \<Rightarrow> (s', Inl e)
            | (s', Inr docs) \<Rightarrow> (s', Inr (toHashes (snd s') docs))))"

definition filenameHits :: "search_env \<Rightarrow> string \<Rightarrow> glob_piece list option \<Rightarrow> srch \<Rightarrow> srch \<times> (search_error + string list)" where
  "filenameHits env val glob s =
     (case loadFiles env s of
        (s', Inl e) \<Rightarrow> (s', Inl e)
      | (s', Inr files) \<Rightarrow>
          (s', Inr (toHashes (snd s')
             (fold (\<lambda>(doc, names) out. if \<exists>n\<in>set names. filenameMatches (se_unicode env) n val glob then setAdd doc out else out) files []))))"

end
