(* ===== verification/Search_Refinement.thy ===== *)
theory Search_Refinement
  imports Search_Index
begin

section \<open>What the search index holds\<close>

text \<open>
  The sealed, sharded, cached index implements a map from message hashes to the message's words and
  attachment names. \<open>contents\<close> is that map, read off the state; \<open>index_ok\<close> is the invariant under which
  every operation succeeds (up to aborted transactions) and changes \<open>contents\<close> as its name says. The
  number \<open>k\<close> in the invariant is how many more messages fit before a document number or a shard would
  leave the range the byte form can carry.
\<close>

definition storedShard :: "search_env \<Rightarrow> srch \<Rightarrow> string \<Rightarrow> Shard" where
  "storedShard env s id' =
     (case siRead env s (''s/'' @ id') of
        Inr (Some p) \<Rightarrow> (case decodeShard p of Inr sh \<Rightarrow> sh | Inl _ \<Rightarrow> [])
      | _ \<Rightarrow> [])"

definition baseShard :: "search_env \<Rightarrow> srch \<Rightarrow> string \<Rightarrow> Shard" where
  "baseShard env s id' = (if id' \<in> set (si_shardIds (snd s)) then storedShard env s id' else [])"

definition shardAt :: "search_env \<Rightarrow> srch \<Rightarrow> string \<Rightarrow> Shard" where
  "shardAt env s id' = (case map_of (si_cache (snd s)) id' of Some (sh, _) \<Rightarrow> sh | None \<Rightarrow> baseShard env s id')"

definition live :: "srch \<Rightarrow> nat set" where
  "live s = dom (map_of (si_byDoc (snd s)))"

definition readableShard :: "search_env \<Rightarrow> srch \<Rightarrow> string \<Rightarrow> bool" where
  "readableShard env s id' \<longleftrightarrow>
     (\<exists>x. siRead env s (''s/'' @ id') = Inr x \<and> (\<forall>p. x = Some p \<longrightarrow> (\<exists>sh. decodeShard p = Inr sh)))"

definition storedFiles :: "search_env \<Rightarrow> srch \<Rightarrow> (nat, string list) jsmap" where
  "storedFiles env s =
     (case siRead env s ''files'' of
        Inr (Some p) \<Rightarrow> (case filesParse env p of Some l \<Rightarrow> fold (\<lambda>(d, ns). AList.update d ns) l [] | None \<Rightarrow> [])
      | _ \<Rightarrow> [])"

definition filesAt :: "search_env \<Rightarrow> srch \<Rightarrow> (nat, string list) jsmap" where
  "filesAt env s = (case si_files (snd s) of Some f \<Rightarrow> f | None \<Rightarrow> storedFiles env s)"

definition readableFiles :: "search_env \<Rightarrow> srch \<Rightarrow> bool" where
  "readableFiles env s \<longleftrightarrow>
     (\<exists>x. siRead env s ''files'' = Inr x \<and> (\<forall>p. x = Some p \<longrightarrow> filesParse env p \<noteq> None))"

definition namesOf :: "(nat, string list) jsmap \<Rightarrow> nat \<Rightarrow> string list" where
  "namesOf files d = (case map_of files d of None \<Rightarrow> [] | Some ns \<Rightarrow> ns)"

definition contents :: "search_env \<Rightarrow> srch \<Rightarrow> string \<Rightarrow> (string set \<times> string list) option" where
  "contents env s h =
     map_option (\<lambda>d. ({t. d \<in> posts (shardAt env s (shardOf t)) t}, namesOf (filesAt env s) d)) (map_of (si_docs (snd s)) h)"

subsection \<open>The invariant\<close>

definition docs_ok :: "srch \<Rightarrow> bool" where
  "docs_ok s \<longleftrightarrow> distinct (map fst (si_docs (snd s)))
     \<and> (\<forall>h d. map_of (si_docs (snd s)) h = Some d \<longleftrightarrow> map_of (si_byDoc (snd s)) d = Some h)
     \<and> (\<forall>d\<in>live s. d < si_next (snd s))"

definition shardFine :: "nat \<Rightarrow> nat \<Rightarrow> string \<Rightarrow> Shard \<Rightarrow> bool" where
  "shardFine k n id' sh \<longleftrightarrow> shard_wf id' n sh \<and> length sh + k * 2 ^ 20 < 2 ^ 53"

definition shards_ok :: "search_env \<Rightarrow> nat \<Rightarrow> srch \<Rightarrow> bool" where
  "shards_ok env k s \<longleftrightarrow> (\<forall>id'. shardFine k (si_next (snd s)) id' (shardAt env s id'))
     \<and> (\<forall>id'\<in>set (si_shardIds (snd s)) - set (si_dirty (snd s)).
          readableShard env s id' \<and> shardFine k (si_next (snd s)) id' (storedShard env s id'))"

definition cache_ok :: "search_env \<Rightarrow> srch \<Rightarrow> bool" where
  "cache_ok env s \<longleftrightarrow> distinct (map fst (si_cache (snd s))) \<and> distinct (si_shardIds (snd s))
     \<and> set (si_dirty (snd s)) \<subseteq> dom (map_of (si_cache (snd s))) \<inter> set (si_shardIds (snd s))
     \<and> (\<forall>id' t. id' \<notin> set (si_dirty (snd s)) \<longrightarrow>
          posts (shardAt env s id') t \<inter> live s = posts (baseShard env s id') t \<inter> live s)"

definition files_ok :: "search_env \<Rightarrow> srch \<Rightarrow> bool" where
  "files_ok env s \<longleftrightarrow> readableFiles env s
     \<and> (\<forall>d. map_of (filesAt env s) d \<noteq> None \<longrightarrow> d < si_next (snd s))
     \<and> (\<forall>d. map_of (storedFiles env s) d \<noteq> None \<longrightarrow> d < si_next (snd s))
     \<and> distinct (map fst (filesAt env s)) \<and> (si_filesDirty (snd s) \<longrightarrow> si_files (snd s) \<noteq> None)
     \<and> (\<not> si_filesDirty (snd s) \<longrightarrow> (\<forall>d\<in>live s. map_of (filesAt env s) d = map_of (storedFiles env s) d))"

definition index_ok :: "search_env \<Rightarrow> nat \<Rightarrow> srch \<Rightarrow> bool" where
  "index_ok env k s \<longleftrightarrow> docs_ok s \<and> shards_ok env k s \<and> cache_ok env s \<and> files_ok env s
     \<and> si_next (snd s) + k < 2 ^ 32 \<and> length (si_key (snd s)) = 32"

definition search_laws :: "search_env \<Rightarrow> bool" where
  "search_laws env \<longleftrightarrow> gcm_laws (se_crypto env) \<and> (\<forall>m. manifestParse env (manifestText env m) = Some m)
     \<and> (\<forall>l. filesParse env (filesText env l) = Some l)"

lemmas index_parts = index_ok_def docs_ok_def shards_ok_def cache_ok_def files_ok_def

lemma dirty_cached: "index_ok env k s \<Longrightarrow> j \<in> set (si_dirty (snd s)) \<Longrightarrow> map_of (si_cache (snd s)) j \<noteq> None \<and> j \<in> set (si_shardIds (snd s))"
  unfolding index_ok_def cache_ok_def by blast

subsection \<open>Framing\<close>

lemma siRead_cong: "fst s' = fst s \<Longrightarrow> si_ns (snd s') = si_ns (snd s) \<Longrightarrow> si_key (snd s') = si_key (snd s) \<Longrightarrow> siRead env s' slot = siRead env s slot"
  by (simp add: siRead_def slotOf_def cong: option.case_cong cache_value.case_cong)

lemma stored_cong:
  assumes "fst s' = fst s" "si_ns (snd s') = si_ns (snd s)" "si_key (snd s') = si_key (snd s)"
  shows "storedShard env s' = storedShard env s" "storedFiles env s' = storedFiles env s"
    and "readableShard env s' = readableShard env s" "readableFiles env s' = readableFiles env s"
  using siRead_cong [OF assms, of env]
  by (auto simp: storedShard_def storedFiles_def readableShard_def readableFiles_def fun_eq_iff cong: sum.case_cong)

lemma docs_live: "docs_ok s \<Longrightarrow> map_of (si_docs (snd s)) h = Some d \<Longrightarrow> d \<in> live s \<and> d < si_next (snd s)"
  by (auto simp: docs_ok_def live_def)

text \<open>States with the same documents, live postings and file names hold the same contents.\<close>

lemma contents_cong:
  assumes "docs_ok s" "si_docs (snd s') = si_docs (snd s)"
    and "\<And>id' t. posts (shardAt env s' id') t \<inter> live s = posts (shardAt env s id') t \<inter> live s"
    and "\<And>d. d \<in> live s \<Longrightarrow> map_of (filesAt env s') d = map_of (filesAt env s) d"
  shows "contents env s' = contents env s"
proof
  fix h
  show "contents env s' h = contents env s h"
  proof (cases "map_of (si_docs (snd s)) h")
    case None
    then show ?thesis using assms(2) by (simp add: contents_def)
  next
    case (Some d)
    then have d: "d \<in> live s" using docs_live [OF assms(1)] by blast
    then have "d \<in> posts (shardAt env s' id') t \<longleftrightarrow> d \<in> posts (shardAt env s id') t" for id' t using assms(3) by blast
    then show ?thesis using Some d assms(2,4) by (simp add: contents_def namesOf_def)
  qed
qed

text \<open>A change of the cache alone: entries may come and go as long as the dirty ones stay.\<close>

lemma recache:
  assumes ok: "index_ok env k (db, idx)" and s': "s' = (db, idx\<lparr>si_cache := c\<rparr>)" and dc: "distinct (map fst c)"
    and keep: "\<And>j. j \<in> set (si_dirty idx) \<Longrightarrow> map_of c j \<noteq> None"
    and val: "\<And>j sh n. map_of c j = Some (sh, n) \<Longrightarrow> sh = shardAt env (db, idx) j"
  shows "index_ok env k s'" "contents env s' = contents env (db, idx)"
    and "(\<And>j. map_of (si_cache idx) j \<noteq> None \<Longrightarrow> map_of c j \<noteq> None) \<Longrightarrow> shardAt env s' j' = shardAt env (db, idx) j'"
proof -
  let ?s = "(db, idx)"
  have st: "storedShard env s' = storedShard env ?s" "storedFiles env s' = storedFiles env ?s"
      "readableShard env s' = readableShard env ?s" "readableFiles env s' = readableFiles env ?s"
    using stored_cong [of s' ?s env] s' by simp_all
  have base: "baseShard env s' = baseShard env ?s" using s' st(1) by (simp add: baseShard_def fun_eq_iff)
  have fa: "filesAt env s' = filesAt env ?s" using s' st(2) by (simp add: filesAt_def cong: option.case_cong)
  have at: "shardAt env s' j = (if map_of c j = None then baseShard env ?s j else shardAt env ?s j)" for j
    using val [of j] s' base by (auto simp: shardAt_def split: option.splits)
  have basef: "shardFine k (si_next idx) j (baseShard env ?s j)" if "j \<notin> set (si_dirty idx)" for j
  proof (cases "j \<in> set (si_shardIds idx)")
    case False
    have "shardFine k (si_next idx) j (shardAt env ?s j)" using ok by (simp add: index_parts)
    then show ?thesis using False by (auto simp: baseShard_def shardFine_def)
  qed (use ok that in \<open>simp add: index_parts baseShard_def\<close>)
  have lv: "live s' = live ?s" using s' by (simp add: live_def)
  have clean: "posts (shardAt env ?s j) t \<inter> live ?s = posts (baseShard env ?s j) t \<inter> live ?s" if "j \<notin> set (si_dirty idx)" for j t
    using ok that by (simp add: index_parts)
  have same: "posts (shardAt env s' j) t \<inter> live ?s = posts (shardAt env ?s j) t \<inter> live ?s" for j t
    using at [of j] keep [of j] clean [of j t] by (cases "j \<in> set (si_dirty idx)") auto
  show "contents env s' = contents env ?s"
    by (rule contents_cong [OF _ _ same]) (use ok s' fa in \<open>simp_all add: index_ok_def\<close>)
  have "cache_ok env s'"
    using ok s' dc keep same clean base lv unfolding index_ok_def cache_ok_def by auto
  moreover have "shardFine k (si_next idx) j (shardAt env s' j)" for j
  proof (cases "map_of c j = None")
    case True
    then have "j \<notin> set (si_dirty idx)" using keep by blast
    then show ?thesis using at [of j] True basef by simp
  next
    case False
    then have "shardAt env s' j = shardAt env ?s j" by (simp only: at if_False)
    then show ?thesis using ok by (simp add: index_ok_def shards_ok_def)
  qed
  then have "shards_ok env k s'" using ok st s' by (simp add: index_ok_def shards_ok_def)
  ultimately show "index_ok env k s'" using ok s' st lv fa by (simp add: index_ok_def docs_ok_def files_ok_def)
  show "shardAt env s' j' = shardAt env ?s j'" if "\<And>j. map_of (si_cache idx) j \<noteq> None \<Longrightarrow> map_of c j \<noteq> None"
    using at [of j'] that [of j'] by (cases "map_of (si_cache idx) j'") (auto simp: shardAt_def [of env "(db, idx)"] split: if_splits)
qed

subsection \<open>Loading\<close>

text \<open>What loading may change: the cache, which only gains entries and keeps what they stand for.\<close>

definition loaded :: "search_env \<Rightarrow> srch \<Rightarrow> srch \<Rightarrow> bool" where
  "loaded env s s' \<longleftrightarrow> (\<exists>c. s' = (fst s, (snd s)\<lparr>si_cache := c\<rparr>) \<and> distinct (map fst c)
     \<and> (\<forall>j. map_of (si_cache (snd s)) j \<noteq> None \<longrightarrow> map_of c j \<noteq> None)
     \<and> (\<forall>j sh n. map_of c j = Some (sh, n) \<longrightarrow> sh = shardAt env s j))"

lemma loaded_keeps:
  assumes "index_ok env k s" "loaded env s s'"
  shows "index_ok env k s'" "contents env s' = contents env s" "shardAt env s' j = shardAt env s j"
    and "fst s' = fst s" "si_shardIds (snd s') = si_shardIds (snd s)" "si_byDoc (snd s') = si_byDoc (snd s)" "live s' = live s"
    and "si_docs (snd s') = si_docs (snd s)" "si_next (snd s') = si_next (snd s)" "si_dirty (snd s') = si_dirty (snd s)"
proof -
  obtain c where c: "s' = (fst s, (snd s)\<lparr>si_cache := c\<rparr>)" "distinct (map fst c)"
      "\<And>j. map_of (si_cache (snd s)) j \<noteq> None \<Longrightarrow> map_of c j \<noteq> None" "\<And>j sh n. map_of c j = Some (sh, n) \<Longrightarrow> sh = shardAt env s j"
    using assms(2) unfolding loaded_def by blast
  have keep: "j \<in> set (si_dirty (snd s)) \<Longrightarrow> map_of c j \<noteq> None" for j
    using dirty_cached [OF assms(1)] c(3) by blast
  have s: "s = (fst s, snd s)" by simp
  show "index_ok env k s'" "contents env s' = contents env s" "shardAt env s' j = shardAt env s j"
    using recache(1,2) [of env k "fst s" "snd s" s' c] recache(3) [of env k "fst s" "snd s" s' c j] assms(1) c keep by auto
  show "fst s' = fst s" "si_shardIds (snd s') = si_shardIds (snd s)" "si_byDoc (snd s') = si_byDoc (snd s)" "live s' = live s"
    "si_docs (snd s') = si_docs (snd s)" "si_next (snd s') = si_next (snd s)" "si_dirty (snd s') = si_dirty (snd s)"
    using c(1) by (simp_all add: live_def)
qed

lemma loaded_refl: "index_ok env k s \<Longrightarrow> loaded env s s"
  unfolding loaded_def by (rule exI [of _ "si_cache (snd s)"]) (auto simp: index_parts shardAt_def)

lemma loaded_trans:
  assumes "index_ok env k s" "loaded env s s1" "loaded env s1 s2"
  shows "loaded env s s2"
proof -
  obtain c1 where c1: "s1 = (fst s, (snd s)\<lparr>si_cache := c1\<rparr>)" "\<And>j. map_of (si_cache (snd s)) j \<noteq> None \<Longrightarrow> map_of c1 j \<noteq> None"
    using assms(2) unfolding loaded_def by blast
  obtain c2 where c2: "s2 = (fst s1, (snd s1)\<lparr>si_cache := c2\<rparr>)" "distinct (map fst c2)"
      "\<And>j. map_of (si_cache (snd s1)) j \<noteq> None \<Longrightarrow> map_of c2 j \<noteq> None" "\<And>j sh n. map_of c2 j = Some (sh, n) \<Longrightarrow> sh = shardAt env s1 j"
    using assms(3) unfolding loaded_def by blast
  show ?thesis unfolding loaded_def
    by (rule exI [of _ c2]) (use c1 c2 loaded_keeps(3) [OF assms(1,2)] in simp)
qed

lemma getShard_ok:
  assumes "index_ok env k s"
  obtains s' where "getShard env id' s = (s', Inr (shardAt env s id'))" "loaded env s s'" "map_of (si_cache (snd s')) id' \<noteq> None"
proof -
  obtain db idx where s: "s = (db, idx)" by (cases s)
  have dist: "distinct (map fst (si_cache idx))" using assms s by (simp add: index_parts)
  have go: "\<exists>n. getShard env id' s = ((db, idx\<lparr>si_cache := AList.update id' (shardAt env s id', n) c\<rparr>), Inr (shardAt env s id'))
      \<and> (c = si_cache idx \<or> c = AList.delete id' (si_cache idx)) \<Longrightarrow> thesis" for c
  proof -
    assume "\<exists>n. getShard env id' s = ((db, idx\<lparr>si_cache := AList.update id' (shardAt env s id', n) c\<rparr>), Inr (shardAt env s id'))
      \<and> (c = si_cache idx \<or> c = AList.delete id' (si_cache idx))"
    then obtain n where n: "getShard env id' s = ((db, idx\<lparr>si_cache := AList.update id' (shardAt env s id', n) c\<rparr>), Inr (shardAt env s id'))"
      "c = si_cache idx \<or> c = AList.delete id' (si_cache idx)" by blast
    have "loaded env s (db, idx\<lparr>si_cache := AList.update id' (shardAt env s id', n) c\<rparr>)"
      unfolding loaded_def by (rule exI [of _ "AList.update id' (shardAt env s id', n) c"])
        (use s dist n(2) in \<open>auto simp: shardAt_def split: if_splits\<close>)
    then show thesis using that [OF n(1)] by simp
  qed
  show thesis
  proof (cases "map_of (si_cache idx) id'")
    case (Some hit)
    obtain sh n where hit: "hit = (sh, n)" by (cases hit)
    show thesis by (rule go [of "AList.delete id' (si_cache idx)"]) (use s Some hit in \<open>auto simp: getShard_def shardAt_def\<close>)
  next
    case None
    have at: "shardAt env s id' = baseShard env s id'" using None s by (simp add: shardAt_def)
    show thesis
    proof (cases "id' \<in> set (si_shardIds idx)")
      case True
      moreover have "id' \<notin> set (si_dirty idx)" using dirty_cached [OF assms, of id'] None s by auto
      ultimately have "readableShard env s id'" using assms s by (simp add: index_ok_def shards_ok_def)
      then obtain x where x: "siRead env s (''s/'' @ id') = Inr x" "\<And>p. x = Some p \<Longrightarrow> \<exists>sh. decodeShard p = Inr sh"
        unfolding readableShard_def by blast
      show thesis
      proof (cases x)
        case None
        then show thesis by (intro go [of "si_cache idx"])
          (use s x(1) True \<open>map_of (si_cache idx) id' = None\<close> at in \<open>auto simp: getShard_def baseShard_def storedShard_def\<close>)
      next
        case (Some p)
        then obtain sh where "decodeShard p = Inr sh" using x(2) by blast
        then show thesis by (intro go [of "si_cache idx"])
          (use s x(1) Some True \<open>map_of (si_cache idx) id' = None\<close> at in \<open>auto simp: getShard_def baseShard_def storedShard_def\<close>)
      qed
    next
      case False
      show thesis by (rule go [of "si_cache idx"]) (use s None False at in \<open>auto simp: getShard_def baseShard_def\<close>)
    qed
  qed
qed

lemma loaded_cached: "loaded env s s' \<Longrightarrow> map_of (si_cache (snd s)) j \<noteq> None \<Longrightarrow> map_of (si_cache (snd s')) j \<noteq> None"
  by (auto simp: loaded_def)

lemma getShards_ok:
  assumes "index_ok env k s"
  shows "\<exists>s'. getShards env ids s = (s', None) \<and> loaded env s s' \<and> (\<forall>j\<in>set ids. map_of (si_cache (snd s')) j \<noteq> None)"
  using assms
proof (induction ids arbitrary: s)
  case Nil
  then show ?case using loaded_refl by auto
next
  case (Cons j ids)
  obtain s1 where s1: "getShard env j s = (s1, Inr (shardAt env s j))" "loaded env s s1" "map_of (si_cache (snd s1)) j \<noteq> None"
    using getShard_ok [OF Cons.prems] .
  obtain s2 where s2: "getShards env ids s1 = (s2, None)" "loaded env s1 s2" "\<forall>j\<in>set ids. map_of (si_cache (snd s2)) j \<noteq> None"
    using Cons.IH [OF loaded_keeps(1) [OF Cons.prems s1(2)]] by blast
  then show ?case using s1 loaded_trans [OF Cons.prems s1(2) s2(2)] loaded_cached [OF s2(2) s1(3)] by auto
qed

lemma loadFiles_ok:
  assumes "files_ok env s"
  shows "loadFiles env s = ((fst s, (snd s)\<lparr>si_files := Some (filesAt env s)\<rparr>), Inr (filesAt env s))"
proof (cases "si_files (snd s)")
  case None
  obtain x where x: "siRead env s ''files'' = Inr x" "\<And>p. x = Some p \<Longrightarrow> \<exists>l. filesParse env p = Some l"
    using assms unfolding files_ok_def readableFiles_def by blast
  show ?thesis
  proof (cases x)
    case None
    then show ?thesis using x(1) \<open>si_files (snd s) = None\<close> by (cases s) (simp add: loadFiles_def filesAt_def storedFiles_def)
  next
    case (Some p)
    then obtain l where "filesParse env p = Some l" using x(2) by blast
    then show ?thesis using x(1) Some \<open>si_files (snd s) = None\<close>
      by (cases s) (simp add: loadFiles_def filesAt_def storedFiles_def Let_def)
  qed
next
  case (Some f)
  then have "(snd s)\<lparr>si_files := Some f\<rparr> = snd s" by (cases "snd s") simp
  then show ?thesis using Some by (cases s) (simp add: loadFiles_def filesAt_def)
qed

subsection \<open>Searching\<close>

definition wordMatch :: "search_env \<Rightarrow> srch \<Rightarrow> string \<Rightarrow> nat set" where
  "wordMatch env s t = {d \<in> live s. \<exists>t'. startsWith t t' \<and> d \<in> posts (shardAt env s (shardOf t')) t'}"

lemma wordMatch_loaded: "index_ok env k s \<Longrightarrow> loaded env s s' \<Longrightarrow> wordMatch env s' t = wordMatch env s t"
  using loaded_keeps(3,7) by (simp add: wordMatch_def)

lemma shardAt_wf: "index_ok env k s \<Longrightarrow> shard_wf id' (si_next (snd s)) (shardAt env s id')"
  by (simp add: index_parts shardFine_def)

lemma live_post_listed:
  assumes "index_ok env k s" "d \<in> live s" "d \<in> posts (shardAt env s j) t"
  shows "j \<in> set (si_shardIds (snd s))"
proof (cases "j \<in> set (si_dirty (snd s))")
  case True
  then show ?thesis using dirty_cached [OF assms(1)] by blast
next
  case False
  then have "d \<in> posts (baseShard env s j) t" using assms unfolding index_ok_def cache_ok_def by blast
  then show ?thesis by (auto simp: baseShard_def split: if_splits)
qed

lemma foundIn_ok:
  assumes "index_ok env k s"
  shows "\<exists>s' found. foundIn env t ids acc s = (s', Inr found) \<and> loaded env s s' \<and>
     set found = set acc \<union> {d. \<exists>j\<in>set ids. j \<in> set (si_shardIds (snd s)) \<and> (\<exists>t'. startsWith t t' \<and> d \<in> posts (shardAt env s j) t')}"
  using assms
proof (induction ids arbitrary: acc s)
  case Nil
  then show ?case using loaded_refl by auto
next
  case (Cons j ids)
  show ?case
  proof (cases "j \<in> set (si_shardIds (snd s))")
    case False
    then show ?thesis using Cons.IH [OF Cons.prems, of acc] by auto
  next
    case True
    obtain s1 where s1: "getShard env j s = (s1, Inr (shardAt env s j))" "loaded env s s1"
      using getShard_ok [OF Cons.prems] by metis
    note l = loaded_keeps [OF Cons.prems s1(2)]
    have "distinct (map fst (shardAt env s j))" using shardAt_wf [OF Cons.prems] by (auto simp: shard_wf_def)
    then have p: "set (prefixDocs (shardAt env s j) t) = {d. \<exists>t'. startsWith t t' \<and> d \<in> posts (shardAt env s j) t'}" by (rule prefixDocs_set)
    obtain s2 found where s2: "foundIn env t ids (fold setAdd (prefixDocs (shardAt env s j) t) acc) s1 = (s2, Inr found)" "loaded env s1 s2"
      "set found = (set acc \<union> set (prefixDocs (shardAt env s j) t)) \<union>
         {d. \<exists>j\<in>set ids. j \<in> set (si_shardIds (snd s)) \<and> (\<exists>t'. startsWith t t' \<and> d \<in> posts (shardAt env s j) t')}"
      using Cons.IH [OF l(1), of "fold setAdd (prefixDocs (shardAt env s j) t) acc"] l(3,5) by auto
    show ?thesis using s1 s2 True p loaded_trans [OF Cons.prems s1(2) s2(2)] by auto
  qed
qed

lemma shardOf_prefix:
  assumes "startsWith t t'" "t \<noteq> []"
  shows "2 \<le> length t \<Longrightarrow> shardOf t' = shardOf t" "length t < 2 \<Longrightarrow> startsWith t (shardOf t')"
proof -
  obtain r where r: "t' = t @ r" using assms(1) by (auto simp: startsWith_iff)
  show "2 \<le> length t \<Longrightarrow> shardOf t' = shardOf t" using r by (simp add: shardOf_def)
  show "length t < 2 \<Longrightarrow> startsWith t (shardOf t')" using r by (auto simp: shardOf_def startsWith_iff)
qed

lemma found_live:
  assumes "index_ok env k s" "t \<noteq> []"
  shows "{d. \<exists>j\<in>set (shardsFor (snd s) t). j \<in> set (si_shardIds (snd s)) \<and> (\<exists>t'. startsWith t t' \<and> d \<in> posts (shardAt env s j) t')} \<inter> live s
     = wordMatch env s t"
proof (intro subset_antisym subsetI)
  fix d assume "d \<in> {d. \<exists>j\<in>set (shardsFor (snd s) t). j \<in> set (si_shardIds (snd s)) \<and> (\<exists>t'. startsWith t t' \<and> d \<in> posts (shardAt env s j) t')} \<inter> live s"
  then obtain j t' where d: "startsWith t t'" "d \<in> posts (shardAt env s j) t'" "d \<in> live s" by blast
  then have "shardOf t' = j" using shard_wf_posts [OF shardAt_wf [OF assms(1)]] by blast
  then show "d \<in> wordMatch env s t" using d by (auto simp: wordMatch_def)
next
  fix d assume "d \<in> wordMatch env s t"
  then obtain t' where d: "startsWith t t'" "d \<in> posts (shardAt env s (shardOf t')) t'" "d \<in> live s" by (auto simp: wordMatch_def)
  have "shardOf t' \<in> set (si_shardIds (snd s))" using live_post_listed [OF assms(1) d(3,2)] .
  moreover have "shardOf t' \<in> set (shardsFor (snd s) t)" using calculation shardOf_prefix [OF d(1) assms(2)] by (auto simp: shardsFor_def)
  ultimately show "d \<in> {d. \<exists>j\<in>set (shardsFor (snd s) t). j \<in> set (si_shardIds (snd s)) \<and> (\<exists>t'. startsWith t t' \<and> d \<in> posts (shardAt env s j) t')} \<inter> live s"
    using d by blast
qed

lemma wordDocs_ok:
  assumes "index_ok env k s" "\<forall>t\<in>set ts. t \<noteq> []"
  shows "\<exists>s' ds. wordDocs env ts docs s = (s', Inr ds) \<and> loaded env s s' \<and>
     (docs \<noteq> None \<or> ts \<noteq> [] \<longrightarrow>
        set ds \<inter> live s = {d \<in> live s. (\<forall>D. docs = Some D \<longrightarrow> d \<in> set D) \<and> (\<forall>t\<in>set ts. d \<in> wordMatch env s t)})"
  using assms
proof (induction ts arbitrary: docs s)
  case Nil
  then show ?case using loaded_refl by (cases docs) auto
next
  case (Cons t ts)
  obtain s1 found where s1: "foundIn env t (shardsFor (snd s) t) [] s = (s1, Inr found)" "loaded env s s1" "set found \<inter> live s = wordMatch env s t"
    using foundIn_ok [OF Cons.prems(1), of t "shardsFor (snd s) t" "[]"] found_live [OF Cons.prems(1), of t] Cons.prems(2) by auto
  note l = loaded_keeps [OF Cons.prems(1) s1(2)]
  define docs' where "docs' = (case docs of None \<Rightarrow> found | Some ds \<Rightarrow> filter (\<lambda>d. d \<in> set found) ds)"
  have docs': "d \<in> set docs' \<longleftrightarrow> (\<forall>D. docs = Some D \<longrightarrow> d \<in> set D) \<and> d \<in> wordMatch env s t" if "d \<in> live s" for d
    using that s1(3) by (cases docs) (auto simp: docs'_def)
  show ?case
  proof (cases "docs' = []")
    case True
    then show ?thesis using s1 docs' by (auto simp: docs'_def Let_def)
  next
    case False
    obtain s2 ds where s2: "wordDocs env ts (Some docs') s1 = (s2, Inr ds)" "loaded env s1 s2"
      "set ds \<inter> live s = {d \<in> live s. d \<in> set docs' \<and> (\<forall>t\<in>set ts. d \<in> wordMatch env s t)}"
      using Cons.IH [OF l(1), of "Some docs'"] Cons.prems(2) l(7) wordMatch_loaded [OF Cons.prems(1) s1(2)] by auto
    have "wordDocs env (t # ts) docs s = (s2, Inr ds)" using s1(1) s2(1) False by (simp add: docs'_def [symmetric] Let_def)
    moreover have "loaded env s s2" using loaded_trans [OF Cons.prems(1) s1(2) s2(2)] .
    ultimately show ?thesis using s2(3) docs' by auto
  qed
qed

text \<open>The hashes a search is expected to find.\<close>

definition hitsFor :: "unicode \<Rightarrow> (string \<Rightarrow> (string set \<times> string list) option) \<Rightarrow> string \<Rightarrow> string set" where
  "hitsFor u store query =
     {h. \<exists>words names. store h = Some (words, names) \<and> tokenize u query \<noteq> []
         \<and> (\<forall>t\<in>set (tokenize u query). \<exists>w\<in>words. startsWith t w)}"

lemma toHashes_set: "set (toHashes idx docs) = {h. \<exists>d\<in>set docs. map_of (si_byDoc idx) d = Some h}"
  by (force simp: toHashes_def map_filter_def image_iff)

lemma wordHits_ok:
  assumes "index_ok env k s"
  shows "\<exists>s' hs. wordHits env query s = (s', Inr hs) \<and> loaded env s s' \<and> set hs = hitsFor (se_unicode env) (contents env s) query"
proof (cases "tokenize (se_unicode env) query = []")
  case True
  then show ?thesis using loaded_refl [OF assms] by (auto simp: wordHits_def hitsFor_def)
next
  case False
  let ?ts = "tokenize (se_unicode env) query"
  have "\<forall>t\<in>set ?ts. t \<noteq> []" using tokenize_keep by (force simp: keep_def)
  then obtain s' ds where s': "wordDocs env ?ts None s = (s', Inr ds)" "loaded env s s'"
      "set ds \<inter> live s = {d \<in> live s. \<forall>t\<in>set ?ts. d \<in> wordMatch env s t}"
    using wordDocs_ok [OF assms, of ?ts None] False by auto
  have bd: "si_byDoc (snd s') = si_byDoc (snd s)" using loaded_keeps(6) [OF assms s'(2)] .
  have inv: "map_of (si_docs (snd s)) h = Some d \<longleftrightarrow> map_of (si_byDoc (snd s)) d = Some h" for h d using assms by (simp add: index_parts)
  have "h \<in> set (toHashes (snd s') ds) \<longleftrightarrow> h \<in> hitsFor (se_unicode env) (contents env s) query" for h
  proof -
    have "h \<in> set (toHashes (snd s') ds) \<longleftrightarrow> (\<exists>d. map_of (si_byDoc (snd s)) d = Some h \<and> d \<in> set ds \<inter> live s)"
      using bd by (auto simp: toHashes_set live_def)
    also have "\<dots> \<longleftrightarrow> (\<exists>d. map_of (si_docs (snd s)) h = Some d \<and> (\<forall>t\<in>set ?ts. d \<in> wordMatch env s t))"
      using s'(3) inv by (auto simp: live_def)
    also have "\<dots> \<longleftrightarrow> h \<in> hitsFor (se_unicode env) (contents env s) query"
    proof (cases "map_of (si_docs (snd s)) h")
      case None
      then show ?thesis by (simp add: hitsFor_def contents_def)
    next
      case (Some d)
      then have "d \<in> live s" using inv by (auto simp: live_def)
      then have "d \<in> wordMatch env s t \<longleftrightarrow> (\<exists>w\<in>{t. d \<in> posts (shardAt env s (shardOf t)) t}. startsWith t w)" for t
        by (auto simp: wordMatch_def)
      then show ?thesis using Some False by (simp add: hitsFor_def contents_def)
    qed
    finally show ?thesis .
  qed
  then show ?thesis using s' False by (auto simp: wordHits_def)
qed

subsection \<open>Adding a message\<close>

lemma fold_addGroup:
  fixes doc :: nat
  assumes "distinct (map fst gs)" "distinct (map fst (si_cache idx))" "distinct (si_shardIds idx)"
  defines "idx' \<equiv> fold (addGroup doc) gs idx"
  shows "map_of (si_cache idx') j = (case map_of gs j of None \<Rightarrow> map_of (si_cache idx) j
           | Some ts \<Rightarrow> map_option (\<lambda>(sh, n). (fold (\<lambda>t. addPosting t doc) ts sh, n)) (map_of (si_cache idx) j))"
    and "distinct (map fst (si_cache idx'))" "distinct (si_shardIds idx')"
    and "set (si_shardIds idx') = set (si_shardIds idx) \<union> fst ` set gs" "set (si_dirty idx') = set (si_dirty idx) \<union> fst ` set gs"
    and "\<exists>c i d. idx' = idx\<lparr>si_cache := c, si_shardIds := i, si_dirty := d\<rparr>"
proof -
  have "(\<forall>j. map_of (si_cache (fold (addGroup doc) gs idx)) j = (case map_of gs j of None \<Rightarrow> map_of (si_cache idx) j
           | Some ts \<Rightarrow> map_option (\<lambda>(sh, n). (fold (\<lambda>t. addPosting t doc) ts sh, n)) (map_of (si_cache idx) j)))
     \<and> distinct (map fst (si_cache (fold (addGroup doc) gs idx))) \<and> distinct (si_shardIds (fold (addGroup doc) gs idx))
     \<and> set (si_shardIds (fold (addGroup doc) gs idx)) = set (si_shardIds idx) \<union> fst ` set gs
     \<and> set (si_dirty (fold (addGroup doc) gs idx)) = set (si_dirty idx) \<union> fst ` set gs
     \<and> (\<exists>c i d. fold (addGroup doc) gs idx = idx\<lparr>si_cache := c, si_shardIds := i, si_dirty := d\<rparr>)"
    using assms(1-3)
  proof (induction gs arbitrary: idx)
    case Nil
    have "\<exists>c i d. idx = idx\<lparr>si_cache := c, si_shardIds := i, si_dirty := d\<rparr>"
      by (rule exI [of _ "si_cache idx"], rule exI [of _ "si_shardIds idx"], rule exI [of _ "si_dirty idx"]) simp
    then show ?case using Nil by simp
  next
    case (Cons g gs)
    obtain id' ts where g: "g = (id', ts)" by (cases g)
    let ?i = "addGroup doc g idx"
    have fresh: "map_of gs id' = None" "distinct (map fst gs)" using Cons.prems(1) g by (simp_all add: map_of_eq_None_iff)
    have one: "map_of (si_cache ?i) j = (if j = id' then map_option (\<lambda>(sh, n). (fold (\<lambda>t. addPosting t doc) ts sh, n)) (map_of (si_cache idx) j)
        else map_of (si_cache idx) j)" for j
      using g by (auto simp: addGroup_def split: option.splits)
    have d: "distinct (map fst (si_cache ?i))" "distinct (si_shardIds ?i)" using Cons.prems(2,3) g
      by (auto simp: addGroup_def split: option.splits)
    have sets: "set (si_shardIds ?i) = insert id' (set (si_shardIds idx))" "set (si_dirty ?i) = insert id' (set (si_dirty idx))"
      using g by (simp_all add: addGroup_def)
    have shape: "\<exists>c i d. ?i = idx\<lparr>si_cache := c, si_shardIds := i, si_dirty := d\<rparr>" using g by (auto simp: addGroup_def)
    note ih = Cons.IH [OF fresh(2) d]
    have "map_of (si_cache (fold (addGroup doc) (g # gs) idx)) j = (case map_of (g # gs) j of None \<Rightarrow> map_of (si_cache idx) j
           | Some ts \<Rightarrow> map_option (\<lambda>(sh, n). (fold (\<lambda>t. addPosting t doc) ts sh, n)) (map_of (si_cache idx) j))" for j
      using ih one [of j] fresh(1) g by (cases "j = id'") (auto split: option.splits)
    moreover have "\<exists>c i d. fold (addGroup doc) (g # gs) idx = idx\<lparr>si_cache := c, si_shardIds := i, si_dirty := d\<rparr>"
    proof -
      obtain c i d where i: "?i = idx\<lparr>si_cache := c, si_shardIds := i, si_dirty := d\<rparr>" using shape by blast
      obtain c' i' d' where "fold (addGroup doc) gs ?i = ?i\<lparr>si_cache := c', si_shardIds := i', si_dirty := d'\<rparr>" using ih by blast
      then have "fold (addGroup doc) (g # gs) idx = idx\<lparr>si_cache := c', si_shardIds := i', si_dirty := d'\<rparr>" using i by simp
      then show ?thesis by blast
    qed
    ultimately show ?case using ih sets g by auto
  qed
  then show "map_of (si_cache idx') j = (case map_of gs j of None \<Rightarrow> map_of (si_cache idx) j
           | Some ts \<Rightarrow> map_option (\<lambda>(sh, n). (fold (\<lambda>t. addPosting t doc) ts sh, n)) (map_of (si_cache idx) j))"
    "distinct (map fst (si_cache idx'))" "distinct (si_shardIds idx')"
    "set (si_shardIds idx') = set (si_shardIds idx) \<union> fst ` set gs" "set (si_dirty idx') = set (si_dirty idx) \<union> fst ` set gs"
    "\<exists>c i d. idx' = idx\<lparr>si_cache := c, si_shardIds := i, si_dirty := d\<rparr>"
    unfolding idx'_def by blast+
qed

text \<open>A text whose words fit the room a message is counted with.\<close>

definition small :: "unicode \<Rightarrow> string \<Rightarrow> bool" where
  "small u text \<longleftrightarrow> length (tokenize u text) \<le> 2 ^ 20"

lemma shardFine_less: "shardFine (Suc k) n id' sh \<Longrightarrow> shardFine k n id' sh"
  by (simp add: shardFine_def)

lemma shardFine_step: "shardFine (Suc k) n id' sh \<Longrightarrow> shardFine k (n + 1) id' sh"
  using shard_wf_mono [of id' n sh "n + 1"] by (simp add: shardFine_def)

lemma index_ok_less: "index_ok env (Suc k) s \<Longrightarrow> index_ok env k s"
  by (auto simp: index_ok_def shards_ok_def intro: shardFine_less)

text \<open>The state after the postings of a new document went in, before the document is entered.\<close>

lemma addGroups_view:
  fixes msg :: string
  assumes ok: "index_ok env (Suc k) (db, idx)" and tx: "small (se_unicode env) msg"
    and cached: "\<forall>j\<in>shardOf ` set (tokenize (se_unicode env) msg). map_of (si_cache idx) j \<noteq> None"
  defines "ts \<equiv> tokenize (se_unicode env) msg" and "doc \<equiv> si_next idx"
  defines "idx1 \<equiv> fold (addGroup doc) (byShard ts) (idx\<lparr>si_next := doc + 1\<rparr>)"
  shows "posts (shardAt env (db, idx1) (shardOf t)) t = (if t \<in> set ts then insert doc (posts (shardAt env (db, idx) (shardOf t)) t)
           else posts (shardAt env (db, idx) (shardOf t)) t)"
    and "shardFine k (doc + 1) j (shardAt env (db, idx1) j)"
    and "j \<notin> set (si_dirty idx1) \<Longrightarrow> shardAt env (db, idx1) j = shardAt env (db, idx) j \<and> baseShard env (db, idx1) j = baseShard env (db, idx) j"
proof -
  let ?idx0 = "idx\<lparr>si_next := doc + 1\<rparr>"
  have gs: "distinct (map fst (byShard ts))" "fst ` set (byShard ts) = shardOf ` set ts"
      "\<And>id' l. (id', l) \<in> set (byShard ts) \<Longrightarrow> set l = {t \<in> set ts. shardOf t = id'} \<and> length l \<le> length ts"
    using byShard_groups [of ts] by auto
  have dist: "distinct (map fst (si_cache ?idx0))" "distinct (si_shardIds ?idx0)" using ok by (simp_all add: index_parts)
  note fg = fold_addGroup [OF gs(1) dist, of doc, folded idx1_def]
  have st: "storedShard env (db, idx1) = storedShard env (db, idx)"
    using fg(6) by (intro stored_cong) (auto simp: idx1_def)
  have base: "baseShard env (db, idx1) j = baseShard env (db, idx) j" if "j \<notin> shardOf ` set ts" for j
    using fg(4) gs(2) st that by (simp add: baseShard_def)
  have fine: "shardFine (Suc k) doc j (shardAt env (db, idx) j)" for j using ok by (simp add: index_parts doc_def)
  have old: "shardAt env (db, idx1) j = shardAt env (db, idx) j" if "j \<notin> shardOf ` set ts" for j
  proof -
    have "map_of (byShard ts) j = None" using that gs(2) by (simp add: map_of_eq_None_iff)
    then show ?thesis using fg(1) [of j] base [OF that] by (simp add: shardAt_def cong: option.case_cong)
  qed
  have new: "\<exists>l. set l = {t \<in> set ts. shardOf t = j} \<and> length l \<le> length ts \<and> shardAt env (db, idx1) j = fold (\<lambda>t. addPosting t doc) l (shardAt env (db, idx) j)"
    if j: "j \<in> shardOf ` set ts" for j
  proof -
    obtain l where l: "map_of (byShard ts) j = Some l" using j gs(2) by (metis map_of_eq_None_iff not_None_eq)
    obtain sh n where c: "map_of (si_cache idx) j = Some (sh, n)" using cached j by (fastforce simp: ts_def)
    show ?thesis using fg(1) [of j] l c gs(3) [OF map_of_SomeD [OF l]] by (intro exI [of _ l]) (simp add: shardAt_def)
  qed
  have tok: "length t \<le> MAX_TOKEN" if "t \<in> set ts" for t using tokenize_keep that by (force simp: ts_def keep_def split: if_splits)
  have added: "shard_wf j (doc + 1) (shardAt env (db, idx1) j) \<and> length (shardAt env (db, idx1) j) \<le> length (shardAt env (db, idx) j) + length ts
      \<and> posts (shardAt env (db, idx1) j) t = (if t \<in> set ts \<and> shardOf t = j then insert doc (posts (shardAt env (db, idx) j) t) else posts (shardAt env (db, idx) j) t)"
    if j: "j \<in> shardOf ` set ts" for j t
  proof -
    obtain l where l: "set l = {t \<in> set ts. shardOf t = j}" "length l \<le> length ts" "shardAt env (db, idx1) j = fold (\<lambda>t. addPosting t doc) l (shardAt env (db, idx) j)"
      using new [OF j] by blast
    have "shard_wf j (doc + 1) (shardAt env (db, idx) j)" using fine [of j] shard_wf_mono by (auto simp: shardFine_def)
    from addPostings_wf [OF this, of l doc t] l tok show ?thesis by auto
  qed
  show "posts (shardAt env (db, idx1) (shardOf t)) t = (if t \<in> set ts then insert doc (posts (shardAt env (db, idx) (shardOf t)) t)
           else posts (shardAt env (db, idx) (shardOf t)) t)"
    using added [of "shardOf t" t] old [of "shardOf t"] by (cases "shardOf t \<in> shardOf ` set ts") auto
  show "shardFine k (doc + 1) j (shardAt env (db, idx1) j)"
  proof (cases "j \<in> shardOf ` set ts")
    case True
    then show ?thesis using added [OF True, of "[]"] fine [of j] tx by (simp add: shardFine_def small_def ts_def)
  next
    case False
    then show ?thesis using old [OF False] fine [of j] shard_wf_mono [of j doc] by (simp add: shardFine_def)
  qed
  show "j \<notin> set (si_dirty idx1) \<Longrightarrow> shardAt env (db, idx1) j = shardAt env (db, idx) j \<and> baseShard env (db, idx1) j = baseShard env (db, idx) j"
    using fg(5) gs(2) old base by auto
qed

lemma shardAt_cong:
  "si_cache (snd s') = si_cache (snd s) \<Longrightarrow> si_shardIds (snd s') = si_shardIds (snd s) \<Longrightarrow> storedShard env s' = storedShard env s \<Longrightarrow>
   shardAt env s' = shardAt env s \<and> baseShard env s' = baseShard env s"
  by (simp add: shardAt_def baseShard_def fun_eq_iff cong: option.case_cong)

text \<open>Entering a document whose postings are in place.\<close>

lemma enter_doc:
  assumes ok: "index_ok env (Suc k) (db, idx)" and hash: "map_of (si_docs idx) h = None" and tx: "small (se_unicode env) msg"
    and cached: "\<forall>j\<in>shardOf ` set (tokenize (se_unicode env) msg). map_of (si_cache idx) j \<noteq> None"
    and files: "files = filesAt env (db, idx) \<and> names = [] \<and> F = si_files idx \<and> D = si_filesDirty idx
      \<or> files = AList.update (si_next idx) names (filesAt env (db, idx)) \<and> F = Some files \<and> D"
  defines "doc \<equiv> si_next idx"
  defines "idx1 \<equiv> fold (addGroup doc) (byShard (tokenize (se_unicode env) msg)) (idx\<lparr>si_next := doc + 1\<rparr>)"
  defines "s2 \<equiv> (db, idx1\<lparr>si_files := F, si_filesDirty := D, si_docs := AList.update h doc (si_docs idx1),
      si_byDoc := AList.update doc h (si_byDoc idx1), si_manifestDirty := True\<rparr>)"
  shows "index_ok env k s2 \<and> contents env s2 = (contents env (db, idx))(h \<mapsto> (set (tokenize (se_unicode env) msg), names))"
proof -
  let ?s = "(db, idx)" and ?ts = "tokenize (se_unicode env) msg"
  note gs = byShard_groups [of ?ts]
  have dist: "distinct (map fst (si_cache (idx\<lparr>si_next := doc + 1\<rparr>)))" "distinct (si_shardIds (idx\<lparr>si_next := doc + 1\<rparr>))"
    using ok by (simp_all add: index_parts)
  note fg = fold_addGroup [OF _ dist, of "byShard ?ts" doc, folded idx1_def]
  note view = addGroups_view [OF ok tx cached, folded doc_def, folded idx1_def]
  obtain c i d where i1: "idx1 = idx\<lparr>si_next := doc + 1, si_cache := c, si_shardIds := i, si_dirty := d\<rparr>"
    using fg(6) gs by auto
  have s2: "snd s2 = idx\<lparr>si_next := doc + 1, si_cache := c, si_shardIds := i, si_dirty := d, si_files := F, si_filesDirty := D,
      si_docs := AList.update h doc (si_docs idx), si_byDoc := AList.update doc h (si_byDoc idx), si_manifestDirty := True\<rparr>" "fst s2 = db"
    unfolding s2_def by (simp_all add: i1)
  have st: "storedShard env s2 = storedShard env ?s" "storedFiles env s2 = storedFiles env ?s"
      "readableShard env s2 = readableShard env ?s" "readableFiles env s2 = readableFiles env ?s"
      "storedShard env (db, idx1) = storedShard env ?s"
    using stored_cong [of s2 ?s env] stored_cong(1) [of "(db, idx1)" ?s env] s2 by (simp_all add: i1)
  have at: "shardAt env s2 = shardAt env (db, idx1)" "baseShard env s2 = baseShard env (db, idx1)"
    using shardAt_cong [of s2 "(db, idx1)" env] s2 st by (simp_all add: i1)
  have docs: "docs_ok ?s" using ok by (simp add: index_ok_def)
  have doc: "doc \<notin> live ?s" "\<And>j t. doc \<notin> posts (shardAt env ?s j) t" "\<And>j t. j \<notin> set (si_dirty idx) \<Longrightarrow> doc \<notin> posts (baseShard env ?s j) t"
    "\<And>h'. map_of (si_docs idx) h' \<noteq> Some doc"
  proof -
    show "doc \<notin> live ?s" using docs by (auto simp: docs_ok_def doc_def)
    then show "\<And>h'. map_of (si_docs idx) h' \<noteq> Some doc" using docs_live [OF docs] by auto
    show "doc \<notin> posts (shardAt env ?s j) t" for j t using shard_wf_posts [OF shardAt_wf [OF ok]] by (auto simp: doc_def)
    show "doc \<notin> posts (baseShard env ?s j) t" if "j \<notin> set (si_dirty idx)" for j t
      using ok that shard_wf_posts [of j doc "storedShard env ?s j" doc t] by (auto simp: index_parts baseShard_def shardFine_def doc_def)
  qed
  have live: "live s2 = insert doc (live ?s)" using s2 by (auto simp: live_def)
  have fa: "filesAt env s2 = files" using files s2 st(2) by (auto simp: filesAt_def cong: option.case_cong)
  have fmap: "map_of files d = (if d = doc \<and> files \<noteq> filesAt env ?s then Some names else map_of (filesAt env ?s) d)" if "d \<noteq> doc" for d
    using files that by (auto simp: doc_def)
  have nodoc: "map_of (filesAt env ?s) doc = None" "map_of (storedFiles env ?s) doc = None"
    using ok unfolding index_ok_def files_ok_def doc_def by fastforce+
  have names: "namesOf files doc = names" using files nodoc(1) by (auto simp: namesOf_def doc_def)
  have post: "d \<in> posts (shardAt env s2 (shardOf t)) t \<longleftrightarrow> d \<in> posts (shardAt env ?s (shardOf t)) t" if "d \<noteq> doc" for d t
    using view(1) [of t] at(1) that by simp
  have "contents env s2 h' = ((contents env ?s)(h \<mapsto> (set ?ts, names))) h'" for h'
  proof (cases "h' = h")
    case True
    have "{t. doc \<in> posts (shardAt env s2 (shardOf t)) t} = set ?ts" using view(1) at(1) doc(2) by auto
    then show ?thesis using True s2 fa names by (simp add: contents_def)
  next
    case False
    show ?thesis
    proof (cases "map_of (si_docs idx) h'")
      case (Some d)
      then have "d \<noteq> doc" using doc(4) by auto
      then show ?thesis using Some False s2 fa fmap [of d] post by (simp add: contents_def namesOf_def)
    qed (use False s2 in \<open>simp add: contents_def\<close>)
  qed
  moreover have "docs_ok s2"
  proof -
    have "map_of (AList.update h doc (si_docs idx)) h' = Some d \<longleftrightarrow> map_of (AList.update doc h (si_byDoc idx)) d = Some h'" for h' d
      using docs hash doc(1,4) by (auto simp: docs_ok_def live_def)
    then show ?thesis using docs live s2 by (auto simp: docs_ok_def doc_def)
  qed
  moreover have "shards_ok env k s2"
  proof -
    have dirty: "set d = set (si_dirty idx) \<union> shardOf ` set ?ts" "set i = set (si_shardIds idx) \<union> shardOf ` set ?ts"
      using fg(4,5) gs by (simp_all add: i1)
    have "readableShard env ?s j \<and> shardFine (Suc k) doc j (storedShard env ?s j)" if "j \<in> set i - set d" for j
      using ok that dirty by (auto simp: index_ok_def shards_ok_def doc_def)
    then have "readableShard env ?s j \<and> shardFine k (doc + 1) j (storedShard env ?s j)" if "j \<in> set i - set d" for j
      using that shardFine_step by blast
    then show ?thesis using view(2) at s2 st by (auto simp: shards_ok_def)
  qed
  moreover have "cache_ok env s2"
  proof -
    have sub: "set (si_dirty idx1) \<subseteq> dom (map_of (si_cache idx1)) \<inter> set (si_shardIds idx1)"
    proof
      fix j assume j: "j \<in> set (si_dirty idx1)"
      have "map_of (si_cache idx) j \<noteq> None" using j fg(5) gs cached dirty_cached [OF ok, of j] by auto
      then show "j \<in> dom (map_of (si_cache idx1)) \<inter> set (si_shardIds idx1)"
        using j fg(1) [of j] fg(4,5) gs dirty_cached [OF ok, of j] by (auto split: option.splits)
    qed
    have "posts (shardAt env s2 j) t \<inter> live s2 = posts (baseShard env s2 j) t \<inter> live s2" if "j \<notin> set (si_dirty idx1)" for j t
    proof -
      have "j \<notin> set (si_dirty idx)" using that fg(5) gs by simp
      then show ?thesis using view(3) [OF that] at live doc(2,3) ok unfolding index_ok_def cache_ok_def by auto
    qed
    then show ?thesis using sub fg(2,3) gs s2 by (simp add: cache_ok_def i1)
  qed
  moreover have "files_ok env s2"
  proof -
    have f: "files_ok env ?s" using ok by (simp add: index_ok_def)
    have "map_of files d \<noteq> None \<Longrightarrow> d < doc + 1" for d
      using files f by (auto simp: files_ok_def doc_def split: if_splits) (metis less_SucI option.distinct(1))+
    moreover have "map_of (storedFiles env ?s) d \<noteq> None \<Longrightarrow> d < doc + 1" for d
      using f unfolding files_ok_def doc_def by (metis less_Suc_eq Suc_eq_plus1 snd_conv)
    moreover have "distinct (map fst files)" using files f by (auto simp: files_ok_def)
    moreover have "\<not> D \<Longrightarrow> \<forall>d\<in>live s2. map_of files d = map_of (storedFiles env ?s) d"
      using files f live nodoc by (auto simp: files_ok_def)
    moreover have "D \<Longrightarrow> F \<noteq> None" using files f by (auto simp: files_ok_def)
    ultimately show ?thesis using f s2 st fa by (simp add: files_ok_def)
  qed
  moreover have "si_next (snd s2) + k < 2 ^ 32" "length (si_key (snd s2)) = 32" using ok s2 by (simp_all add: index_ok_def doc_def)
  ultimately show ?thesis unfolding index_ok_def by blast
qed

lemma contents_None: "contents env s h = None \<longleftrightarrow> \<not> hasHash (snd s) h"
  by (simp add: contents_def hasHash_def)

lemma files_frame:
  assumes "files_ok env s" "fst s' = fst s" "si_ns (snd s') = si_ns (snd s)" "si_key (snd s') = si_key (snd s)"
    and "si_files (snd s') = si_files (snd s)" "si_filesDirty (snd s') = si_filesDirty (snd s)" "live s' \<subseteq> live s" "si_next (snd s) \<le> si_next (snd s')"
  shows "files_ok env s'" "filesAt env s' = filesAt env s"
proof -
  note st = stored_cong [OF assms(2-4), of env]
  show fa: "filesAt env s' = filesAt env s" using assms(5) st(2) by (simp add: filesAt_def cong: option.case_cong)
  have "map_of (filesAt env s) d \<noteq> None \<Longrightarrow> d < si_next (snd s')" "map_of (storedFiles env s) d \<noteq> None \<Longrightarrow> d < si_next (snd s')" for d
    using assms(1,8) unfolding files_ok_def by (meson less_le_trans)+
  then show "files_ok env s'" using assms(1,5-7) unfolding files_ok_def fa st by auto
qed

lemma addMessage_ok:
  assumes "index_ok env (Suc k) s" "small (se_unicode env) msg"
  shows "\<exists>s'. addMessage env h msg filenames s = (s', None) \<and> index_ok env k s' \<and>
     contents env s' = (if contents env s h \<noteq> None then contents env s
       else (contents env s)(h \<mapsto> (set (tokenize (se_unicode env) msg), filter (\<lambda>n. n \<noteq> []) filenames)))"
proof (cases "hasHash (snd s) h")
  case True
  then show ?thesis using assms index_ok_less contents_None [of env s h] by (simp add: addMessage_def)
next
  case False
  let ?gs = "byShard (tokenize (se_unicode env) msg)" and ?names = "filter (\<lambda>n. n \<noteq> []) filenames"
  obtain s1 where s1: "getShards env (map fst ?gs) s = (s1, None)" "loaded env s s1" "\<forall>j\<in>set (map fst ?gs). map_of (si_cache (snd s1)) j \<noteq> None"
    using getShards_ok [OF assms(1)] by blast
  obtain db idx where i: "s1 = (db, idx)" by (cases s1)
  note l = loaded_keeps [OF assms(1) s1(2)]
  have ok: "index_ok env (Suc k) (db, idx)" using l(1) i by simp
  have h: "map_of (si_docs idx) h = None" using False l(8) i by (simp add: hasHash_def)
  have cached: "\<forall>j\<in>shardOf ` set (tokenize (se_unicode env) msg). map_of (si_cache idx) j \<noteq> None"
    using s1(3) i byShard_groups [of "tokenize (se_unicode env) msg"] by auto
  let ?idx1 = "fold (addGroup (si_next idx)) ?gs (idx\<lparr>si_next := si_next idx + 1\<rparr>)"
  have shape: "\<exists>c i d. ?idx1 = idx\<lparr>si_next := si_next idx + 1, si_cache := c, si_shardIds := i, si_dirty := d\<rparr>"
    using fold_addGroup(6) [of ?gs "idx\<lparr>si_next := si_next idx + 1\<rparr>"] byShard_groups [of "tokenize (se_unicode env) msg"] ok
    by (simp add: index_ok_def cache_ok_def)
  have fr: "files_ok env (db, ?idx1)" "filesAt env (db, ?idx1) = filesAt env (db, idx)"
    using files_frame [of env "(db, idx)" "(db, ?idx1)"] ok shape by (auto simp: index_ok_def live_def)
  have lf: "loadFiles env (db, ?idx1) = ((db, ?idx1\<lparr>si_files := Some (filesAt env (db, idx))\<rparr>), Inr (filesAt env (db, idx)))"
    using loadFiles_ok [OF fr(1)] fr(2) by simp
  have keep: "?idx1\<lparr>si_files := si_files idx, si_filesDirty := si_filesDirty idx\<rparr> = ?idx1" using shape by auto
  note enter = enter_doc [OF ok h assms(2) cached]
  have cs: "contents env s1 = contents env s" "contents env s h = None" using l(2) False contents_None by auto
  show ?thesis
  proof (cases "?names = []")
    case True
    have "addMessage env h msg filenames s = ((db, ?idx1\<lparr>si_docs := AList.update h (si_next idx) (si_docs ?idx1),
        si_byDoc := AList.update (si_next idx) h (si_byDoc ?idx1), si_manifestDirty := True\<rparr>), None)"
      using False s1(1) i True by (simp add: addMessage_def Let_def)
    then show ?thesis using enter [of "filesAt env (db, idx)" "[]" "si_files idx" "si_filesDirty idx"] keep cs i True by auto
  next
    case nz: False
    have "addMessage env h msg filenames s = ((db, ?idx1\<lparr>si_files := Some (AList.update (si_next idx) ?names (filesAt env (db, idx))),
        si_filesDirty := True, si_docs := AList.update h (si_next idx) (si_docs ?idx1),
        si_byDoc := AList.update (si_next idx) h (si_byDoc ?idx1), si_manifestDirty := True\<rparr>), None)"
      using False s1(1) i nz lf by (simp add: addMessage_def Let_def)
    then show ?thesis using enter [of "AList.update (si_next idx) ?names (filesAt env (db, idx))" ?names
          "Some (AList.update (si_next idx) ?names (filesAt env (db, idx)))" True] cs i by auto
  qed
qed

subsection \<open>Removing messages\<close>

lemma removeOne_ok:
  assumes "index_ok env k s"
  shows "\<exists>s'. removeOne env h s = (s', None) \<and> index_ok env k s' \<and> contents env s' = (contents env s)(h := None)"
proof (cases "map_of (si_docs (snd s)) h")
  case None
  then show ?thesis using assms by (cases s) (auto simp: removeOne_def contents_def fun_eq_iff)
next
  case (Some doc)
  obtain db idx where s: "s = (db, idx)" by (cases s)
  have docs: "docs_ok s" using assms by (simp add: index_ok_def)
  let ?idx0 = "idx\<lparr>si_docs := AList.delete h (si_docs idx), si_byDoc := AList.delete doc (si_byDoc idx),
      si_orphans := si_orphans idx + 1, si_manifestDirty := True\<rparr>"
  let ?files = "filesAt env s"
  let ?s' = "(db, ?idx0\<lparr>si_files := Some (AList.delete doc ?files), si_filesDirty := (si_filesDirty idx \<or> map_of ?files doc \<noteq> None)\<rparr>)"
  have lv: "live (db, ?idx0) \<subseteq> live s" "live ?s' = live s - {doc}" using s by (auto simp: live_def)
  have fr: "files_ok env (db, ?idx0)" "filesAt env (db, ?idx0) = ?files"
    using files_frame [of env s "(db, ?idx0)"] assms s lv(1) by (auto simp: index_ok_def)
  have run: "removeOne env h s = (?s', None)"
    using Some s loadFiles_ok [OF fr(1)] fr(2) by (simp add: removeOne_def)
  have st: "storedShard env ?s' = storedShard env s" "storedFiles env ?s' = storedFiles env s"
      "readableShard env ?s' = readableShard env s" "readableFiles env ?s' = readableFiles env s"
    using stored_cong [of ?s' s env] s by simp_all
  have at: "shardAt env ?s' = shardAt env s" "baseShard env ?s' = baseShard env s"
    using shardAt_cong [of ?s' s env] s st(1) by simp_all
  have fa: "filesAt env ?s' = AList.delete doc ?files" by (simp add: filesAt_def)
  have inv: "map_of (si_docs idx) h' = Some d \<longleftrightarrow> map_of (si_byDoc idx) d = Some h'" for h' d using docs s by (simp add: docs_ok_def)
  have other: "h' \<noteq> h \<Longrightarrow> map_of (si_docs idx) h' \<noteq> Some doc" for h' using inv Some s by auto
  have "contents env ?s' = (contents env s)(h := None)"
  proof
    fix h'
    show "contents env ?s' h' = ((contents env s)(h := None)) h'"
    proof (cases "h' = h")
      case False
      then show ?thesis using other [OF False] s at(1) fa
        by (cases "map_of (si_docs idx) h'") (auto simp: contents_def namesOf_def)
    qed (use s in \<open>simp add: contents_def\<close>)
  qed
  moreover have "docs_ok ?s'"
  proof -
    have "map_of (AList.delete h (si_docs idx)) h' = Some d \<longleftrightarrow> map_of (AList.delete doc (si_byDoc idx)) d = Some h'" for h' d
      using inv [of h' d] inv [of h d] inv [of h' doc] Some s by auto
    then show ?thesis using docs s lv(2) by (auto simp: docs_ok_def)
  qed
  moreover have "files_ok env ?s'"
  proof -
    have f: "files_ok env s" using assms by (simp add: index_ok_def)
    have "map_of (AList.delete doc ?files) d \<noteq> None \<Longrightarrow> map_of ?files d \<noteq> None" for d by (auto simp: delete_conv split: if_splits)
    moreover have "distinct (map fst (AList.delete doc ?files))" using f by (simp add: files_ok_def)
    ultimately show ?thesis using f s unfolding files_ok_def fa st lv(2) by (simp add: delete_conv)
  qed
  moreover have "shards_ok env k ?s'" using assms s st at by (simp add: index_ok_def shards_ok_def)
  moreover have "cache_ok env ?s'"
  proof -
    have "cache_ok env s" using assms by (simp add: index_ok_def)
    then have "posts (shardAt env s j) t \<inter> live s = posts (baseShard env s j) t \<inter> live s"
      if "j \<notin> set (si_dirty idx)" for j t using that s by (simp add: cache_ok_def)
    then have "posts (shardAt env s j) t \<inter> (live s - {doc}) = posts (baseShard env s j) t \<inter> (live s - {doc})"
      if "j \<notin> set (si_dirty idx)" for j t using that by blast
    then show ?thesis using \<open>cache_ok env s\<close> s unfolding cache_ok_def at lv(2) by simp
  qed
  ultimately have "index_ok env k ?s' \<and> contents env ?s' = (contents env s)(h := None)" using assms s by (simp add: index_ok_def)
  then show ?thesis using run by blast
qed

lemma removeMessages_ok:
  assumes "index_ok env k s"
  shows "\<exists>s'. removeMessages env hs s = (s', None) \<and> index_ok env k s' \<and> contents env s' = (\<lambda>h. if h \<in> set hs then None else contents env s h)"
  using assms
proof (induction hs arbitrary: s)
  case (Cons h hs)
  obtain s1 where s1: "removeOne env h s = (s1, None)" "index_ok env k s1" "contents env s1 = (contents env s)(h := None)"
    using removeOne_ok [OF Cons.prems] by blast
  obtain s2 where "removeMessages env hs s1 = (s2, None)" "index_ok env k s2" "contents env s2 = (\<lambda>h. if h \<in> set hs then None else contents env s1 h)"
    using Cons.IH [OF s1(2)] by blast
  then show ?case using s1 by (auto simp: fun_eq_iff)
qed auto

end
