(* ===== verification/Search_Flush.thy ===== *)
theory Search_Flush
  imports Search_Refinement
begin

section \<open>Writing the search index back\<close>

text \<open>
  A flush and a compaction of \<open>lib/search/indexStore.ts\<close> write shards, the file names and the manifest in
  transactions. Neither changes what the index holds, whether or not a transaction commits, and after a
  committed flush another tab that reloads the manifest holds the same.
\<close>

lemma siRead_puts:
  assumes "gcm_laws (se_crypto env)" "iv_ok ivf" "length (si_key idx) = 32" "si_ns idx' = si_ns idx" "si_key idx' = si_key idx"
  shows "siRead env (idbPutMany (map (\<lambda>(sl, p). siSeal env ivf idx sl p) qs) (map (slotOf idx) ds) db, idx') slot
     = (if slot \<in> set ds then Inr None
        else case map_of (rev qs) slot of Some p \<Rightarrow> Inr (Some p) | None \<Rightarrow> siRead env (db, idx') slot)"
proof -
  have inj: "slotOf idx a = slotOf idx b \<longleftrightarrow> a = b" for a b by (simp add: slotOf_def)
  have sl: "slotOf idx' a = slotOf idx a" for a using assms(4) by (simp add: slotOf_def)
  have "map_of (map (\<lambda>(sl, p). siSeal env ivf idx sl p) l) (slotOf idx slot) = map_option (\<lambda>p. snd (siSeal env ivf idx slot p)) (map_of l slot)" for l
    by (induction l) (auto simp: siSeal_def inj)
  then have "map_of (idbPutMany (map (\<lambda>(sl, p). siSeal env ivf idx sl p) qs) (map (slotOf idx) ds) db) (slotOf idx slot)
     = (if slot \<in> set ds then None
        else case map_of (rev qs) slot of Some p \<Rightarrow> Some (snd (siSeal env ivf idx slot p)) | None \<Rightarrow> map_of db (slotOf idx slot))"
    by (auto simp: idbPutMany_def map_of_deletes map_of_puts map_add_def rev_map inj image_iff split: option.splits)
  then show ?thesis using assms
    by (auto simp: siRead_def sl siSeal_def dsUnseal_def dsSeal_def gcm_laws_def iv_ok_def split: option.splits cache_value.splits)
qed

subsection \<open>One transaction\<close>

text \<open>What a transaction writes: shards that agree with the index on live messages, the file names, the manifest.\<close>

definition goodPuts :: "search_env \<Rightarrow> nat \<Rightarrow> srch \<Rightarrow> (string \<times> bytes) list \<Rightarrow> bool" where
  "goodPuts env k s qs \<longleftrightarrow> (\<forall>(slot, p)\<in>set qs. slot = ''manifest'' \<or> slot = ''files'' \<and> p = filesText env (filesAt env s)
     \<or> (\<exists>j sh. slot = ''s/'' @ j \<and> p = encodeShard sh \<and> shardFine k (si_next (snd s)) j sh
          \<and> (\<forall>t. posts sh t \<inter> live s = posts (shardAt env s j) t \<inter> live s)))"

definition goodDeletes :: "srch \<Rightarrow> string list \<Rightarrow> bool" where
  "goodDeletes s ds \<longleftrightarrow> (\<forall>slot\<in>set ds. \<exists>j. slot = ''s/'' @ j \<and> j \<notin> set (si_shardIds (snd s)))"

lemma shardFine_decode: "shardFine k n j sh \<Longrightarrow> n + k < 2 ^ 32 \<Longrightarrow> decodeShard (encodeShard sh) = Inr sh"
  using shard_wf_ok [of j n sh] by (intro shard_roundtrip_lemma) (simp add: shardFine_def)

lemma commit_ok:
  fixes m :: bool
  assumes ok: "index_ok env k (db, idx)" and laws: "search_laws env" and iv: "iv_ok ivf"
    and qs: "goodPuts env k (db, idx) qs" and ds: "goodDeletes (db, idx) ds"
    and dirty: "\<And>j. j \<in> set (si_dirty idx) \<Longrightarrow> \<exists>p. (''s/'' @ j, p) \<in> set qs"
    and fdirty: "si_filesDirty idx \<Longrightarrow> \<exists>p. (''files'', p) \<in> set qs"
  defines "s' \<equiv> (idbPutMany (map (\<lambda>(sl, p). siSeal env ivf idx sl p) qs) (map (slotOf idx) ds) db,
                  idx\<lparr>si_dirty := [], si_filesDirty := False, si_manifestDirty := m\<rparr>)"
  shows "index_ok env k s'" "contents env s' = contents env (db, idx)"
    and "\<And>t. posts (shardAt env s' j) t \<inter> live (db, idx) = posts (shardAt env (db, idx) j) t \<inter> live (db, idx)"
proof -
  let ?s = "(db, idx)"
  let ?e = "\<lambda>j sh. shardFine k (si_next idx) j sh \<and> (\<forall>t. posts sh t \<inter> live ?s = posts (shardAt env ?s j) t \<inter> live ?s)"
  have key: "length (si_key idx) = 32" "si_next idx + k < 2 ^ 32" using ok by (simp_all add: index_ok_def)
  have rd: "siRead env s' slot = (if slot \<in> set ds then Inr None else case map_of (rev qs) slot of Some p \<Rightarrow> Inr (Some p) | None \<Rightarrow> siRead env ?s slot)" for slot
    unfolding s'_def using siRead_puts [OF _ iv key(1), of env "idx\<lparr>si_dirty := [], si_filesDirty := False, si_manifestDirty := m\<rparr>" qs ds db slot]
      laws siRead_cong [of "(db, idx\<lparr>si_dirty := [], si_filesDirty := False, si_manifestDirty := m\<rparr>)" ?s env slot]
    by (simp add: search_laws_def cong: option.case_cong)
  have written: "readableShard env s' j \<and> ?e j (storedShard env s' j)" if "j \<in> set (si_shardIds idx)" "map_of (rev qs) (''s/'' @ j) = Some p" for j p
  proof -
    have "(''s/'' @ j, p) \<in> set qs" using map_of_SomeD [OF that(2)] by simp
    then obtain sh where sh: "p = encodeShard sh" "?e j sh" using qs unfolding goodPuts_def by fastforce
    have "siRead env s' (''s/'' @ j) = Inr (Some p)" using rd that ds by (auto simp: goodDeletes_def)
    then show ?thesis using sh shardFine_decode [OF conjunct1 [OF sh(2)] key(2)] by (simp add: readableShard_def storedShard_def)
  qed
  have clean: "j \<notin> set (si_dirty idx)" if "map_of (rev qs) (''s/'' @ j) = None" for j
    using that dirty [of j] by (force simp: map_of_eq_None_iff)
  have kept: "readableShard env s' j = readableShard env ?s j \<and> storedShard env s' j = storedShard env ?s j"
    if "j \<in> set (si_shardIds idx)" "map_of (rev qs) (''s/'' @ j) = None" for j
    using rd [of "''s/'' @ j"] that ds by (auto simp: goodDeletes_def readableShard_def storedShard_def)
  have st: "readableShard env s' j \<and> ?e j (storedShard env s' j)" if j: "j \<in> set (si_shardIds idx)" for j
  proof (cases "map_of (rev qs) (''s/'' @ j)")
    case None
    have "posts (shardAt env ?s j) t \<inter> live ?s = posts (storedShard env ?s j) t \<inter> live ?s" for t
      using ok clean [OF None] j by (simp add: index_parts baseShard_def)
    moreover have "readableShard env ?s j \<and> shardFine k (si_next idx) j (storedShard env ?s j)"
      using ok clean [OF None] j by (simp add: index_ok_def shards_ok_def)
    ultimately show ?thesis using kept [OF j None] by simp
  qed (use written [OF j] in blast)
  have base: "?e j (baseShard env s' j)" for j
  proof (cases "j \<in> set (si_shardIds idx)")
    case False
    then have "posts (shardAt env ?s j) t \<inter> live ?s = {}" for t using live_post_listed [OF ok, of _ j t] by auto
    moreover have "shardFine k (si_next idx) j (shardAt env ?s j)" using ok by (simp add: index_parts)
    ultimately show ?thesis using False by (auto simp: baseShard_def s'_def shardFine_def)
  qed (use st [of j] in \<open>simp add: baseShard_def s'_def\<close>)
  have at: "?e j (shardAt env s' j)" for j
  proof (cases "map_of (si_cache idx) j")
    case None
    then have "shardAt env s' j = baseShard env s' j" by (simp add: shardAt_def s'_def)
    then show ?thesis using base by simp
  next
    case (Some c)
    then have "shardAt env s' j = shardAt env ?s j" by (simp add: shardAt_def s'_def)
    then show ?thesis using ok by (simp add: index_ok_def shards_ok_def)
  qed
  then show "\<And>t. posts (shardAt env s' j) t \<inter> live ?s = posts (shardAt env ?s j) t \<inter> live ?s" by blast
  have lv: "live s' = live ?s" by (simp add: live_def s'_def)
  have f: "files_ok env ?s" using ok by (simp add: index_ok_def)
  have nodel: "''files'' \<notin> set ds" using ds by (auto simp: goodDeletes_def)
  have files: "siRead env s' ''files'' = (if \<exists>p. (''files'', p) \<in> set qs then Inr (Some (filesText env (filesAt env ?s))) else siRead env ?s ''files'')"
  proof (cases "map_of (rev qs) ''files''")
    case None
    then have "(''files'', p) \<notin> set qs" for p using weak_map_of_SomeI [of "''files''" p "rev qs"] by auto
    then show ?thesis using rd [of "''files''"] None nodel by simp
  next
    case (Some p)
    then have q: "(''files'', p) \<in> set qs" using map_of_SomeD [of "rev qs" "''files''" p] by simp
    then have "p = filesText env (filesAt env ?s)" using bspec [OF qs [unfolded goodPuts_def] q] by simp
    then have "siRead env s' ''files'' = Inr (Some (filesText env (filesAt env ?s)))" using rd [of "''files''"] Some nodel by simp
    then show ?thesis using q by auto
  qed
  have fs: "readableFiles env s' \<and> storedFiles env s' = (if \<exists>p. (''files'', p) \<in> set qs then filesAt env ?s else storedFiles env ?s)"
  proof (cases "\<exists>p. (''files'', p) \<in> set qs")
    case True
    have "distinct (map fst (filesAt env ?s))" using f by (simp add: files_ok_def)
    then show ?thesis using True files laws fold_update_fresh [of "filesAt env ?s" "[]"]
      by (simp add: readableFiles_def storedFiles_def search_laws_def)
  next
    case False
    then show ?thesis using files f by (simp add: readableFiles_def storedFiles_def files_ok_def)
  qed
  have fi: "si_files (snd s') = si_files idx" by (simp add: s'_def)
  have fa: "filesAt env s' = filesAt env ?s"
  proof (cases "si_files idx")
    case None
    then have "filesAt env ?s = storedFiles env ?s" by (simp add: filesAt_def)
    then show ?thesis using fs fi None by (simp add: filesAt_def split: if_splits)
  qed (use fi in \<open>simp add: filesAt_def\<close>)
  have "files_ok env s'"
    using f fs fdirty unfolding files_ok_def fa lv by (auto simp: s'_def split: if_splits)
  moreover have "shards_ok env k s'" using at st by (simp add: shards_ok_def s'_def)
  moreover have "cache_ok env s'" using ok at base lv by (simp add: index_parts s'_def)
  moreover have "docs_ok s'" using ok lv by (simp add: index_ok_def docs_ok_def s'_def)
  ultimately show "index_ok env k s'" using key by (simp add: index_ok_def s'_def)
  show "contents env s' = contents env ?s"
    by (rule contents_cong) (use ok at fa in \<open>simp_all add: index_ok_def s'_def\<close>)
qed

subsection \<open>Flushing\<close>

lemma evictFrom_sub:
  "set (evictFrom dirty n c) \<subseteq> set c" "distinct (map fst c) \<Longrightarrow> distinct (map fst (evictFrom dirty n c))"
  "(j, v) \<in> set c \<Longrightarrow> j \<in> set dirty \<Longrightarrow> (j, v) \<in> set (evictFrom dirty n c)"
proof -
  show sub: "set (evictFrom dirty n c) \<subseteq> set c" for n by (induction dirty n c rule: evictFrom.induct) auto
  show "distinct (map fst c) \<Longrightarrow> distinct (map fst (evictFrom dirty n c))"
  proof (induction dirty n c rule: evictFrom.induct)
    case (2 dirty tot id' sh n rest)
    have "set (evictFrom dirty m rest) \<subseteq> set rest" for m by (induction dirty m rest rule: evictFrom.induct) auto
    then show ?case using 2 by force
  qed simp
  show "(j, v) \<in> set c \<Longrightarrow> j \<in> set dirty \<Longrightarrow> (j, v) \<in> set (evictFrom dirty n c)"
    by (induction dirty n c rule: evictFrom.induct) auto
qed

lemma evict_ok:
  assumes "index_ok env k (db, idx)"
  shows "index_ok env k (db, evict idx)" "contents env (db, evict idx) = contents env (db, idx)"
proof -
  let ?c = "evictFrom (si_dirty idx) (sum_list (map (\<lambda>(_, _, n). n) (si_cache idx))) (si_cache idx)"
  have d: "distinct (map fst (si_cache idx))" using assms by (simp add: index_parts)
  have keep: "map_of ?c j \<noteq> None" if j: "j \<in> set (si_dirty idx)" for j
  proof -
    obtain v where "map_of (si_cache idx) j = Some v" using dirty_cached [OF assms, of j] j by auto
    then have "(j, v) \<in> set ?c" using evictFrom_sub(3) [OF map_of_SomeD j] by blast
    then show ?thesis using weak_map_of_SomeI [of j v ?c] by auto
  qed
  have val: "sh = shardAt env (db, idx) j" if "map_of ?c j = Some (sh, n)" for j sh n
  proof -
    have "(j, sh, n) \<in> set (si_cache idx)" using map_of_SomeD [OF that] evictFrom_sub(1) by blast
    then show ?thesis using d by (simp add: shardAt_def)
  qed
  show "index_ok env k (db, evict idx)" "contents env (db, evict idx) = contents env (db, idx)"
    using recache(1,2) [OF assms refl evictFrom_sub(2) [OF d] keep val] by (simp_all add: evict_def)
qed

lemma map_of_resize: "map_of (resize dirty c) j = map_option (\<lambda>(sh, n). (sh, if j \<in> set dirty then length (encodeShard sh) else n)) (map_of c j)"
  by (induction c) (auto simp: resize_def)

lemma resize_ok:
  assumes "index_ok env k (db, idx)"
  defines "idx' \<equiv> idx\<lparr>si_cache := resize (si_dirty idx) (si_cache idx)\<rparr>"
  shows "index_ok env k (db, idx')" "contents env (db, idx') = contents env (db, idx)" "shardAt env (db, idx') j = shardAt env (db, idx) j"
proof -
  let ?c = "resize (si_dirty idx) (si_cache idx)"
  have "map fst ?c = map fst (si_cache idx)" by (induction "si_cache idx") (auto simp: resize_def)
  then have d: "distinct (map fst ?c)" using assms(1) by (simp add: index_parts)
  have keep: "\<And>j. j \<in> set (si_dirty idx) \<Longrightarrow> map_of ?c j \<noteq> None" using dirty_cached [OF assms(1)] by (auto simp: map_of_resize)
  have val: "\<And>j sh n. map_of ?c j = Some (sh, n) \<Longrightarrow> sh = shardAt env (db, idx) j" by (auto simp: map_of_resize shardAt_def)
  show "index_ok env k (db, idx')" "contents env (db, idx') = contents env (db, idx)" "shardAt env (db, idx') j = shardAt env (db, idx) j"
    using recache(1,2) [OF assms(1) refl d keep val] recache(3) [OF assms(1) refl d keep val, where j' = j] by (simp_all add: idx'_def map_of_resize)
qed

text \<open>The plaintexts a flush seals.\<close>

definition flushPlain :: "search_env \<Rightarrow> SearchIndex \<Rightarrow> (string \<times> bytes) list" where
  "flushPlain env idx =
     List.map_filter (\<lambda>j. map_option (\<lambda>(sh, _). (''s/'' @ j, encodeShard sh)) (map_of (si_cache idx) j)) (si_dirty idx)
       @ (case (si_filesDirty idx, si_files idx) of (True, Some files) \<Rightarrow> [(''files'', filesText env files)] | _ \<Rightarrow> [])
       @ [(''manifest'', manifestText env (manifestJSON idx))]"

lemma flushNow_puts:
  "shardPuts env ivf idx (si_dirty idx)
     @ (case (si_filesDirty idx, si_files idx) of (True, Some files) \<Rightarrow> [siSeal env ivf idx ''files'' (filesText env files)] | _ \<Rightarrow> [])
     @ [manifestPut env ivf idx]
   = map (\<lambda>(sl, p). siSeal env ivf idx sl p) (flushPlain env idx)"
proof -
  have "shardPuts env ivf idx l = map (\<lambda>(sl, p). siSeal env ivf idx sl p)
      (List.map_filter (\<lambda>j. map_option (\<lambda>(sh, _). (''s/'' @ j, encodeShard sh)) (map_of (si_cache idx) j)) l)" for l
    by (induction l) (auto simp: shardPuts_def List.map_filter_def)
  then show ?thesis by (auto simp: flushPlain_def manifestPut_def split: option.splits bool.splits)
qed

lemma flushNow_run:
  "flushNow env ivf commits (db, idx) =
     (if \<not> pending idx then ((db, idx), None)
      else if \<not> commits then ((db, idx\<lparr>si_cache := resize (si_dirty idx) (si_cache idx)\<rparr>), Some TxAborted)
      else ((idbPutMany (map (\<lambda>(sl, p). siSeal env ivf idx sl p) (flushPlain env idx)) [] db,
             evict (idx\<lparr>si_cache := resize (si_dirty idx) (si_cache idx), si_dirty := [], si_filesDirty := False, si_manifestDirty := False\<rparr>)), None))"
  unfolding flushNow_def flushNow_puts by (simp add: Let_def)

lemma flushPlain_mem:
  assumes "(slot, p) \<in> set (flushPlain env idx)"
  shows "slot = ''manifest'' \<or> (\<exists>f. slot = ''files'' \<and> si_files idx = Some f \<and> p = filesText env f)
    \<or> (\<exists>j sh n. slot = ''s/'' @ j \<and> map_of (si_cache idx) j = Some (sh, n) \<and> p = encodeShard sh)"
proof -
  from assms consider "(slot, p) \<in> set (List.map_filter (\<lambda>j. map_option (\<lambda>(sh, _). (''s/'' @ j, encodeShard sh)) (map_of (si_cache idx) j)) (si_dirty idx))"
    | "(slot, p) \<in> set (case (si_filesDirty idx, si_files idx) of (True, Some files) \<Rightarrow> [(''files'', filesText env files)] | _ \<Rightarrow> [])"
    | "slot = ''manifest''" by (auto simp: flushPlain_def)
  then show ?thesis
  proof cases
    case 1
    then show ?thesis by (auto simp: List.map_filter_def)
  next
    case 2
    then show ?thesis by (cases "si_filesDirty idx"; cases "si_files idx") simp_all
  qed simp
qed

lemma flushPlain_good:
  assumes "index_ok env k (db, idx)"
  shows "goodPuts env k (db, idx) (flushPlain env idx)"
    and "j \<in> set (si_dirty idx) \<Longrightarrow> \<exists>p. (''s/'' @ j, p) \<in> set (flushPlain env idx)"
    and "si_filesDirty idx \<Longrightarrow> \<exists>p. (''files'', p) \<in> set (flushPlain env idx)"
    and "map_of (rev (flushPlain env idx)) ''manifest'' = Some (manifestText env (manifestJSON idx))"
proof -
  have fine: "shardFine k (si_next idx) j (shardAt env (db, idx) j)" for j using assms by (simp add: index_parts)
  have at: "map_of (si_cache idx) j = Some (sh, n) \<Longrightarrow> sh = shardAt env (db, idx) j" for j sh n by (simp add: shardAt_def)
  have fa: "si_files idx = Some f \<Longrightarrow> f = filesAt env (db, idx)" for f by (simp add: filesAt_def)
  show "goodPuts env k (db, idx) (flushPlain env idx)"
    unfolding goodPuts_def
  proof (rule ballI, clarify)
    fix slot p
    assume q: "(slot, p) \<in> set (flushPlain env idx)" and nm: "slot \<noteq> ''manifest''"
      and ns: "\<nexists>j sh. slot = ''s/'' @ j \<and> p = encodeShard sh \<and> shardFine k (si_next (snd (db, idx))) j sh
          \<and> (\<forall>t. posts sh t \<inter> live (db, idx) = posts (shardAt env (db, idx) j) t \<inter> live (db, idx))"
    from flushPlain_mem [OF q] nm consider f where "slot = ''files''" "si_files idx = Some f" "p = filesText env f"
      | j sh n where "slot = ''s/'' @ j" "map_of (si_cache idx) j = Some (sh, n)" "p = encodeShard sh" by blast
    then show "slot = ''files'' \<and> p = filesText env (filesAt env (db, idx))"
    proof cases
      case 1
      then show ?thesis using fa by simp
    next
      case (2 j sh n)
      then show ?thesis using ns fine [of j] at [OF 2(2)] by auto
    qed
  qed
  show "j \<in> set (si_dirty idx) \<Longrightarrow> \<exists>p. (''s/'' @ j, p) \<in> set (flushPlain env idx)"
    using dirty_cached [OF assms, of j] by (force simp: flushPlain_def List.map_filter_def image_iff)
  show "si_filesDirty idx \<Longrightarrow> \<exists>p. (''files'', p) \<in> set (flushPlain env idx)"
    using assms by (auto simp: index_ok_def files_ok_def flushPlain_def)
  show "map_of (rev (flushPlain env idx)) ''manifest'' = Some (manifestText env (manifestJSON idx))"
    by (simp add: flushPlain_def)
qed

lemma flushNow_ok:
  assumes "index_ok env k s" "search_laws env" "iv_ok ivf"
  shows "\<exists>s'. flushNow env ivf commits s = (s', if pending (snd s) \<and> \<not> commits then Some TxAborted else None)
     \<and> index_ok env k s' \<and> contents env s' = contents env s"
    and "commits \<Longrightarrow> si_dirty (snd (fst (flushNow env ivf commits s))) = []"
proof -
  obtain db idx where s: "s = (db, idx)" by (cases s)
  define idx' where "idx' = idx\<lparr>si_cache := resize (si_dirty idx) (si_cache idx)\<rparr>"
  have ok: "index_ok env k (db, idx)" using assms(1) s by simp
  note r = resize_ok [OF ok, folded idx'_def]
  have fp: "flushPlain env idx' = flushPlain env idx"
    by (simp add: flushPlain_def idx'_def List.map_filter_def map_of_resize manifestJSON_def comp_def option.map_comp case_prod_unfold)
  have seal: "siSeal env ivf idx' = siSeal env ivf idx" by (simp add: fun_eq_iff siSeal_def slotOf_def idx'_def)
  let ?m = "(idbPutMany (map (\<lambda>(sl, p). siSeal env ivf idx sl p) (flushPlain env idx)) [] db,
      idx'\<lparr>si_dirty := [], si_filesDirty := False, si_manifestDirty := False\<rparr>)"
  have g: "goodDeletes (db, idx') []" by (simp add: goodDeletes_def)
  note c = commit_ok [OF r(1) assms(2,3) flushPlain_good(1) [OF r(1)] g flushPlain_good(2,3) [OF r(1)], where m = False]
  have m: "index_ok env k ?m" "contents env ?m = contents env s"
    using c(1,2) r(2) s by (simp_all add: fp seal)
  note e = evict_ok [OF m(1)]
  have run: "flushNow env ivf commits s =
      (if \<not> pending idx then (s, None) else if \<not> commits then ((db, idx'), Some TxAborted) else ((fst ?m, evict (snd ?m)), None))"
    by (simp add: s flushNow_run idx'_def)
  show "\<exists>s'. flushNow env ivf commits s = (s', if pending (snd s) \<and> \<not> commits then Some TxAborted else None)
     \<and> index_ok env k s' \<and> contents env s' = contents env s"
    unfolding run using r s e m assms(1) by auto
  show "commits \<Longrightarrow> si_dirty (snd (fst (flushNow env ivf commits s))) = []"
    unfolding run using s by (auto simp: pending_def evict_def)
qed

text \<open>After a committed flush any instance over the same database that reloads holds the same messages.\<close>

lemma forget_files:
  assumes "index_ok env k (db, idx)" "\<not> si_filesDirty idx"
  shows "index_ok env k (db, idx\<lparr>si_files := None\<rparr>)" "contents env (db, idx\<lparr>si_files := None\<rparr>) = contents env (db, idx)"
proof -
  let ?s = "(db, idx)" and ?s' = "(db, idx\<lparr>si_files := None\<rparr>)"
  have st: "storedShard env ?s' = storedShard env ?s" "storedFiles env ?s' = storedFiles env ?s"
      "readableShard env ?s' = readableShard env ?s" "readableFiles env ?s' = readableFiles env ?s"
    using stored_cong [of ?s' ?s env] by simp_all
  have at: "shardAt env ?s' = shardAt env ?s" "baseShard env ?s' = baseShard env ?s" using shardAt_cong [of ?s' ?s env] st(1) by simp_all
  have lv: "live ?s' = live ?s" by (simp add: live_def)
  have fa: "filesAt env ?s' = storedFiles env ?s" using st(2) by (simp add: filesAt_def)
  have f: "files_ok env ?s" using assms(1) by (simp add: index_ok_def)
  have fold_dist: "distinct (map fst (fold (\<lambda>(d, ns). AList.update d ns) l acc))"
    if "distinct (map fst acc)" for l :: "(nat \<times> string list) list" and acc using that by (induction l arbitrary: acc) (auto simp: distinct_update)
  have "distinct (map fst (storedFiles env ?s))" using fold_dist [of "[]"] by (auto simp: storedFiles_def split: sum.splits option.splits)
  then have "files_ok env ?s'" using f assms(2) by (simp add: files_ok_def fa st lv)
  then show "index_ok env k ?s'" using assms(1) st at lv by (simp add: index_ok_def docs_ok_def shards_ok_def cache_ok_def)
  show "contents env ?s' = contents env ?s"
    by (rule contents_cong) (use assms f at fa in \<open>simp_all add: index_ok_def files_ok_def\<close>)
qed

lemma index_ok_view:
  assumes "index_ok env k (db, idx)" "si_ns idx' = si_ns idx" "si_key idx' = si_key idx" "si_next idx' = si_next idx"
    and "si_docs idx' = si_docs idx" "map_of (si_byDoc idx') = map_of (si_byDoc idx)" "si_shardIds idx' = si_shardIds idx"
    and "si_cache idx' = si_cache idx" "si_dirty idx' = si_dirty idx" "si_files idx' = si_files idx" "si_filesDirty idx' = si_filesDirty idx"
  shows "index_ok env k (db, idx')" "contents env (db, idx') = contents env (db, idx)"
proof -
  let ?s = "(db, idx)" and ?s' = "(db, idx')"
  have st: "storedShard env ?s' = storedShard env ?s" "storedFiles env ?s' = storedFiles env ?s"
      "readableShard env ?s' = readableShard env ?s" "readableFiles env ?s' = readableFiles env ?s"
    using stored_cong [of ?s' ?s env] assms by simp_all
  have at: "shardAt env ?s' = shardAt env ?s" "baseShard env ?s' = baseShard env ?s" using shardAt_cong [of ?s' ?s env] st(1) assms by simp_all
  have lv: "live ?s' = live ?s" using assms by (simp add: live_def)
  have fa: "filesAt env ?s' = filesAt env ?s" using st(2) assms by (simp add: filesAt_def cong: option.case_cong)
  show "index_ok env k ?s'" using assms st at lv fa by (simp add: index_ok_def docs_ok_def shards_ok_def cache_ok_def files_ok_def)
  show "contents env ?s' = contents env ?s" using assms at fa by (simp add: contents_def fun_eq_iff)
qed

lemma setAdd_distinct: "distinct l \<Longrightarrow> set l \<inter> set acc = {} \<Longrightarrow> fold setAdd l acc = acc @ l"
  by (induction l arbitrary: acc) (auto simp: setAdd_def)

lemma byDoc_reloaded:
  assumes "docs_ok (db, idx)"
  shows "map_of (fold (\<lambda>(h, d). AList.update d h) (si_docs idx) []) = map_of (si_byDoc idx)"
proof
  fix d
  let ?r = "rev (map prod.swap (si_docs idx))"
  have dist: "distinct (map fst (si_docs idx))" and inv: "\<And>h d. map_of (si_docs idx) h = Some d \<longleftrightarrow> map_of (si_byDoc idx) d = Some h"
    using assms by (simp_all add: docs_ok_def)
  have swap: "fold (\<lambda>(h, d). AList.update d h) l m = fold (\<lambda>(k, v). AList.update k v) (map prod.swap l) m"
    for l :: "(string \<times> nat) list" and m by (induction l arbitrary: m) auto
  have to: "map_of ?r d = Some h \<Longrightarrow> map_of (si_byDoc idx) d = Some h" for h
    using map_of_SomeD [of ?r d h] inv [of h d] map_of_is_SomeI [OF dist, of h d] by auto
  have "map_of (si_byDoc idx) d = Some h \<Longrightarrow> map_of ?r d \<noteq> None" for h
    using inv [of h d] map_of_SomeD [of "si_docs idx" h d] weak_map_of_SomeI [of d h ?r] by force
  then have "map_of ?r d = map_of (si_byDoc idx) d" using to by (cases "map_of ?r d"; cases "map_of (si_byDoc idx) d") auto
  then show "map_of (fold (\<lambda>(h, d). AList.update d h) (si_docs idx) []) d = map_of (si_byDoc idx) d"
    unfolding swap map_of_puts by simp
qed

lemma reload_after_flush:
  assumes "index_ok env k s" "search_laws env" "iv_ok ivf" "pending (snd s)" "flushNow env ivf True s = (s1, None)"
    and tab: "si_ns tab = si_ns (snd s)" "si_key tab = si_key (snd s)" "si_dirty tab = []" "\<not> si_filesDirty tab"
  shows "\<exists>s2. reloadIndex env (fst s1, tab) = (s2, None) \<and> index_ok env k s2 \<and> contents env s2 = contents env s"
proof -
  obtain db idx where s: "s = (db, idx)" by (cases s)
  have ok: "index_ok env k (db, idx)" using assms(1) s by simp
  define db' where "db' = idbPutMany (map (\<lambda>(sl, p). siSeal env ivf idx sl p) (flushPlain env idx)) (map (slotOf idx) []) db"
  define m where "m = idx\<lparr>si_dirty := [], si_filesDirty := False, si_manifestDirty := False\<rparr>"
  have g: "goodDeletes (db, idx) []" by (simp add: goodDeletes_def)
  note c = commit_ok [OF ok assms(2,3) flushPlain_good(1) [OF ok] g flushPlain_good(2,3) [OF ok], where m = False, folded db'_def m_def]
  have r: "index_ok env k (db', m\<lparr>si_cache := []\<rparr>)" "contents env (db', m\<lparr>si_cache := []\<rparr>) = contents env (db', m)"
    using recache(1,2) [OF c(1) refl, of "[]"] by (simp_all add: m_def)
  have f: "index_ok env k (db', m\<lparr>si_cache := [], si_files := None\<rparr>)"
      "contents env (db', m\<lparr>si_cache := [], si_files := None\<rparr>) = contents env (db', m)"
    using forget_files [OF r(1)] r(2) by (simp_all add: m_def)
  have db: "fst s1 = db'" using assms(4,5) s by (auto simp: flushNow_run db'_def)
  have mani: "siRead env (db', tab\<lparr>si_cache := [], si_files := None\<rparr>) ''manifest'' = Inr (Some (manifestText env (manifestJSON idx)))"
    unfolding db'_def using siRead_puts [OF _ assms(3), of env idx] assms(2) tab s ok flushPlain_good(4) [OF ok]
    by (simp add: search_laws_def index_ok_def del: list.map)
  let ?t = "tab\<lparr>si_cache := [], si_files := None, si_docs := si_docs idx, si_byDoc := fold (\<lambda>(h, d). AList.update d h) (si_docs idx) [],
      si_shardIds := si_shardIds idx, si_next := si_next idx, si_orphans := si_orphans idx\<rparr>"
  have "docs_ok (db, idx)" "distinct (si_shardIds idx)" "distinct (map fst (si_docs idx))" using ok by (simp_all add: index_parts)
  then have d: "map_of (fold (\<lambda>(h, d). AList.update d h) (si_docs idx) []) = map_of (si_byDoc idx)"
      "fold setAdd (si_shardIds idx) [] = si_shardIds idx" "fold (\<lambda>(h, d). AList.update h d) (si_docs idx) [] = si_docs idx"
    using byDoc_reloaded setAdd_distinct [of "si_shardIds idx" "[]"] fold_update_fresh [of "si_docs idx" "[]"] by auto
  have run: "reloadIndex env (fst s1, tab) = ((db', ?t), None)"
    using mani assms(2) d(2,3) by (simp add: reloadIndex_def loadManifest_def db search_laws_def manifestJSON_def Let_def)
  have "index_ok env k (db', ?t)" "contents env (db', ?t) = contents env (db', m\<lparr>si_cache := [], si_files := None\<rparr>)"
    using index_ok_view [OF f(1), of ?t] tab s d(1) by (simp_all add: m_def)
  then show ?thesis using run f(2) c(2) s by auto
qed

end
