(* ===== verification/Search_Compact.thy ===== *)
theory Search_Compact
  imports Search_Flush
begin

section \<open>Compaction of the search index\<close>

text \<open>
  \<open>compact\<close> of \<open>lib/search/indexStore.ts\<close> sweeps the postings of removed messages out of the shards, 32 at
  a time, each batch in a transaction. Whatever transaction aborts, the index holds what it held.
\<close>

subsection \<open>A swept shard in the cache\<close>

lemma reshard_ok:
  assumes ok: "index_ok env k (db, idx)" and dirty: "si_dirty idx = []" and dc: "distinct (map fst c)" and di: "distinct ids"
    and sub: "set ids \<subseteq> set (si_shardIds idx)"
  defines "s' \<equiv> (db, idx\<lparr>si_cache := c, si_shardIds := ids\<rparr>)"
  assumes fine: "\<And>j. shardFine k (si_next idx) j (shardAt env s' j)"
    and at: "\<And>j t. posts (shardAt env s' j) t \<inter> live (db, idx) = posts (shardAt env (db, idx) j) t \<inter> live (db, idx)"
    and base: "\<And>j t. posts (baseShard env s' j) t \<inter> live (db, idx) = posts (baseShard env (db, idx) j) t \<inter> live (db, idx)"
  shows "index_ok env k s'" "contents env s' = contents env (db, idx)" "live s' = live (db, idx)" "filesAt env s' = filesAt env (db, idx)"
proof -
  let ?s = "(db, idx)"
  have st: "storedShard env s' = storedShard env ?s" "storedFiles env s' = storedFiles env ?s"
      "readableShard env s' = readableShard env ?s" "readableFiles env s' = readableFiles env ?s"
    using stored_cong [of s' ?s env] by (simp_all add: s'_def)
  show lv: "live s' = live ?s" by (simp add: live_def s'_def)
  show fa: "filesAt env s' = filesAt env ?s" using st(2) by (simp add: filesAt_def s'_def cong: option.case_cong)
  have "posts (shardAt env ?s j) t \<inter> live ?s = posts (baseShard env ?s j) t \<inter> live ?s" for j t
    using ok dirty by (simp add: index_parts)
  then have "cache_ok env s'" using dc di dirty at base lv by (simp add: cache_ok_def s'_def)
  moreover have "shards_ok env k s'"
  proof -
    have "readableShard env ?s j \<and> shardFine k (si_next idx) j (storedShard env ?s j)" if "j \<in> set ids" for j
      using ok dirty sub that by (auto simp: index_ok_def shards_ok_def)
    then show ?thesis using fine st dirty by (simp add: shards_ok_def) (simp add: s'_def)
  qed
  moreover have "docs_ok s'" "files_ok env s'" using ok st lv fa by (simp_all add: index_ok_def docs_ok_def files_ok_def) (simp_all add: s'_def)
  ultimately show "index_ok env k s'" using ok by (simp add: index_ok_def s'_def)
  show "contents env s' = contents env ?s"
    by (rule contents_cong) (use ok at fa in \<open>simp_all add: index_ok_def s'_def\<close>)
qed

text \<open>What a batch carries: a sound state with nothing dirty, and sound writes and deletions.\<close>

definition batch_ok :: "search_env \<Rightarrow> nat \<Rightarrow> (string \<Rightarrow> bytes) \<Rightarrow> srch \<times> (string \<times> cache_value) list \<times> string list \<Rightarrow> bool" where
  "batch_ok env k ivf st \<longleftrightarrow> (case st of (s, puts, deletes) \<Rightarrow>
     index_ok env k s \<and> si_dirty (snd s) = [] \<and> \<not> si_filesDirty (snd s) \<and>
     (\<exists>qs ds. puts = map (\<lambda>(sl, p). siSeal env ivf (snd s) sl p) qs \<and> deletes = map (slotOf (snd s)) ds
        \<and> goodPuts env k s qs \<and> goodDeletes s ds))"

lemma good_cong:
  assumes "si_next (snd s') = si_next (snd s)" "live s' = live s" "filesAt env s' = filesAt env s"
    and "\<And>j t. posts (shardAt env s' j) t \<inter> live s = posts (shardAt env s j) t \<inter> live s"
    and "set (si_shardIds (snd s')) \<subseteq> set (si_shardIds (snd s))"
  shows "goodPuts env k s qs \<Longrightarrow> goodPuts env k s' qs" "goodDeletes s ds \<Longrightarrow> goodDeletes s' ds"
  using assms unfolding goodPuts_def goodDeletes_def by (simp, blast)

lemma seal_cong: "si_ns idx' = si_ns idx \<Longrightarrow> si_key idx' = si_key idx \<Longrightarrow> siSeal env ivf idx' = siSeal env ivf idx \<and> slotOf idx' = slotOf idx"
  by (simp add: siSeal_def slotOf_def fun_eq_iff)

lemma swept_ok:
  fixes n :: nat
  assumes ok: "index_ok env k (db, idx)" and dirty: "si_dirty idx = []"
    and sh: "shardFine k (si_next idx) j sh" "\<And>t. posts sh t \<inter> live (db, idx) = posts (shardAt env (db, idx) j) t \<inter> live (db, idx)"
  defines "s' \<equiv> (db, idx\<lparr>si_cache := AList.update j (sh, n) (si_cache idx)\<rparr>)"
  shows "index_ok env k s'" "contents env s' = contents env (db, idx)" "live s' = live (db, idx)" "filesAt env s' = filesAt env (db, idx)"
    and "posts (shardAt env s' i) t \<inter> live (db, idx) = posts (shardAt env (db, idx) i) t \<inter> live (db, idx)" "shardAt env s' j = sh"
proof -
  have s': "s' = (db, idx\<lparr>si_cache := AList.update j (sh, n) (si_cache idx), si_shardIds := si_shardIds idx\<rparr>)" by (simp add: s'_def)
  have st: "storedShard env s' = storedShard env (db, idx)" using stored_cong(1) [of s' "(db, idx)" env] by (simp add: s'_def)
  have base: "baseShard env s' = baseShard env (db, idx)" using st by (simp add: baseShard_def fun_eq_iff) (simp add: s'_def)
  have at: "shardAt env s' i = (if i = j then sh else shardAt env (db, idx) i)" for i
    using base by (simp add: shardAt_def) (simp add: s'_def cong: option.case_cong)
  have d: "distinct (map fst (AList.update j (sh, n) (si_cache idx)))" "distinct (si_shardIds idx)" using ok by (simp_all add: index_parts distinct_update)
  have fine: "shardFine k (si_next idx) i (shardAt env s' i)" for i using ok sh(1) at by (simp add: index_parts)
  show "shardAt env s' j = sh" using at by simp
  show live: "posts (shardAt env s' i) t \<inter> live (db, idx) = posts (shardAt env (db, idx) i) t \<inter> live (db, idx)" for i t
    using at sh(2) by simp
  show "index_ok env k s'" "contents env s' = contents env (db, idx)" "live s' = live (db, idx)" "filesAt env s' = filesAt env (db, idx)"
    using reshard_ok [OF ok dirty d subset_refl, folded s', OF fine live] base by simp_all
qed

lemma dropped_ok:
  assumes ok: "index_ok env k (db, idx)" and dirty: "si_dirty idx = []"
    and sh: "\<And>t. posts (shardAt env (db, idx) j) t \<inter> live (db, idx) = {}"
  defines "s' \<equiv> (db, idx\<lparr>si_shardIds := remove1 j (si_shardIds idx), si_cache := AList.delete j (si_cache idx)\<rparr>)"
  shows "index_ok env k s'" "contents env s' = contents env (db, idx)" "live s' = live (db, idx)" "filesAt env s' = filesAt env (db, idx)"
    and "posts (shardAt env s' i) t \<inter> live (db, idx) = posts (shardAt env (db, idx) i) t \<inter> live (db, idx)"
    and "set (si_shardIds (snd s')) = set (si_shardIds idx) - {j}"
proof -
  have s': "s' = (db, idx\<lparr>si_cache := AList.delete j (si_cache idx), si_shardIds := remove1 j (si_shardIds idx)\<rparr>)" by (simp add: s'_def)
  have d: "distinct (map fst (si_cache idx))" "distinct (si_shardIds idx)" using ok by (simp_all add: index_parts)
  show ids: "set (si_shardIds (snd s')) = set (si_shardIds idx) - {j}" using d(2) by (simp add: s'_def set_remove1_eq)
  have st: "storedShard env s' = storedShard env (db, idx)" using stored_cong(1) [of s' "(db, idx)" env] by (simp add: s'_def)
  have base: "baseShard env s' i = (if i = j then [] else baseShard env (db, idx) i)" for i using st ids by (simp add: baseShard_def)
  have at: "shardAt env s' i = (if i = j then [] else shardAt env (db, idx) i)" for i
  proof -
    have "map_of (si_cache (snd s')) i = (if i = j then None else map_of (si_cache idx) i)" by (simp add: s'_def delete_conv)
    then show ?thesis using base [of i] by (cases "i = j") (simp_all add: shardAt_def cong: option.case_cong)
  qed
  have clean: "posts (shardAt env (db, idx) i) t \<inter> live (db, idx) = posts (baseShard env (db, idx) i) t \<inter> live (db, idx)" for i t
    using ok dirty by (simp add: index_parts)
  have fine: "shardFine k (si_next idx) i (shardAt env s' i)" for i
  proof -
    have "shardFine k (si_next idx) i (shardAt env (db, idx) i)" using ok by (simp add: index_parts)
    then show ?thesis using at by (auto simp: shardFine_def)
  qed
  show live: "posts (shardAt env s' i) t \<inter> live (db, idx) = posts (shardAt env (db, idx) i) t \<inter> live (db, idx)" for i t
    using at sh by simp
  have lb: "posts (baseShard env s' i) t \<inter> live (db, idx) = posts (baseShard env (db, idx) i) t \<inter> live (db, idx)" for i t
    using base clean [of i t] sh [of t] by auto
  have d': "distinct (map fst (AList.delete j (si_cache idx)))" "distinct (remove1 j (si_shardIds idx))" "set (remove1 j (si_shardIds idx)) \<subseteq> set (si_shardIds idx)"
    using d by (simp_all add: set_remove1_eq)
  show "index_ok env k s'" "contents env s' = contents env (db, idx)" "live s' = live (db, idx)" "filesAt env s' = filesAt env (db, idx)"
    using reshard_ok [OF ok dirty d', folded s', OF fine live lb] by simp_all
qed

subsection \<open>A batch\<close>

lemma compactOne_ok:
  assumes "batch_ok env k ivf (s, puts, deletes)"
  shows "\<exists>s' puts' deletes'. compactOne env ivf j (s, puts, deletes) = ((s', puts', deletes'), None)
     \<and> batch_ok env k ivf (s', puts', deletes') \<and> contents env s' = contents env s"
proof -
  obtain qs ds where ok: "index_ok env k s" "si_dirty (snd s) = []" "\<not> si_filesDirty (snd s)"
    and q: "puts = map (\<lambda>(sl, p). siSeal env ivf (snd s) sl p) qs" "deletes = map (slotOf (snd s)) ds" "goodPuts env k s qs" "goodDeletes s ds"
    using assms by (auto simp: batch_ok_def)
  obtain s1 where s1: "getShard env j s = (s1, Inr (shardAt env s j))" "loaded env s s1" using getShard_ok [OF ok(1)] by metis
  obtain db idx where i: "s1 = (db, idx)" by (cases s1)
  note l = loaded_keeps [OF ok(1) s1(2)]
  obtain c where c: "s1 = (fst s, (snd s)\<lparr>si_cache := c\<rparr>)" using s1(2) by (auto simp: loaded_def)
  have idx: "index_ok env k (db, idx)" "si_dirty idx = []" "\<not> si_filesDirty idx" "shardAt env (db, idx) = shardAt env s"
    using l(1) l(3) l(10) ok i c by (auto simp: fun_eq_iff)
  have sc: "siSeal env ivf idx = siSeal env ivf (snd s)" "slotOf idx = slotOf (snd s)"
    using seal_cong [of idx "snd s" env ivf] i c by auto
  have fa: "filesAt env (db, idx) = filesAt env s"
    using stored_cong(2) [of "(db, idx)" s env] i c by (auto simp: filesAt_def cong: option.case_cong)
  have g: "goodPuts env k (db, idx) qs" "goodDeletes (db, idx) ds"
    using good_cong [of "(db, idx)" s env] q(3,4) l(7,9,5) i fa idx(4) by auto
  define sh' where "sh' = fst (dropDocs (\<lambda>d. map_of (si_byDoc idx) d = None) (shardAt env s j))"
  obtain removed where dd: "dropDocs (\<lambda>d. map_of (si_byDoc idx) d = None) (shardAt env s j) = (sh', removed)"
    by (cases "dropDocs (\<lambda>d. map_of (si_byDoc idx) d = None) (shardAt env s j)") (simp add: sh'_def)
  have wf: "shard_wf j (si_next idx) (shardAt env s j)" using shardAt_wf [OF idx(1), of j] idx(4) by simp
  note dw = dropDocs_wf [OF wf, of "\<lambda>d. map_of (si_byDoc idx) d = None", folded sh'_def]
  have fine: "shardFine k (si_next idx) j sh'"
  proof -
    have "shardFine k (si_next idx) j (shardAt env s j)" using idx(1,4) by (simp add: index_parts)
    then show ?thesis using dw(1,3) by (simp add: shardFine_def)
  qed
  have swept: "posts sh' t \<inter> live (db, idx) = posts (shardAt env (db, idx) j) t \<inter> live (db, idx)" for t
    using dw(2) [of t] idx(4) by (auto simp: live_def)
  have run: "compactOne env ivf j (s, puts, deletes) =
     (if removed = 0 then
        (((db, idx\<lparr>si_cache := AList.update j (sh', cachedBytes idx j) (si_cache idx)\<rparr>), puts, deletes), None)
      else if sh' = [] then
        (((db, idx\<lparr>si_shardIds := remove1 j (si_shardIds idx), si_cache := AList.delete j (si_cache idx)\<rparr>), puts, deletes @ [slotOf idx (''s/'' @ j)]), None)
      else (((db, idx\<lparr>si_cache := AList.update j (sh', length (encodeShard sh')) (si_cache idx)\<rparr>),
             puts @ [siSeal env ivf idx (''s/'' @ j) (encodeShard sh')], deletes), None))"
    using s1(1) i dd by (simp add: compactOne_def)
  have cs: "contents env (db, idx) = contents env s" using l(2) i by simp
  show ?thesis
  proof (cases "removed \<noteq> 0 \<and> sh' = []")
    case True
    let ?s' = "(db, idx\<lparr>si_shardIds := remove1 j (si_shardIds idx), si_cache := AList.delete j (si_cache idx)\<rparr>)"
    have "posts (shardAt env (db, idx) j) t \<inter> live (db, idx) = {}" for t using swept [of t] True by simp
    note d = dropped_ok [OF idx(1,2) this]
    have "goodPuts env k ?s' qs" "goodDeletes ?s' (ds @ [''s/'' @ j])"
      using good_cong [of ?s' "(db, idx)" env] d(3-6) g by (auto simp: goodDeletes_def)
    then have "batch_ok env k ivf (?s', puts, deletes @ [slotOf idx (''s/'' @ j)])"
      unfolding batch_ok_def using d(1) idx q(1,2) sc seal_cong [of "snd ?s'" idx env ivf]
      by (auto intro!: exI [of _ qs] exI [of _ "ds @ [''s/'' @ j]"])
    then show ?thesis using run True d(2) cs by auto
  next
    case False
    let ?s' = "\<lambda>n. (db, idx\<lparr>si_cache := AList.update j (sh', n) (si_cache idx)\<rparr>)"
    note d = swept_ok [OF idx(1,2) fine swept]
    have gn: "goodPuts env k (?s' n) qs" "goodDeletes (?s' n) ds" "goodPuts env k (?s' n) [(''s/'' @ j, encodeShard sh')]" for n
      using good_cong [of "?s' n" "(db, idx)" env] d(3-5) g fine d(6) swept by (simp_all add: goodPuts_def) blast+
    have b: "batch_ok env k ivf (?s' n, puts, deletes)" for n
      unfolding batch_ok_def using d(1) idx q(1,2) sc seal_cong [of "snd (?s' n)" idx env ivf] gn(1,2)
      by (auto intro!: exI [of _ qs] exI [of _ ds])
    have "goodPuts env k (?s' n) (qs @ [(''s/'' @ j, encodeShard sh')])" for n using gn(1,3) [of n] by (auto simp: goodPuts_def)
    then have b': "batch_ok env k ivf (?s' n, puts @ [siSeal env ivf idx (''s/'' @ j) (encodeShard sh')], deletes)" for n
      unfolding batch_ok_def using d(1) idx q(1,2) sc seal_cong [of "snd (?s' n)" idx env ivf] gn(2)
      by (auto intro!: exI [of _ "qs @ [(''s/'' @ j, encodeShard sh')]"] exI [of _ ds])
    show ?thesis using run False d(2) cs b b' by (cases "removed = 0") auto
  qed
qed

lemma compactBatch_ok:
  assumes "batch_ok env k ivf (s, puts, deletes)"
  shows "\<exists>s' puts' deletes'. compactBatch env ivf js (s, puts, deletes) = ((s', puts', deletes'), None)
     \<and> batch_ok env k ivf (s', puts', deletes') \<and> contents env s' = contents env s"
  using assms
proof (induction js arbitrary: s puts deletes)
  case (Cons j js)
  obtain s1 p1 d1 where 1: "compactOne env ivf j (s, puts, deletes) = ((s1, p1, d1), None)" "batch_ok env k ivf (s1, p1, d1)" "contents env s1 = contents env s"
    using compactOne_ok [OF Cons.prems, of j] by blast
  then show ?case using Cons.IH [OF 1(2)] by auto
qed auto

subsection \<open>All of it\<close>

lemma batch_commit:
  assumes "batch_ok env k ivf ((db, idx), puts, deletes)" "search_laws env" "iv_ok ivf"
  shows "batch_ok env k ivf ((idbPutMany puts deletes db, evict idx), [], [])"
    "contents env (idbPutMany puts deletes db, evict idx) = contents env (db, idx)"
proof -
  obtain qs ds where ok: "index_ok env k (db, idx)" "si_dirty idx = []" "\<not> si_filesDirty idx"
    and q: "puts = map (\<lambda>(sl, p). siSeal env ivf idx sl p) qs" "deletes = map (slotOf idx) ds" "goodPuts env k (db, idx) qs" "goodDeletes (db, idx) ds"
    using assms(1) by (auto simp: batch_ok_def)
  have same: "idx\<lparr>si_dirty := [], si_filesDirty := False, si_manifestDirty := si_manifestDirty idx\<rparr> = idx" using ok by simp
  have c: "index_ok env k (idbPutMany puts deletes db, idx)" "contents env (idbPutMany puts deletes db, idx) = contents env (db, idx)"
    using commit_ok(1,2) [OF ok(1) assms(2,3) q(3,4), where m = "si_manifestDirty idx"] ok q(1,2) same by simp_all
  note e = evict_ok [OF c(1)]
  show "batch_ok env k ivf ((idbPutMany puts deletes db, evict idx), [], [])"
    using e(1) ok by (auto simp: batch_ok_def evict_def goodPuts_def goodDeletes_def)
  show "contents env (idbPutMany puts deletes db, evict idx) = contents env (db, idx)" using e(2) c(2) by simp
qed

lemma compactBatches_ok:
  assumes "batch_ok env n ivf (s, [], [])" "search_laws env" "iv_ok ivf"
  shows "\<exists>s' e. compactBatches env ivf commits i ids s = (s', e) \<and> batch_ok env n ivf (s', [], []) \<and> contents env s' = contents env s
     \<and> (e = None \<or> e = Some TxAborted) \<and> ((\<forall>i. commits i) \<longrightarrow> e = None)"
  using assms
proof (induction env ivf commits i ids s rule: compactBatches.induct)
  case (1 env ivf commits i ids s)
  show ?case
  proof (cases "ids = []")
    case True
    then show ?thesis using "1.prems" by (subst compactBatches.simps) simp
  next
    case False
    obtain db idx puts deletes where b: "compactBatch env ivf (take 32 ids) (s, [], []) = (((db, idx), puts, deletes), None)"
        "batch_ok env n ivf ((db, idx), puts, deletes)" "contents env (db, idx) = contents env s"
      using compactBatch_ok [OF "1.prems"(1), of "take 32 ids"] by (metis surj_pair)
    note cm = batch_commit [OF b(2) "1.prems"(2,3)]
    have weak: "batch_ok env n ivf ((db, idx), [], [])" using b(2) by (auto simp: batch_ok_def goodPuts_def goodDeletes_def)
    consider "puts = [] \<and> deletes = []" | "\<not> (puts = [] \<and> deletes = [])" "\<not> commits i" | "\<not> (puts = [] \<and> deletes = [])" "commits i" by blast
    then show ?thesis
    proof cases
      case 1
      then have "idbPutMany puts deletes db = db" by (simp add: idbPutMany_def)
      then have e: "batch_ok env n ivf ((db, evict idx), [], [])" "contents env (db, evict idx) = contents env s" using cm b(3) by simp_all
      have "compactBatches env ivf commits i ids s = compactBatches env ivf commits (i + 1) (drop 32 ids) (db, evict idx)"
        using False b(1) 1 by (subst compactBatches.simps) simp
      then show ?thesis using "1.IH"(1) [OF False b(1) [symmetric] refl refl refl refl 1 e(1) "1.prems"(2,3)] e(2) by simp
    next
      case 2
      have "compactBatches env ivf commits i ids s = ((db, idx), Some TxAborted)" using False b(1) 2 by (subst compactBatches.simps) auto
      then show ?thesis using weak b(3) 2 by auto
    next
      case 3
      have "compactBatches env ivf commits i ids s = compactBatches env ivf commits (i + 1) (drop 32 ids) (idbPutMany puts deletes db, evict idx)"
        using False b(1) 3 by (subst compactBatches.simps) auto
      then show ?thesis using "1.IH"(2) [OF False b(1) [symmetric] refl refl refl refl 3(1) _ cm(1) "1.prems"(2,3)] 3(2) cm(2) b(3) by simp
    qed
  qed
qed

lemma compact_ok:
  assumes "index_ok env k s" "search_laws env" "iv_ok ivf"
  shows "\<exists>s' e. compact env ivf commits s = (s', e) \<and> index_ok env k s' \<and> contents env s' = contents env s
     \<and> (e = None \<or> e = Some TxAborted) \<and> ((\<forall>i. commits i) \<longrightarrow> e = None)"
proof -
  obtain s1 where f: "flushNow env ivf (commits 0) s = (s1, if pending (snd s) \<and> \<not> commits 0 then Some TxAborted else None)"
      "index_ok env k s1" "contents env s1 = contents env s"
    using flushNow_ok(1) [OF assms, of "commits 0"] by blast
  show ?thesis
  proof (cases "pending (snd s) \<and> \<not> commits 0")
    case True
    then show ?thesis using f by (auto simp: compact_def)
  next
    case False
    have clean: "si_dirty (snd s1) = []" "\<not> si_filesDirty (snd s1)"
      using False f(1) by (cases s; auto simp: flushNow_run pending_def evict_def split: if_splits)+
    then have b: "batch_ok env k ivf (s1, [], [])" using f(2) by (simp add: batch_ok_def goodPuts_def goodDeletes_def)
    obtain db idx e where c: "compactBatches env ivf commits 2 (si_shardIds (snd s1)) s1 = ((db, idx), e)" "batch_ok env k ivf ((db, idx), [], [])"
        "contents env (db, idx) = contents env s" "e = None \<or> e = Some TxAborted" "(\<forall>i. commits i) \<longrightarrow> e = None"
      using compactBatches_ok [OF b assms(2,3), of commits 2 "si_shardIds (snd s1)"] f(3) by (metis surj_pair)
    let ?i = "idx\<lparr>si_orphans := 0\<rparr>"
    have o: "index_ok env k (db, ?i)" "contents env (db, ?i) = contents env s" "si_dirty ?i = []" "\<not> si_filesDirty ?i"
      using index_ok_view [of env k db idx ?i] c(2,3) by (auto simp: batch_ok_def)
    have same: "?i\<lparr>si_dirty := [], si_filesDirty := False, si_manifestDirty := si_manifestDirty ?i\<rparr> = ?i" using o by simp
    have g: "goodPuts env k (db, ?i) [(''manifest'', manifestText env (manifestJSON ?i))]" "goodDeletes (db, ?i) []"
      by (simp_all add: goodPuts_def goodDeletes_def)
    have "index_ok env k (idbPutMany [manifestPut env ivf ?i] [] db, ?i)"
        "contents env (idbPutMany [manifestPut env ivf ?i] [] db, ?i) = contents env (db, ?i)"
      using commit_ok(1,2) [OF o(1) assms(2,3) g, where m = "si_manifestDirty ?i", unfolded same] o(3,4) by (simp_all add: manifestPut_def)
    moreover have "index_ok env k (db, idx)" using c(2) by (simp add: batch_ok_def)
    ultimately show ?thesis using False f(1) c o by (cases e) (auto simp: compact_def Let_def)
  qed
qed

end
