(* ===== verification/Backfill.thy ===== *)
theory Backfill
  imports Prelude
begin

section \<open>Bringing the search index level with the mailbox\<close>

text \<open>
  \<open>lib/search/backfill.ts\<close>. The index is driven through the interface \<open>IndexLike\<close>; what the database does
  with a transaction is the argument \<open>'io\<close> of the operations that write. A pass is a state machine: its two
  workers, the calls from outside (\<open>update\<close>, \<open>kick\<close>, \<open>stop\<close>) and the end of the pass take turns at the
  source's \<open>await\<close>s. What the machine is told at a turn (the result of a fetch, the clock, whether fetching
  is appropriate) is an argument of the event. A worker's first look at the queue is an event of its own.
\<close>

subsection \<open>Planning\<close>

record Candidate =
  c_hash :: string
  c_sentAt :: int
  c_blocked :: bool

definition planPass :: "Candidate list \<Rightarrow> (string \<Rightarrow> bool) \<Rightarrow> string list option \<Rightarrow> string list \<times> string list" where
  "planPass candidates has indexed =
     (let keep = map c_hash (filter (\<lambda>c. \<not> c_blocked c) candidates);
          fetch = filter (\<lambda>c. \<not> c_blocked c \<and> \<not> has (c_hash c)) candidates in
      (map c_hash (sort_key (\<lambda>c. - c_sentAt c) fetch),
       case indexed of None \<Rightarrow> [] | Some hs \<Rightarrow> filter (\<lambda>h. h \<notin> set keep) hs))"

subsection \<open>The index as the backfill sees it\<close>

record ('io, 'st) IndexLike =
  ix_has :: "'st \<Rightarrow> string \<Rightarrow> bool"
  ix_hashes :: "'st \<Rightarrow> string list"
  ix_add :: "string \<Rightarrow> string \<Rightarrow> string list \<Rightarrow> 'st \<Rightarrow> 'st \<times> bool"
  ix_remove :: "string list \<Rightarrow> 'st \<Rightarrow> 'st \<times> bool"
  ix_flush :: "'io \<Rightarrow> 'st \<Rightarrow> 'st \<times> bool"
  ix_pending :: "'st \<Rightarrow> bool"
  ix_wantsCompaction :: "'st \<Rightarrow> bool"
  ix_compact :: "'io \<Rightarrow> 'st \<Rightarrow> 'st \<times> bool"

definition CONCURRENCY :: nat where "CONCURRENCY = 2"
definition FLUSH_EVERY :: nat where "FLUSH_EVERY = 200"
definition FLUSH_AFTER_MS :: int where "FLUSH_AFTER_MS = 20000"
definition MAX_FAILURES :: nat where "MAX_FAILURES = 3"
definition FAILURE_STREAK :: nat where "FAILURE_STREAK = 5"
definition RETRY_AFTER_MS :: nat where "RETRY_AFTER_MS = 60000"

text \<open>Where a worker stands: at the head of its loop, waiting for a fetch, for the index, for a flush, or done.\<close>

datatype worker = AtHead | Fetching string | Adding string string "string list" | Flushing | Ended

text \<open>
  Where the loop stands: not running, removing, workers running, the last flush, the end of the pass,
  compacting, and returned with \<open>running\<close> not yet reset.
\<close>

datatype phase = Idle | Removing "string list" "string list" | Working | LastFlush | Closing | Compacting | Ending

text \<open>The variables of one \<open>pass\<close>, which its workers share. A worker may outlive its pass, so all are kept.\<close>

record Pass =
  p_queue :: "string list"
  p_workers :: "worker list"
  p_sinceFlush :: nat
  p_lastFlush :: int
  p_streak :: nat
  p_gaveUp :: bool

record 'st Backfiller =
  bf_candidates :: "Candidate list"
  bf_complete :: bool
  bf_kicked :: bool
  bf_stopped :: bool
  bf_failures :: "(string, nat) jsmap"
  bf_index :: 'st
  bf_phase :: phase
  bf_passes :: "Pass list"
  bf_retries :: nat

definition newBackfiller :: "'st \<Rightarrow> 'st Backfiller" where
  "newBackfiller index =
     \<lparr>bf_candidates = [], bf_complete = False, bf_kicked = False, bf_stopped = False, bf_failures = [], bf_index = index,
      bf_phase = Idle, bf_passes = [], bf_retries = 0\<rparr>"

definition failuresOf :: "'st Backfiller \<Rightarrow> string \<Rightarrow> nat" where
  "failuresOf b h = (case map_of (bf_failures b) h of None \<Rightarrow> 0 | Some n \<Rightarrow> n)"

subsection \<open>A pass\<close>

text \<open>The part of \<open>pass\<close> between the removal and the workers.\<close>

definition startWorkers :: "int \<Rightarrow> string list \<Rightarrow> 'st Backfiller \<Rightarrow> 'st Backfiller" where
  "startWorkers now fetch b =
     b\<lparr>bf_passes := bf_passes b @
         [\<lparr>p_queue = filter (\<lambda>h. failuresOf b h < MAX_FAILURES) fetch, p_workers = replicate CONCURRENCY AtHead,
           p_sinceFlush = 0, p_lastFlush = now, p_streak = 0, p_gaveUp = False\<rparr>],
       bf_phase := Working\<rparr>"

definition beginPass :: "('io, 'st) IndexLike \<Rightarrow> int \<Rightarrow> 'st Backfiller \<Rightarrow> 'st Backfiller" where
  "beginPass ix now b =
     (case planPass (bf_candidates b) (ix_has ix (bf_index b)) (if bf_complete b then Some (ix_hashes ix (bf_index b)) else None) of
        (fetch, remove) \<Rightarrow>
          if remove = [] then startWorkers now fetch (b\<lparr>bf_kicked := False\<rparr>)
          else b\<lparr>bf_kicked := False, bf_phase := Removing remove fetch\<rparr>)"

definition kick :: "('io, 'st) IndexLike \<Rightarrow> int \<Rightarrow> 'st Backfiller \<Rightarrow> 'st Backfiller" where
  "kick ix now b =
     (if bf_stopped b then b else if bf_phase b \<noteq> Idle then b\<lparr>bf_kicked := True\<rparr> else beginPass ix now b)"

definition updateCandidates :: "('io, 'st) IndexLike \<Rightarrow> int \<Rightarrow> Candidate list \<Rightarrow> bool \<Rightarrow> 'st Backfiller \<Rightarrow> 'st Backfiller" where
  "updateCandidates ix now candidates complete b = kick ix now (b\<lparr>bf_candidates := candidates, bf_complete := complete\<rparr>)"

text \<open>The end of one turn of the loop: another pass when one was asked for meanwhile.\<close>

definition endPass :: "('io, 'st) IndexLike \<Rightarrow> int \<Rightarrow> 'st Backfiller \<Rightarrow> 'st Backfiller" where
  "endPass ix now b = (if bf_kicked b \<and> \<not> bf_stopped b then beginPass ix now b else b\<lparr>bf_phase := Ending\<rparr>)"

definition go :: "bool \<Rightarrow> Pass \<Rightarrow> 'st Backfiller \<Rightarrow> bool" where
  "go runnable ps b \<longleftrightarrow> \<not> bf_stopped b \<and> \<not> bf_kicked b \<and> \<not> p_gaveUp ps \<and> runnable"

definition setWorker :: "nat \<Rightarrow> worker \<Rightarrow> Pass \<Rightarrow> Pass" where
  "setWorker i w ps = ps\<lparr>p_workers := (p_workers ps)[i := w]\<rparr>"

definition setPass :: "nat \<Rightarrow> Pass \<Rightarrow> 'st Backfiller \<Rightarrow> 'st Backfiller" where
  "setPass p ps b = b\<lparr>bf_passes := (bf_passes b)[p := ps]\<rparr>"

text \<open>The check after each message: the flush that is due starts by resetting its counters.\<close>

definition afterMessage :: "int \<Rightarrow> nat \<Rightarrow> Pass \<Rightarrow> Pass" where
  "afterMessage now i ps =
     (if FLUSH_EVERY \<le> p_sinceFlush ps \<or> 0 < p_sinceFlush ps \<and> FLUSH_AFTER_MS \<le> now - p_lastFlush ps
      then setWorker i Flushing (ps\<lparr>p_sinceFlush := 0, p_lastFlush := now\<rparr>)
      else setWorker i AtHead ps)"

definition countFailure :: "string \<Rightarrow> 'st Backfiller \<Rightarrow> 'st Backfiller" where
  "countFailure h b = b\<lparr>bf_failures := AList.update h (failuresOf b h + 1) (bf_failures b)\<rparr>"

definition messageFailed :: "Pass \<Rightarrow> Pass" where
  "messageFailed ps =
     ps\<lparr>p_streak := p_streak ps + 1, p_gaveUp := (p_gaveUp ps \<or> FAILURE_STREAK \<le> p_streak ps + 1)\<rparr>"

definition messageDone :: "Pass \<Rightarrow> Pass" where
  "messageDone ps = ps\<lparr>p_streak := 0, p_sinceFlush := p_sinceFlush ps + 1\<rparr>"

datatype 'io event =
    Update int "Candidate list" bool
  | Kick int
  | Stop
  | StopFlushed 'io
  | Removed int
  | Head nat nat bool
  | Fetched nat nat int "(string \<times> string list) option"
  | Indexed nat nat int
  | Flushed nat nat 'io
  | Joined int
  | LastFlushed 'io
  | Closed int bool
  | Compacted int 'io
  | Settled

definition workerAt :: "nat \<Rightarrow> nat \<Rightarrow> 'st Backfiller \<Rightarrow> worker" where
  "workerAt p i b =
     (if p < length (bf_passes b) \<and> i < length (p_workers (bf_passes b ! p)) then p_workers (bf_passes b ! p) ! i else Ended)"

text \<open>
  One event, when it can happen. A rejected removal, flush or compaction ends the loop, as the
  \<open>catch\<close> of \<open>loop\<close> does; the workers still running then go on by themselves.
\<close>

fun bstep :: "('io, 'st) IndexLike \<Rightarrow> 'io event \<Rightarrow> 'st Backfiller \<Rightarrow> 'st Backfiller option" where
  "bstep ix (Update now cs complete) b = Some (updateCandidates ix now cs complete b)"
| "bstep ix (Kick now) b = Some (kick ix now b)"
| "bstep ix Stop b = Some (b\<lparr>bf_stopped := True\<rparr>)"
| "bstep ix (StopFlushed io) b =
     (if bf_stopped b \<and> bf_phase b = Idle then Some (b\<lparr>bf_index := fst (ix_flush ix io (bf_index b))\<rparr>) else None)"
| "bstep ix (Removed now) b =
     (case bf_phase b of
        Removing hs fetch \<Rightarrow>
          (case ix_remove ix hs (bf_index b) of
             (st, True) \<Rightarrow> Some (startWorkers now fetch (b\<lparr>bf_index := st\<rparr>))
           | (st, False) \<Rightarrow> Some (b\<lparr>bf_index := st, bf_phase := Ending\<rparr>))
      | _ \<Rightarrow> None)"
| "bstep ix (Head p i runnable) b =
     (if workerAt p i b = AtHead then
        (let ps = bf_passes b ! p in
         case p_queue ps of
           h # hs \<Rightarrow> if go runnable ps b then Some (setPass p (setWorker i (Fetching h) (ps\<lparr>p_queue := hs\<rparr>)) b)
                    else Some (setPass p (setWorker i Ended ps) b)
         | [] \<Rightarrow> Some (setPass p (setWorker i Ended ps) b))
      else None)"
| "bstep ix (Fetched p i now result) b =
     (case workerAt p i b of
        Fetching h \<Rightarrow>
          (let ps = bf_passes b ! p in
           case result of
             Some (msg, names) \<Rightarrow> Some (setPass p (setWorker i (Adding h msg names) ps) b)
           | None \<Rightarrow> Some (setPass p (afterMessage now i (messageFailed ps)) (countFailure h b)))
      | _ \<Rightarrow> None)"
| "bstep ix (Indexed p i now) b =
     (case workerAt p i b of
        Adding h msg names \<Rightarrow>
          (let ps = bf_passes b ! p in
           case ix_add ix h msg names (bf_index b) of
             (st, True) \<Rightarrow> Some (setPass p (afterMessage now i (messageDone ps)) (b\<lparr>bf_index := st\<rparr>))
           | (st, False) \<Rightarrow> Some (setPass p (afterMessage now i (messageFailed ps)) (countFailure h (b\<lparr>bf_index := st\<rparr>))))
      | _ \<Rightarrow> None)"
| "bstep ix (Flushed p i io) b =
     (if workerAt p i b = Flushing then
        (let ps = bf_passes b ! p in
         case ix_flush ix io (bf_index b) of
           (st, True) \<Rightarrow> Some (setPass p (setWorker i AtHead ps) (b\<lparr>bf_index := st\<rparr>))
         | (st, False) \<Rightarrow>
             Some (setPass p (setWorker i Ended ps)
               (b\<lparr>bf_index := st, bf_phase := (if bf_phase b = Working \<and> Suc p = length (bf_passes b) then Ending else bf_phase b)\<rparr>)))
      else None)"
| "bstep ix (Joined now) b =
     (if bf_phase b = Working \<and> bf_passes b \<noteq> [] \<and> (\<forall>w\<in>set (p_workers (last (bf_passes b))). w = Ended) then
        Some (b\<lparr>bf_phase := (if ix_pending ix (bf_index b) then LastFlush else Closing)\<rparr>)
      else None)"
| "bstep ix (LastFlushed io) b =
     (if bf_phase b = LastFlush then
        (case ix_flush ix io (bf_index b) of
           (st, ok) \<Rightarrow> Some (b\<lparr>bf_index := st, bf_phase := (if ok then Closing else Ending)\<rparr>))
      else None)"
| "bstep ix (Closed now runnable) b =
     (if bf_phase b = Closing \<and> bf_passes b \<noteq> [] then
        (if p_gaveUp (last (bf_passes b)) then Some (endPass ix now (b\<lparr>bf_retries := bf_retries b + 1\<rparr>))
         else if \<not> bf_stopped b \<and> \<not> bf_kicked b \<and> ix_wantsCompaction ix (bf_index b) \<and> runnable then Some (b\<lparr>bf_phase := Compacting\<rparr>)
         else Some (endPass ix now b))
      else None)"
| "bstep ix (Compacted now io) b =
     (if bf_phase b = Compacting then
        (case ix_compact ix io (bf_index b) of
           (st, True) \<Rightarrow> Some (endPass ix now (b\<lparr>bf_index := st\<rparr>))
         | (st, False) \<Rightarrow> Some (b\<lparr>bf_index := st, bf_phase := Ending\<rparr>))
      else None)"
| "bstep ix Settled b = (if bf_phase b = Ending then Some (b\<lparr>bf_phase := Idle\<rparr>) else None)"

fun bsteps :: "('io, 'st) IndexLike \<Rightarrow> 'io event list \<Rightarrow> 'st Backfiller \<Rightarrow> 'st Backfiller option" where
  "bsteps ix [] b = Some b"
| "bsteps ix (e # es) b = (case bstep ix e b of None \<Rightarrow> None | Some b' \<Rightarrow> bsteps ix es b')"

subsection \<open>What a plan does\<close>

definition wanted :: "Candidate list \<Rightarrow> string set" where
  "wanted cs = c_hash ` {c \<in> set cs. \<not> c_blocked c}"

lemma planPass_sets:
  "set (fst (planPass cs has indexed)) = {h \<in> wanted cs. \<not> has h}"
  "set (snd (planPass cs has indexed)) = (case indexed of None \<Rightarrow> {} | Some hs \<Rightarrow> set hs - wanted cs)"
  by (auto simp: planPass_def wanted_def Let_def split: option.splits)

subsection \<open>What a step may touch\<close>

fun inFlight :: "worker \<Rightarrow> string set" where
  "inFlight (Fetching h) = {h}"
| "inFlight (Adding h msg names) = {h}"
| "inFlight _ = {}"

fun textsOf :: "worker \<Rightarrow> string set" where
  "textsOf (Adding h msg names) = {msg}"
| "textsOf _ = {}"

definition passWork :: "Pass \<Rightarrow> string set" where
  "passWork ps = set (p_queue ps) \<union> \<Union> (inFlight ` set (p_workers ps))"

definition passTexts :: "Pass \<Rightarrow> string set" where
  "passTexts ps = \<Union> (textsOf ` set (p_workers ps))"

definition bf_work :: "'st Backfiller \<Rightarrow> string set" where
  "bf_work b = (case bf_phase b of Removing hs fetch \<Rightarrow> set fetch | _ \<Rightarrow> {}) \<union> \<Union> (passWork ` set (bf_passes b))"

definition bf_texts :: "'st Backfiller \<Rightarrow> string set" where
  "bf_texts b = \<Union> (passTexts ` set (bf_passes b))"

fun planned :: "'io event \<Rightarrow> string set" where
  "planned (Update now cs complete) = wanted cs"
| "planned _ = {}"

fun fetchedText :: "'io event \<Rightarrow> string set" where
  "fetchedText (Fetched p i now (Some (msg, names))) = {msg}"
| "fetchedText _ = {}"

fun ioOf :: "'io event \<Rightarrow> 'io set" where
  "ioOf (StopFlushed io) = {io}"
| "ioOf (Flushed p i io) = {io}"
| "ioOf (LastFlushed io) = {io}"
| "ioOf (Compacted now io) = {io}"
| "ioOf _ = {}"

lemma set_updateD: "x \<in> set (xs[i := y]) \<Longrightarrow> x = y \<or> x \<in> set xs"
  using set_update_subset_insert [of xs i y] by blast

lemma setWorker_work: "passWork (setWorker i w ps) \<subseteq> passWork ps \<union> inFlight w"
  "passTexts (setWorker i w ps) \<subseteq> passTexts ps \<union> textsOf w"
  by (auto simp: passWork_def passTexts_def setWorker_def dest!: set_updateD)

lemma message_work [simp]:
  "passWork (messageFailed ps) = passWork ps" "passWork (messageDone ps) = passWork ps"
  "p_workers (messageFailed ps) = p_workers ps" "p_workers (messageDone ps) = p_workers ps"
  "passTexts (messageFailed ps) = passTexts ps" "passTexts (messageDone ps) = passTexts ps"
  by (simp_all add: passWork_def passTexts_def messageFailed_def messageDone_def)

lemma afterMessage_work: "passWork (afterMessage now i ps) \<subseteq> passWork ps"
  "passTexts (afterMessage now i ps) \<subseteq> passTexts ps"
proof -
  have ft: "passTexts (ps\<lparr>p_sinceFlush := 0, p_lastFlush := now\<rparr>) = passTexts ps" by (simp add: passTexts_def)
  have "passWork (ps\<lparr>p_sinceFlush := 0, p_lastFlush := now\<rparr>) = passWork ps" by (simp add: passWork_def)
  then show "passWork (afterMessage now i ps) \<subseteq> passWork ps"
    using setWorker_work(1) [of i AtHead ps] setWorker_work(1) [of i Flushing "ps\<lparr>p_sinceFlush := 0, p_lastFlush := now\<rparr>"]
    by (auto simp: afterMessage_def)
  show "passTexts (afterMessage now i ps) \<subseteq> passTexts ps"
    using setWorker_work(2) [of i AtHead ps] setWorker_work(2) [of i Flushing "ps\<lparr>p_sinceFlush := 0, p_lastFlush := now\<rparr>"] ft
    by (auto simp: afterMessage_def)
qed

lemma setPass_work:
  assumes "p < length (bf_passes b)" "passWork ps \<subseteq> W" "passTexts ps \<subseteq> T"
  shows "bf_work (setPass p ps b) \<subseteq> bf_work b \<union> W" "bf_texts (setPass p ps b) \<subseteq> bf_texts b \<union> T"
  using assms by (auto simp: bf_work_def bf_texts_def setPass_def dest!: set_updateD)

lemma workerAt_work:
  assumes "workerAt p i b \<noteq> Ended"
  shows "p < length (bf_passes b)" "passWork (bf_passes b ! p) \<subseteq> bf_work b" "inFlight (workerAt p i b) \<subseteq> bf_work b"
    "passTexts (bf_passes b ! p) \<subseteq> bf_texts b" "textsOf (workerAt p i b) \<subseteq> bf_texts b"
proof -
  have i: "p < length (bf_passes b)" "i < length (p_workers (bf_passes b ! p))" "workerAt p i b = p_workers (bf_passes b ! p) ! i"
    using assms by (auto simp: workerAt_def split: if_splits)
  then have m: "bf_passes b ! p \<in> set (bf_passes b)" "workerAt p i b \<in> set (p_workers (bf_passes b ! p))" by simp_all
  show "p < length (bf_passes b)" by (rule i(1))
  show w: "passWork (bf_passes b ! p) \<subseteq> bf_work b" using m(1) by (auto simp: bf_work_def)
  show "inFlight (workerAt p i b) \<subseteq> bf_work b" using m(2) w by (auto simp: passWork_def)
  show t: "passTexts (bf_passes b ! p) \<subseteq> bf_texts b" using m(1) by (auto simp: bf_texts_def)
  show "textsOf (workerAt p i b) \<subseteq> bf_texts b" using m(2) t by (auto simp: passTexts_def)
qed

lemma startWorkers_work:
  "bf_work (startWorkers now fetch b) \<subseteq> bf_work b \<union> set fetch" "bf_texts (startWorkers now fetch b) = bf_texts b"
  "bf_candidates (startWorkers now fetch b) = bf_candidates b" "bf_index (startWorkers now fetch b) = bf_index b"
  by (auto simp: startWorkers_def bf_work_def bf_texts_def passWork_def passTexts_def)

lemma beginPass_work:
  "bf_work (beginPass ix now b) \<subseteq> bf_work b \<union> wanted (bf_candidates b)" "bf_texts (beginPass ix now b) = bf_texts b"
  "bf_candidates (beginPass ix now b) = bf_candidates b" "bf_index (beginPass ix now b) = bf_index b"
proof -
  let ?pl = "planPass (bf_candidates b) (ix_has ix (bf_index b)) (if bf_complete b then Some (ix_hashes ix (bf_index b)) else None)"
  obtain fetch rem where pl: "?pl = (fetch, rem)" by (cases ?pl)
  have f: "set fetch \<subseteq> wanted (bf_candidates b)" using planPass_sets(1) [of "bf_candidates b"] pl by (metis (no_types, lifting) fst_conv mem_Collect_eq subsetI)
  show "bf_work (beginPass ix now b) \<subseteq> bf_work b \<union> wanted (bf_candidates b)"
    using f startWorkers_work(1) [of now fetch "b\<lparr>bf_kicked := False\<rparr>"] pl
    by (auto simp: beginPass_def bf_work_def split: phase.splits if_splits)
  show "bf_texts (beginPass ix now b) = bf_texts b" "bf_candidates (beginPass ix now b) = bf_candidates b" "bf_index (beginPass ix now b) = bf_index b"
    using pl startWorkers_work(2-4) [of now fetch "b\<lparr>bf_kicked := False\<rparr>"] by (simp_all add: beginPass_def bf_texts_def)
qed

lemma endPass_work:
  "bf_work (endPass ix now b) \<subseteq> bf_work b \<union> wanted (bf_candidates b)" "bf_texts (endPass ix now b) = bf_texts b"
  "bf_candidates (endPass ix now b) = bf_candidates b" "bf_index (endPass ix now b) = bf_index b"
  using beginPass_work [of ix now b] by (auto simp: endPass_def bf_work_def bf_texts_def)

lemma kick_work:
  "bf_work (kick ix now b) \<subseteq> bf_work b \<union> wanted (bf_candidates b)" "bf_texts (kick ix now b) = bf_texts b"
  "bf_candidates (kick ix now b) = bf_candidates b" "bf_index (kick ix now b) = bf_index b"
  using beginPass_work [of ix now b] by (auto simp: kick_def bf_work_def bf_texts_def)

lemma field_work [simp]:
  "bf_work (b\<lparr>bf_index := st\<rparr>) = bf_work b" "bf_texts (b\<lparr>bf_index := st\<rparr>) = bf_texts b"
  "bf_work (b\<lparr>bf_stopped := x\<rparr>) = bf_work b" "bf_texts (b\<lparr>bf_stopped := x\<rparr>) = bf_texts b"
  "bf_work (b\<lparr>bf_retries := n\<rparr>) = bf_work b" "bf_texts (b\<lparr>bf_retries := n\<rparr>) = bf_texts b"
  "bf_work (countFailure h b) = bf_work b" "bf_texts (countFailure h b) = bf_texts b" "bf_passes (countFailure h b) = bf_passes b"
  "bf_candidates (countFailure h b) = bf_candidates b" "bf_index (countFailure h b) = bf_index b"
  "bf_candidates (setPass p ps b) = bf_candidates b" "bf_index (setPass p ps b) = bf_index b"
  "bf_texts (b\<lparr>bf_phase := f\<rparr>) = bf_texts b"
  by (simp_all add: bf_work_def bf_texts_def countFailure_def setPass_def)

lemma phase_work: "(case f of Removing _ _ \<Rightarrow> False | _ \<Rightarrow> True) \<Longrightarrow> bf_work (b\<lparr>bf_phase := f\<rparr>) \<subseteq> bf_work b"
  by (auto simp: bf_work_def split: phase.splits)

text \<open>The hashes a step works on come from the candidates, the texts from the fetches.\<close>

lemma step_work:
  assumes "bstep ix e b = Some b'"
  shows "bf_work b' \<subseteq> bf_work b \<union> wanted (bf_candidates b) \<union> planned e" "bf_texts b' \<subseteq> bf_texts b \<union> fetchedText e"
    and "wanted (bf_candidates b') \<subseteq> wanted (bf_candidates b) \<union> planned e"
proof -
  have "bf_work b' \<subseteq> bf_work b \<union> wanted (bf_candidates b) \<union> planned e \<and> bf_texts b' \<subseteq> bf_texts b \<union> fetchedText e
    \<and> wanted (bf_candidates b') \<subseteq> wanted (bf_candidates b) \<union> planned e"
  proof (cases e)
    case (Update now cs complete)
    then show ?thesis using assms kick_work [of ix now "b\<lparr>bf_candidates := cs, bf_complete := complete\<rparr>"]
      by (auto simp: updateCandidates_def bf_work_def bf_texts_def)
  next
    case (Kick now)
    then show ?thesis using assms kick_work [of ix now b] by auto
  next
    case (Removed now)
    then obtain hs fetch where r: "bf_phase b = Removing hs fetch" using assms by (auto split: phase.splits)
    obtain st ok where o: "ix_remove ix hs (bf_index b) = (st, ok)" by (cases "ix_remove ix hs (bf_index b)")
    have "set fetch \<subseteq> bf_work b" using r by (simp add: bf_work_def)
    then show ?thesis
      using assms Removed r o startWorkers_work [of now fetch "b\<lparr>bf_index := st\<rparr>"] phase_work [of Ending "b\<lparr>bf_index := st\<rparr>"]
      by (cases ok) auto
  next
    case (Head p i runnable)
    then have w: "workerAt p i b = AtHead" using assms by (auto split: if_splits)
    note wk = workerAt_work [of p i b, unfolded w, simplified]
    let ?ps = "bf_passes b ! p"
    have e: "setPass p (setWorker i Ended ?ps) b = b' \<Longrightarrow> ?thesis"
      using setPass_work [OF wk(1) setWorker_work(1,2) [of i Ended ?ps]] wk by auto
    show ?thesis
    proof (cases "p_queue ?ps")
      case Nil
      then show ?thesis using e assms Head w by simp
    next
      case (Cons h hs)
      have q: "passWork (?ps\<lparr>p_queue := hs\<rparr>) \<subseteq> passWork ?ps" "h \<in> passWork ?ps" "passTexts (?ps\<lparr>p_queue := hs\<rparr>) = passTexts ?ps"
        using Cons by (auto simp: passWork_def passTexts_def)
      have f: "?thesis" if b': "b' = setPass p (setWorker i (Fetching h) (?ps\<lparr>p_queue := hs\<rparr>)) b"
      proof -
        note sp = setPass_work [OF wk(1) setWorker_work(1,2) [of i "Fetching h" "?ps\<lparr>p_queue := hs\<rparr>"]]
        have "bf_work b' \<subseteq> bf_work b" using sp(1) q(1,2) wk(2) unfolding b' inFlight.simps by blast
        moreover have "bf_texts b' \<subseteq> bf_texts b" using sp(2) q(3) wk(4) unfolding b' by auto
        ultimately show ?thesis by (auto simp: b')
      qed
      show ?thesis using e f assms Head w Cons by (auto simp: Let_def split: if_splits)
    qed
  next
    case (Fetched p i now result)
    then obtain h where w: "workerAt p i b = Fetching h" using assms by (auto split: worker.splits)
    note wk = workerAt_work [of p i b, unfolded w, simplified]
    let ?ps = "bf_passes b ! p"
    show ?thesis
    proof (cases result)
      case None
      then show ?thesis using assms Fetched w wk setPass_work [of p "countFailure h b", OF _ afterMessage_work [of now i "messageFailed ?ps"]]
        by (auto simp: Let_def)
    next
      case (Some r)
      obtain msg names where r: "r = (msg, names)" by (cases r)
      show ?thesis using assms Fetched w wk Some r setPass_work [OF wk(1) setWorker_work(1,2) [of i "Adding h msg names" ?ps]]
        by (auto simp: Let_def)
    qed
  next
    case (Indexed p i now)
    then obtain h msg names where w: "workerAt p i b = Adding h msg names" using assms by (auto split: worker.splits)
    note wk = workerAt_work [of p i b, unfolded w, simplified]
    let ?ps = "bf_passes b ! p"
    obtain st ok where o: "ix_add ix h msg names (bf_index b) = (st, ok)" by (cases "ix_add ix h msg names (bf_index b)")
    show ?thesis
      using assms Indexed w wk o setPass_work [of p "b\<lparr>bf_index := st\<rparr>", OF _ afterMessage_work [of now i "messageDone ?ps"]]
        setPass_work [of p "countFailure h (b\<lparr>bf_index := st\<rparr>)", OF _ afterMessage_work [of now i "messageFailed ?ps"]]
      by (cases ok) (auto simp: Let_def)
  next
    case (Flushed p i io)
    then have w: "workerAt p i b = Flushing" using assms by (auto split: if_splits)
    note wk = workerAt_work [of p i b, unfolded w, simplified]
    let ?ps = "bf_passes b ! p"
    obtain st ok where o: "ix_flush ix io (bf_index b) = (st, ok)" by (cases "ix_flush ix io (bf_index b)")
    let ?f = "if bf_phase b = Working \<and> Suc p = length (bf_passes b) then Ending else bf_phase b"
    have "bf_work (b\<lparr>bf_index := st, bf_phase := ?f\<rparr>) \<subseteq> bf_work b" by (auto simp: bf_work_def)
    then show ?thesis
      using assms Flushed w wk o setPass_work [of p "b\<lparr>bf_index := st\<rparr>", OF _ setWorker_work(1,2) [of i AtHead ?ps]]
        setPass_work [of p "b\<lparr>bf_index := st, bf_phase := ?f\<rparr>", OF _ setWorker_work(1,2) [of i Ended ?ps]]
      by (cases ok) (auto simp: Let_def)
  next
    case (Joined now)
    then show ?thesis using assms phase_work [of LastFlush b] phase_work [of Closing b] by (auto split: if_splits)
  next
    case (LastFlushed io)
    then show ?thesis using assms phase_work [of Closing "b\<lparr>bf_index := st\<rparr>" for st] phase_work [of Ending "b\<lparr>bf_index := st\<rparr>" for st]
      by (auto split: if_splits prod.splits)
  next
    case (Closed now runnable)
    then show ?thesis using assms phase_work [of Compacting b] endPass_work [of ix now b] endPass_work [of ix now "b\<lparr>bf_retries := bf_retries b + 1\<rparr>"]
      by (auto split: if_splits)
  next
    case (Compacted now io)
    obtain st ok where o: "ix_compact ix io (bf_index b) = (st, ok)" by (cases "ix_compact ix io (bf_index b)")
    then show ?thesis using Compacted assms phase_work [of Ending "b\<lparr>bf_index := st\<rparr>"] endPass_work [of ix now "b\<lparr>bf_index := st\<rparr>"]
      by (cases ok) (auto split: if_splits)
  next
    case Settled
    then show ?thesis using assms phase_work [of Idle b] by (auto split: if_splits)
  qed (use assms in \<open>auto split: if_splits\<close>)
  then show "bf_work b' \<subseteq> bf_work b \<union> wanted (bf_candidates b) \<union> planned e" "bf_texts b' \<subseteq> bf_texts b \<union> fetchedText e"
    "wanted (bf_candidates b') \<subseteq> wanted (bf_candidates b) \<union> planned e" by blast+
qed

text \<open>What a step does to the index: nothing, the planned removal, one message, a flush or a compaction.\<close>

fun addsOf :: "'io event \<Rightarrow> nat" where
  "addsOf (Indexed p i now) = 1"
| "addsOf _ = 0"

lemma step_index:
  assumes "bstep ix e b = Some b'"
  obtains (same) "bf_index b' = bf_index b" "addsOf e = 0"
    | (remove) hs fetch where "bf_phase b = Removing hs fetch" "bf_index b' = fst (ix_remove ix hs (bf_index b))" "addsOf e = 0"
    | (add) h msg names where "h \<in> bf_work b" "msg \<in> bf_texts b" "bf_index b' = fst (ix_add ix h msg names (bf_index b))" "addsOf e = 1"
    | (flush) io where "io \<in> ioOf e" "bf_index b' = fst (ix_flush ix io (bf_index b))" "addsOf e = 0"
    | (compact) io where "io \<in> ioOf e" "bf_index b' = fst (ix_compact ix io (bf_index b))" "addsOf e = 0"
proof (cases e)
  case (Update now cs complete)
  then show thesis using assms kick_work(4) [of ix now "b\<lparr>bf_candidates := cs, bf_complete := complete\<rparr>"]
    by (intro same) (auto simp: updateCandidates_def)
next
  case (Kick now)
  then show thesis using assms kick_work(4) [of ix now b] by (intro same) auto
next
  case (Removed now)
  then obtain hs fetch where r: "bf_phase b = Removing hs fetch" using assms by (auto split: phase.splits)
  obtain st ok where o: "ix_remove ix hs (bf_index b) = (st, ok)" by (cases "ix_remove ix hs (bf_index b)")
  show thesis using assms Removed r o by (intro remove [OF r]) (cases ok; auto simp: startWorkers_work)+
next
  case (Head p i runnable)
  then show thesis using assms by (intro same) (auto simp: Let_def split: if_splits list.splits)
next
  case (Fetched p i now result)
  then show thesis using assms by (intro same) (auto simp: Let_def split: worker.splits option.splits)
next
  case (Indexed p i now)
  then obtain h msg names where w: "workerAt p i b = Adding h msg names" using assms by (auto split: worker.splits)
  note wk = workerAt_work [of p i b, unfolded w, simplified]
  obtain st ok where o: "ix_add ix h msg names (bf_index b) = (st, ok)" by (cases "ix_add ix h msg names (bf_index b)")
  show thesis using assms Indexed w wk o by (intro add [of h msg names]) (cases ok; auto simp: Let_def)+
next
  case (Flushed p i io)
  obtain st ok where o: "ix_flush ix io (bf_index b) = (st, ok)" by (cases "ix_flush ix io (bf_index b)")
  show thesis using assms Flushed o by (intro flush [of io]) (cases ok; auto simp: Let_def split: if_splits)+
next
  case (LastFlushed io)
  then show thesis using assms by (intro flush [of io]) (auto split: if_splits prod.splits)
next
  case (StopFlushed io)
  then show thesis using assms by (intro flush [of io]) (auto split: if_splits)
next
  case (Closed now runnable)
  then show thesis using assms by (intro same) (auto simp: endPass_work split: if_splits)
next
  case (Compacted now io)
  obtain st ok where o: "ix_compact ix io (bf_index b) = (st, ok)" by (cases "ix_compact ix io (bf_index b)")
  show thesis using assms Compacted o by (intro compact [of io]) (cases ok; auto simp: endPass_work split: if_splits)+
qed (use assms in \<open>auto intro!: same split: if_splits\<close>)

subsection \<open>A pass ends\<close>

fun internal :: "'io event \<Rightarrow> bool" where
  "internal (Update now cs complete) = False"
| "internal (Kick now) = False"
| "internal Stop = False"
| "internal (StopFlushed io) = False"
| "internal _ = True"

fun workerLeft :: "worker \<Rightarrow> nat" where
  "workerLeft AtHead = 1"
| "workerLeft (Fetching h) = 4"
| "workerLeft (Adding h msg names) = 3"
| "workerLeft Flushing = 2"
| "workerLeft Ended = 0"

definition passLeft :: "Pass \<Rightarrow> nat" where
  "passLeft ps = 4 * length (p_queue ps) + sum_list (map workerLeft (p_workers ps))"

fun phaseLeft :: "phase \<Rightarrow> nat" where
  "phaseLeft Idle = 0"
| "phaseLeft (Removing hs fetch) = 10 + 4 * length fetch"
| "phaseLeft Working = 5"
| "phaseLeft LastFlush = 4"
| "phaseLeft Closing = 3"
| "phaseLeft Compacting = 2"
| "phaseLeft Ending = 1"

definition left :: "'st Backfiller \<Rightarrow> nat" where
  "left b = phaseLeft (bf_phase b) + sum_list (map passLeft (bf_passes b))"

lemma sum_list_less:
  fixes f :: "'a \<Rightarrow> nat"
  assumes "i < length xs" "f x < f (xs ! i)"
  shows "sum_list (map f (xs[i := x])) < sum_list (map f xs)"
  using assms
proof (induction xs arbitrary: i)
  case (Cons a xs)
  then show ?case by (cases i) auto
qed simp

lemma setWorker_left:
  assumes "i < length (p_workers ps)" "workerLeft w < workerLeft (p_workers ps ! i)"
  shows "passLeft (setWorker i w ps) < passLeft ps"
  using sum_list_less [of i "p_workers ps" workerLeft w] assms by (simp add: passLeft_def setWorker_def)

lemma setPass_left:
  assumes "p < length (bf_passes b)" "passLeft ps < passLeft (bf_passes b ! p)"
  shows "left (setPass p ps b) < left b"
  using sum_list_less [of p "bf_passes b" passLeft ps] assms by (simp add: left_def setPass_def)

lemma afterMessage_left:
  assumes "i < length (p_workers ps)" "3 \<le> workerLeft (p_workers ps ! i)"
  shows "passLeft (afterMessage now i (messageFailed ps)) < passLeft ps" "passLeft (afterMessage now i (messageDone ps)) < passLeft ps"
proof -
  have "passLeft (afterMessage now i qs) < passLeft qs" if "i < length (p_workers qs)" "3 \<le> workerLeft (p_workers qs ! i)" for qs
    using that setWorker_left [of i "qs\<lparr>p_sinceFlush := 0, p_lastFlush := now\<rparr>" Flushing] setWorker_left [of i qs AtHead]
    by (simp add: afterMessage_def passLeft_def)
  from this [of "messageFailed ps"] this [of "messageDone ps"] assms
  show "passLeft (afterMessage now i (messageFailed ps)) < passLeft ps" "passLeft (afterMessage now i (messageDone ps)) < passLeft ps"
    by (simp_all add: passLeft_def messageFailed_def messageDone_def)
qed

lemma workerAt_index:
  assumes "workerAt p i b = w" "w \<noteq> Ended"
  shows "p < length (bf_passes b)" "i < length (p_workers (bf_passes b ! p))" "p_workers (bf_passes b ! p) ! i = w"
  using assms by (auto simp: workerAt_def split: if_splits)

lemma startWorkers_left:
  assumes "bf_phase b = Removing hs fetch"
  shows "left (startWorkers now fetch b) < left b"
proof -
  have "length (filter (\<lambda>h. failuresOf b h < MAX_FAILURES) fetch) \<le> length fetch" by (rule length_filter_le)
  then have "4 * length (filter (\<lambda>h. failuresOf b h < MAX_FAILURES) fetch) + 7 < 10 + 4 * length fetch" by linarith
  then show ?thesis using assms by (simp add: left_def startWorkers_def passLeft_def CONCURRENCY_def numeral_2_eq_2)
qed

lemma beginPass_kicked: "bf_kicked (beginPass ix now b) = False"
  by (simp add: beginPass_def startWorkers_def split: prod.splits)

text \<open>Every internal event uses up a pass, or starts the one that was asked for.\<close>

lemma step_left:
  assumes "bstep ix e b = Some b'" "internal e"
  shows "bf_kicked b \<and> \<not> bf_kicked b' \<or> bf_kicked b' = bf_kicked b \<and> left b' < left b"
proof (cases e)
  case (Removed now)
  then obtain hs fetch where r: "bf_phase b = Removing hs fetch" using assms by (auto split: phase.splits)
  obtain st ok where o: "ix_remove ix hs (bf_index b) = (st, ok)" by (cases "ix_remove ix hs (bf_index b)")
  have "left (startWorkers now fetch (b\<lparr>bf_index := st\<rparr>)) < left b"
    using startWorkers_left [of "b\<lparr>bf_index := st\<rparr>" hs fetch now] r by (simp add: left_def)
  then show ?thesis using assms Removed r o by (cases ok) (auto simp: startWorkers_def left_def)
next
  case (Head p i runnable)
  then have w: "workerAt p i b = AtHead" using assms by (auto split: if_splits)
  note wk = workerAt_index [OF w, simplified]
  let ?ps = "bf_passes b ! p"
  have e: "left (setPass p (setWorker i Ended ?ps) b) < left b"
    using setPass_left [OF wk(1)] setWorker_left [OF wk(2), of Ended] wk(3) by simp
  have f: "left (setPass p (setWorker i (Fetching h) (?ps\<lparr>p_queue := hs\<rparr>)) b) < left b" if "p_queue ?ps = h # hs" for h hs
  proof (rule setPass_left [OF wk(1)])
    have "sum_list (map workerLeft ((p_workers ?ps)[i := w])) = sum_list (map workerLeft (p_workers ?ps)) - workerLeft (p_workers ?ps ! i) + workerLeft w" for w
      using wk(2) elem_le_sum_list [of i "map workerLeft (p_workers ?ps)"] by (simp add: map_update sum_list_update)
    moreover have "1 \<le> sum_list (map workerLeft (p_workers ?ps))"
      using wk(2,3) elem_le_sum_list [of i "map workerLeft (p_workers ?ps)"] by simp
    ultimately show "passLeft (setWorker i (Fetching h) (?ps\<lparr>p_queue := hs\<rparr>)) < passLeft ?ps"
      using wk(3) that by (simp add: passLeft_def setWorker_def)
  qed
  show ?thesis using assms Head w e f by (auto simp: Let_def setPass_def split: list.splits if_splits)
next
  case (Fetched p i now result)
  then obtain h where w: "workerAt p i b = Fetching h" using assms by (auto split: worker.splits)
  note wk = workerAt_index [OF w, simplified]
  have "left (setPass p ps (countFailure h b)) = left (setPass p ps b)" for ps by (simp add: left_def setPass_def countFailure_def)
  then have n: "left (setPass p (afterMessage now i (messageFailed (bf_passes b ! p))) (countFailure h b)) < left b"
    using setPass_left [OF wk(1) afterMessage_left(1) [OF wk(2), of now]] wk(3) by simp
  have s: "left (setPass p (setWorker i (Adding h msg names) (bf_passes b ! p)) b) < left b" for msg names
    using setPass_left [OF wk(1) setWorker_left [OF wk(2)]] wk(3) by simp
  show ?thesis using assms Fetched w n s by (auto simp: Let_def setPass_def countFailure_def split: option.splits)
next
  case (Indexed p i now)
  then obtain h msg names where w: "workerAt p i b = Adding h msg names" using assms by (auto split: worker.splits)
  note wk = workerAt_index [OF w, simplified]
  obtain st ok where o: "ix_add ix h msg names (bf_index b) = (st, ok)" by (cases "ix_add ix h msg names (bf_index b)")
  have "left (setPass p ps (countFailure h (b\<lparr>bf_index := st\<rparr>))) = left (setPass p ps b)" "left (setPass p ps (b\<lparr>bf_index := st\<rparr>)) = left (setPass p ps b)" for ps
    by (simp_all add: left_def setPass_def countFailure_def)
  then have "left b' < left b"
    using setPass_left [OF wk(1) afterMessage_left(1) [OF wk(2), of now]] setPass_left [OF wk(1) afterMessage_left(2) [OF wk(2), of now]] wk(3) o assms Indexed w
    by (cases ok) (auto simp: Let_def)
  then show ?thesis using assms Indexed w o by (cases ok) (auto simp: Let_def setPass_def countFailure_def)
next
  case (Flushed p i io)
  then have w: "workerAt p i b = Flushing" using assms by (auto split: if_splits)
  note wk = workerAt_index [OF w, simplified]
  obtain st ok where o: "ix_flush ix io (bf_index b) = (st, ok)" by (cases "ix_flush ix io (bf_index b)")
  let ?f = "if bf_phase b = Working \<and> Suc p = length (bf_passes b) then Ending else bf_phase b"
  have "left (setPass p (setWorker i x (bf_passes b ! p)) b) < left b" if "x = AtHead \<or> x = Ended" for x
    using setPass_left [OF wk(1) setWorker_left [OF wk(2)], of x] wk(3) that by auto
  moreover have "left (setPass p ps (b\<lparr>bf_index := st\<rparr>)) = left (setPass p ps b)"
      "left (setPass p ps (b\<lparr>bf_index := st, bf_phase := ?f\<rparr>)) \<le> left (setPass p ps b)" for ps
    by (simp_all add: left_def setPass_def)
  ultimately have "left b' < left b" using assms Flushed w o by (cases ok) (fastforce simp: Let_def dest: le_less_trans)+
  then show ?thesis using assms Flushed w o by (cases ok) (auto simp: Let_def setPass_def)
next
  case (Closed now runnable)
  then show ?thesis using assms by (auto simp: endPass_def beginPass_kicked left_def split: if_splits)
next
  case (Compacted now io)
  obtain st ok where o: "ix_compact ix io (bf_index b) = (st, ok)" by (cases "ix_compact ix io (bf_index b)")
  then show ?thesis using assms Compacted by (cases ok) (auto simp: endPass_def beginPass_kicked left_def split: if_splits)
qed (use assms in \<open>auto simp: left_def split: if_splits prod.splits\<close>)

lemma internal_wf: "wf {(b', b). \<exists>e. internal e \<and> bstep ix e b = Some b'}"
proof (rule wf_subset)
  show "wf (inv_image (less_than <*lex*> less_than) (\<lambda>b. (if bf_kicked b then 1 else 0 :: nat, left b)))" by auto
  show "{(b', b). \<exists>e. internal e \<and> bstep ix e b = Some b'} \<subseteq> inv_image (less_than <*lex*> less_than) (\<lambda>b. (if bf_kicked b then 1 else 0 :: nat, left b))"
  proof clarify
    fix b' b e assume "internal e" "bstep ix e b = Some b'"
    then have "bf_kicked b \<and> \<not> bf_kicked b' \<or> bf_kicked b' = bf_kicked b \<and> left b' < left b" by (intro step_left)
    then show "(b', b) \<in> inv_image (less_than <*lex*> less_than) (\<lambda>b. (if bf_kicked b then 1 else 0 :: nat, left b))" by auto
  qed
qed

definition hasPass :: "'st Backfiller \<Rightarrow> bool" where
  "hasPass b \<longleftrightarrow> (bf_phase b \<in> {Working, LastFlush, Closing, Compacting} \<longrightarrow> bf_passes b \<noteq> [])"

lemma hasPass_begin: "hasPass (beginPass ix now b)"
  by (cases "planPass (bf_candidates b) (ix_has ix (bf_index b)) (if bf_complete b then Some (ix_hashes ix (bf_index b)) else None)")
    (simp add: hasPass_def beginPass_def startWorkers_def)

lemma hasPass_end: "hasPass (endPass ix now b)"
  using hasPass_begin [of ix now b] by (cases "bf_kicked b \<and> \<not> bf_stopped b") (simp_all add: endPass_def hasPass_def)

lemma hasPass_kick: "hasPass b \<Longrightarrow> hasPass (kick ix now b)"
  using hasPass_begin [of ix now b] by (simp add: kick_def) (simp add: hasPass_def)

lemma hasPass_simps [simp]:
  "hasPass (startWorkers now fetch b)" "hasPass (setPass p ps b) = hasPass b" "hasPass (countFailure h b) = hasPass b"
  "hasPass (b\<lparr>bf_index := st\<rparr>) = hasPass b" "hasPass (b\<lparr>bf_stopped := x\<rparr>) = hasPass b" "hasPass (b\<lparr>bf_phase := Ending\<rparr>)" "hasPass (b\<lparr>bf_phase := Idle\<rparr>)"
  by (simp_all add: hasPass_def startWorkers_def setPass_def countFailure_def)

lemma passes_grow:
  assumes "bstep ix e b = Some b'" "hasPass b"
  shows "hasPass b'"
proof (cases e)
  case (Update now cs complete)
  have "hasPass (b\<lparr>bf_candidates := cs, bf_complete := complete\<rparr>)" using assms(2) by (simp add: hasPass_def)
  then show ?thesis using assms Update hasPass_kick by (auto simp: updateCandidates_def)
next
  case (Kick now)
  then show ?thesis using assms hasPass_kick by auto
next
  case (Removed now)
  then show ?thesis using assms(1) by (auto split: prod.splits phase.splits bool.splits)
next
  case (Flushed p i io)
  have "hasPass (b\<lparr>bf_index := st, bf_phase := (if c then Ending else bf_phase b)\<rparr>)" for st c using assms(2) by (simp add: hasPass_def)
  then show ?thesis using assms Flushed by (auto simp: Let_def split: if_splits prod.splits bool.splits)
next
  case (LastFlushed io)
  then show ?thesis using assms by (auto simp: hasPass_def split: if_splits prod.splits)
next
  case (Closed now runnable)
  then show ?thesis using assms by (auto intro: hasPass_end simp: hasPass_def [of "b\<lparr>bf_phase := Compacting\<rparr>"] split: if_splits)
next
  case (Compacted now io)
  then show ?thesis using assms by (auto intro: hasPass_end split: if_splits prod.splits bool.splits)
next
  case (Joined now)
  then show ?thesis using assms by (auto simp: hasPass_def split: if_splits)
qed (use assms in \<open>auto simp: Let_def split: if_splits list.splits worker.splits option.splits prod.splits bool.splits\<close>)

lemma bsteps_passes:
  assumes "bsteps ix es b = Some b'" "hasPass b"
  shows "hasPass b'"
  using assms
proof (induction es arbitrary: b)
  case (Cons e es)
  then obtain b1 where b1: "bstep ix e b = Some b1" "bsteps ix es b1 = Some b'" by (auto split: option.splits)
  then show ?case using Cons.IH [OF b1(2)] passes_grow [OF b1(1) Cons.prems(2)] by blast
qed auto

text \<open>While the loop runs, something internal can happen next.\<close>

lemma running_moves:
  assumes "bf_phase b \<noteq> Idle" "hasPass b"
  shows "\<exists>e b'. internal e \<and> bstep (ix :: ('io, 'st) IndexLike) e b = Some b'"
proof (cases "bf_phase b")
  case (Removing hs fetch)
  then show ?thesis by (intro exI [of _ "Removed 0"]) (auto split: prod.splits bool.splits)
next
  case Working
  let ?ps = "last (bf_passes b)" and ?p = "length (bf_passes b) - 1"
  have ne: "bf_passes b \<noteq> []" "?p < length (bf_passes b)" "bf_passes b ! ?p = ?ps" using assms(2) Working by (auto simp: last_conv_nth hasPass_def)
  show ?thesis
  proof (cases "\<forall>w\<in>set (p_workers ?ps). w = Ended")
    case True
    then show ?thesis using Working ne by (intro exI [of _ "Joined 0"]) auto
  next
    case False
    then obtain i where i: "i < length (p_workers ?ps)" "p_workers ?ps ! i \<noteq> Ended" by (metis in_set_conv_nth)
    have w: "workerAt ?p i b = p_workers ?ps ! i" using i ne by (simp add: workerAt_def)
    show ?thesis
    proof (cases "p_workers ?ps ! i")
      case AtHead
      then show ?thesis using w by (intro exI [of _ "Head ?p i True"]) (auto simp: Let_def split: list.splits)
    next
      case (Fetching h)
      then show ?thesis using w by (intro exI [of _ "Fetched ?p i 0 None"]) (auto simp: Let_def)
    next
      case (Adding h msg names)
      then show ?thesis using w by (intro exI [of _ "Indexed ?p i 0"]) (auto simp: Let_def split: prod.splits bool.splits)
    next
      case Flushing
      then show ?thesis using w by (intro exI [of _ "Flushed ?p i undefined"]) (auto simp: Let_def split: prod.splits bool.splits)
    qed (use i in simp)
  qed
next
  case LastFlush
  then show ?thesis by (intro exI [of _ "LastFlushed undefined"]) (auto split: prod.splits)
next
  case Closing
  then show ?thesis using assms(2) by (intro exI [of _ "Closed 0 True"]) (auto simp: hasPass_def)
next
  case Compacting
  then show ?thesis by (intro exI [of _ "Compacted 0 undefined"]) (auto split: prod.splits bool.splits)
next
  case Ending
  then show ?thesis by (intro exI [of _ Settled]) auto
qed (use assms in simp)

subsection \<open>The contract of the index, and what follows from it\<close>

locale message_index =
  fixes ix :: "('io, 'st) IndexLike"
    and inv :: "nat \<Rightarrow> 'st \<Rightarrow> bool"
    and holds :: "'st \<Rightarrow> string \<Rightarrow> 'v option"
    and view :: "string \<Rightarrow> string list \<Rightarrow> 'v"
    and fits :: "string \<Rightarrow> bool"
    and io_ok :: "'io \<Rightarrow> bool"
    and commits :: "'io \<Rightarrow> bool"
  assumes has_law: "inv k st \<Longrightarrow> ix_has ix st h \<longleftrightarrow> holds st h \<noteq> None"
    and hashes_law: "inv k st \<Longrightarrow> set (ix_hashes ix st) = dom (holds st)"
    and add_law: "inv (Suc k) st \<Longrightarrow> fits msg \<Longrightarrow> \<exists>st'. ix_add ix h msg names st = (st', True) \<and> inv k st'
          \<and> holds st' = (if holds st h \<noteq> None then holds st else (holds st)(h \<mapsto> view msg names))"
    and remove_law: "inv k st \<Longrightarrow> \<exists>st'. ix_remove ix hs st = (st', True) \<and> inv k st' \<and> holds st' = (\<lambda>h. if h \<in> set hs then None else holds st h)"
    and flush_law: "inv k st \<Longrightarrow> io_ok io \<Longrightarrow> \<exists>st' ok. ix_flush ix io st = (st', ok) \<and> inv k st' \<and> holds st' = holds st \<and> (commits io \<longrightarrow> ok)"
    and compact_law: "inv k st \<Longrightarrow> io_ok io \<Longrightarrow> \<exists>st' ok. ix_compact ix io st = (st', ok) \<and> inv k st' \<and> holds st' = holds st \<and> (commits io \<longrightarrow> ok)"
begin

definition event_ok :: "'io event \<Rightarrow> bool" where
  "event_ok e \<longleftrightarrow> (\<forall>msg\<in>fetchedText e. fits msg) \<and> (\<forall>io\<in>ioOf e. io_ok io)"

lemma step_holds:
  assumes "bstep ix e b = Some b'" "inv (k + addsOf e) (bf_index b)" "\<forall>msg\<in>bf_texts b. fits msg" "event_ok e"
  shows "inv k (bf_index b')" "dom (holds (bf_index b')) \<subseteq> dom (holds (bf_index b)) \<union> bf_work b"
    and "(\<forall>hs f. bf_phase b \<noteq> Removing hs f) \<Longrightarrow> holds (bf_index b) \<subseteq>\<^sub>m holds (bf_index b')"
proof -
  have "inv k (bf_index b') \<and> dom (holds (bf_index b')) \<subseteq> dom (holds (bf_index b)) \<union> bf_work b
    \<and> ((\<forall>hs f. bf_phase b \<noteq> Removing hs f) \<longrightarrow> holds (bf_index b) \<subseteq>\<^sub>m holds (bf_index b'))"
    using assms(1)
  proof (cases rule: step_index)
    case same
    then show ?thesis using assms(2) by simp
  next
    case (remove hs fetch)
    then show ?thesis using remove_law [of k "bf_index b" hs] assms(2) by (auto split: if_splits)
  next
    case (add h msg names)
    obtain st' where st': "ix_add ix h msg names (bf_index b) = (st', True)" "inv k st'"
        "holds st' = (if holds (bf_index b) h \<noteq> None then holds (bf_index b) else (holds (bf_index b))(h \<mapsto> view msg names))"
      using add_law [of k "bf_index b" msg h names] assms(2,3) add by auto
    then show ?thesis using add by (auto simp: map_le_def)
  next
    case (flush io)
    then show ?thesis using flush_law [of k "bf_index b" io] assms(2,4) by (auto simp: event_ok_def)
  next
    case (compact io)
    then show ?thesis using compact_law [of k "bf_index b" io] assms(2,4) by (auto simp: event_ok_def)
  qed
  then show "inv k (bf_index b')" "dom (holds (bf_index b')) \<subseteq> dom (holds (bf_index b)) \<union> bf_work b"
    "(\<forall>hs f. bf_phase b \<noteq> Removing hs f) \<Longrightarrow> holds (bf_index b) \<subseteq>\<^sub>m holds (bf_index b')" by blast+
qed

text \<open>Whatever happens in whatever order, only unblocked candidates are ever indexed.\<close>

lemma only_candidates:
  assumes "bsteps ix es b = Some b'" "inv (k + sum_list (map addsOf es)) (bf_index b)" "\<forall>e\<in>set es. event_ok e" "\<forall>msg\<in>bf_texts b. fits msg"
    and "\<forall>e\<in>set es. planned e \<subseteq> U" "bf_work b \<union> wanted (bf_candidates b) \<subseteq> U"
  shows "dom (holds (bf_index b')) \<subseteq> dom (holds (bf_index b)) \<union> U \<and> inv k (bf_index b')"
  using assms
proof (induction es arbitrary: b)
  case (Cons e es)
  obtain b1 where b1: "bstep ix e b = Some b1" "bsteps ix es b1 = Some b'" using Cons.prems(1) by (auto split: option.splits)
  have i: "inv ((k + sum_list (map addsOf es)) + addsOf e) (bf_index b)" using Cons.prems(2) by (simp add: ac_simps)
  note h = step_holds [OF b1(1) i Cons.prems(4)]
  note w = step_work [OF b1(1)]
  have e: "event_ok e" "planned e \<subseteq> U" using Cons.prems(3,5) by auto
  have t: "\<forall>msg\<in>bf_texts b1. fits msg" using w(2) Cons.prems(4) e(1) by (auto simp: event_ok_def)
  have u: "bf_work b1 \<union> wanted (bf_candidates b1) \<subseteq> U" using w(1,3) Cons.prems(6) e(2) by blast
  have "dom (holds (bf_index b')) \<subseteq> dom (holds (bf_index b1)) \<union> U \<and> inv k (bf_index b')"
    using Cons.IH [OF b1(2) h(1) _ t _ u] Cons.prems(3,5) e by simp
  then show ?case using h(2) [OF e(1)] Cons.prems(6) by blast
qed auto

end

end
