(* ===== verification/Backfill_Level.thy ===== *)
theory Backfill_Level
  imports Backfill
begin

section \<open>When a pass of the backfill is over\<close>

text \<open>
  Two guarantees of \<open>lib/search/backfill.ts\<close> for any index that keeps the contract: with incomplete
  candidate lists nothing is ever dropped, and an undisturbed pass over a complete list leaves exactly
  its unblocked messages indexed, but for those whose fetch failed.
\<close>

subsection \<open>Incomplete lists remove nothing\<close>

definition noRemove :: "'st Backfiller \<Rightarrow> bool" where
  "noRemove b \<longleftrightarrow> \<not> bf_complete b \<and> (\<forall>hs f. bf_phase b \<noteq> Removing hs f)"

lemma noRemove_begin: "\<not> bf_complete b \<Longrightarrow> noRemove (beginPass ix now b)"
  by (simp add: noRemove_def beginPass_def startWorkers_def planPass_def Let_def)

lemma noRemove_end: "noRemove b \<Longrightarrow> noRemove (endPass ix now b)"
  using noRemove_begin [of b ix now] by (cases "bf_kicked b \<and> \<not> bf_stopped b") (simp_all add: endPass_def noRemove_def)

lemma noRemove_kick: "noRemove b \<Longrightarrow> noRemove (kick ix now b)"
  using noRemove_begin [of b ix now] by (simp add: kick_def) (simp add: noRemove_def)

lemma noRemove_simps [simp]:
  "noRemove (setPass p ps b) = noRemove b" "noRemove (countFailure h b) = noRemove b"
  "noRemove (b\<lparr>bf_index := st\<rparr>) = noRemove b" "noRemove (b\<lparr>bf_stopped := x\<rparr>) = noRemove b" "noRemove (b\<lparr>bf_retries := n\<rparr>) = noRemove b"
  "noRemove b \<Longrightarrow> \<forall>hs g. f \<noteq> Removing hs g \<Longrightarrow> noRemove (b\<lparr>bf_phase := f\<rparr>)"
  by (simp_all add: noRemove_def setPass_def countFailure_def)

fun partial_list :: "'io event \<Rightarrow> bool" where
  "partial_list (Update now cs complete) = (\<not> complete)"
| "partial_list _ = True"

lemma step_noRemove:
  assumes "bstep ix e b = Some b'" "noRemove b" "partial_list e"
  shows "noRemove b'"
proof (cases e)
  case (Update now cs complete)
  then have "noRemove (b\<lparr>bf_candidates := cs, bf_complete := complete\<rparr>)" using assms by (simp add: noRemove_def)
  then show ?thesis using assms(1) Update noRemove_kick by (auto simp: updateCandidates_def)
next
  case (Kick now)
  then show ?thesis using assms noRemove_kick by auto
next
  case (Removed now)
  then show ?thesis using assms by (auto simp: noRemove_def split: phase.splits)
next
  case (Flushed p i io)
  have "noRemove (b\<lparr>bf_index := st, bf_phase := (if c then Ending else bf_phase b)\<rparr>)" for st c using assms(2) by (simp add: noRemove_def)
  then show ?thesis using assms Flushed by (auto simp: Let_def split: if_splits prod.splits bool.splits)
next
  case (LastFlushed io)
  then show ?thesis using assms by (auto simp: noRemove_def split: if_splits prod.splits)
next
  case (Closed now runnable)
  then show ?thesis using assms by (auto intro!: noRemove_end split: if_splits)
next
  case (Compacted now io)
  then show ?thesis using assms by (auto intro!: noRemove_end split: if_splits prod.splits bool.splits)
next
  case (Joined now)
  then show ?thesis using assms by (auto simp: noRemove_def split: if_splits)
qed (use assms in \<open>auto simp: Let_def split: if_splits list.splits worker.splits option.splits prod.splits bool.splits\<close>)

subsection \<open>An undisturbed pass\<close>

fun undisturbed :: "'io event \<Rightarrow> bool" where
  "undisturbed (Head p i runnable) = runnable"
| "undisturbed e = internal e"

text \<open>What a pass that covers the hashes \<open>K\<close> still has to do for them.\<close>

definition covers :: "string set \<Rightarrow> string set \<Rightarrow> 'st Backfiller \<Rightarrow> Pass \<Rightarrow> bool" where
  "covers K D b ps \<longleftrightarrow> D \<subseteq> K \<and> passWork ps \<subseteq> K \<and> K \<subseteq> D \<union> passWork ps \<union> {h. 0 < failuresOf b h}
     \<and> p_workers ps \<noteq> [] \<and> (Ended \<in> set (p_workers ps) \<longrightarrow> p_queue ps = [] \<or> p_gaveUp ps)"

definition levelling :: "string set \<Rightarrow> string set \<Rightarrow> 'st Backfiller \<Rightarrow> bool" where
  "levelling K D b \<longleftrightarrow> \<not> bf_kicked b \<and> \<not> bf_stopped b \<and>
     (case bf_phase b of
        Removing hs fetch \<Rightarrow> bf_passes b = [] \<and> D - set hs \<subseteq> K \<and> set hs \<inter> K = {} \<and> K - D \<subseteq> set fetch \<and> set fetch \<subseteq> K
      | f \<Rightarrow> (\<exists>ps. bf_passes b = [ps] \<and> covers K D b ps \<and> (f \<noteq> Working \<longrightarrow> (\<forall>w\<in>set (p_workers ps). w = Ended))))"

lemma levelled:
  assumes "levelling K D b" "bf_phase b = Ending \<or> bf_phase b = Idle" "\<not> p_gaveUp (last (bf_passes b))"
  shows "D \<subseteq> K \<and> (\<forall>h\<in>K. h \<in> D \<or> 0 < failuresOf b h)"
proof -
  obtain ps where ps: "bf_passes b = [ps]" "covers K D b ps" "\<forall>w\<in>set (p_workers ps). w = Ended"
    using assms(1,2) by (auto simp: levelling_def)
  then have "p_queue ps = []" using assms(3) by (cases "p_workers ps") (auto simp: covers_def)
  then have "passWork ps = {}" using ps(3) by (auto simp: passWork_def)
  then show ?thesis using ps(2) by (auto simp: covers_def)
qed

lemma startWorkers_covers:
  assumes "\<not> bf_kicked b" "\<not> bf_stopped b" "bf_passes b = []" "D \<subseteq> K" "K - D \<subseteq> set fetch" "set fetch \<subseteq> K"
  shows "levelling K D (startWorkers now fetch b)"
proof -
  have "passWork \<lparr>p_queue = filter (\<lambda>h. failuresOf b h < MAX_FAILURES) fetch, p_workers = replicate CONCURRENCY AtHead,
      p_sinceFlush = 0, p_lastFlush = now, p_streak = 0, p_gaveUp = False\<rparr> = {h \<in> set fetch. failuresOf b h < MAX_FAILURES}"
    by (auto simp: passWork_def)
  moreover have "failuresOf (startWorkers now fetch b) h = failuresOf b h" for h by (simp add: failuresOf_def startWorkers_def)
  ultimately show ?thesis using assms
    by (auto simp: levelling_def covers_def startWorkers_def MAX_FAILURES_def CONCURRENCY_def)
qed

lemma passWork_split:
  assumes "i < length (p_workers ps)"
  shows "passWork ps \<subseteq> passWork (setWorker i w ps) \<union> inFlight (p_workers ps ! i)"
proof -
  have "w' \<in> set ((p_workers ps)[i := w]) \<or> w' = p_workers ps ! i" if w': "w' \<in> set (p_workers ps)" for w'
  proof -
    obtain j where j: "j < length (p_workers ps)" "w' = p_workers ps ! j" using w' by (metis in_set_conv_nth)
    then show ?thesis by (cases "j = i") (auto simp: in_set_conv_nth intro: exI [of _ j])
  qed
  then show ?thesis by (fastforce simp: passWork_def setWorker_def)
qed

lemma ended_setWorker: "Ended \<in> set (p_workers (setWorker i w ps)) \<Longrightarrow> w \<noteq> Ended \<Longrightarrow> Ended \<in> set (p_workers ps)"
  by (auto simp: setWorker_def dest: set_updateD)

text \<open>A worker moves on: the hash it was busy with is accounted for by \<open>E\<close>.\<close>

lemma covers_setWorker:
  assumes "covers K D b ps" "i < length (p_workers ps)" "D \<subseteq> D'" "D' \<subseteq> K" "\<And>h. 0 < failuresOf b h \<Longrightarrow> 0 < failuresOf b' h"
    and "inFlight w \<subseteq> K" "inFlight (p_workers ps ! i) \<subseteq> D' \<union> inFlight w \<union> {h. 0 < failuresOf b' h}" "w \<noteq> Ended \<or> p_queue ps = [] \<or> p_gaveUp ps"
  shows "covers K D' b' (setWorker i w ps)"
proof -
  have "passWork (setWorker i w ps) \<subseteq> K" using setWorker_work(1) [of i w ps] assms(1,6) by (auto simp: covers_def)
  moreover have "inFlight w \<subseteq> passWork (setWorker i w ps)" using assms(2) by (auto simp: passWork_def setWorker_def set_update_memI)
  then have "passWork ps \<subseteq> D' \<union> passWork (setWorker i w ps) \<union> {h. 0 < failuresOf b' h}"
    using passWork_split [OF assms(2), of w] assms(7) by blast
  then have "K \<subseteq> D' \<union> passWork (setWorker i w ps) \<union> {h. 0 < failuresOf b' h}"
    using assms(1,3,5) unfolding covers_def by blast
  moreover have "Ended \<in> set (p_workers (setWorker i w ps)) \<longrightarrow> p_queue ps = [] \<or> p_gaveUp ps"
    using assms(1,8) ended_setWorker [of i w ps] by (auto simp: covers_def)
  moreover have "p_workers (setWorker i w ps) \<noteq> []" "p_queue (setWorker i w ps) = p_queue ps" "p_gaveUp (setWorker i w ps) = p_gaveUp ps"
    using assms(1) by (simp_all add: covers_def setWorker_def)
  ultimately show ?thesis using assms(4) by (simp add: covers_def)
qed

lemma covers_fields:
  "covers K D b (ps\<lparr>p_sinceFlush := n, p_lastFlush := t\<rparr>) = covers K D b ps" "covers K D b (messageDone ps) = covers K D b ps"
  "covers K D b ps \<Longrightarrow> covers K D b (messageFailed ps)"
  by (auto simp: covers_def passWork_def messageDone_def messageFailed_def)

lemma in_pass:
  assumes "levelling K D b" "workerAt p i b = w" "w \<noteq> Ended"
  obtains ps where "p = 0" "bf_phase b = Working" "bf_passes b = [ps]" "covers K D b ps" "i < length (p_workers ps)" "p_workers ps ! i = w"
    "\<not> bf_kicked b" "\<not> bf_stopped b"
proof -
  note wk = workerAt_index [OF assms(2,3)]
  have ne: "bf_passes b \<noteq> []" using wk(1) by auto
  then obtain ps where ps: "bf_passes b = [ps]" "covers K D b ps" "bf_phase b \<noteq> Working \<longrightarrow> (\<forall>w\<in>set (p_workers ps). w = Ended)"
    using assms(1) by (auto simp: levelling_def split: phase.splits)
  then have p: "p = 0" "i < length (p_workers ps)" "p_workers ps ! i = w" using wk by auto
  then have "w \<in> set (p_workers ps)" by (metis nth_mem)
  then have "bf_phase b = Working" using ps(3) assms(3) by auto
  then show thesis using that [OF p(1) _ ps(1,2) p(2,3)] assms(1) by (simp add: levelling_def)
qed

lemma levelling_setPass:
  assumes "bf_phase b = Working" "bf_passes b = [ps0]" "\<not> bf_kicked b" "\<not> bf_stopped b" "covers K D b ps"
  shows "levelling K D (setPass 0 ps b)"
proof -
  have "failuresOf (setPass 0 ps b) = failuresOf b" by (simp add: failuresOf_def setPass_def fun_eq_iff)
  then show ?thesis using assms by (simp add: levelling_def setPass_def covers_def)
qed

lemma covers_afterMessage:
  assumes "covers K D b ps" "i < length (p_workers ps)" "D \<subseteq> D'" "D' \<subseteq> K" "\<And>h. 0 < failuresOf b h \<Longrightarrow> 0 < failuresOf b' h"
    and "inFlight (p_workers ps ! i) \<subseteq> D' \<union> {h. 0 < failuresOf b' h}"
  shows "covers K D' b' (afterMessage now i ps)"
  using covers_setWorker [of K D b ps i D' b' AtHead] covers_setWorker [of K D b "ps\<lparr>p_sinceFlush := 0, p_lastFlush := now\<rparr>" i D' b' Flushing] assms
  by (simp add: afterMessage_def covers_fields)

lemma levelling_phase:
  assumes "levelling K D b" "\<forall>hs g. bf_phase b \<noteq> Removing hs g" "bf_phase b \<noteq> Working" "\<forall>hs g. f \<noteq> Removing hs g"
    and "b' = b\<lparr>bf_index := st, bf_phase := f, bf_retries := n\<rparr>"
  shows "levelling K D b'"
proof -
  obtain ps where ps: "bf_passes b = [ps]" "covers K D b ps" "\<forall>w\<in>set (p_workers ps). w = Ended" "\<not> bf_kicked b" "\<not> bf_stopped b"
    using assms(1-3) by (auto simp: levelling_def split: phase.splits)
  have "failuresOf b' = failuresOf b" using assms(5) by (simp add: failuresOf_def fun_eq_iff)
  then have "covers K D b' ps" using ps(2) by (simp add: covers_def)
  then show ?thesis using ps assms(4,5) by (cases f) (auto simp: levelling_def)
qed

context message_index
begin

lemma keeps_all:
  assumes "bsteps ix es b = Some b'" "inv (k + sum_list (map addsOf es)) (bf_index b)" "\<forall>e\<in>set es. event_ok e" "\<forall>msg\<in>bf_texts b. fits msg"
    and "\<forall>e\<in>set es. partial_list e" "noRemove b"
  shows "holds (bf_index b) \<subseteq>\<^sub>m holds (bf_index b')"
  using assms
proof (induction es arbitrary: b)
  case (Cons e es)
  obtain b1 where b1: "bstep ix e b = Some b1" "bsteps ix es b1 = Some b'" using Cons.prems(1) by (auto split: option.splits)
  have i: "inv ((k + sum_list (map addsOf es)) + addsOf e) (bf_index b)" using Cons.prems(2) by (simp add: ac_simps)
  have e: "event_ok e" "partial_list e" using Cons.prems(3,5) by auto
  note h = step_holds [OF b1(1) i Cons.prems(4) e(1)]
  have t: "\<forall>msg\<in>bf_texts b1. fits msg" using step_work(2) [OF b1(1)] Cons.prems(4) e(1) by (auto simp: event_ok_def)
  have "holds (bf_index b1) \<subseteq>\<^sub>m holds (bf_index b')"
    using Cons.IH [OF b1(2) h(1) _ t _ step_noRemove [OF b1(1) Cons.prems(6) e(2)]] Cons.prems(3,5) by simp
  then show ?case using h(3) Cons.prems(6) map_le_trans by (auto simp: noRemove_def)
qed simp

lemma step_level:
  assumes "bstep ix e b = Some b'" "undisturbed e" "levelling K (dom (holds (bf_index b))) b" "inv (k + addsOf e) (bf_index b)"
    and "\<forall>msg\<in>bf_texts b. fits msg" "event_ok e" "\<forall>io\<in>ioOf e. commits io"
  shows "levelling K (dom (holds (bf_index b'))) b'"
proof (cases e)
  case (Removed now)
  then obtain hs fetch where r: "bf_phase b = Removing hs fetch" using assms by (auto split: phase.splits)
  obtain st where st: "ix_remove ix hs (bf_index b) = (st, True)" "holds st = (\<lambda>h. if h \<in> set hs then None else holds (bf_index b) h)"
    using remove_law [of k "bf_index b" hs] assms(4) Removed by auto
  have d: "dom (holds st) = dom (holds (bf_index b)) - set hs" using st(2) by (auto split: if_splits)
  have b': "b' = startWorkers now fetch (b\<lparr>bf_index := st\<rparr>)" using assms(1) Removed r st(1) by simp
  have lv: "\<not> bf_kicked b" "\<not> bf_stopped b" "bf_passes b = []" "dom (holds (bf_index b)) - set hs \<subseteq> K" "set hs \<inter> K = {}"
      "K - dom (holds (bf_index b)) \<subseteq> set fetch" "set fetch \<subseteq> K" using assms(3) r by (simp_all add: levelling_def)
  have "levelling K (dom (holds st)) b'"
    unfolding b' by (rule startWorkers_covers) (use lv d in auto)
  then show ?thesis using b' by (simp add: startWorkers_def)
next
  case (Head p i runnable)
  then have w: "workerAt p i b = AtHead" using assms by (auto split: if_splits)
  obtain ps where ps: "p = 0" "bf_phase b = Working" "bf_passes b = [ps]" "covers K (dom (holds (bf_index b))) b ps" "i < length (p_workers ps)" "p_workers ps ! i = AtHead"
      "\<not> bf_kicked b" "\<not> bf_stopped b" using in_pass [OF assms(3) w] by auto
  have end': "levelling K (dom (holds (bf_index b))) (setPass 0 (setWorker i Ended ps) b)" if "p_queue ps = [] \<or> p_gaveUp ps"
    by (rule levelling_setPass [OF ps(2,3,7,8)], rule covers_setWorker [OF ps(4,5)]) (use ps that in \<open>auto simp: covers_def\<close>)
  have fetch: "levelling K (dom (holds (bf_index b))) (setPass 0 (setWorker i (Fetching h) (ps\<lparr>p_queue := hs\<rparr>)) b)"
    if q: "p_queue ps = h # hs" "\<not> p_gaveUp ps" for h hs
  proof (rule levelling_setPass [OF ps(2,3,7,8)])
    let ?n = "setWorker i (Fetching h) (ps\<lparr>p_queue := hs\<rparr>)"
    have "passWork ?n \<subseteq> passWork ps" using setWorker_work(1) [of i "Fetching h" "ps\<lparr>p_queue := hs\<rparr>"] q(1) by (auto simp: passWork_def)
    moreover have "Fetching h \<in> set (p_workers ?n)" using ps(5) by (simp add: setWorker_def set_update_memI)
    then have "h \<in> passWork ?n" by (force simp: passWork_def)
    then have "passWork ps \<subseteq> passWork ?n"
      using passWork_split [of i "ps\<lparr>p_queue := hs\<rparr>" "Fetching h"] ps(5,6) q(1) by (auto simp: passWork_def)
    moreover have "Ended \<notin> set (p_workers ps)" using ps(4) q by (auto simp: covers_def)
    then have "Ended \<notin> set (p_workers ?n)" using ended_setWorker [of i "Fetching h" "ps\<lparr>p_queue := hs\<rparr>"] by auto
    moreover have "p_workers ?n \<noteq> []" using ps(5) by (auto simp: setWorker_def)
    ultimately show "covers K (dom (holds (bf_index b))) b ?n" using ps(4) unfolding covers_def by blast
  qed
  have r: "runnable" using assms(2) Head by simp
  show ?thesis using assms(1) Head w ps end' fetch r by (auto simp: Let_def go_def split: list.splits if_splits)
next
  case (Fetched p i now result)
  then obtain h where w: "workerAt p i b = Fetching h" using assms by (auto split: worker.splits)
  obtain ps where ps: "p = 0" "bf_phase b = Working" "bf_passes b = [ps]" "covers K (dom (holds (bf_index b))) b ps" "i < length (p_workers ps)" "p_workers ps ! i = Fetching h"
      "\<not> bf_kicked b" "\<not> bf_stopped b" using in_pass [OF assms(3) w] by auto
  have hK: "h \<in> K" using ps(4-6) nth_mem [OF ps(5)] by (force simp: covers_def passWork_def)
  show ?thesis
  proof (cases result)
    case None
    have f: "0 < failuresOf b h' \<Longrightarrow> 0 < failuresOf (countFailure h b) h'" "0 < failuresOf (countFailure h b) h" for h'
      by (auto simp: failuresOf_def countFailure_def update_conv')
    have "levelling K (dom (holds (bf_index b))) (setPass 0 (afterMessage now i (messageFailed ps)) (countFailure h b))"
    proof (rule levelling_setPass)
      show "covers K (dom (holds (bf_index b))) (countFailure h b) (afterMessage now i (messageFailed ps))"
        by (rule covers_afterMessage [OF covers_fields(3) [OF ps(4)]]) (use ps f in \<open>auto simp: covers_def\<close>)
    qed (use ps in \<open>auto simp: countFailure_def\<close>)
    then show ?thesis using assms(1) Fetched w ps None by (auto simp: Let_def)
  next
    case (Some r)
    obtain msg names where r: "r = (msg, names)" by (cases r)
    have "levelling K (dom (holds (bf_index b))) (setPass 0 (setWorker i (Adding h msg names) ps) b)"
      by (rule levelling_setPass [OF ps(2,3,7,8)], rule covers_setWorker [OF ps(4,5)]) (use ps hK in \<open>auto simp: covers_def\<close>)
    then show ?thesis using assms(1) Fetched w ps Some r by (auto simp: Let_def)
  qed
next
  case (Indexed p i now)
  then obtain h msg names where w: "workerAt p i b = Adding h msg names" using assms by (auto split: worker.splits)
  obtain ps where ps: "p = 0" "bf_phase b = Working" "bf_passes b = [ps]" "covers K (dom (holds (bf_index b))) b ps" "i < length (p_workers ps)" "p_workers ps ! i = Adding h msg names"
      "\<not> bf_kicked b" "\<not> bf_stopped b" using in_pass [OF assms(3) w] by auto
  have hK: "h \<in> K" using ps(4-6) nth_mem [OF ps(5)] by (force simp: covers_def passWork_def)
  have "msg \<in> bf_texts b" using workerAt_work(5) [of p i b] w by simp
  then obtain st where st: "ix_add ix h msg names (bf_index b) = (st, True)"
      "holds st = (if holds (bf_index b) h \<noteq> None then holds (bf_index b) else (holds (bf_index b))(h \<mapsto> view msg names))"
    using add_law [of k "bf_index b" msg h names] assms(4,5) Indexed by auto
  have d: "dom (holds st) = insert h (dom (holds (bf_index b)))" using st(2) by (auto simp: domIff)
  have fo: "failuresOf (b\<lparr>bf_index := st\<rparr>) = failuresOf b" by (simp add: failuresOf_def fun_eq_iff)
  have "levelling K (dom (holds st)) (setPass 0 (afterMessage now i (messageDone ps)) (b\<lparr>bf_index := st\<rparr>))"
  proof (rule levelling_setPass)
    show "covers K (dom (holds st)) (b\<lparr>bf_index := st\<rparr>) (afterMessage now i (messageDone ps))"
      by (rule covers_afterMessage [of K "dom (holds (bf_index b))" b]) (use ps hK d fo in \<open>auto simp: covers_def messageDone_def passWork_def\<close>)
  qed (use ps in auto)
  then show ?thesis using assms(1) Indexed w ps st(1) by (auto simp: Let_def)
next
  case (Flushed p i io)
  then have w: "workerAt p i b = Flushing" using assms by (auto split: if_splits)
  obtain ps where ps: "p = 0" "bf_phase b = Working" "bf_passes b = [ps]" "covers K (dom (holds (bf_index b))) b ps" "i < length (p_workers ps)" "p_workers ps ! i = Flushing"
      "\<not> bf_kicked b" "\<not> bf_stopped b" using in_pass [OF assms(3) w] by auto
  obtain st where st: "ix_flush ix io (bf_index b) = (st, True)" "holds st = holds (bf_index b)"
    using flush_law [of k "bf_index b" io] assms(4,6,7) Flushed by (auto simp: event_ok_def)
  have fo: "failuresOf (b\<lparr>bf_index := st\<rparr>) = failuresOf b" by (simp add: failuresOf_def fun_eq_iff)
  have "levelling K (dom (holds st)) (setPass 0 (setWorker i AtHead ps) (b\<lparr>bf_index := st\<rparr>))"
  proof (rule levelling_setPass)
    show "covers K (dom (holds st)) (b\<lparr>bf_index := st\<rparr>) (setWorker i AtHead ps)"
      by (rule covers_setWorker [OF ps(4,5)]) (use ps st fo in \<open>auto simp: covers_def\<close>)
  qed (use ps in auto)
  then show ?thesis using assms(1) Flushed w ps st(1) by (auto simp: Let_def)
next
  case (Joined now)
  then have j: "bf_phase b = Working" "\<forall>w\<in>set (p_workers (last (bf_passes b))). w = Ended"
      "b' = b\<lparr>bf_phase := (if ix_pending ix (bf_index b) then LastFlush else Closing)\<rparr>" using assms(1) by (auto split: if_splits)
  have "failuresOf b' = failuresOf b" using j(3) by (simp add: failuresOf_def fun_eq_iff)
  then show ?thesis using assms(3) j by (auto simp: levelling_def covers_def)
next
  case (LastFlushed io)
  obtain st where st: "ix_flush ix io (bf_index b) = (st, True)" "holds st = holds (bf_index b)"
    using flush_law [of k "bf_index b" io] assms(4,6,7) LastFlushed by (auto simp: event_ok_def)
  have l: "bf_phase b = LastFlush" "b' = b\<lparr>bf_index := st, bf_phase := Closing\<rparr>" using assms(1) LastFlushed st(1) by (auto split: if_splits)
  show ?thesis using levelling_phase [OF assms(3), of Closing b' "bf_retries b" st] l st(2) by simp
next
  case (Closed now runnable)
  have nk: "\<not> bf_kicked b" using assms(3) by (simp add: levelling_def)
  have c: "bf_phase b = Closing" "b' = b\<lparr>bf_phase := Ending, bf_retries := bf_retries b'\<rparr> \<or> b' = b\<lparr>bf_phase := Compacting\<rparr>"
    using assms(1) Closed nk by (auto simp: endPass_def split: if_splits)
  from c(2) show ?thesis
  proof
    assume "b' = b\<lparr>bf_phase := Ending, bf_retries := bf_retries b'\<rparr>"
    then show ?thesis using levelling_phase [OF assms(3), of Ending b' "bf_retries b'" "bf_index b"] c(1) by (cases b') auto
  next
    assume "b' = b\<lparr>bf_phase := Compacting\<rparr>"
    then show ?thesis using levelling_phase [OF assms(3), of Compacting b' "bf_retries b" "bf_index b"] c(1) by simp
  qed
next
  case (Compacted now io)
  obtain st where st: "ix_compact ix io (bf_index b) = (st, True)" "holds st = holds (bf_index b)"
    using compact_law [of k "bf_index b" io] assms(4,6,7) Compacted by (auto simp: event_ok_def)
  have nk: "\<not> bf_kicked b" using assms(3) by (simp add: levelling_def)
  have l: "bf_phase b = Compacting" "b' = b\<lparr>bf_index := st, bf_phase := Ending\<rparr>" using assms(1) Compacted st(1) nk by (auto simp: endPass_def split: if_splits)
  show ?thesis using levelling_phase [OF assms(3), of Ending b' "bf_retries b" st] l st(2) by simp
next
  case Settled
  then have l: "bf_phase b = Ending" "b' = b\<lparr>bf_phase := Idle\<rparr>" using assms(1) by (auto split: if_splits)
  show ?thesis using levelling_phase [OF assms(3), of Idle b' "bf_retries b" "bf_index b"] l by simp
qed (use assms(2) in auto)

lemma steps_level:
  assumes "bsteps ix es b = Some b'" "\<forall>e\<in>set es. undisturbed e \<and> event_ok e \<and> (\<forall>io\<in>ioOf e. commits io)"
    and "levelling K (dom (holds (bf_index b))) b" "inv (k + sum_list (map addsOf es)) (bf_index b)" "\<forall>msg\<in>bf_texts b. fits msg"
  shows "levelling K (dom (holds (bf_index b'))) b'"
  using assms
proof (induction es arbitrary: b)
  case (Cons e es)
  obtain b1 where b1: "bstep ix e b = Some b1" "bsteps ix es b1 = Some b'" using Cons.prems(1) by (auto split: option.splits)
  have i: "inv ((k + sum_list (map addsOf es)) + addsOf e) (bf_index b)" using Cons.prems(4) by (simp add: ac_simps)
  have e: "undisturbed e" "event_ok e" "\<forall>io\<in>ioOf e. commits io" using Cons.prems(2) by auto
  have t: "\<forall>msg\<in>bf_texts b1. fits msg" using step_work(2) [OF b1(1)] Cons.prems(5) e(2) by (auto simp: event_ok_def)
  show ?case using Cons.IH [OF b1(2) _ step_level [OF b1(1) e(1) Cons.prems(3) i Cons.prems(5) e(2,3)] step_holds(1) [OF b1(1) i Cons.prems(5) e(2)] t] Cons.prems(2)
    by simp
qed simp

text \<open>From a complete list to a level index.\<close>

lemma pass_levels:
  assumes "bsteps ix (Update now cs True # es) (newBackfiller st) = Some b" "inv (k + sum_list (map addsOf es)) st"
    and "\<forall>e\<in>set es. undisturbed e \<and> event_ok e \<and> (\<forall>io\<in>ioOf e. commits io)"
    and "bf_phase b = Ending \<or> bf_phase b = Idle" "\<not> p_gaveUp (last (bf_passes b))"
  shows "dom (holds (bf_index b)) \<subseteq> wanted cs \<and> (\<forall>h\<in>wanted cs. holds (bf_index b) h \<noteq> None \<or> 0 < failuresOf b h)"
proof -
  let ?K = "wanted cs" and ?b0 = "(newBackfiller st)\<lparr>bf_candidates := cs, bf_complete := True\<rparr>"
  let ?b1 = "beginPass ix now ?b0"
  have run: "bsteps ix es ?b1 = Some b" using assms(1) by (simp add: updateCandidates_def kick_def newBackfiller_def)
  have st: "bf_index ?b1 = st" using beginPass_work(4) [of ix now ?b0] by (simp add: newBackfiller_def)
  have tx: "bf_texts ?b1 = {}" using beginPass_work(2) [of ix now ?b0] by (simp add: newBackfiller_def bf_texts_def)
  obtain fetch rem where pl: "planPass cs (ix_has ix st) (Some (ix_hashes ix st)) = (fetch, rem)" by (cases "planPass cs (ix_has ix st) (Some (ix_hashes ix st))")
  have f: "set fetch = ?K - dom (holds st)" "set rem = dom (holds st) - ?K"
    using planPass_sets [of cs "ix_has ix st" "Some (ix_hashes ix st)"] pl has_law [OF assms(2)] hashes_law [OF assms(2)] by (auto simp: domIff)
  have "levelling ?K (dom (holds st)) ?b1"
  proof (cases "rem = []")
    case True
    have "levelling ?K (dom (holds st)) (startWorkers now fetch (?b0\<lparr>bf_kicked := False\<rparr>))"
      by (rule startWorkers_covers) (use f True in \<open>auto simp: newBackfiller_def\<close>)
    then show ?thesis using pl True by (simp add: beginPass_def newBackfiller_def)
  next
    case False
    then have "?b1 = ?b0\<lparr>bf_kicked := False, bf_phase := Removing rem fetch\<rparr>" using pl by (simp add: beginPass_def newBackfiller_def)
    then show ?thesis using f by (auto simp: levelling_def newBackfiller_def)
  qed
  then have "levelling ?K (dom (holds (bf_index b))) b"
    using steps_level [OF run assms(3), of ?K k] st tx assms(2) by simp
  from levelled [OF this assms(4,5)] show ?thesis by (auto simp: domIff)
qed

end

end
