(* ===== verification/Search_Contract.thy ===== *)
theory Search_Contract
  imports Search_Compact Backfill_Level
begin

section \<open>The search index keeps the contract the backfill relies on\<close>

text \<open>
  \<open>SearchIndex\<close> seen through \<open>IndexLike\<close> of \<open>lib/search/backfill.ts\<close>, the refinement of any sequence of
  its operations to operations on a map, and the composition of the index with the backfill. What the
  environment decides at a write is the initialisation vectors and which transactions commit.
\<close>

type_synonym search_io = "(string \<Rightarrow> bytes) \<times> (nat \<Rightarrow> bool)"

definition io_fine :: "search_io \<Rightarrow> bool" where
  "io_fine io \<longleftrightarrow> iv_ok (fst io)"

definition io_commits :: "search_io \<Rightarrow> bool" where
  "io_commits io \<longleftrightarrow> (\<forall>i. snd io i)"

definition searchIndexLike :: "search_env \<Rightarrow> (search_io, srch) IndexLike" where
  "searchIndexLike env =
     \<lparr>ix_has = (\<lambda>s h. hasHash (snd s) h), ix_hashes = (\<lambda>s. hashes (snd s)),
      ix_add = (\<lambda>h msg names s. map_prod id (\<lambda>e. e = None) (addMessage env h msg names s)),
      ix_remove = (\<lambda>hs s. map_prod id (\<lambda>e. e = None) (removeMessages env hs s)),
      ix_flush = (\<lambda>(ivf, commits) s. map_prod id (\<lambda>e. e = None) (flushNow env ivf (commits 0) s)),
      ix_pending = (\<lambda>s. pending (snd s)), ix_wantsCompaction = (\<lambda>s. wantsCompaction (snd s)),
      ix_compact = (\<lambda>(ivf, commits) s. map_prod id (\<lambda>e. e = None) (compact env ivf commits s))\<rparr>"

lemma contents_dom: "dom (contents env s) = set (hashes (snd s))"
proof -
  have "dom (contents env s) = dom (map_of (si_docs (snd s)))" by (auto simp: contents_def)
  then show ?thesis by (simp add: hashes_def dom_map_of_conv_image_fst)
qed

interpretation si: message_index "searchIndexLike env" "\<lambda>k s. search_laws env \<and> index_ok env k s" "contents env"
  "\<lambda>msg names. (set (tokenize (se_unicode env) msg), filter (\<lambda>n. n \<noteq> []) names)" "small (se_unicode env)"
  io_fine io_commits
  for env
proof unfold_locales
  fix k st h msg names hs and io :: search_io
  assume ok: "search_laws env \<and> index_ok env k st"
  show "ix_has (searchIndexLike env) st h \<longleftrightarrow> contents env st h \<noteq> None" by (simp add: searchIndexLike_def contents_None)
  show "set (ix_hashes (searchIndexLike env) st) = dom (contents env st)" by (simp add: searchIndexLike_def contents_dom)
  show "\<exists>st'. ix_remove (searchIndexLike env) hs st = (st', True) \<and> (search_laws env \<and> index_ok env k st')
      \<and> contents env st' = (\<lambda>h. if h \<in> set hs then None else contents env st h)"
    using removeMessages_ok [of env k st hs] ok by (auto simp: searchIndexLike_def)
  assume "io_fine io"
  then have io: "iv_ok (fst io)" by (simp add: io_fine_def)
  obtain ivf commits where i: "io = (ivf, commits)" by (cases io)
  show "\<exists>st' ok. ix_flush (searchIndexLike env) io st = (st', ok) \<and> (search_laws env \<and> index_ok env k st') \<and> contents env st' = contents env st
      \<and> (io_commits io \<longrightarrow> ok)"
    using flushNow_ok(1) [of env k st ivf "commits 0"] ok io i by (auto simp: searchIndexLike_def io_commits_def)
  show "\<exists>st' ok. ix_compact (searchIndexLike env) io st = (st', ok) \<and> (search_laws env \<and> index_ok env k st') \<and> contents env st' = contents env st
      \<and> (io_commits io \<longrightarrow> ok)"
  proof -
    obtain st' e where "compact env ivf commits st = (st', e)" "index_ok env k st'" "contents env st' = contents env st" "(\<forall>i. commits i) \<longrightarrow> e = None"
      using compact_ok [of env k st ivf commits] ok io i by auto
    then show ?thesis using ok i by (intro exI [of _ st'] exI [of _ "e = None"]) (simp add: searchIndexLike_def io_commits_def)
  qed
next
  fix k st h msg names
  assume "search_laws env \<and> index_ok env (Suc k) st" "small (se_unicode env) msg"
  then show "\<exists>st'. ix_add (searchIndexLike env) h msg names st = (st', True) \<and> (search_laws env \<and> index_ok env k st')
      \<and> contents env st' = (if contents env st h \<noteq> None then contents env st
          else (contents env st)(h \<mapsto> (set (tokenize (se_unicode env) msg), filter (\<lambda>n. n \<noteq> []) names)))"
    using addMessage_ok [of env k st msg h names] by (auto simp: searchIndexLike_def)
qed

subsection \<open>Sequences of operations\<close>

datatype index_op =
    OpAdd string string "string list"
  | OpRemove "string list"
  | OpFlush search_io
  | OpCompact search_io

fun runOp :: "search_env \<Rightarrow> index_op \<Rightarrow> srch \<Rightarrow> srch" where
  "runOp env (OpAdd h msg names) s = fst (addMessage env h msg names s)"
| "runOp env (OpRemove hs) s = fst (removeMessages env hs s)"
| "runOp env (OpFlush io) s = fst (flushNow env (fst io) (snd io 0) s)"
| "runOp env (OpCompact io) s = fst (compact env (fst io) (snd io) s)"

text \<open>The same operations on the map: the first text of a message stays until the message is removed.\<close>

fun mapOp :: "unicode \<Rightarrow> index_op \<Rightarrow> (string \<Rightarrow> (string set \<times> string list) option) \<Rightarrow> string \<Rightarrow> (string set \<times> string list) option" where
  "mapOp u (OpAdd h msg names) m = (if m h \<noteq> None then m else m(h \<mapsto> (set (tokenize u msg), filter (\<lambda>n. n \<noteq> []) names)))"
| "mapOp u (OpRemove hs) m = (\<lambda>h. if h \<in> set hs then None else m h)"
| "mapOp u _ m = m"

fun opCost :: "index_op \<Rightarrow> nat" where
  "opCost (OpAdd h msg names) = 1"
| "opCost _ = 0"

fun op_ok :: "unicode \<Rightarrow> index_op \<Rightarrow> bool" where
  "op_ok u (OpAdd h msg names) = small u msg"
| "op_ok u (OpRemove hs) = True"
| "op_ok u (OpFlush io) = iv_ok (fst io)"
| "op_ok u (OpCompact io) = iv_ok (fst io)"

lemma runOp_refines:
  assumes "search_laws env" "index_ok env (k + opCost op) s" "op_ok (se_unicode env) op"
  shows "index_ok env k (runOp env op s) \<and> contents env (runOp env op s) = mapOp (se_unicode env) op (contents env s)"
proof (cases op)
  case (OpAdd h msg names)
  then show ?thesis using addMessage_ok [of env k s msg h names] assms by auto
next
  case (OpRemove hs)
  then show ?thesis using removeMessages_ok [of env k s hs] assms by auto
next
  case (OpFlush io)
  then show ?thesis using flushNow_ok(1) [of env k s "fst io" "snd io 0"] assms by auto
next
  case (OpCompact io)
  then show ?thesis using compact_ok [of env k s "fst io" "snd io"] assms by auto
qed

lemma runOps_refines:
  assumes "search_laws env" "index_ok env (k + sum_list (map opCost ops)) s" "\<forall>op\<in>set ops. op_ok (se_unicode env) op"
  shows "index_ok env k (fold (runOp env) ops s) \<and> contents env (fold (runOp env) ops s) = fold (mapOp (se_unicode env)) ops (contents env s)"
  using assms
proof (induction ops arbitrary: s)
  case (Cons op ops)
  have "index_ok env ((k + sum_list (map opCost ops)) + opCost op) s" using Cons.prems(2) by (simp add: ac_simps)
  from runOp_refines [OF Cons.prems(1) this] show ?case using Cons by simp
qed simp

text \<open>An index opened over a database that holds nothing for the account.\<close>

lemma fresh_ok:
  assumes "length key = 32" "map_of db (nsOf address @ ''files'') = None" "k < 2 ^ 32"
  shows "index_ok env k (db, newIndex address key)" "contents env (db, newIndex address key) = Map.empty"
proof -
  let ?s = "(db, newIndex address key)"
  have rd: "siRead env ?s ''files'' = Inr None" using assms(2) by (simp add: siRead_def slotOf_def newIndex_def)
  have at: "shardAt env ?s id' = []" "baseShard env ?s id' = []" for id' by (simp_all add: shardAt_def baseShard_def newIndex_def)
  have fl: "storedFiles env ?s = []" "filesAt env ?s = []" using rd by (simp_all add: storedFiles_def filesAt_def newIndex_def)
  have "k * 2 ^ 20 < 2 ^ 53" using assms(3) by simp
  then have "shards_ok env k ?s" using at by (simp add: shards_ok_def shardFine_def newIndex_def)
  moreover have "files_ok env ?s" using rd fl by (simp add: files_ok_def readableFiles_def newIndex_def)
  moreover have "docs_ok ?s" "cache_ok env ?s" using at by (simp_all add: docs_ok_def cache_ok_def live_def newIndex_def)
  ultimately show "index_ok env k ?s" using assms by (simp add: index_ok_def newIndex_def)
  show "contents env ?s = Map.empty" by (simp add: contents_def newIndex_def fun_eq_iff)
qed

subsection \<open>A concrete environment\<close>

text \<open>
  A byte form for the two documents in which every number is written in unary, used to show that the
  laws asked of the environment can hold.
\<close>

definition demo_manifest_text :: "ManifestJSON \<Rightarrow> bytes" where
  "demo_manifest_text m =
     putNat (mf_v m) @ putNat (mf_next m) @ putList (putPair putStr putNat) (mf_docs m) @ putList putStr (mf_shards m) @ putNat (mf_orphans m)"

definition demo_manifest_parse :: "bytes \<Rightarrow> ManifestJSON option" where
  "demo_manifest_parse b0 =
     (case getNat b0 of (v, b1) \<Rightarrow> case getNat b1 of (n, b2) \<Rightarrow> case getList (getPair getStr getNat) b2 of (ds, b3) \<Rightarrow>
      case getList getStr b3 of (ss, b4) \<Rightarrow> Some \<lparr>mf_v = v, mf_next = n, mf_docs = ds, mf_shards = ss, mf_orphans = fst (getNat b4)\<rparr>)"

definition demo_env :: search_env where
  "demo_env =
     \<lparr>se_crypto = demo_crypto, se_unicode = demo_unicode, manifestText = demo_manifest_text, manifestParse = demo_manifest_parse,
      filesText = putList (putPair putNat (putList putStr)), filesParse = (\<lambda>b. Some (fst (getList (getPair getNat (getList getStr)) b)))\<rparr>"

lemma demo_search_laws: "search_laws demo_env"
proof -
  have "demo_manifest_parse (demo_manifest_text m) = Some m" for m
    using getNat_put [of "mf_orphans m" "[]"]
    by (simp add: demo_manifest_parse_def demo_manifest_text_def get_put)
  moreover have "fst (getList (getPair getNat (getList getStr)) (putList (putPair putNat (putList putStr)) l)) = l" for l
    using getList_put [of "getPair getNat (getList getStr)" "putPair putNat (putList putStr)" l "[]"] by (simp add: get_put)
  ultimately show ?thesis by (simp add: search_laws_def demo_env_def demo_gcm_laws)
qed

definition demo_search :: srch where
  "demo_search = ([], newIndex ''al@x.io'' (replicate 32 7))"

lemma demo_search_ok: "k < 2 ^ 32 \<Longrightarrow> index_ok demo_env k demo_search" "contents demo_env demo_search = Map.empty"
  using fresh_ok [of "replicate 32 7" "[]" "''al@x.io''" k demo_env] fresh_ok(2) [of "replicate 32 7" "[]" "''al@x.io''" 0 demo_env]
  by (simp_all add: demo_search_def)

definition demo_io :: search_io where
  "demo_io = (\<lambda>_. replicate 12 0, \<lambda>_. True)"

lemma demo_io_ok [simp]: "iv_ok (fst demo_io)"
  by (simp add: demo_io_def iv_ok_def)

lemma demo_tokens:
  "tokenize demo_unicode ''invoice march'' = [''invoice'', ''march'']" "tokenize demo_unicode ''invo'' = [''invo'']"
  "tokenize demo_unicode ''hello'' = [''hello'']" "se_unicode demo_env = demo_unicode"
  by (simp_all add: tokenize_def foldText_def keep_def takeWords_def wordRuns.simps demo_unicode_def MAX_INDEX_CHARS_def MAX_TOKEN_def
      is_alpha_def is_digit_def toLowerCase_def char_lower_def setAdd_def demo_env_def)

lemma demo_small: "small demo_unicode ''invoice march''" "small demo_unicode ''hello''"
  by (simp_all add: small_def demo_tokens)

lemma demo_added:
  "addMessage demo_env ''h1'' ''hello'' [] demo_search =
     (([], (newIndex ''al@x.io'' (replicate 32 7))\<lparr>si_next := 1, si_docs := [(''h1'', 0)], si_byDoc := [(0, ''h1'')], si_shardIds := [''he''],
         si_cache := [(''he'', [(''hello'', [0])], 0)], si_dirty := [''he''], si_manifestDirty := True\<rparr>), None)"
  by (simp add: addMessage_def demo_tokens hasHash_def demo_search_def newIndex_def byShard_def shardOf_def addGroup_def getShard_def
      addPosting_def setAdd_def Let_def insertDoc_def)

lemma demo_added_ok:
  "index_ok demo_env 0 (fst (addMessage demo_env ''h1'' ''hello'' [] demo_search))"
  "contents demo_env (fst (addMessage demo_env ''h1'' ''hello'' [] demo_search)) ''h1'' = Some ({''hello''}, [])"
  using addMessage_ok [of demo_env 0 demo_search "''hello''" "''h1''" "[]"] demo_search_ok demo_small demo_tokens by auto

subsection \<open>Properties\<close>

text \<open>
  C4. The search index refines a map from message hashes to words and attachment names: after any sequence
  of additions, removals, flushes and compactions, whichever of their transactions abort, the index holds
  what the same operations leave in the map, and a word search of it finds exactly the messages of that
  map with, for every word of the query, a word that starts with it.
\<close>

theorem search_index_refines_map:
  assumes "search_laws env" "index_ok env (k + sum_list (map opCost ops)) s" "\<forall>op\<in>set ops. op_ok (se_unicode env) op"
  shows "contents env (fold (runOp env) ops s) = fold (mapOp (se_unicode env)) ops (contents env s)
    \<and> (\<exists>s' hs. wordHits env query (fold (runOp env) ops s) = (s', Inr hs)
        \<and> set hs = hitsFor (se_unicode env) (fold (mapOp (se_unicode env)) ops (contents env s)) query)"
proof -
  note r = runOps_refines [OF assms]
  obtain s' hs where "wordHits env query (fold (runOp env) ops s) = (s', Inr hs)"
      "set hs = hitsFor (se_unicode env) (contents env (fold (runOp env) ops s)) query"
    using wordHits_ok [of env k "fold (runOp env) ops s" query] r by blast
  then show ?thesis using r by simp
qed

definition demo_ops :: "index_op list" where
  "demo_ops = [OpAdd ''h1'' ''invoice march'' [''a.pdf''], OpAdd ''h2'' ''hello'' [], OpFlush demo_io, OpRemove [''h2''], OpCompact demo_io]"

theorem search_index_refines_map_witness:
  "contents demo_env (fold (runOp demo_env) demo_ops demo_search) ''h2'' = None
   \<and> (\<exists>s' hs. wordHits demo_env ''invo'' (fold (runOp demo_env) demo_ops demo_search) = (s', Inr hs) \<and> set hs = {''h1''})"
proof -
  let ?m = "fold (mapOp demo_unicode) demo_ops Map.empty"
  note u = demo_tokens(4)
  have m: "?m = [''h1'' \<mapsto> (set (tokenize demo_unicode ''invoice march''), [''a.pdf''])]" by (auto simp: demo_ops_def fun_eq_iff)
  note t = demo_tokens(1-3)
  have "hitsFor demo_unicode ?m ''invo'' = {''h1''}" by (auto simp: hitsFor_def m t startsWith_def split: if_splits)
  then show ?thesis
    using search_index_refines_map [OF demo_search_laws demo_search_ok(1), of 0 demo_ops "''invo''"] demo_small m
    by (simp add: u demo_search_ok(2)) (simp add: demo_ops_def)
qed

text \<open>
  A committed flush can be read back: any instance over the same database with the same key that
  reloads afterwards holds exactly the messages, words and names the flushing instance held.
\<close>

lemma flush_then_reload:
  assumes "index_ok env k s" "search_laws env" "iv_ok ivf" "pending (snd s)" "flushNow env ivf True s = (s1, None)"
    and "si_ns tab = si_ns (snd s)" "si_key tab = si_key (snd s)" "si_dirty tab = []" "\<not> si_filesDirty tab"
  shows "\<exists>s2. reloadIndex env (fst s1, tab) = (s2, None) \<and> index_ok env k s2 \<and> contents env s2 = contents env s"
  using assms by (rule reload_after_flush)

lemma demo_pending:
  "pending (snd (fst (addMessage demo_env ''h1'' ''hello'' [] demo_search)))"
  "si_ns (snd (fst (addMessage demo_env ''h1'' ''hello'' [] demo_search))) = nsOf ''al@x.io''"
  "si_key (snd (fst (addMessage demo_env ''h1'' ''hello'' [] demo_search))) = replicate 32 7"
  by (simp_all add: demo_added pending_def newIndex_def)


definition demo_cs :: "Candidate list" where
  "demo_cs = [\<lparr>c_hash = ''h1'', c_sentAt = 5, c_blocked = False\<rparr>, \<lparr>c_hash = ''h2'', c_sentAt = 9, c_blocked = True\<rparr>]"

definition demo_events :: "search_io event list" where
  "demo_events = [Head 0 1 True, Head 0 0 True, Fetched 0 1 3 (Some (''hello'', [])), Indexed 0 1 4, Head 0 1 True, Joined 5,
     LastFlushed demo_io, Closed 6 True]"

lemma demo_run:
  "\<exists>b. bsteps (searchIndexLike demo_env) (Update 1 demo_cs True # demo_events) (newBackfiller demo_search) = Some b
     \<and> bf_phase b = Ending \<and> \<not> p_gaveUp (last (bf_passes b)) \<and> failuresOf b ''h1'' = 0"
  by (simp add: demo_events_def demo_cs_def updateCandidates_def kick_def newBackfiller_def beginPass_def planPass_def searchIndexLike_def
      startWorkers_def workerAt_def setPass_def setWorker_def go_def Let_def demo_added afterMessage_def messageDone_def failuresOf_def
      CONCURRENCY_def numeral_2_eq_2 MAX_FAILURES_def FLUSH_EVERY_def FLUSH_AFTER_MS_def flushNow_run pending_def demo_io_def endPass_def
      wantsCompaction_def evict_def hashes_def hasHash_def)
    (simp add: demo_search_def newIndex_def)

lemma demo_wanted: "wanted demo_cs = {''h1''}"
  by (force simp: wanted_def demo_cs_def)

lemma demo_events_ok:
  "\<forall>e\<in>set demo_events. undisturbed e \<and> (\<forall>msg\<in>fetchedText e. small (se_unicode demo_env) msg) \<and> (\<forall>io\<in>ioOf e. io_fine io \<and> io_commits io)"
  using demo_small demo_io_ok by (simp add: demo_events_def demo_tokens io_fine_def) (simp add: demo_io_def io_commits_def)


text \<open>
  C18. While the candidate lists have not loaded in full, no interleaving of updates, fetches and writes
  drops or changes a message that is indexed.
\<close>

theorem backfill_keeps_on_partial_lists:
  assumes "bsteps (searchIndexLike env) es (newBackfiller s) = Some b" "search_laws env" "index_ok env (k + sum_list (map addsOf es)) s"
    and "\<forall>e\<in>set es. partial_list e \<and> (\<forall>msg\<in>fetchedText e. small (se_unicode env) msg) \<and> (\<forall>io\<in>ioOf e. io_fine io)"
  shows "contents env s \<subseteq>\<^sub>m contents env (bf_index b)"
proof -
  have s: "bf_index (newBackfiller s) = s" "bf_texts (newBackfiller s) = {}" "noRemove (newBackfiller s)"
    by (simp_all add: newBackfiller_def bf_texts_def noRemove_def)
  show ?thesis using si.keeps_all [OF assms(1), of k] assms(2-4) s by (auto simp: si.event_ok_def)
qed

text \<open>
  Whatever the calls, failures and orders of events, the backfill never indexes a message unless some
  update listed it as a candidate that is not blocked.
\<close>

lemma backfill_indexes_only_candidates:
  assumes "bsteps (searchIndexLike env) es (newBackfiller s) = Some b" "search_laws env" "index_ok env (k + sum_list (map addsOf es)) s"
    and "\<forall>e\<in>set es. (\<forall>msg\<in>fetchedText e. small (se_unicode env) msg) \<and> (\<forall>io\<in>ioOf e. io_fine io)"
  shows "dom (contents env (bf_index b)) \<subseteq> dom (contents env s) \<union> (\<Union>e\<in>set es. planned e)"
proof -
  have s: "bf_index (newBackfiller s) = s" "bf_texts (newBackfiller s) = {}" "bf_work (newBackfiller s) = {}" "wanted (bf_candidates (newBackfiller s)) = {}"
    by (simp_all add: newBackfiller_def bf_texts_def bf_work_def wanted_def)
  show ?thesis using si.only_candidates [OF assms(1), of k "\<Union>e\<in>set es. planned e"] assms(2-4) s by (auto simp: si.event_ok_def)
qed

lemma demo_partial_run:
  "bsteps (searchIndexLike demo_env) [Update 1 [] False, Head 0 1 True, Head 0 0 True, Joined 5, LastFlushed demo_io]
     (newBackfiller (fst (addMessage demo_env ''h1'' ''hello'' [] demo_search))) \<noteq> None"
  by (simp add: updateCandidates_def kick_def newBackfiller_def beginPass_def planPass_def searchIndexLike_def startWorkers_def workerAt_def
      setPass_def setWorker_def Let_def CONCURRENCY_def numeral_2_eq_2 demo_pending(1) split: prod.splits)

theorem backfill_keeps_on_partial_lists_witness:
  "\<exists>b. bsteps (searchIndexLike demo_env) [Update 1 [] False, Head 0 1 True, Head 0 0 True, Joined 5, LastFlushed demo_io]
     (newBackfiller (fst (addMessage demo_env ''h1'' ''hello'' [] demo_search))) = Some b \<and> contents demo_env (bf_index b) ''h1'' \<noteq> None"
proof -
  let ?s = "fst (addMessage demo_env ''h1'' ''hello'' [] demo_search)" and ?es = "[Update 1 [] False, Head 0 1 True, Head 0 0 True, Joined 5, LastFlushed demo_io]"
  note a = demo_added_ok
  obtain b where b: "bsteps (searchIndexLike demo_env) ?es (newBackfiller ?s) = Some b" using demo_partial_run by blast
  have "contents demo_env ?s \<subseteq>\<^sub>m contents demo_env (bf_index b)"
    by (rule backfill_keeps_on_partial_lists [OF b demo_search_laws, of 0]) (use a demo_io_ok in \<open>simp_all add: io_fine_def\<close>)
  moreover have "''h1'' \<in> dom (contents demo_env ?s)" using a(2) by blast
  ultimately have "contents demo_env (bf_index b) ''h1'' = Some ({''hello''}, [])" using a(2) unfolding map_le_def by metis
  then show ?thesis using b by blast
qed

text \<open>
  C19. A pass ends: no infinite run consists of internal events alone, and while the loop is running an
  internal event is possible, whatever state the calls so far have led to.
\<close>

theorem backfill_settles:
  "wf {(b', b). \<exists>e. internal e \<and> bstep ix e b = Some b'}
   \<and> (\<forall>es b. bsteps ix es (newBackfiller st) = Some b \<longrightarrow> bf_phase b \<noteq> Idle \<longrightarrow> (\<exists>e b'. internal e \<and> bstep ix e b = Some b'))"
proof (intro conjI allI impI)
  fix es b assume r: "bsteps ix es (newBackfiller st) = Some b" and p: "bf_phase b \<noteq> Idle"
  have "hasPass (newBackfiller st)" by (simp add: hasPass_def newBackfiller_def)
  then show "\<exists>e b'. internal e \<and> bstep ix e b = Some b'" using running_moves [OF p] bsteps_passes [OF r] by blast
qed (rule internal_wf)

lemma demo_start:
  "\<exists>b. bsteps (searchIndexLike demo_env) [Update 1 demo_cs True] (newBackfiller demo_search) = Some b \<and> bf_phase b \<noteq> Idle"
  by (simp add: demo_cs_def updateCandidates_def kick_def newBackfiller_def beginPass_def planPass_def searchIndexLike_def startWorkers_def)

theorem backfill_settles_witness:
  "\<exists>b. bsteps (searchIndexLike demo_env) [Update 1 demo_cs True] (newBackfiller demo_search) = Some b
     \<and> (\<exists>e b'. internal e \<and> bstep (searchIndexLike demo_env) e b = Some b')"
  using backfill_settles [of "searchIndexLike demo_env" demo_search] demo_start by blast

end
