(* ===== verification/Split.thy ===== *)
theory Split
  imports Protobuf
begin

section \<open>Messages with a separate header and body\<close>

text \<open>
  \<open>lib/crypto/split.ts\<close> and the message codecs of \<open>lib/crypto/protobuf.ts\<close>: a message is sealed as a
  signed header and a body under one content key, and opened in two steps, the body checked against what
  the header commits to. The generated codec and its decoders, the platform's text decoders and the
  rendering of HTML as plain text are parameters; the values a call draws at random are arguments.
\<close>

subsection \<open>Wire forms\<close>

record MessageHeaderFields =
  mh_version :: nat
  mh_messageId :: bytes
  mh_threadId :: bytes
  mh_senderAddress :: string
  mh_senderPublicKey :: bytes
  mh_recipientAddress :: string
  mh_sentAt :: nat
  mh_subject :: string
  mh_attachmentCount :: nat
  mh_bodySize :: nat
  mh_snippet :: string
  mh_replyToId :: "bytes option"
  mh_bodyHash :: bytes
  mh_bodyContentAddress :: "bytes option"
  mh_to :: "string list option"
  mh_cc :: "string list option"
  mh_bcc :: "string list option"
  mh_senderDisplay :: "string option"

definition js_strings :: "string list option \<Rightarrow> jsval" where
  "js_strings l = (case l of None \<Rightarrow> JUndef | Some xs \<Rightarrow> JArr (map JStr xs))"

definition js_string :: "string option \<Rightarrow> jsval" where
  "js_string s = (case s of None \<Rightarrow> JUndef | Some x \<Rightarrow> JStr x)"

definition headerObj :: "MessageHeaderFields \<Rightarrow> (string \<times> jsval) list" where
  "headerObj h =
     [(''version'', JNum (int (mh_version h))), (''messageId'', JBytes (mh_messageId h)), (''threadId'', JBytes (mh_threadId h)),
      (''replyToId'', js_bytes (mh_replyToId h)), (''senderAddress'', JStr (mh_senderAddress h)),
      (''senderPublicKey'', JBytes (mh_senderPublicKey h)), (''recipientAddress'', JStr (mh_recipientAddress h)),
      (''sentAt'', JNum (int (mh_sentAt h))), (''subject'', JStr (mh_subject h)),
      (''attachmentCount'', JNum (int (mh_attachmentCount h))), (''bodySize'', JNum (int (mh_bodySize h))),
      (''snippet'', JStr (mh_snippet h)), (''bodyHash'', JBytes (mh_bodyHash h)),
      (''bodyContentAddress'', js_bytes (mh_bodyContentAddress h)), (''to'', js_strings (mh_to h)), (''cc'', js_strings (mh_cc h)),
      (''bcc'', js_strings (mh_bcc h)), (''senderDisplay'', js_string (mh_senderDisplay h))]"

definition replyBytes :: "bytes option \<Rightarrow> bytes" where
  "replyBytes r = (case r of Some b \<Rightarrow> if length b = 16 then b else replicate 16 0 | None \<Rightarrow> replicate 16 0)"

definition encodeMessageHeader :: "codec \<Rightarrow> MessageHeaderFields \<Rightarrow> bytes" where
  "encodeMessageHeader enc h =
     enc ''dmcn.message.MessageHeader'' (canonical (JObj (with_field ''replyToId'' (JBytes (replyBytes (mh_replyToId h))) (headerObj h))))"

definition encodeSignedHeader :: "codec \<Rightarrow> MessageHeaderFields \<Rightarrow> bytes \<Rightarrow> bytes" where
  "encodeSignedHeader enc h sig =
     enc ''dmcn.message.SignedHeader'' (JObj [(''header'', JObj (headerObj h)), (''senderSignature'', JBytes sig)])"

record BodyWire =
  bw_contentType :: string
  bw_content :: bytes

record AttachmentWire =
  aw_attachmentId :: bytes
  aw_filename :: string
  aw_contentType :: string
  aw_sizeBytes :: nat
  aw_contentHash :: bytes
  aw_content :: bytes
  aw_contentId :: "string option"
  aw_disposition :: "string option"

record MessageContent =
  mc_body :: BodyWire
  mc_attachments :: "AttachmentWire list option"
  mc_alternatives :: "BodyWire list option"

definition bodyObj :: "BodyWire \<Rightarrow> jsval" where
  "bodyObj b = JObj [(''contentType'', JStr (bw_contentType b)), (''content'', JBytes (bw_content b))]"

definition attachmentObj :: "AttachmentWire \<Rightarrow> jsval" where
  "attachmentObj a =
     JObj [(''attachmentId'', JBytes (aw_attachmentId a)), (''filename'', JStr (aw_filename a)), (''contentType'', JStr (aw_contentType a)),
           (''sizeBytes'', JNum (int (aw_sizeBytes a))), (''contentHash'', JBytes (aw_contentHash a)), (''content'', JBytes (aw_content a)),
           (''contentId'', js_string (aw_contentId a)), (''disposition'', js_string (aw_disposition a))]"

definition encodeMessageContent :: "codec \<Rightarrow> MessageContent \<Rightarrow> bytes" where
  "encodeMessageContent enc c =
     enc ''dmcn.message.MessageContent'' (canonical (JObj
       [(''body'', bodyObj (mc_body c)),
        (''attachments'', case mc_attachments c of None \<Rightarrow> JUndef | Some l \<Rightarrow> JArr (map attachmentObj l)),
        (''alternatives'', case mc_alternatives c of None \<Rightarrow> JUndef | Some l \<Rightarrow> JArr (map bodyObj l))]))"

text \<open>The parameters: what the generated code and the platform do.\<close>

record split_env =
  sp_crypto :: webcrypto
  sp_codec :: codec
  decodeSignedHeader :: "bytes \<Rightarrow> (MessageHeaderFields \<times> bytes) option"
  decodeMessageContent :: "bytes \<Rightarrow> MessageContent option"
  fatalDecode :: "bytes \<Rightarrow> string option"
  lossyDecode :: "bytes \<Rightarrow> string"
  toPlainText :: "string \<Rightarrow> string"

subsection \<open>Composing\<close>

definition SNIPPET_MAX :: nat where
  "SNIPPET_MAX = 140"

record SplitEnvelope =
  se_version :: nat
  se_messageId :: bytes
  se_createdAt :: nat
  se_recipients :: "RecipientRecord list"
  se_encryptedHeader :: bytes
  se_headerNonce :: bytes
  se_headerTag :: bytes
  se_headerSizeClass :: nat
  se_encryptedBody :: bytes
  se_bodyNonce :: bytes
  se_bodyTag :: bytes
  se_bodySizeClass :: nat
  se_bodyContentAddress :: bytes

record ComposeInput =
  ci_version :: nat
  ci_messageId :: bytes
  ci_threadId :: bytes
  ci_senderAddress :: string
  ci_senderPublicKey :: bytes
  ci_senderSignKey :: bytes
  ci_recipientAddress :: string
  ci_to :: "string list option"
  ci_cc :: "string list option"
  ci_bcc :: "string list option"
  ci_replyToId :: "bytes option"
  ci_sentAt :: nat
  ci_subject :: string
  ci_bodyText :: string
  ci_bodyHtml :: "string option"
  ci_attachments :: "AttachmentWire list option"
  ci_recipients :: "RecipientInfo list"

record split_randoms =
  sr_cek :: bytes
  sr_bodyNonce :: bytes
  sr_headerNonce :: bytes
  sr_wraps :: "(bytes \<times> bytes) list"

definition bodyContentAddress :: "webcrypto \<Rightarrow> bytes \<Rightarrow> bytes \<Rightarrow> bytes \<Rightarrow> bytes" where
  "bodyContentAddress cr nonce ciphertext tag = [0x01, 0x55, 0x12, 0x20] @ digest_sha256 cr (nonce @ ciphertext @ tag)"

fun snippetLoop :: "(bytes \<Rightarrow> string option) \<Rightarrow> bytes \<Rightarrow> string" where
  "snippetLoop decode s =
     (if s = [] then [] else (case decode s of Some t \<Rightarrow> t | None \<Rightarrow> snippetLoop decode (butlast s)))"

declare snippetLoop.simps [simp del]

definition snippetOf :: "(bytes \<Rightarrow> string option) \<Rightarrow> string \<Rightarrow> bytes \<Rightarrow> string" where
  "snippetOf decode contentType content =
     (if contentType \<noteq> ''text/plain'' then []
      else snippetLoop decode (if length content > SNIPPET_MAX then take SNIPPET_MAX content else content))"

text \<open>The content, its bytes, the sealed body and the header a call composes, in the order it does.\<close>

definition composedContent :: "ComposeInput \<Rightarrow> MessageContent" where
  "composedContent input =
     \<lparr>mc_body = \<lparr>bw_contentType = ''text/plain'', bw_content = utf8 (ci_bodyText input)\<rparr>,
      mc_attachments = Some (case ci_attachments input of None \<Rightarrow> [] | Some l \<Rightarrow> l),
      mc_alternatives = (case ci_bodyHtml input of
          None \<Rightarrow> None
        | Some html \<Rightarrow> if html = [] then None else Some [\<lparr>bw_contentType = ''text/html'', bw_content = utf8 html\<rparr>])\<rparr>"

definition sealPart :: "webcrypto \<Rightarrow> bytes \<Rightarrow> bytes \<Rightarrow> bytes \<Rightarrow> bytes option \<Rightarrow> seal_error + gcm_box" where
  "sealPart cr cek nonce payload aad =
     (case padPayload payload (selectSizeClass (length payload)) of
        Inl e \<Rightarrow> Inl e | Inr p \<Rightarrow> Inr (aesGcmEncrypt cr cek nonce p aad))"

definition composedHeader :: "split_env \<Rightarrow> ComposeInput \<Rightarrow> bytes \<Rightarrow> gcm_box \<Rightarrow> MessageHeaderFields" where
  "composedHeader env input contentBytes b =
     \<lparr>mh_version = ci_version input, mh_messageId = ci_messageId input, mh_threadId = ci_threadId input,
      mh_senderAddress = ci_senderAddress input, mh_senderPublicKey = ci_senderPublicKey input,
      mh_recipientAddress = ci_recipientAddress input, mh_sentAt = ci_sentAt input, mh_subject = ci_subject input,
      mh_attachmentCount = length (case ci_attachments input of None \<Rightarrow> [] | Some l \<Rightarrow> l),
      mh_bodySize = length (utf8 (ci_bodyText input)),
      mh_snippet = snippetOf (fatalDecode env) ''text/plain'' (utf8 (ci_bodyText input)),
      mh_replyToId = ci_replyToId input, mh_bodyHash = digest_sha256 (sp_crypto env) contentBytes,
      mh_bodyContentAddress = Some (bodyContentAddress (sp_crypto env) (box_nonce b) (box_ciphertext b) (box_tag b)),
      mh_to = ci_to input, mh_cc = ci_cc input, mh_bcc = ci_bcc input, mh_senderDisplay = None\<rparr>"

definition signHeader :: "split_env \<Rightarrow> bytes \<Rightarrow> MessageHeaderFields \<Rightarrow> bytes" where
  "signHeader env seed header = ed25519_sign (sp_crypto env) seed (CTX_MSG_HEADER @ encodeMessageHeader (sp_codec env) header)"

fun wrapEach :: "webcrypto \<Rightarrow> bytes \<Rightarrow> (RecipientInfo \<times> bytes \<times> bytes) list \<Rightarrow> seal_error + RecipientRecord list" where
  "wrapEach cr cek [] = Inr []"
| "wrapEach cr cek ((r, eph, nonce) # rest) =
     (case wrapCEK cr eph nonce cek r of
        Inl e \<Rightarrow> Inl e
      | Inr rec \<Rightarrow> (case wrapEach cr cek rest of Inl e \<Rightarrow> Inl e | Inr recs \<Rightarrow> Inr (rec # recs)))"

definition encryptSplit :: "split_env \<Rightarrow> split_randoms \<Rightarrow> ComposeInput \<Rightarrow> seal_error + SplitEnvelope" where
  "encryptSplit env rnd input =
     (let cr = sp_crypto env; contentBytes = encodeMessageContent (sp_codec env) (composedContent input) in
      case sealPart cr (sr_cek rnd) (sr_bodyNonce rnd) contentBytes (bodyAAD PRODUCER_KDF) of
        Inl e \<Rightarrow> Inl e
      | Inr b \<Rightarrow>
          (let header = composedHeader env input contentBytes b;
               signed = encodeSignedHeader (sp_codec env) header (signHeader env (ci_senderSignKey input) header) in
           case sealPart cr (sr_cek rnd) (sr_headerNonce rnd) signed (headerAAD PRODUCER_KDF) of
             Inl e \<Rightarrow> Inl e
           | Inr h \<Rightarrow>
               (case wrapEach cr (sr_cek rnd) (zip (ci_recipients input) (sr_wraps rnd)) of
                  Inl e \<Rightarrow> Inl e
                | Inr recs \<Rightarrow>
                    Inr \<lparr>se_version = 2, se_messageId = ci_messageId input, se_createdAt = ci_sentAt input, se_recipients = recs,
                         se_encryptedHeader = box_ciphertext h, se_headerNonce = box_nonce h, se_headerTag = box_tag h,
                         se_headerSizeClass = selectSizeClass (length signed),
                         se_encryptedBody = box_ciphertext b, se_bodyNonce = box_nonce b, se_bodyTag = box_tag b,
                         se_bodySizeClass = selectSizeClass (length contentBytes),
                         se_bodyContentAddress = bodyContentAddress cr (box_nonce b) (box_ciphertext b) (box_tag b)\<rparr>)))"

subsection \<open>Opening\<close>

record MailboxEntryLike =
  me_recipients :: "RecipientRecord list"
  me_encryptedHeader :: bytes
  me_headerNonce :: bytes
  me_headerTag :: bytes

record MailboxBodyLike =
  mb_encryptedBody :: bytes
  mb_bodyNonce :: bytes
  mb_bodyTag :: bytes

definition findRecipient :: "RecipientRecord list \<Rightarrow> bytes \<Rightarrow> seal_error + RecipientRecord" where
  "findRecipient recipients x25519Pub =
     (case List.find (\<lambda>r. bytesEqual (recipientXPub r) x25519Pub) recipients of
        None \<Rightarrow> Inl RecipientNotFound
      | Some r \<Rightarrow> Inr (r\<lparr>kdf := Some (normalizeKDF (kdf r))\<rparr>))"

definition openCEK :: "webcrypto \<Rightarrow> RecipientRecord list \<Rightarrow> bytes \<Rightarrow> bytes \<Rightarrow> seal_error + (bytes \<times> nat)" where
  "openCEK cr recipients priv pub =
     (case findRecipient recipients pub of
        Inl e \<Rightarrow> Inl e
      | Inr rec \<Rightarrow>
          (case unwrapCEK cr rec priv pub of
             Inl e \<Rightarrow> Inl e
           | Inr cek \<Rightarrow> Inr (cek, case kdf rec of None \<Rightarrow> 0 | Some k \<Rightarrow> k)))"

definition openPart :: "webcrypto \<Rightarrow> bytes \<Rightarrow> bytes \<Rightarrow> bytes \<Rightarrow> bytes \<Rightarrow> bytes option \<Rightarrow> seal_error + bytes" where
  "openPart cr cek nonce ciphertext tag aad =
     (case aesGcmDecrypt cr cek nonce ciphertext tag aad of Inl e \<Rightarrow> Inl e | Inr padded \<Rightarrow> unpadPayload padded)"

definition decryptHeader :: "split_env \<Rightarrow> MailboxEntryLike \<Rightarrow> bytes \<Rightarrow> bytes \<Rightarrow> seal_error + MessageHeaderFields" where
  "decryptHeader env entry priv pub =
     (let cr = sp_crypto env in
      case openCEK cr (me_recipients entry) priv pub of
        Inl e \<Rightarrow> Inl e
      | Inr (cek, gen) \<Rightarrow>
          (case openPart cr cek (me_headerNonce entry) (me_encryptedHeader entry) (me_headerTag entry) (headerAAD gen) of
             Inl e \<Rightarrow> Inl e
           | Inr plain \<Rightarrow>
               (case decodeSignedHeader env plain of
                  None \<Rightarrow> Inl BadMessage
                | Some (header, sig) \<Rightarrow>
                    (case ed25519_verify cr (mh_senderPublicKey header)
                            (CTX_MSG_HEADER @ encodeMessageHeader (sp_codec env) header) sig of
                       None \<Rightarrow> Inl CryptoFailure
                     | Some ok \<Rightarrow> if \<not> ok then Inl BadSignature else Inr header))))"

record DecryptedAttachment =
  da_filename :: string
  da_contentType :: string
  da_content :: bytes
  da_contentId :: string
  da_disposition :: string

record DecryptedBody =
  db_contentType :: string
  db_content :: bytes
  db_bodyText :: string
  db_htmlBody :: "string option"
  db_attachments :: "DecryptedAttachment list"

definition decryptedAttachment :: "AttachmentWire \<Rightarrow> DecryptedAttachment" where
  "decryptedAttachment a =
     \<lparr>da_filename = aw_filename a, da_contentType = aw_contentType a, da_content = aw_content a,
      da_contentId = (case aw_contentId a of None \<Rightarrow> [] | Some s \<Rightarrow> s),
      da_disposition = (case aw_disposition a of None \<Rightarrow> [] | Some s \<Rightarrow> s)\<rparr>"

definition bodyParts :: "split_env \<Rightarrow> MessageContent \<Rightarrow> DecryptedBody" where
  "bodyParts env content =
     (let parts = mc_body content # (case mc_alternatives content of None \<Rightarrow> [] | Some l \<Rightarrow> l);
          textPart = List.find (\<lambda>p. bw_contentType p = ''text/plain'') parts;
          htmlPart = List.find (\<lambda>p. bw_contentType p = ''text/html'') parts;
          htmlBody = map_option (\<lambda>p. lossyDecode env (bw_content p)) htmlPart;
          textRaw = map_option (\<lambda>p. lossyDecode env (bw_content p)) textPart;
          raw = bw_content (mc_body content) in
      \<lparr>db_contentType = bw_contentType (mc_body content), db_content = raw,
       db_bodyText =
         (case textRaw of
            Some t \<Rightarrow> if trim t \<noteq> [] then t else (case htmlBody of Some h \<Rightarrow> toPlainText env h | None \<Rightarrow> t)
          | None \<Rightarrow> (case htmlBody of Some h \<Rightarrow> toPlainText env h | None \<Rightarrow> lossyDecode env raw)),
       db_htmlBody = htmlBody,
       db_attachments = map decryptedAttachment (case mc_attachments content of None \<Rightarrow> [] | Some l \<Rightarrow> l)\<rparr>)"

definition decryptBody ::
    "split_env \<Rightarrow> MailboxEntryLike \<Rightarrow> MailboxBodyLike \<Rightarrow> MessageHeaderFields \<Rightarrow> bytes \<Rightarrow> bytes \<Rightarrow> seal_error + DecryptedBody" where
  "decryptBody env entry body header priv pub =
     (let cr = sp_crypto env in
      case openCEK cr (me_recipients entry) priv pub of
        Inl e \<Rightarrow> Inl e
      | Inr (cek, gen) \<Rightarrow>
          (case openPart cr cek (mb_bodyNonce body) (mb_encryptedBody body) (mb_bodyTag body) (bodyAAD gen) of
             Inl e \<Rightarrow> Inl e
           | Inr contentBytes \<Rightarrow>
               if \<not> bytesEqual (digest_sha256 cr contentBytes) (mh_bodyHash header) then Inl BodyHashMismatch
               else if (case mh_bodyContentAddress header of
                          None \<Rightarrow> False
                        | Some addr \<Rightarrow> addr \<noteq> [] \<and>
                            \<not> bytesEqual (bodyContentAddress cr (mb_bodyNonce body) (mb_encryptedBody body) (mb_bodyTag body)) addr)
               then Inl BodyAddressMismatch
               else (case decodeMessageContent env contentBytes of
                       None \<Rightarrow> Inl BadMessage | Some content \<Rightarrow> Inr (bodyParts env content))))"

subsection \<open>Re-encoding a decoded header\<close>

definition opt_list :: "'a list option \<Rightarrow> 'a list" where
  "opt_list l = (case l of None \<Rightarrow> [] | Some xs \<Rightarrow> xs)"

text \<open>
  Decoding fills absent fields with the defaults of the wire format. Headers that differ in nothing else
  have the same signed bytes, which is what lets a reader check the signature of what it decoded.
\<close>

definition same_header :: "MessageHeaderFields \<Rightarrow> MessageHeaderFields \<Rightarrow> bool" where
  "same_header a b \<longleftrightarrow>
     mh_version a = mh_version b \<and> mh_messageId a = mh_messageId b \<and> mh_threadId a = mh_threadId b \<and>
     mh_senderAddress a = mh_senderAddress b \<and> mh_senderPublicKey a = mh_senderPublicKey b \<and>
     mh_recipientAddress a = mh_recipientAddress b \<and> mh_sentAt a = mh_sentAt b \<and> mh_subject a = mh_subject b \<and>
     mh_attachmentCount a = mh_attachmentCount b \<and> mh_bodySize a = mh_bodySize b \<and> mh_snippet a = mh_snippet b \<and>
     mh_bodyHash a = mh_bodyHash b \<and> opt_bytes (mh_replyToId a) = opt_bytes (mh_replyToId b) \<and>
     opt_bytes (mh_bodyContentAddress a) = opt_bytes (mh_bodyContentAddress b) \<and>
     opt_list (mh_to a) = opt_list (mh_to b) \<and> opt_list (mh_cc a) = opt_list (mh_cc b) \<and> opt_list (mh_bcc a) = opt_list (mh_bcc b) \<and>
     opt_list (mh_senderDisplay a) = opt_list (mh_senderDisplay b)"

definition field :: "string \<times> jsval \<Rightarrow> (string \<times> jsval) list" where
  "field kv = (if is_default (snd kv) then [] else [(fst kv, canonical (snd kv))])"

lemma canonical_fields: "canonical (JObj kvs) = JObj (concat (map field kvs))"
  by (induction kvs) (auto simp: field_def)

lemma field_cong:
  "opt_bytes a = opt_bytes b \<Longrightarrow> field (k, js_bytes a) = field (k, js_bytes b)"
  "opt_list l = opt_list m \<Longrightarrow> field (k, js_strings l) = field (k, js_strings m)"
  "opt_list x = opt_list y \<Longrightarrow> field (k, js_string x) = field (k, js_string y)"
  by (auto simp: field_def is_default_def js_bytes_def js_strings_def js_string_def opt_bytes_def opt_list_def split: option.splits)

lemma replyBytes_cong: "opt_bytes a = opt_bytes b \<Longrightarrow> replyBytes a = replyBytes b"
  by (auto simp: replyBytes_def opt_bytes_def split: option.splits)

lemma encodeMessageHeader_fields:
  "encodeMessageHeader enc h = enc ''dmcn.message.MessageHeader'' (JObj (concat (map field
     [(''version'', JNum (int (mh_version h))), (''messageId'', JBytes (mh_messageId h)), (''threadId'', JBytes (mh_threadId h)),
      (''replyToId'', JBytes (replyBytes (mh_replyToId h))), (''senderAddress'', JStr (mh_senderAddress h)),
      (''senderPublicKey'', JBytes (mh_senderPublicKey h)), (''recipientAddress'', JStr (mh_recipientAddress h)),
      (''sentAt'', JNum (int (mh_sentAt h))), (''subject'', JStr (mh_subject h)),
      (''attachmentCount'', JNum (int (mh_attachmentCount h))), (''bodySize'', JNum (int (mh_bodySize h))),
      (''snippet'', JStr (mh_snippet h)), (''bodyHash'', JBytes (mh_bodyHash h)),
      (''bodyContentAddress'', js_bytes (mh_bodyContentAddress h)), (''to'', js_strings (mh_to h)), (''cc'', js_strings (mh_cc h)),
      (''bcc'', js_strings (mh_bcc h)), (''senderDisplay'', js_string (mh_senderDisplay h))])))"
  unfolding encodeMessageHeader_def with_field_def headerObj_def canonical_fields by (simp del: map_append concat_append)

lemma same_header_encode:
  assumes "same_header a b"
  shows "encodeMessageHeader enc a = encodeMessageHeader enc b"
proof -
  note f = assms [unfolded same_header_def]
  have r: "replyBytes (mh_replyToId a) = replyBytes (mh_replyToId b)" using f replyBytes_cong by blast
  have o: "field (k, js_bytes (mh_bodyContentAddress a)) = field (k, js_bytes (mh_bodyContentAddress b))"
      "field (k, js_strings (mh_to a)) = field (k, js_strings (mh_to b))" "field (k, js_strings (mh_cc a)) = field (k, js_strings (mh_cc b))"
      "field (k, js_strings (mh_bcc a)) = field (k, js_strings (mh_bcc b))"
      "field (k, js_string (mh_senderDisplay a)) = field (k, js_string (mh_senderDisplay b))" for k
    using f field_cong by blast+
  show ?thesis unfolding encodeMessageHeader_fields list.map concat.simps o r using f by simp
qed

subsection \<open>Opening what was sealed\<close>

lemma wrapEach_find:
  assumes "wrapEach cr cek ws = Inr recs" "pub \<in> (\<lambda>w. ri_x25519Pub (fst w)) ` set ws"
  shows "\<exists>rec r eph nonce. List.find (\<lambda>r. bytesEqual (recipientXPub r) pub) recs = Some rec \<and> (r, eph, nonce) \<in> set ws
     \<and> ri_x25519Pub r = pub \<and> wrapCEK cr eph nonce cek r = Inr rec"
  using assms
proof (induction cr cek ws arbitrary: recs rule: wrapEach.induct)
  case (2 cr cek r eph nonce rest)
  obtain rec recs' where w: "wrapCEK cr eph nonce cek r = Inr rec" "wrapEach cr cek rest = Inr recs'" "recs = rec # recs'"
    using 2(2) by (auto split: sum.splits)
  have x: "recipientXPub rec = ri_x25519Pub r" using w(1) by (auto simp: wrapCEK_def Let_def split: option.splits sum.splits)
  show ?case
  proof (cases "ri_x25519Pub r = pub")
    case True
    then show ?thesis using w x by (auto simp: bytesEqual_iff)
  next
    case False
    then have "pub \<in> (\<lambda>w. ri_x25519Pub (fst w)) ` set rest" using 2(3) by auto
    from "2.IH" [OF w(1,2) this] show ?thesis using w x False by (auto simp: bytesEqual_iff)
  qed
qed simp

lemma openCEK_sealed:
  assumes laws: "gcm_laws cr" "x25519_laws cr" "hkdf_laws cr" and priv: "length priv = 32" "pub = x25519_public cr priv"
    and w: "wrapEach cr cek ws = Inr recs" "pub \<in> (\<lambda>w. ri_x25519Pub (fst w)) ` set ws"
    and len: "\<And>r eph nonce. (r, eph, nonce) \<in> set ws \<Longrightarrow> length eph = 32 \<and> length nonce = 12"
  shows "openCEK cr recs priv pub = Inr (cek, PRODUCER_KDF)"
proof -
  obtain rec r eph nonce where f: "List.find (\<lambda>r. bytesEqual (recipientXPub r) pub) recs = Some rec" "(r, eph, nonce) \<in> set ws"
      "ri_x25519Pub r = pub" "wrapCEK cr eph nonce cek r = Inr rec" using wrapEach_find [OF w] by blast
  have k: "kdf rec = Some PRODUCER_KDF" by (rule wrapCEK_kdf [OF f(4)])
  then have same: "rec\<lparr>kdf := Some (normalizeKDF (kdf rec))\<rparr> = rec" by (cases rec) (simp add: kdf_defs)
  have "unwrapCEK cr rec priv pub = Inr cek" using unwrap_wrap [OF laws, of eph priv nonce r cek rec] len [OF f(2)] f priv by simp
  then show ?thesis using f(1) k same by (simp add: openCEK_def findRecipient_def)
qed

lemma openPart_sealed:
  assumes "gcm_laws cr" "length cek = 32" "length nonce = 12" "length payload < 2 ^ 32"
  shows "\<exists>b. sealPart cr cek nonce payload aad = Inr b \<and> openPart cr cek (box_nonce b) (box_ciphertext b) (box_tag b) aad = Inr payload"
proof -
  obtain p where p: "padPayload payload (selectSizeClass (length payload)) = Inr p" using sized.pad_total [OF assms(4)] by blast
  show ?thesis using p sized.pad_ok [OF assms(4) p] aesGcm_roundtrip [OF assms(1-3)] by (simp add: sealPart_def openPart_def)
qed

lemma wrapEach_total:
  assumes "x25519_laws cr" "\<forall>(r, eph, nonce)\<in>set ws. length eph = 32 \<and> (\<exists>p. length p = 32 \<and> ri_x25519Pub r = x25519_public cr p)"
  shows "\<exists>recs. wrapEach cr cek ws = Inr recs"
  using assms(2)
proof (induction ws)
  case (Cons w ws)
  obtain r eph nonce where w: "w = (r, eph, nonce)" by (cases w)
  obtain p where p: "length p = 32" "ri_x25519Pub r = x25519_public cr p" "length eph = 32" using Cons.prems w by auto
  obtain rec where "wrapCEK cr eph nonce cek r = Inr rec" using wrapCEK_total [OF assms(1) p(3,1,2)] by blast
  moreover obtain recs where "wrapEach cr cek ws = Inr recs" using Cons by auto
  ultimately show ?case using w by simp
qed simp

subsection \<open>A composed message, opened\<close>

text \<open>What the generated decoders do for one composed message: its header and content come back up to defaults.\<close>

definition same_attachment :: "AttachmentWire \<Rightarrow> AttachmentWire \<Rightarrow> bool" where
  "same_attachment a b \<longleftrightarrow> decryptedAttachment a = decryptedAttachment b"

definition same_content :: "MessageContent \<Rightarrow> MessageContent \<Rightarrow> bool" where
  "same_content c d \<longleftrightarrow> mc_body c = mc_body d \<and> list_all2 same_attachment (opt_list (mc_attachments c)) (opt_list (mc_attachments d))
     \<and> opt_list (mc_alternatives c) = opt_list (mc_alternatives d)"

definition decodes :: "split_env \<Rightarrow> MessageHeaderFields \<Rightarrow> bytes \<Rightarrow> MessageContent \<Rightarrow> bool" where
  "decodes env h sig c \<longleftrightarrow>
     (\<exists>h'. decodeSignedHeader env (encodeSignedHeader (sp_codec env) h sig) = Some (h', sig) \<and> same_header h' h)
     \<and> (\<exists>c'. decodeMessageContent env (encodeMessageContent (sp_codec env) c) = Some c' \<and> same_content c' c)"

definition text_laws :: "split_env \<Rightarrow> bool" where
  "text_laws env \<longleftrightarrow> (\<forall>s. lossyDecode env (utf8 s) = s)"

definition split_laws :: "split_env \<Rightarrow> bool" where
  "split_laws env \<longleftrightarrow> gcm_laws (sp_crypto env) \<and> x25519_laws (sp_crypto env) \<and> hkdf_laws (sp_crypto env)
     \<and> ed25519_laws (sp_crypto env) \<and> text_laws env"

definition randoms_fit :: "split_randoms \<Rightarrow> ComposeInput \<Rightarrow> bool" where
  "randoms_fit rnd input \<longleftrightarrow> length (sr_cek rnd) = 32 \<and> length (sr_bodyNonce rnd) = 12 \<and> length (sr_headerNonce rnd) = 12
     \<and> length (sr_wraps rnd) = length (ci_recipients input) \<and> (\<forall>(eph, nonce)\<in>set (sr_wraps rnd). length eph = 32 \<and> length nonce = 12)"

text \<open>The box of the body and the header of a composed message.\<close>

definition bodyBox :: "split_env \<Rightarrow> split_randoms \<Rightarrow> ComposeInput \<Rightarrow> gcm_box" where
  "bodyBox env rnd input =
     (case sealPart (sp_crypto env) (sr_cek rnd) (sr_bodyNonce rnd) (encodeMessageContent (sp_codec env) (composedContent input)) (bodyAAD PRODUCER_KDF) of
        Inr b \<Rightarrow> b | Inl _ \<Rightarrow> \<lparr>box_nonce = [], box_ciphertext = [], box_tag = []\<rparr>)"

definition headerOf :: "split_env \<Rightarrow> split_randoms \<Rightarrow> ComposeInput \<Rightarrow> MessageHeaderFields" where
  "headerOf env rnd input =
     composedHeader env input (encodeMessageContent (sp_codec env) (composedContent input)) (bodyBox env rnd input)"

definition signedOf :: "split_env \<Rightarrow> split_randoms \<Rightarrow> ComposeInput \<Rightarrow> bytes" where
  "signedOf env rnd input =
     encodeSignedHeader (sp_codec env) (headerOf env rnd input) (signHeader env (ci_senderSignKey input) (headerOf env rnd input))"

definition entryOf :: "SplitEnvelope \<Rightarrow> MailboxEntryLike" where
  "entryOf e = \<lparr>me_recipients = se_recipients e, me_encryptedHeader = se_encryptedHeader e, me_headerNonce = se_headerNonce e,
     me_headerTag = se_headerTag e\<rparr>"

definition bodyOf :: "SplitEnvelope \<Rightarrow> MailboxBodyLike" where
  "bodyOf e = \<lparr>mb_encryptedBody = se_encryptedBody e, mb_bodyNonce = se_bodyNonce e, mb_bodyTag = se_bodyTag e\<rparr>"

lemma bodyParts_composed:
  assumes "text_laws env" "same_content c (composedContent input)"
  shows "db_bodyText (bodyParts env c) = (if trim (ci_bodyText input) = [] \<and> opt_list (ci_bodyHtml input) \<noteq> []
      then toPlainText env (opt_list (ci_bodyHtml input)) else ci_bodyText input)"
    "db_htmlBody (bodyParts env c) = (if opt_list (ci_bodyHtml input) = [] then None else ci_bodyHtml input)"
    "db_attachments (bodyParts env c) = map decryptedAttachment (opt_list (ci_attachments input))"
proof -
  have c: "mc_body c = \<lparr>bw_contentType = ''text/plain'', bw_content = utf8 (ci_bodyText input)\<rparr>"
      "opt_list (mc_alternatives c) = (if opt_list (ci_bodyHtml input) = [] then [] else [\<lparr>bw_contentType = ''text/html'', bw_content = utf8 (opt_list (ci_bodyHtml input))\<rparr>])"
      "list_all2 same_attachment (opt_list (mc_attachments c)) (opt_list (ci_attachments input))"
    using assms(2) by (auto simp: same_content_def composedContent_def opt_list_def split: option.splits if_splits)
  have l: "lossyDecode env (utf8 s) = s" for s using assms(1) by (simp add: text_laws_def)
  have o: "(case m of None \<Rightarrow> [] | Some l \<Rightarrow> l) = opt_list m" for m :: "'x list option" by (simp add: opt_list_def)
  have h: "opt_list (ci_bodyHtml input) \<noteq> [] \<Longrightarrow> ci_bodyHtml input = Some (opt_list (ci_bodyHtml input))" by (auto simp: opt_list_def split: option.splits)
  show "db_bodyText (bodyParts env c) = (if trim (ci_bodyText input) = [] \<and> opt_list (ci_bodyHtml input) \<noteq> []
      then toPlainText env (opt_list (ci_bodyHtml input)) else ci_bodyText input)"
    by (simp add: bodyParts_def Let_def o c l)
  show "db_htmlBody (bodyParts env c) = (if opt_list (ci_bodyHtml input) = [] then None else ci_bodyHtml input)"
    using h by (auto simp: bodyParts_def Let_def o c l)
  have "map decryptedAttachment xs = map decryptedAttachment ys" if "list_all2 same_attachment xs ys" for xs ys
    using that by induction (simp_all add: same_attachment_def)
  then show "db_attachments (bodyParts env c) = map decryptedAttachment (opt_list (ci_attachments input))"
    using c(3) by (simp add: bodyParts_def Let_def o)
qed

lemma split_opens:
  assumes laws: "split_laws env" and rnd: "randoms_fit rnd input" and dec: "decodes env (headerOf env rnd input) (signHeader env (ci_senderSignKey input) (headerOf env rnd input)) (composedContent input)"
    and size: "length (encodeMessageContent (sp_codec env) (composedContent input)) < 2 ^ 32" "length (signedOf env rnd input) < 2 ^ 32"
    and sender: "length (ci_senderSignKey input) = 32" "ci_senderPublicKey input = ed25519_public (sp_crypto env) (ci_senderSignKey input)"
    and recs: "\<forall>r\<in>set (ci_recipients input). \<exists>p. length p = 32 \<and> ri_x25519Pub r = x25519_public (sp_crypto env) p"
    and me: "length priv = 32" "x25519_public (sp_crypto env) priv \<in> ri_x25519Pub ` set (ci_recipients input)"
  shows "\<exists>e h d. encryptSplit env rnd input = Inr e
     \<and> decryptHeader env (entryOf e) priv (x25519_public (sp_crypto env) priv) = Inr h \<and> same_header h (headerOf env rnd input)
     \<and> decryptBody env (entryOf e) (bodyOf e) h priv (x25519_public (sp_crypto env) priv) = Inr (bodyParts env d)
     \<and> same_content d (composedContent input)"
proof -
  let ?cr = "sp_crypto env" and ?cb = "encodeMessageContent (sp_codec env) (composedContent input)" and ?hd = "headerOf env rnd input"
  let ?ws = "zip (ci_recipients input) (sr_wraps rnd)" and ?pub = "x25519_public ?cr priv"
  have g: "gcm_laws ?cr" "x25519_laws ?cr" "hkdf_laws ?cr" using laws by (simp_all add: split_laws_def)
  have len: "length (sr_cek rnd) = 32" "length (sr_bodyNonce rnd) = 12" "length (sr_headerNonce rnd) = 12" "length (sr_wraps rnd) = length (ci_recipients input)"
    using rnd by (simp_all add: randoms_fit_def)
  have ws: "(r, eph, nonce) \<in> set ?ws \<Longrightarrow> length eph = 32 \<and> length nonce = 12 \<and> r \<in> set (ci_recipients input)" for r eph nonce
    using rnd by (auto simp: randoms_fit_def dest: set_zip_leftD set_zip_rightD)
  obtain b where b: "sealPart ?cr (sr_cek rnd) (sr_bodyNonce rnd) ?cb (bodyAAD PRODUCER_KDF) = Inr b"
      "openPart ?cr (sr_cek rnd) (box_nonce b) (box_ciphertext b) (box_tag b) (bodyAAD PRODUCER_KDF) = Inr ?cb"
    using openPart_sealed [OF g(1) len(1,2) size(1)] by blast
  have hd: "?hd = composedHeader env input ?cb b" using b(1) by (simp add: headerOf_def bodyBox_def)
  obtain hb where hb: "sealPart ?cr (sr_cek rnd) (sr_headerNonce rnd) (signedOf env rnd input) (headerAAD PRODUCER_KDF) = Inr hb"
      "openPart ?cr (sr_cek rnd) (box_nonce hb) (box_ciphertext hb) (box_tag hb) (headerAAD PRODUCER_KDF) = Inr (signedOf env rnd input)"
    using openPart_sealed [OF g(1) len(1,3) size(2)] by blast
  have "\<forall>(r, eph, nonce)\<in>set ?ws. length eph = 32 \<and> (\<exists>p. length p = 32 \<and> ri_x25519Pub r = x25519_public ?cr p)" using ws recs by fastforce
  then obtain rs where rs: "wrapEach ?cr (sr_cek rnd) ?ws = Inr rs" using wrapEach_total [OF g(2)] by blast
  have "fst ` set ?ws = set (ci_recipients input)" using len(4) by (simp flip: set_map)
  then have "?pub \<in> (\<lambda>w. ri_x25519Pub (fst w)) ` set ?ws" using me(2) by (simp flip: image_image)
  then have cek: "openCEK ?cr rs priv ?pub = Inr (sr_cek rnd, PRODUCER_KDF)" using openCEK_sealed [OF g me(1) refl rs] ws by blast
  obtain e where e: "encryptSplit env rnd input = Inr e" "se_recipients e = rs" "se_encryptedHeader e = box_ciphertext hb" "se_headerNonce e = box_nonce hb"
      "se_headerTag e = box_tag hb" "se_encryptedBody e = box_ciphertext b" "se_bodyNonce e = box_nonce b" "se_bodyTag e = box_tag b"
    using b(1) hb(1) rs by (simp add: encryptSplit_def Let_def hd [symmetric] signedOf_def [symmetric])
  obtain h where h: "decodeSignedHeader env (signedOf env rnd input) = Some (h, signHeader env (ci_senderSignKey input) ?hd)" "same_header h ?hd"
    using dec unfolding decodes_def signedOf_def by blast
  obtain d where d: "decodeMessageContent env ?cb = Some d" "same_content d (composedContent input)" using dec unfolding decodes_def by blast
  have key: "mh_senderPublicKey h = ed25519_public ?cr (ci_senderSignKey input)" using h(2) sender(2) by (simp add: same_header_def hd composedHeader_def)
  have "ed25519_verify ?cr (mh_senderPublicKey h) (CTX_MSG_HEADER @ encodeMessageHeader (sp_codec env) h) (signHeader env (ci_senderSignKey input) ?hd) = Some True"
    unfolding key same_header_encode [OF h(2)] signHeader_def using laws sender(1) by (simp add: split_laws_def ed25519_laws_def)
  then have "decryptHeader env (entryOf e) priv ?pub = Inr h" using cek e hb(2) h(1) by (simp add: decryptHeader_def entryOf_def)
  moreover have "decryptBody env (entryOf e) (bodyOf e) h priv ?pub = Inr (bodyParts env d)"
  proof -
    have "mh_bodyHash h = digest_sha256 ?cr ?cb" "opt_bytes (mh_bodyContentAddress h) = bodyContentAddress ?cr (box_nonce b) (box_ciphertext b) (box_tag b)"
      using h(2) by (simp_all add: same_header_def hd composedHeader_def opt_bytes_def)
    then show ?thesis using cek e b(2) d(1)
      by (auto simp: decryptBody_def entryOf_def bodyOf_def opt_bytes_def split: option.splits)
  qed
  ultimately show ?thesis using e(1) h(2) d(2) by blast
qed

lemma snippetLoop_prefix:
  "snippetLoop f s = [] \<or> (\<exists>n. 0 < n \<and> n \<le> length s \<and> f (take n s) = Some (snippetLoop f s) \<and> (\<forall>m. n < m \<longrightarrow> m \<le> length s \<longrightarrow> f (take m s) = None))"
proof (induction f s rule: snippetLoop.induct)
  case (1 f s)
  show ?case
  proof (cases "s = [] \<or> f s \<noteq> None")
    case True
    then consider "s = []" | "s \<noteq> []" "f s \<noteq> None" by blast
    then show ?thesis
    proof cases
      case 1
      then show ?thesis by (simp add: snippetLoop.simps)
    next
      case 2
      then show ?thesis by (intro disjI2 exI [of _ "length s"]) (auto simp: snippetLoop.simps)
    qed
  next
    case False
    then have eq: "snippetLoop f s = snippetLoop f (butlast s)" by (subst snippetLoop.simps) simp
    have "snippetLoop f (butlast s) = [] \<or> (\<exists>n. 0 < n \<and> n \<le> length (butlast s) \<and> f (take n (butlast s)) = Some (snippetLoop f (butlast s))
        \<and> (\<forall>m. n < m \<longrightarrow> m \<le> length (butlast s) \<longrightarrow> f (take m (butlast s)) = None))" using 1 False by auto
    then show ?thesis
    proof
      assume "\<exists>n. 0 < n \<and> n \<le> length (butlast s) \<and> f (take n (butlast s)) = Some (snippetLoop f (butlast s))
        \<and> (\<forall>m. n < m \<longrightarrow> m \<le> length (butlast s) \<longrightarrow> f (take m (butlast s)) = None)"
      then obtain n where n: "0 < n" "n \<le> length (butlast s)" "f (take n (butlast s)) = Some (snippetLoop f (butlast s))"
        "\<And>m. n < m \<Longrightarrow> m \<le> length (butlast s) \<Longrightarrow> f (take m (butlast s)) = None" by blast
      have t: "m \<le> length (butlast s) \<Longrightarrow> take m (butlast s) = take m s" for m by (auto simp: butlast_conv_take min_def split: if_splits)
      have "f (take m s) = None" if "n < m" "m \<le> length s" for m
        using that n(4) [of m] t [of m] False by (cases "m = length s") auto
      then show ?thesis using n t [of n] eq by (intro disjI2 exI [of _ n]) auto
    qed (use eq in simp)
  qed
qed

subsection \<open>A concrete message\<close>

definition demo_compose :: ComposeInput where
  "demo_compose =
     \<lparr>ci_version = 1, ci_messageId = replicate 16 1, ci_threadId = replicate 16 2, ci_senderAddress = ''al@x.io'',
      ci_senderPublicKey = pad32 (replicate 32 5), ci_senderSignKey = replicate 32 5, ci_recipientAddress = ''bo@y.io'',
      ci_to = Some [''bo@y.io''], ci_cc = None, ci_bcc = Some [], ci_replyToId = None, ci_sentAt = 50, ci_subject = ''hi'',
      ci_bodyText = ''hello'', ci_bodyHtml = Some ''<p>hello</p>'', ci_attachments = None,
      ci_recipients = [\<lparr>ri_deviceId = [], ri_x25519Pub = x25519_public demo_crypto (replicate 32 7)\<rparr>]\<rparr>"

definition demo_split_randoms :: split_randoms where
  "demo_split_randoms = \<lparr>sr_cek = replicate 32 9, sr_bodyNonce = replicate 12 1, sr_headerNonce = replicate 12 2,
     sr_wraps = [(replicate 32 3, replicate 12 4)]\<rparr>"

definition demo_split_base :: split_env where
  "demo_split_base =
     \<lparr>sp_crypto = demo_crypto, sp_codec = (\<lambda>T v. take 4096 (ser v)), decodeSignedHeader = (\<lambda>_. None), decodeMessageContent = (\<lambda>_. None),
      fatalDecode = utf8_decode, lossyDecode = (\<lambda>b. case utf8_decode b of Some s \<Rightarrow> s | None \<Rightarrow> []), toPlainText = id\<rparr>"

definition demo_split :: split_env where
  "demo_split = demo_split_base
     \<lparr>decodeSignedHeader := (\<lambda>_. let h = headerOf demo_split_base demo_split_randoms demo_compose in
         Some (h, signHeader demo_split_base (ci_senderSignKey demo_compose) h)),
      decodeMessageContent := (\<lambda>_. Some (composedContent demo_compose))\<rparr>"

lemma demo_split_parts:
  "headerOf demo_split rnd input = headerOf demo_split_base rnd input" "signHeader demo_split = signHeader demo_split_base"
  by (simp_all add: demo_split_def headerOf_def composedHeader_def bodyBox_def signHeader_def fun_eq_iff cong: sum.case_cong)

lemma same_refl: "same_header h h" "same_content c c"
  by (simp_all add: same_header_def same_content_def same_attachment_def list_all2_same)

lemma demo_decodes:
  "decodes demo_split (headerOf demo_split demo_split_randoms demo_compose)
     (signHeader demo_split (ci_senderSignKey demo_compose) (headerOf demo_split demo_split_randoms demo_compose)) (composedContent demo_compose)"
  using same_refl unfolding decodes_def demo_split_parts by (simp add: demo_split_def Let_def)

lemma demo_split_laws: "split_laws demo_split"
  using demo_laws demo_ed25519_laws
  by (simp add: split_laws_def demo_split_def demo_split_base_def text_laws_def utf8_decode_utf8)

lemma demo_split_sizes:
  "length (encodeMessageContent (sp_codec demo_split) c) < 2 ^ 32" "length (signedOf demo_split rnd input) < 2 ^ 32"
  by (simp_all add: demo_split_def demo_split_base_def encodeMessageContent_def signedOf_def encodeSignedHeader_def)

subsection \<open>Properties\<close>





lemma demo_snippet: "snippetOf utf8_decode ''text/plain'' [104, 105, 195] = ''hi''"
proof -
  have "char_of (104 :: nat) = CHR ''h''" "char_of (105 :: nat) = CHR ''i''" by code_simp+
  then show ?thesis by (simp add: snippetOf_def snippetLoop.simps SNIPPET_MAX_def)
qed


end
