(* ===== verification/Sender_Trust.thy ===== *)
theory Sender_Trust
  imports Pins Ceremony Split
begin

section \<open>Whether a sender is to be trusted\<close>

text \<open>
  \<open>lib/crypto/senderTrust.ts\<close> (the verdict about a sender whose header signature was verified),
  \<open>lib/trust/category.ts\<close> (the pending queue and the block list), \<open>lib/trust/senderKind.ts\<close>,
  \<open>lib/trust/trustView.ts\<close> and \<open>lib/trust/checks.ts\<close> (what the reader is told), \<open>lib/crypto/bridgeAttest.ts\<close>
  and \<open>lib/crypto/receiptAttest.ts\<close>, and \<open>lib/trust/displayName.ts\<close>. The directory, and the deployment's
  verifiers of bridge records, are parameters that may fail. Sentences shown to the reader are left to the
  source; which of them is picked, its tone and the ticks are modelled. An absent string is empty and an
  absent flag is false, as the source tests them.
\<close>

subsection \<open>The verdict\<close>

record IdentityLookupResponse =
  il_address :: string
  il_ed25519_pub :: string
  il_x25519_pub :: string
  il_fingerprint :: string
  il_verification_tier :: nat
  il_verified_tier :: "nat option"
  il_identity_unverifiable :: bool
  il_require_onion :: bool
  il_legacy :: bool
  il_relay_hints :: "string list"
  il_admin_key_custody :: bool
  il_forward_to :: string

definition TIER_DOMAIN_DNS :: nat where
  "TIER_DOMAIN_DNS = 2"

datatype SenderTrustKind =
  KindAllowlisted | KindDomainVerified | KindUnknownPending | KindKeyMismatch | KindKeyChanged | KindRecordChanged
  | KindIdentityUnverifiable | KindDirectoryMissing

datatype trust_reason =
  NotInDirectory | OutsideDMCN | NotTheDirectoryKey | RevokedIdentity | SigningKeyChanged | EncryptionKeyChanged | FactsChanged "string list"

record SenderTrust =
  st_kind :: SenderTrustKind
  st_provenance :: "TrustProvenance option"
  st_fingerprint :: string
  st_reason :: "trust_reason option"

record SenderTrustInput =
  ti_senderAddress :: string
  ti_senderPublicKey :: bytes
  ti_contact :: "ContactRecord option"

definition base64Eq :: "bytes \<Rightarrow> string \<Rightarrow> bool" where
  "base64Eq rawKey b64 = (if b64 = [] then False else (case fromBase64 b64 of None \<Rightarrow> False | Some b \<Rightarrow> bytesEqual rawKey b))"

definition pinnable :: "IdentityLookupResponse \<Rightarrow> DirectoryFacts" where
  "pinnable dir = \<lparr>df_ed25519_pub = il_ed25519_pub dir, df_x25519_pub = il_x25519_pub dir,
     df_admin_key_custody = il_admin_key_custody dir, df_legacy = il_legacy dir\<rparr>"

definition verdict :: "SenderTrustKind \<Rightarrow> string \<Rightarrow> trust_reason option \<Rightarrow> SenderTrust" where
  "verdict kind fingerprint reason = \<lparr>st_kind = kind, st_provenance = None, st_fingerprint = fingerprint, st_reason = reason\<rparr>"

text \<open>What the pin says against the directory's answer; \<open>None\<close> when nothing pinned moved.\<close>

definition pinVerdict :: "bytes \<Rightarrow> IdentityLookupResponse \<Rightarrow> PinnedFacts \<Rightarrow> SenderTrust option" where
  "pinVerdict key dir pinned =
     (if \<not> base64Eq key (pf_ed25519Pub pinned) then Some (verdict KindKeyChanged (il_fingerprint dir) (Some SigningKeyChanged))
      else if pf_x25519Pub pinned \<noteq> [] \<and> pf_x25519Pub pinned \<noteq> il_x25519_pub dir
      then Some (verdict KindKeyChanged (il_fingerprint dir) (Some EncryptionKeyChanged))
      else (let moved = changedFacts pinned (directoryFacts (pinnable dir)) in
            if moved \<noteq> [] then Some (verdict KindRecordChanged (il_fingerprint dir) (Some (FactsChanged moved))) else None))"

definition evaluateSenderTrust :: "SenderTrustInput \<Rightarrow> (string \<Rightarrow> IdentityLookupResponse option) \<Rightarrow> SenderTrust" where
  "evaluateSenderTrust inp lookup =
     (case lookup (ti_senderAddress inp) of
        None \<Rightarrow> verdict KindDirectoryMissing [] (Some NotInDirectory)
      | Some dir \<Rightarrow>
          if il_legacy dir then verdict KindDirectoryMissing [] (Some OutsideDMCN)
          else if \<not> base64Eq (ti_senderPublicKey inp) (il_ed25519_pub dir)
          then verdict KindKeyMismatch (il_fingerprint dir) (Some NotTheDirectoryKey)
          else if il_identity_unverifiable dir then verdict KindIdentityUnverifiable (il_fingerprint dir) (Some RevokedIdentity)
          else
            (case Option.bind (contactFacts (ti_contact inp)) (pinVerdict (ti_senderPublicKey inp) dir) of
               Some v \<Rightarrow> v
             | None \<Rightarrow>
                 (case ti_contact inp of
                    Some c \<Rightarrow>
                      \<lparr>st_kind = KindAllowlisted, st_provenance = Some (case cr_provenance c of None \<Rightarrow> UserApproved | Some p \<Rightarrow> p),
                       st_fingerprint = il_fingerprint dir, st_reason = None\<rparr>
                  | None \<Rightarrow>
                      if TIER_DOMAIN_DNS \<le> (case il_verified_tier dir of None \<Rightarrow> 0 | Some t \<Rightarrow> t)
                      then verdict KindDomainVerified (il_fingerprint dir) None
                      else verdict KindUnknownPending (il_fingerprint dir) None)))"

subsection \<open>The pending queue and the block list\<close>

datatype SenderCategory = CatAllowlisted | CatPending | CatBlocked

definition senderDomain :: "string \<Rightarrow> string" where
  "senderDomain addr = (let a = norm addr in case lastIndexOf (CHR ''@'') a of Some i \<Rightarrow> drop (Suc i) a | None \<Rightarrow> a)"

definition hexOfB64 :: "string \<Rightarrow> string" where
  "hexOfB64 b64 = (case fromBase64 b64 of None \<Rightarrow> [] | Some b \<Rightarrow> toHex b)"

definition filterBlocks :: "FilterList option \<Rightarrow> string \<Rightarrow> string \<Rightarrow> bool" where
  "filterBlocks flt senderAddress senderKeyHex =
     (case flt of
        None \<Rightarrow> False
      | Some l \<Rightarrow>
          (let keyHex = toLowerCase senderKeyHex in
           if keyHex \<noteq> [] \<and> (\<exists>k\<in>set (fl_sender_keys l). toLowerCase k = keyHex) then True
           else if fl_allow_mode l then False
           else if \<exists>s\<in>set (fl_senders l). norm s = norm senderAddress then True
           else (\<exists>d\<in>set (fl_domains l). norm d = senderDomain senderAddress)))"

definition categorizeSender :: "string \<Rightarrow> string \<Rightarrow> ContactRecord option \<Rightarrow> FilterList option \<Rightarrow> SenderCategory" where
  "categorizeSender senderAddress senderKeyHex contact flt =
     (if filterBlocks flt senderAddress senderKeyHex then CatBlocked
      else (case contact of
              Some c \<Rightarrow> if cr_ed25519Pub c \<noteq> [] \<and> hexOfB64 (cr_ed25519Pub c) \<noteq> toLowerCase senderKeyHex then CatPending else CatAllowlisted
            | None \<Rightarrow> CatPending))"

definition blockKey :: "SenderTrust option \<Rightarrow> string \<Rightarrow> string option" where
  "blockKey trust senderKeyHex =
     (case trust of
        None \<Rightarrow> None
      | Some t \<Rightarrow>
          if senderKeyHex = [] then None
          else if st_kind t \<in> {KindAllowlisted, KindDomainVerified, KindUnknownPending, KindRecordChanged, KindKeyChanged}
          then Some senderKeyHex else None)"

subsection \<open>Which network a correspondent is on\<close>

datatype SenderKind = OnDmcn | OnLegacy | OnUnknown

definition contactKind :: "ContactRecord option \<Rightarrow> SenderKind" where
  "contactKind rec =
     (case rec of None \<Rightarrow> OnUnknown | Some c \<Rightarrow> if cr_fingerprint c \<noteq> [] \<or> cr_ed25519Pub c \<noteq> [] then OnDmcn else OnLegacy)"

text \<open>The directory's answer per address, asked once; the cache is session state.\<close>

definition directoryKey ::
    "(string \<Rightarrow> IdentityLookupResponse option) \<Rightarrow> string \<Rightarrow> (string, string option) jsmap \<Rightarrow> (string, string option) jsmap \<times> string option" where
  "directoryKey lookup address cache =
     (let key = norm address in
      case map_of cache key of
        Some p \<Rightarrow> (cache, p)
      | None \<Rightarrow>
          (let p = (case lookup address of
                      None \<Rightarrow> None
                    | Some r \<Rightarrow> if il_identity_unverifiable r then None
                               else Some (if il_ed25519_pub r = [] then [] else hexOfB64 (il_ed25519_pub r))) in
           (AList.update key p cache, p)))"

definition kindFromDirectory :: "string option \<Rightarrow> string \<Rightarrow> SenderKind" where
  "kindFromDirectory dirKeyHex messageKeyHex =
     (case dirKeyHex of
        None \<Rightarrow> OnLegacy
      | Some k \<Rightarrow>
          if k = [] then OnLegacy
          else if messageKeyHex \<noteq> [] \<and> k \<noteq> toLowerCase messageKeyHex then OnUnknown else OnDmcn)"

subsection \<open>Records signed by a bridge\<close>

datatype BridgeTrustTier = TierUnspecified | TierVerifiedLegacy | TierUnverifiedLegacy | TierSuspicious

record BridgeAttestation =
  ba_verified :: bool
  ba_trustTier :: BridgeTrustTier
  ba_smtpFrom :: string
  ba_spf :: string
  ba_dkim :: string
  ba_dmarc :: string
  ba_reason :: string

record DeliveryReceiptView =
  rv_verified :: bool
  rv_delivered :: bool
  rv_recipientEmail :: string
  rv_errorDetail :: string
  rv_reason :: string

definition CLASSIFICATION_CONTENT_TYPE :: string where
  "CLASSIFICATION_CONTENT_TYPE = ''application/x-dmcn-bridge-classification''"

definition RECEIPT_CONTENT_TYPE :: string where
  "RECEIPT_CONTENT_TYPE = ''application/x-dmcn-bridge-delivery-receipt''"

definition bridgeOriginalIndex :: "DecryptedAttachment list \<Rightarrow> nat option" where
  "bridgeOriginalIndex attachments =
     (case attachments of
        first # second # _ \<Rightarrow>
          if da_contentType first = CLASSIFICATION_CONTENT_TYPE \<and> da_contentType second = ''message/rfc822'' \<and> da_filename second = ''original.eml''
          then Some 1 else None
      | _ \<Rightarrow> None)"

text \<open>The verifier of the deployment answers or throws.\<close>

definition verifyBridgeAttestation ::
    "(bytes \<Rightarrow> bytes option \<Rightarrow> BridgeAttestation option) \<Rightarrow> DecryptedAttachment list \<Rightarrow> bytes option \<Rightarrow> BridgeAttestation option" where
  "verifyBridgeAttestation verifyClassification attachments senderPub =
     (case find (\<lambda>a. da_contentType a = CLASSIFICATION_CONTENT_TYPE) attachments of
        None \<Rightarrow> None
      | Some att \<Rightarrow>
          (case verifyClassification (da_content att) senderPub of
             Some a \<Rightarrow> Some a
           | None \<Rightarrow>
               Some \<lparr>ba_verified = False, ba_trustTier = TierUnspecified, ba_smtpFrom = [], ba_spf = [], ba_dkim = [], ba_dmarc = [],
                     ba_reason = ''verification unavailable''\<rparr>))"

definition verifyDeliveryReceipt ::
    "(bytes \<Rightarrow> bytes option \<Rightarrow> DeliveryReceiptView option) \<Rightarrow> DecryptedAttachment list \<Rightarrow> bytes option \<Rightarrow> DeliveryReceiptView option" where
  "verifyDeliveryReceipt verifyReceipt attachments senderPub =
     (case find (\<lambda>a. da_contentType a = RECEIPT_CONTENT_TYPE) attachments of
        None \<Rightarrow> None
      | Some att \<Rightarrow>
          (case verifyReceipt (da_content att) senderPub of
             Some r \<Rightarrow> Some r
           | None \<Rightarrow>
               Some \<lparr>rv_verified = False, rv_delivered = False, rv_recipientEmail = [], rv_errorDetail = [], rv_reason = ''verification unavailable''\<rparr>))"

subsection \<open>Badges\<close>

datatype BadgeVariant =
  BadgeNeutral | BadgeBrand | BadgeSuccess | BadgeWarning | BadgeDanger | BadgeInfo | BadgeTrustContact | BadgeTrustDmcn

datatype TrustIcon = ShieldCheck | AlertTriangle

text \<open>The labels of the badges, by meaning; the one of a contact says how the trust was established.\<close>

datatype trust_label =
  LabelContact string | LabelDmcnSender | LabelUnknownSender | LabelKeyMismatch | LabelReportedStolen | LabelKeyChanged | LabelRecordChanged
  | LabelUnverifiable | LabelNotInDirectory

record TrustView =
  tv_variant :: BadgeVariant
  tv_icon :: TrustIcon
  tv_label :: trust_label

definition provenanceView :: "TrustProvenance \<Rightarrow> BadgeVariant \<times> string" where
  "provenanceView p =
     (BadgeTrustContact,
      case p of
        InPerson \<Rightarrow> ''Verified in person''
      | FingerprintCompared \<Rightarrow> ''Fingerprint verified''
      | NetworkVouched \<Rightarrow> ''Network vouched''
      | OrgVerified \<Rightarrow> ''Organisationally verified''
      | UserApproved \<Rightarrow> ''Trusted contact'')"

definition senderTrustView :: "SenderTrust \<Rightarrow> KeyChange option \<Rightarrow> TrustView" where
  "senderTrustView t change =
     (let view = (\<lambda>variant icon label. \<lparr>tv_variant = variant, tv_icon = icon, tv_label = label\<rparr>) in
      case st_kind t of
        KindAllowlisted \<Rightarrow>
          (let pv = (case st_provenance t of Some p \<Rightarrow> provenanceView p | None \<Rightarrow> (BadgeTrustContact, ''Trusted contact'')) in
           view (fst pv) ShieldCheck (LabelContact (snd pv)))
      | KindDomainVerified \<Rightarrow> view BadgeTrustDmcn ShieldCheck LabelDmcnSender
      | KindUnknownPending \<Rightarrow> view BadgeWarning AlertTriangle LabelUnknownSender
      | KindKeyMismatch \<Rightarrow> view BadgeDanger AlertTriangle LabelKeyMismatch
      | KindKeyChanged \<Rightarrow>
          view BadgeDanger AlertTriangle (case change of Some (ReportedStolen at) \<Rightarrow> LabelReportedStolen | _ \<Rightarrow> LabelKeyChanged)
      | KindRecordChanged \<Rightarrow> view BadgeWarning AlertTriangle LabelRecordChanged
      | KindIdentityUnverifiable \<Rightarrow> view BadgeDanger AlertTriangle LabelUnverifiable
      | KindDirectoryMissing \<Rightarrow> view BadgeWarning AlertTriangle LabelNotInDirectory)"

subsection \<open>The checks strip\<close>

datatype CheckWord = WOrigin | WDomain | WSender | WEncrypted

type_synonym Check = "CheckWord \<times> bool"

datatype SourceKind = SrcRegular | SrcDmcn | SrcContact | SrcOwn | SrcReceipt

datatype Tone = ToneDanger | ToneWarning | ToneNeutral

record MessageChecksView =
  cv_source :: SourceKind
  cv_checks :: "Check list"
  cv_notice :: "Tone option"

record ChecksInput =
  ci_address :: string
  ci_name :: string
  ci_recipientCount :: nat
  ci_own :: bool
  ci_attestation :: "BridgeAttestation option"
  ci_receipt :: "DeliveryReceiptView option"
  ci_trust :: "SenderTrust option"
  ci_keyChange :: "KeyChange option"

definition ownChecks :: MessageChecksView where
  "ownChecks = \<lparr>cv_source = SrcOwn, cv_checks = [(WEncrypted, True)], cv_notice = None\<rparr>"

definition receiptChecks :: "DeliveryReceiptView \<Rightarrow> MessageChecksView" where
  "receiptChecks r =
     (if \<not> rv_verified r then \<lparr>cv_source = SrcReceipt, cv_checks = [(WSender, False)], cv_notice = Some ToneWarning\<rparr>
      else \<lparr>cv_source = SrcReceipt, cv_checks = [(WSender, True)], cv_notice = Some (if rv_delivered r then ToneNeutral else ToneDanger)\<rparr>)"

definition bridgedChecks :: "BridgeAttestation \<Rightarrow> MessageChecksView" where
  "bridgedChecks a =
     (if \<not> ba_verified a
      then \<lparr>cv_source = SrcRegular, cv_checks = [(WOrigin, False), (WDomain, False), (WSender, False), (WEncrypted, True)], cv_notice = Some ToneDanger\<rparr>
      else \<lparr>cv_source = SrcRegular,
            cv_checks = [(WOrigin, toLowerCase (ba_spf a) = ''pass''), (WDomain, toLowerCase (ba_dkim a) = ''pass''),
                         (WSender, toLowerCase (ba_dmarc a) = ''pass''), (WEncrypted, True)],
            cv_notice = (if ba_trustTier a = TierVerifiedLegacy then None else Some ToneDanger)\<rparr>)"

definition nativeChecks :: "SenderTrust option \<Rightarrow> MessageChecksView" where
  "nativeChecks trust =
     (let checks = (\<lambda>sender domain. [(WSender, sender), (WDomain, domain), (WOrigin, True), (WEncrypted, True)]) in
      case map_option st_kind trust of
        Some KindAllowlisted \<Rightarrow> \<lparr>cv_source = SrcContact, cv_checks = checks True True, cv_notice = None\<rparr>
      | Some KindDomainVerified \<Rightarrow> \<lparr>cv_source = SrcDmcn, cv_checks = checks True True, cv_notice = None\<rparr>
      | Some KindUnknownPending \<Rightarrow> \<lparr>cv_source = SrcDmcn, cv_checks = checks True False, cv_notice = Some ToneWarning\<rparr>
      | Some KindRecordChanged \<Rightarrow> \<lparr>cv_source = SrcContact, cv_checks = checks True True, cv_notice = Some ToneWarning\<rparr>
      | Some KindKeyChanged \<Rightarrow> \<lparr>cv_source = SrcDmcn, cv_checks = checks False True, cv_notice = Some ToneDanger\<rparr>
      | Some KindKeyMismatch \<Rightarrow> \<lparr>cv_source = SrcDmcn, cv_checks = checks False False, cv_notice = Some ToneDanger\<rparr>
      | Some KindIdentityUnverifiable \<Rightarrow> \<lparr>cv_source = SrcDmcn, cv_checks = checks False False, cv_notice = Some ToneDanger\<rparr>
      | _ \<Rightarrow> \<lparr>cv_source = SrcDmcn, cv_checks = checks False False, cv_notice = Some ToneWarning\<rparr>)"

definition messageChecks :: "ChecksInput \<Rightarrow> MessageChecksView" where
  "messageChecks inp =
     (if ci_own inp then ownChecks
      else (case ci_receipt inp of
              Some r \<Rightarrow> receiptChecks r
            | None \<Rightarrow> (case ci_attestation inp of Some a \<Rightarrow> bridgedChecks a | None \<Rightarrow> nativeChecks (ci_trust inp))))"

subsection \<open>The name beside the address\<close>

definition MAX_LEN :: nat where
  "MAX_LEN = 96"

definition is_control :: "char \<Rightarrow> bool" where
  "is_control c = (let n = (of_char c :: nat) in n \<le> 31 \<or> 127 \<le> n \<and> n \<le> 159)"

text \<open>
  The bidirectional formatting characters and surrogates that the source also removes lie outside the characters
  of the model.
\<close>

definition sanitizeDisplayName :: "string \<Rightarrow> string" where
  "sanitizeDisplayName raw = trim (take MAX_LEN (trim (filter (\<lambda>c. \<not> is_control c) (collapse raw))))"

definition senderLabel :: "string \<Rightarrow> string \<Rightarrow> string \<Rightarrow> string \<times> string" where
  "senderLabel address contactName wireDisplay =
     (if contactName \<noteq> [] \<and> norm contactName \<noteq> norm address then (contactName, address)
      else (let display = sanitizeDisplayName wireDisplay in
            if display = [] \<or> CHR ''@'' \<in> set display \<or> toLowerCase display = norm address then (address, [])
            else (display, address)))"

subsection \<open>Lemmas\<close>

lemma base64Eq_iff: "base64Eq key b64 \<longleftrightarrow> b64 \<noteq> [] \<and> fromBase64 b64 = Some key"
  by (auto simp: base64Eq_def split: option.splits)

text \<open>The sender is anchored: the directory names the key for the address, and nothing pinned about the keys moved.\<close>

definition anchored :: "SenderTrustInput \<Rightarrow> (string \<Rightarrow> IdentityLookupResponse option) \<Rightarrow> bool" where
  "anchored inp lookup \<longleftrightarrow> (\<exists>dir. lookup (ti_senderAddress inp) = Some dir \<and> \<not> il_legacy dir \<and> \<not> il_identity_unverifiable dir
     \<and> il_ed25519_pub dir \<noteq> [] \<and> fromBase64 (il_ed25519_pub dir) = Some (ti_senderPublicKey inp)
     \<and> (\<forall>pinned. contactFacts (ti_contact inp) = Some pinned \<longrightarrow>
          pf_ed25519Pub pinned \<noteq> [] \<and> fromBase64 (pf_ed25519Pub pinned) = Some (ti_senderPublicKey inp)
          \<and> (pf_x25519Pub pinned = [] \<or> pf_x25519Pub pinned = il_x25519_pub dir)))"

lemma pinVerdict_kind:
  "pinVerdict key dir pinned = Some v \<Longrightarrow> st_kind v = KindKeyChanged \<or> st_kind v = KindRecordChanged"
  by (auto simp: pinVerdict_def verdict_def Let_def split: if_splits)

lemma pinVerdict_keys:
  "(\<exists>v. pinVerdict key dir pinned = Some v \<and> st_kind v = KindKeyChanged)
    \<longleftrightarrow> \<not> (pf_ed25519Pub pinned \<noteq> [] \<and> fromBase64 (pf_ed25519Pub pinned) = Some key \<and> (pf_x25519Pub pinned = [] \<or> pf_x25519Pub pinned = il_x25519_pub dir))"
  by (auto simp: pinVerdict_def verdict_def Let_def base64Eq_iff)

lemma anchored_iff:
  "anchored inp lookup \<longleftrightarrow> st_kind (evaluateSenderTrust inp lookup) \<in> {KindAllowlisted, KindDomainVerified, KindUnknownPending, KindRecordChanged}"
proof (cases "lookup (ti_senderAddress inp)")
  case (Some dir)
  show ?thesis
  proof (cases "contactFacts (ti_contact inp)")
    case None
    then show ?thesis using Some by (auto simp: anchored_def evaluateSenderTrust_def base64Eq_iff verdict_def split: option.splits)
  next
    case (Some pinned)
    note pv = pinVerdict_keys [of "ti_senderPublicKey inp" dir pinned]
    show ?thesis
    proof (cases "pinVerdict (ti_senderPublicKey inp) dir pinned")
      case None
      then show ?thesis using Some \<open>lookup _ = _\<close> pv by (auto simp: anchored_def evaluateSenderTrust_def base64Eq_iff verdict_def split: option.splits)
    next
      case (Some v)
      then show ?thesis using \<open>contactFacts _ = _\<close> \<open>lookup _ = _\<close> pv pinVerdict_kind [OF Some]
        by (auto simp: anchored_def evaluateSenderTrust_def base64Eq_iff verdict_def)
    qed
  qed
qed (simp add: anchored_def evaluateSenderTrust_def verdict_def)

lemma anchored_contact:
  assumes "anchored inp lookup"
  shows "st_kind (evaluateSenderTrust inp lookup) \<in> {KindAllowlisted, KindRecordChanged} \<longleftrightarrow> ti_contact inp \<noteq> None"
proof -
  obtain dir where d: "lookup (ti_senderAddress inp) = Some dir" "\<not> il_legacy dir" "\<not> il_identity_unverifiable dir" "base64Eq (ti_senderPublicKey inp) (il_ed25519_pub dir)"
    using assms by (auto simp: anchored_def base64Eq_iff)
  have k: "st_kind (evaluateSenderTrust inp lookup) \<in> {KindAllowlisted, KindDomainVerified, KindUnknownPending, KindRecordChanged}" using assms anchored_iff by blast
  show ?thesis
  proof (cases "ti_contact inp")
    case None
    then show ?thesis using d by (simp add: evaluateSenderTrust_def contactFacts_def verdict_def)
  next
    case (Some c)
    show ?thesis
    proof (cases "Option.bind (contactFacts (ti_contact inp)) (pinVerdict (ti_senderPublicKey inp) dir)")
      case None
      then show ?thesis using d Some by (simp add: evaluateSenderTrust_def)
    next
      case (Some v)
      then have "evaluateSenderTrust inp lookup = v" using d by (simp add: evaluateSenderTrust_def)
      moreover have "st_kind v = KindKeyChanged \<or> st_kind v = KindRecordChanged" using Some pinVerdict_kind by (auto split: bind_splits)
      ultimately show ?thesis using k \<open>ti_contact inp = Some c\<close> by auto
    qed
  qed
qed

lemma missing_iff:
  "st_kind (evaluateSenderTrust inp lookup) = KindDirectoryMissing \<longleftrightarrow> (\<forall>dir. lookup (ti_senderAddress inp) = Some dir \<longrightarrow> il_legacy dir)"
  by (auto simp: evaluateSenderTrust_def verdict_def dest!: pinVerdict_kind split: option.splits bind_splits)

text \<open>A name that a message carries is shown beside the address only, on one line, and never with an address of its own.\<close>

lemma sender_label_shows_address:
  assumes "senderLabel address contactName wireDisplay = (primary, secondary)"
  shows "primary = address \<and> secondary = [] \<or> secondary = address"
    and "primary \<noteq> contactName \<Longrightarrow> primary \<noteq> address \<Longrightarrow> CHR ''@'' \<notin> set primary \<and> length primary \<le> MAX_LEN \<and> (\<forall>c\<in>set primary. \<not> is_control c)"
proof -
  show "primary = address \<and> secondary = [] \<or> secondary = address" using assms by (auto simp: senderLabel_def Let_def split: if_splits)
  let ?kept = "filter (\<lambda>c. \<not> is_control c) (collapse wireDisplay)"
  have "length (sanitizeDisplayName wireDisplay) \<le> length (take MAX_LEN (trim ?kept))" unfolding sanitizeDisplayName_def by (rule length_trim)
  moreover have "set (sanitizeDisplayName wireDisplay) \<subseteq> set ?kept"
    unfolding sanitizeDisplayName_def using set_trim [of ?kept] set_trim [of "take MAX_LEN (trim ?kept)"] set_take_subset [of MAX_LEN "trim ?kept"] by blast
  ultimately have n: "length (sanitizeDisplayName wireDisplay) \<le> MAX_LEN" "set (sanitizeDisplayName wireDisplay) \<subseteq> {c. \<not> is_control c}" by auto
  assume "primary \<noteq> contactName" "primary \<noteq> address"
  then have "primary = sanitizeDisplayName wireDisplay" "CHR ''@'' \<notin> set primary" using assms by (auto simp: senderLabel_def Let_def split: if_splits)
  then show "CHR ''@'' \<notin> set primary \<and> length primary \<le> MAX_LEN \<and> (\<forall>c\<in>set primary. \<not> is_control c)" using n by auto
qed

subsection \<open>Properties\<close>


text \<open>
  C29. Blocking a sender takes a key only from the directory: a key goes on the unconditional block list exactly
  when the directory has just published that key for the address and the identity verifies, so never the key of
  a bridge that merely carried the mail.
\<close>

theorem block_key_is_published:
  "blockKey (Some (evaluateSenderTrust s lookup)) keyHex = Some k \<longleftrightarrow>
     k = keyHex \<and> keyHex \<noteq> [] \<and> (\<exists>dir. lookup (ti_senderAddress s) = Some dir \<and> \<not> il_legacy dir \<and> \<not> il_identity_unverifiable dir
       \<and> il_ed25519_pub dir \<noteq> [] \<and> fromBase64 (il_ed25519_pub dir) = Some (ti_senderPublicKey s))"
proof -
  have "st_kind (evaluateSenderTrust s lookup) \<in> {KindAllowlisted, KindDomainVerified, KindUnknownPending, KindRecordChanged, KindKeyChanged} \<longleftrightarrow>
      (\<exists>dir. lookup (ti_senderAddress s) = Some dir \<and> \<not> il_legacy dir \<and> \<not> il_identity_unverifiable dir
         \<and> base64Eq (ti_senderPublicKey s) (il_ed25519_pub dir))"
  proof (cases "lookup (ti_senderAddress s)")
    case (Some dir)
    have "st_kind v \<in> {KindKeyChanged, KindRecordChanged}"
      if "Option.bind (contactFacts (ti_contact s)) (pinVerdict (ti_senderPublicKey s) dir) = Some v" for v
      using that pinVerdict_kind by (auto split: bind_splits)
    then show ?thesis using Some
      by (cases "Option.bind (contactFacts (ti_contact s)) (pinVerdict (ti_senderPublicKey s) dir)")
        (auto simp: evaluateSenderTrust_def verdict_def split: option.split)
  qed (simp add: evaluateSenderTrust_def verdict_def)
  then show ?thesis by (auto simp: blockKey_def base64Eq_iff)
qed

text \<open>
  C40. The list is laxer than the reader: a contact pinned as having no identity, for whose address the directory
  now publishes the key that signed the message, is a changed key to the reader but stays allowlisted in the
  mail list; so does a contact whose encryption key changed.
\<close>

theorem list_misses_changed_key:
  assumes "lookup (ti_senderAddress s) = Some dir" and "\<not> il_legacy dir" and "\<not> il_identity_unverifiable dir"
    and "il_ed25519_pub dir \<noteq> []" and "fromBase64 (il_ed25519_pub dir) = Some (ti_senderPublicKey s)"
    and "ti_contact s = Some c" and "\<not> filterBlocks flt (ti_senderAddress s) (toHex (ti_senderPublicKey s))"
    and "cr_noIdentity c \<and> cr_ed25519Pub c = []
      \<or> \<not> cr_noIdentity c \<and> fromBase64 (cr_ed25519Pub c) = Some (ti_senderPublicKey s) \<and> cr_ed25519Pub c \<noteq> []
         \<and> cr_x25519Pub c \<noteq> [] \<and> cr_x25519Pub c \<noteq> il_x25519_pub dir"
  shows "st_kind (evaluateSenderTrust s lookup) = KindKeyChanged
    \<and> categorizeSender (ti_senderAddress s) (toHex (ti_senderPublicKey s)) (Some c) flt = CatAllowlisted"
proof -
  have "pinVerdict (ti_senderPublicKey s) dir f \<noteq> None \<and> st_kind (the (pinVerdict (ti_senderPublicKey s) dir f)) = KindKeyChanged"
    if "contactFacts (Some c) = Some f" for f
    using assms(8) that by (auto simp: contactFacts_def absentIdentityFacts_def pinVerdict_def base64Eq_iff verdict_def split: if_splits)
  moreover have "contactFacts (Some c) \<noteq> None" using assms(8) by (auto simp: contactFacts_def)
  ultimately obtain f v where "contactFacts (Some c) = Some f" "pinVerdict (ti_senderPublicKey s) dir f = Some v" "st_kind v = KindKeyChanged" by auto
  then have "st_kind (evaluateSenderTrust s lookup) = KindKeyChanged" using assms(1-6) by (simp add: evaluateSenderTrust_def base64Eq_iff)
  moreover have "categorizeSender (ti_senderAddress s) (toHex (ti_senderPublicKey s)) (Some c) flt = CatAllowlisted"
    using assms(7,8) by (auto simp: categorizeSender_def hexOfB64_def toLowerCase_toHex)
  ultimately show ?thesis ..
qed

text \<open>A correspondent was confirmed to have left; then a key is served for the address.\<close>

theorem list_misses_changed_key_witness:
  "\<exists>(s :: SenderTrustInput) lookup c. cr_noIdentity c \<and> st_kind (evaluateSenderTrust s lookup) = KindKeyChanged
     \<and> categorizeSender (ti_senderAddress s) (toHex (ti_senderPublicKey s)) (Some c) None = CatAllowlisted"
proof -
  let ?c = "\<lparr>cr_v = 1, cr_address = ''bo@y.io'', cr_name = [], cr_fingerprint = [], cr_notes = [], cr_updatedAt = 0, cr_deviceId = [], cr_provenance = None,
     cr_ed25519Pub = [], cr_x25519Pub = [], cr_pinnedAt = 0, cr_adminKeyCustody = False, cr_noIdentity = True, cr_pinSeq = 2\<rparr>"
  let ?s = "\<lparr>ti_senderAddress = ''bo@y.io'', ti_senderPublicKey = [7, 7], ti_contact = Some ?c\<rparr>"
  let ?dir = "\<lparr>il_address = ''bo@y.io'', il_ed25519_pub = toBase64 [7, 7], il_x25519_pub = [], il_fingerprint = [], il_verification_tier = 0, il_verified_tier = None,
     il_identity_unverifiable = False, il_require_onion = False, il_legacy = False, il_relay_hints = [], il_admin_key_custody = False, il_forward_to = []\<rparr>"
  have "st_kind (evaluateSenderTrust ?s (\<lambda>_. Some ?dir)) = KindKeyChanged
     \<and> categorizeSender (ti_senderAddress ?s) (toHex (ti_senderPublicKey ?s)) (Some ?c) None = CatAllowlisted"
    by (rule list_misses_changed_key [where dir = ?dir]) (simp_all add: fromBase64_toBase64 filterBlocks_def)
  then show ?thesis by (intro exI [of _ ?s] exI [of _ "\<lambda>_. Some ?dir"] exI [of _ ?c]) simp
qed

end
