(* ===== verification/Preview_Cache.thy ===== *)
theory Preview_Cache
  imports Device_Seal "HOL-Library.Char_ord" "HOL-Library.List_Lexorder"
begin

section \<open>The mail list kept on the device\<close>

text \<open>
  \<open>lib/api/previewCache.ts\<close>: the rows of the mail list, sealed in the device database in 256 buckets,
  beside the list entries they came from and the change-feed position they are at. The source tells a row
  it already wrote by the identity of its object, so a row object here is a value with the number it was
  allocated under; \<open>JSON.parse\<close> allocates. The JSON text of the rows and of the position is a parameter.
  Writes of one instance run one at a time, as \<open>save\<close> chains them.
\<close>

unbundle bit_operations_syntax

subsection \<open>Data\<close>

record Preview =
  pv_hash :: string
  pv_messageId :: string
  pv_threadId :: string
  pv_senderAddress :: string
  pv_senderPublicKey :: string
  pv_recipientAddress :: string
  pv_to :: "string list"
  pv_cc :: "string list"
  pv_bcc :: "string list"
  pv_subject :: string
  pv_snippet :: string
  pv_senderDisplay :: string
  pv_sentAt :: nat
  pv_bodySize :: nat
  pv_attachmentCount :: nat
  pv_deliveredTo :: "string option"

record FeedPosition =
  fp_epoch :: string
  fp_seq :: nat

type_synonym preview_obj = "nat \<times> Preview"

record CachedRow =
  cr_preview :: preview_obj
  cr_version :: "nat option"
  cr_raw :: "string option"

datatype PreviewScope = Inbox | Sent

definition scopeName :: "PreviewScope \<Rightarrow> string" where
  "scopeName s = (case s of Inbox \<Rightarrow> ''inbox'' | Sent \<Rightarrow> ''sent'')"

type_synonym stored_row = "string \<times> Preview \<times> nat option"

record preview_env =
  pe_crypto :: webcrypto
  rowsText :: "stored_row list \<Rightarrow> bytes"
  rowsParse :: "bytes \<Rightarrow> stored_row list option"
  positionText :: "FeedPosition \<Rightarrow> bytes"
  positionParse :: "bytes \<Rightarrow> FeedPosition option"

definition HEADERS_VERSION :: nat where
  "HEADERS_VERSION = 1"

definition accountPrefix :: "string \<Rightarrow> string" where
  "accountPrefix address = norm address @ ''::''"

definition forgetPreviewCache :: "string \<Rightarrow> cache_db \<Rightarrow> cache_db" where
  "forgetPreviewCache address db = idbDeletePrefix (accountPrefix address) db"

text \<open>FNV-1a over the character codes, folded to a byte: \<open>^\<close>, \<open>Math.imul\<close> and \<open>>>>\<close> on 32 bits.\<close>

definition fnvStep :: "char \<Rightarrow> 32 word \<Rightarrow> 32 word" where
  "fnvStep c h = (h XOR of_nat (of_char c)) * 0x01000193"

definition bucketByte :: "string \<Rightarrow> byte" where
  "bucketByte hash =
     (let h = fold fnvStep hash 0x811c9dc5 in
      ucast ((h XOR drop_bit 8 h XOR drop_bit 16 h XOR drop_bit 24 h) AND 0xff))"

definition bucketOf :: "string \<Rightarrow> string" where
  "bucketOf hash = hex_of_byte (bucketByte hash)"

subsection \<open>The cache\<close>

record PreviewCache =
  pc_ns :: string
  pc_key :: bytes
  pc_saved :: "(string, CachedRow) jsmap"
  pc_withEntry :: "string list"
  pc_intact :: bool
  pc_full :: bool

type_synonym kept = "cache_db \<times> PreviewCache"

definition pcNs :: "string \<Rightarrow> PreviewScope \<Rightarrow> string" where
  "pcNs address scope = accountPrefix address @ scopeName scope @ ''/''"

text \<open>The argument \<open>derive\<close> is what the account's \<open>aliasRoot\<close> derives; keys too old to have one have no cache.\<close>

definition pcOpen :: "(bytes \<Rightarrow> bytes \<Rightarrow> bytes) option \<Rightarrow> string \<Rightarrow> PreviewScope \<Rightarrow> PreviewCache option" where
  "pcOpen derive address scope =
     (case derive of
        None \<Rightarrow> None
      | Some d \<Rightarrow> Some \<lparr>pc_ns = pcNs address scope, pc_key = deriveDeviceKey d address ''headers'', pc_saved = [], pc_withEntry = [],
                       pc_intact = True, pc_full = False\<rparr>)"

text \<open>Reading by prefix gives the keys in ascending order.\<close>

definition idbEntriesWithPrefix :: "string \<Rightarrow> cache_db \<Rightarrow> (string \<times> cache_value) list" where
  "idbEntriesWithPrefix prefix' db = sort_key fst (filter (\<lambda>(k, _). startsWith prefix' k) db)"

definition idbKeysWithPrefix :: "string \<Rightarrow> cache_db \<Rightarrow> string list" where
  "idbKeysWithPrefix prefix' db = sort (filter (startsWith prefix') (map fst db))"

definition pcUnseal :: "preview_env \<Rightarrow> PreviewCache \<Rightarrow> string \<Rightarrow> cache_value \<Rightarrow> bytes option" where
  "pcUnseal env pc slot v = (case v of SealedV sd \<Rightarrow> dsUnseal (pe_crypto env) (pc_key pc) slot sd | MetaV _ _ \<Rightarrow> None)"

definition readPosition :: "preview_env \<Rightarrow> kept \<Rightarrow> FeedPosition option" where
  "readPosition env s =
     (case s of (db, pc) \<Rightarrow>
        (let slot = pc_ns pc @ ''position'' in
         case map_of db slot of
           None \<Rightarrow> None
         | Some v \<Rightarrow> (case pcUnseal env pc slot v of None \<Rightarrow> None | Some p \<Rightarrow> positionParse env p)))"

definition parseRows :: "preview_env \<Rightarrow> PreviewCache \<Rightarrow> string \<times> cache_value \<Rightarrow> stored_row list option" where
  "parseRows env pc e = (case pcUnseal env pc (fst e) (snd e) of None \<Rightarrow> None | Some p \<Rightarrow> rowsParse env p)"

text \<open>One stored row becomes a fresh object.\<close>

definition addRow :: "stored_row \<Rightarrow> nat \<times> (string, CachedRow) jsmap \<Rightarrow> nat \<times> (string, CachedRow) jsmap" where
  "addRow r acc =
     (case (r, acc) of ((hash, p, v), (n, saved)) \<Rightarrow>
        (Suc n, AList.update hash \<lparr>cr_preview = (n, p), cr_version = v, cr_raw = None\<rparr> saved))"

definition loadBucket :: "preview_env \<Rightarrow> string \<times> cache_value \<Rightarrow> nat \<times> PreviewCache \<Rightarrow> nat \<times> PreviewCache" where
  "loadBucket env e acc =
     (case acc of (n, pc) \<Rightarrow>
        (case parseRows env pc e of
           None \<Rightarrow> (n, pc\<lparr>pc_intact := False\<rparr>)
         | Some rows \<Rightarrow> (case fold addRow rows (n, pc_saved pc) of (n', saved) \<Rightarrow> (n', pc\<lparr>pc_saved := saved\<rparr>))))"

text \<open>The number \<open>n\<close> is the next object's; the result holds the rows and the position.\<close>

definition pcLoad ::
    "preview_env \<Rightarrow> bytes \<Rightarrow> nat \<Rightarrow> kept \<Rightarrow> kept \<times> nat \<times> (string, CachedRow) jsmap \<times> FeedPosition option" where
  "pcLoad env iv n s =
     (case s of (db, pc) \<Rightarrow>
        (let pc0 = pc\<lparr>pc_saved := [], pc_withEntry := [], pc_intact := True\<rparr> in
         case keepIfOpens (pe_crypto env) (pc_key pc) iv HEADERS_VERSION (pc_ns pc) db of
           (db', False) \<Rightarrow> ((db', pc0), n, [], None)
         | (db', True) \<Rightarrow>
             (let position = readPosition env (db', pc0);
                  entryPrefix = pc_ns pc @ ''e/'';
                  pc1 = pc0\<lparr>pc_withEntry := fold setAdd (map (drop (length entryPrefix)) (idbKeysWithPrefix entryPrefix db')) []\<rparr> in
              case fold (loadBucket env) (idbEntriesWithPrefix (pc_ns pc @ ''b/'') db') (n, pc1) of
                (n', pc2) \<Rightarrow> ((db', pc2), n', pc_saved pc2, if pc_intact pc2 then position else None))))"

definition rewriteAll :: "PreviewCache \<Rightarrow> PreviewCache" where
  "rewriteAll pc = pc\<lparr>pc_full := True\<rparr>"

definition pcEntry :: "preview_env \<Rightarrow> kept \<Rightarrow> string \<Rightarrow> string option" where
  "pcEntry env s hash =
     (case s of (db, pc) \<Rightarrow>
        (let slot = pc_ns pc @ ''e/'' @ hash in
         case map_of db slot of
           None \<Rightarrow> None
         | Some v \<Rightarrow> (case pcUnseal env pc slot v of None \<Rightarrow> None | Some p \<Rightarrow> utf8_decode p)))"

subsection \<open>Writing\<close>

definition allBuckets :: "string list" where
  "allBuckets = map (\<lambda>i. hex_of_byte (of_nat i)) [0..<256]"

definition rowChanged :: "PreviewCache \<Rightarrow> string \<Rightarrow> CachedRow \<Rightarrow> bool" where
  "rowChanged pc hash row =
     (case map_of (pc_saved pc) hash of
        None \<Rightarrow> True
      | Some was \<Rightarrow> fst (cr_preview was) \<noteq> fst (cr_preview row) \<or> cr_version was \<noteq> cr_version row)"

definition dirtyBuckets :: "PreviewCache \<Rightarrow> (string, CachedRow) jsmap \<Rightarrow> string list" where
  "dirtyBuckets pc rows =
     (let d0 = (if pc_full pc then fold setAdd allBuckets [] else []);
          d1 = fold (\<lambda>(hash, row) d. if rowChanged pc hash row then setAdd (bucketOf hash) d else d) rows d0 in
      fold (\<lambda>(hash, _) d. if map_of rows hash = None then setAdd (bucketOf hash) d else d) (pc_saved pc) d1)"

definition hasRaw :: "CachedRow \<Rightarrow> bool" where
  "hasRaw row = (case cr_raw row of None \<Rightarrow> False | Some r \<Rightarrow> r \<noteq> [])"

definition newEntries :: "PreviewCache \<Rightarrow> (string, CachedRow) jsmap \<Rightarrow> (string \<times> CachedRow) list" where
  "newEntries pc rows = filter (\<lambda>(hash, row). hasRaw row \<and> hash \<notin> set (pc_withEntry pc)) rows"

definition bucketRows :: "(string, CachedRow) jsmap \<Rightarrow> string \<Rightarrow> (string \<times> CachedRow) list" where
  "bucketRows rows id' = filter (\<lambda>(hash, _). bucketOf hash = id') rows"

definition storedForm :: "string \<times> CachedRow \<Rightarrow> stored_row" where
  "storedForm e = (case e of (hash, row) \<Rightarrow> (hash, snd (cr_preview row), cr_version row))"

definition pcSeal :: "preview_env \<Rightarrow> (string \<Rightarrow> bytes) \<Rightarrow> PreviewCache \<Rightarrow> string \<Rightarrow> bytes \<Rightarrow> string \<times> cache_value" where
  "pcSeal env ivf pc slot plain = (pc_ns pc @ slot, SealedV (dsSeal (pe_crypto env) (pc_key pc) (ivf slot) (pc_ns pc @ slot) plain))"

definition bucketPuts :: "preview_env \<Rightarrow> (string, CachedRow) jsmap \<Rightarrow> string list \<Rightarrow> (string \<times> bytes) list" where
  "bucketPuts env rows dirty =
     map (\<lambda>id'. (''b/'' @ id', rowsText env (map storedForm (bucketRows rows id')))) (filter (\<lambda>id'. bucketRows rows id' \<noteq> []) dirty)"

definition bucketDeletes :: "(string, CachedRow) jsmap \<Rightarrow> string list \<Rightarrow> string list" where
  "bucketDeletes rows dirty = map (\<lambda>id'. ''b/'' @ id') (filter (\<lambda>id'. bucketRows rows id' = []) dirty)"

definition entryPuts :: "PreviewCache \<Rightarrow> (string, CachedRow) jsmap \<Rightarrow> (string \<times> bytes) list" where
  "entryPuts pc rows = map (\<lambda>(hash, row). (''e/'' @ hash, utf8 (case cr_raw row of None \<Rightarrow> [] | Some r \<Rightarrow> r))) (newEntries pc rows)"

definition droppedEntries :: "PreviewCache \<Rightarrow> (string, CachedRow) jsmap \<Rightarrow> string list" where
  "droppedEntries pc rows = filter (\<lambda>hash. map_of rows hash = None) (pc_withEntry pc)"

text \<open>The position is \<open>undefined\<close> (\<open>None\<close>), \<open>null\<close> or a position. The transaction commits when \<open>commits\<close> holds.\<close>

definition pcWrite ::
    "preview_env \<Rightarrow> (string \<Rightarrow> bytes) \<Rightarrow> bool \<Rightarrow> (string, CachedRow) jsmap \<Rightarrow> FeedPosition option option \<Rightarrow> kept \<Rightarrow> kept \<times> bool" where
  "pcWrite env ivf commits rows position s =
     (case s of (db, pc) \<Rightarrow>
        (let dirty = dirtyBuckets pc rows in
         if dirty = [] \<and> newEntries pc rows = [] \<and> position = None then (s, True)
         else
           (let puts = bucketPuts env rows dirty @ entryPuts pc rows
                  @ (case position of Some (Some p) \<Rightarrow> [(''position'', positionText env p)] | _ \<Rightarrow> []);
                deletes = bucketDeletes rows dirty @ map (\<lambda>hash. ''e/'' @ hash) (droppedEntries pc rows)
                  @ (case position of Some None \<Rightarrow> [''position''] | _ \<Rightarrow> []) in
            if \<not> commits then (s, False)
            else
              ((idbPutMany (map (\<lambda>(slot, plain). pcSeal env ivf pc slot plain) puts) (map (\<lambda>slot. pc_ns pc @ slot) deletes) db,
                pc\<lparr>pc_full := False, pc_saved := rows,
                   pc_withEntry := filter (\<lambda>h. h \<notin> set (droppedEntries pc rows))
                     (fold setAdd (map fst (newEntries pc rows)) (pc_withEntry pc))\<rparr>), True))))"

subsection \<open>What the database holds\<close>

definition preview_laws :: "preview_env \<Rightarrow> bool" where
  "preview_laws env \<longleftrightarrow> gcm_laws (pe_crypto env) \<and> (\<forall>l. rowsParse env (rowsText env l) = Some l)
     \<and> (\<forall>p. positionParse env (positionText env p) = Some p)"

definition slotPlain :: "preview_env \<Rightarrow> kept \<Rightarrow> string \<Rightarrow> bytes option option" where
  "slotPlain env s slot = map_option (pcUnseal env (snd s) (pc_ns (snd s) @ slot)) (map_of (fst s) (pc_ns (snd s) @ slot))"

definition bucketAt :: "preview_env \<Rightarrow> kept \<Rightarrow> string \<Rightarrow> stored_row list option" where
  "bucketAt env s id' =
     (case slotPlain env s (''b/'' @ id') of None \<Rightarrow> Some [] | Some None \<Rightarrow> None | Some (Some p) \<Rightarrow> rowsParse env p)"

text \<open>The rows as a map from hashes, and a database that holds such a map in its buckets.\<close>

definition storedMap :: "(string, CachedRow) jsmap \<Rightarrow> string \<Rightarrow> (Preview \<times> nat option) option" where
  "storedMap rows h = map_option (\<lambda>r. (snd (cr_preview r), cr_version r)) (map_of rows h)"

definition holdsRows :: "preview_env \<Rightarrow> kept \<Rightarrow> (string \<Rightarrow> (Preview \<times> nat option) option) \<Rightarrow> bool" where
  "holdsRows env s m \<longleftrightarrow> (\<forall>id'\<in>set allBuckets. \<exists>l. bucketAt env s id' = Some l \<and> distinct (map fst l)
     \<and> (\<forall>h. map_of l h = (if bucketOf h = id' then m h else None)))"

definition slots_ok :: "string \<Rightarrow> cache_db \<Rightarrow> bool" where
  "slots_ok ns db \<longleftrightarrow> distinct (map fst db)
     \<and> (\<forall>k\<in>fst ` set db. startsWith (ns @ ''b/'') k \<longrightarrow> (\<exists>id'\<in>set allBuckets. k = ns @ ''b/'' @ id'))"

definition marked :: "preview_env \<Rightarrow> kept \<Rightarrow> bool" where
  "marked env s \<longleftrightarrow> (case map_of (fst s) (pc_ns (snd s) @ ''meta'') of
       Some (MetaV v check) \<Rightarrow> v = HEADERS_VERSION \<and> dsUnseal (pe_crypto env) (pc_key (snd s)) (pc_ns (snd s) @ ''meta'') check \<noteq> None
     | _ \<Rightarrow> False)"

text \<open>Objects do not change: one valuation of object numbers explains every row handed over.\<close>

definition rows_ok :: "(nat \<Rightarrow> Preview) \<Rightarrow> (string, CachedRow) jsmap \<Rightarrow> bool" where
  "rows_ok val rows \<longleftrightarrow> distinct (map fst rows) \<and> (\<forall>(h, r)\<in>set rows. snd (cr_preview r) = val (fst (cr_preview r)))"

lemma bucketOf_in [simp]: "bucketOf h \<in> set allBuckets"
proof -
  have "bucketByte h = of_nat (unat (bucketByte h))" "unat (bucketByte h) < 256"
    using unsigned_less [of "bucketByte h", where 'a = nat] by simp_all
  then show ?thesis unfolding bucketOf_def allBuckets_def by (metis (no_types, lifting) atLeastLessThan_iff image_eqI le0 list.set_map set_upt)
qed

lemma bucket_slots_distinct [simp]:
  "''b/'' @ x \<noteq> ''e/'' @ y" "''b/'' @ x \<noteq> ''position''" "''b/'' @ x \<noteq> ''meta''" "''e/'' @ y \<noteq> ''position''" "''e/'' @ y \<noteq> ''meta''"
  by simp_all

lemma slotPlain_write:
  assumes "preview_laws env" "iv_ok ivf" "length (pc_key pc) = 32" "pc_ns pc' = pc_ns pc" "pc_key pc' = pc_key pc"
  shows "slotPlain env (idbPutMany (map (\<lambda>(slot, p). pcSeal env ivf pc slot p) qs) (map (\<lambda>slot. pc_ns pc @ slot) ds) db, pc') slot
     = (if slot \<in> set ds then None
        else case map_of (rev qs) slot of Some p \<Rightarrow> Some (Some p) | None \<Rightarrow> slotPlain env (db, pc) slot)"
proof -
  have "map_of (map (\<lambda>(sl, p). pcSeal env ivf pc sl p) l) (pc_ns pc @ slot) = map_option (\<lambda>p. snd (pcSeal env ivf pc slot p)) (map_of l slot)" for l
    by (induction l) (auto simp: pcSeal_def)
  then have "map_of (idbPutMany (map (\<lambda>(sl, p). pcSeal env ivf pc sl p) qs) (map (\<lambda>slot. pc_ns pc @ slot) ds) db) (pc_ns pc @ slot)
     = (if slot \<in> set ds then None
        else case map_of (rev qs) slot of Some p \<Rightarrow> Some (snd (pcSeal env ivf pc slot p)) | None \<Rightarrow> map_of db (pc_ns pc @ slot))"
    by (auto simp: idbPutMany_def map_of_deletes map_of_puts map_add_def rev_map image_iff split: option.splits)
  moreover have "pcUnseal env pc' = pcUnseal env pc" using assms(5) by (simp add: pcUnseal_def fun_eq_iff cong: cache_value.case_cong)
  ultimately show ?thesis using assms
    by (auto simp: slotPlain_def pcSeal_def pcUnseal_def unseal_sealed preview_laws_def iv_ok_def split: option.splits)
qed

lemma set_fold_if: "set (fold (\<lambda>x d. if P x then setAdd (f x) d else d) l d) = set d \<union> f ` {x\<in>set l. P x}"
  by (induction l arbitrary: d) auto

lemma dirty_set:
  "set (dirtyBuckets pc rows) = (if pc_full pc then set allBuckets else {})
     \<union> {bucketOf h |h r. (h, r) \<in> set rows \<and> rowChanged pc h r} \<union> {bucketOf h |h r. (h, r) \<in> set (pc_saved pc) \<and> map_of rows h = None}"
  unfolding dirtyBuckets_def Let_def case_prod_unfold set_fold_if by force

lemma map_of_storedForm: "map_of (map storedForm l) h = storedMap l h"
  by (induction l) (auto simp: storedForm_def storedMap_def)

lemma storedMap_filter: "storedMap (bucketRows rows id') h = (if bucketOf h = id' then storedMap rows h else None)"
  unfolding storedMap_def bucketRows_def by (induction rows) auto

lemma dirty_sub: "set (dirtyBuckets pc rows) \<subseteq> set allBuckets"
  unfolding dirty_set by auto

lemma clean_bucket:
  assumes "rows_ok val rows" "rows_ok val (pc_saved pc)" "bucketOf h \<notin> set (dirtyBuckets pc rows)"
  shows "storedMap rows h = storedMap (pc_saved pc) h"
proof (cases "map_of rows h")
  case None
  then have "map_of (pc_saved pc) h = None"
    using assms(3) unfolding dirty_set by (force dest: map_of_SomeD)
  then show ?thesis using None by (simp add: storedMap_def)
next
  case (Some r)
  then have m: "(h, r) \<in> set rows" by (rule map_of_SomeD)
  then have "\<not> rowChanged pc h r" using assms(3) unfolding dirty_set by blast
  then obtain was where w: "map_of (pc_saved pc) h = Some was" "fst (cr_preview was) = fst (cr_preview r)" "cr_version was = cr_version r"
    by (auto simp: rowChanged_def split: option.splits)
  then have "snd (cr_preview was) = snd (cr_preview r)"
    using bspec [OF conjunct2 [OF assms(1) [unfolded rows_ok_def]] m] bspec [OF conjunct2 [OF assms(2) [unfolded rows_ok_def]] map_of_SomeD [OF w(1)]] by simp
  then show ?thesis using Some w by (simp add: storedMap_def)
qed

subsection \<open>One write\<close>

lemma distinct_dirty: "distinct (dirtyBuckets pc rows)"
proof -
  have fold: "distinct d \<Longrightarrow> distinct (fold (\<lambda>x d. if P x then setAdd (f x) d else d) l d)" for P f d and l :: "'a list"
    by (induction l arbitrary: d) auto
  show ?thesis unfolding dirtyBuckets_def Let_def case_prod_unfold by (auto intro!: fold)
qed

lemma map_of_bucketPuts:
  "map_of (rev (bucketPuts env rows dirty)) (''b/'' @ id')
     = (if id' \<in> set dirty \<and> bucketRows rows id' \<noteq> [] then Some (rowsText env (map storedForm (bucketRows rows id'))) else None)"
proof -
  have "map_of (map (\<lambda>id'. (''b/'' @ id', g id')) l) (''b/'' @ id') = (if id' \<in> set l then Some (g id') else None)" for l and g :: "string \<Rightarrow> bytes"
    by (induction l) auto
  then show ?thesis unfolding bucketPuts_def rev_map by auto
qed

lemma map_of_other: "(\<And>k v. (k, v) \<in> set l \<Longrightarrow> k \<noteq> x) \<Longrightarrow> map_of l x = None"
  by (metis map_of_SomeD option.exhaust)

lemma entryPuts_other [simp]: "map_of (rev (entryPuts pc rows)) (''b/'' @ id') = None" "map_of (rev (entryPuts pc rows)) ''position'' = None"
  by (auto intro!: map_of_other simp: entryPuts_def)

lemma bucketPuts_other [simp]: "map_of (rev (bucketPuts env rows d)) ''position'' = None"
  by (auto intro!: map_of_other simp: bucketPuts_def)

lemma bucketAt_cases: "bucketAt env s id' = (case slotPlain env s (''b/'' @ id') of None \<Rightarrow> Some [] | Some q \<Rightarrow> Option.bind q (rowsParse env))"
  by (auto simp: bucketAt_def split: option.splits)

text \<open>A committed write takes effect as a whole.\<close>

lemma pcWrite_commit:
  assumes "preview_laws env" "iv_ok ivf" "length (pc_key pc) = 32"
    and "\<not> (dirtyBuckets pc rows = [] \<and> newEntries pc rows = [] \<and> position = None)"
  obtains db' pc' where "pcWrite env ivf True rows position (db, pc) = ((db', pc'), True)" "pc_ns pc' = pc_ns pc" "pc_key pc' = pc_key pc"
    and "pc_saved pc' = rows" "\<not> pc_full pc'"
    and "\<And>id'. bucketAt env (db', pc') id' = (if id' \<in> set (dirtyBuckets pc rows) then Some (map storedForm (bucketRows rows id')) else bucketAt env (db, pc) id')"
    and "readPosition env (db', pc') = (case position of None \<Rightarrow> readPosition env (db, pc) | Some p \<Rightarrow> p)"
    and "slots_ok (pc_ns pc) db \<Longrightarrow> slots_ok (pc_ns pc) db'" "marked env (db', pc') = marked env (db, pc)"
proof -
  let ?puts = "bucketPuts env rows (dirtyBuckets pc rows) @ entryPuts pc rows
    @ (case position of Some (Some p) \<Rightarrow> [(''position'', positionText env p)] | _ \<Rightarrow> [])"
  let ?dels = "bucketDeletes rows (dirtyBuckets pc rows) @ map (\<lambda>hash. ''e/'' @ hash) (droppedEntries pc rows)
    @ (case position of Some None \<Rightarrow> [''position''] | _ \<Rightarrow> [])"
  define db' where "db' = idbPutMany (map (\<lambda>(slot, plain). pcSeal env ivf pc slot plain) ?puts) (map (\<lambda>slot. pc_ns pc @ slot) ?dels) db"
  define pc' where "pc' = pc\<lparr>pc_full := False, pc_saved := rows, pc_withEntry := filter (\<lambda>h. h \<notin> set (droppedEntries pc rows))
     (fold setAdd (map fst (newEntries pc rows)) (pc_withEntry pc))\<rparr>"
  have f: "pc_ns pc' = pc_ns pc" "pc_key pc' = pc_key pc" "pc_saved pc' = rows" "\<not> pc_full pc'" by (simp_all add: pc'_def)
  have w: "pcWrite env ivf True rows position (db, pc) = ((db', pc'), True)"
    using assms(4) by (simp only: pcWrite_def Let_def prod.case if_False db'_def pc'_def not_True_eq_False)
  have sp: "slotPlain env (db', pc') slot = (if slot \<in> set ?dels then None
     else case map_of (rev ?puts) slot of Some p \<Rightarrow> Some (Some p) | None \<Rightarrow> slotPlain env (db, pc) slot)" for slot
    unfolding db'_def by (rule slotPlain_write [OF assms(1-3) f(1,2)])
  have bucket: "bucketAt env (db', pc') id' = (if id' \<in> set (dirtyBuckets pc rows) then Some (map storedForm (bucketRows rows id')) else bucketAt env (db, pc) id')" for id'
  proof -
    have "''b/'' @ id' \<in> set ?dels \<longleftrightarrow> id' \<in> set (dirtyBuckets pc rows) \<and> bucketRows rows id' = []"
      by (auto simp: bucketDeletes_def split: option.splits)
    moreover have "map_of (rev ?puts) (''b/'' @ id') = (if id' \<in> set (dirtyBuckets pc rows) \<and> bucketRows rows id' \<noteq> []
        then Some (rowsText env (map storedForm (bucketRows rows id'))) else None)"
      using map_of_bucketPuts [simplified, of env rows "dirtyBuckets pc rows" id'] entryPuts_other(1) [simplified, of pc rows id']
      by (simp add: map_add_def split: option.splits)
    ultimately show ?thesis using assms(1) unfolding bucketAt_cases sp by (auto simp: preview_laws_def)
  qed
  have position: "readPosition env (db', pc') = (case position of None \<Rightarrow> readPosition env (db, pc) | Some p \<Rightarrow> p)"
  proof -
    have r: "readPosition env s = (case slotPlain env s ''position'' of Some (Some p) \<Rightarrow> positionParse env p | _ \<Rightarrow> None)" for s
      by (auto simp: readPosition_def slotPlain_def Let_def split: prod.splits option.splits)
    have "''position'' \<in> set ?dels \<longleftrightarrow> position = Some None" by (auto simp: bucketDeletes_def split: option.splits)
    moreover have "map_of (rev ?puts) ''position'' = (case position of Some (Some p) \<Rightarrow> Some (positionText env p) | _ \<Rightarrow> None)"
      by (auto simp: map_add_def split: option.splits)
    ultimately show ?thesis using assms(1) unfolding r sp by (auto simp: preview_laws_def split: option.splits)
  qed
  have keys: "fst ` set db' \<subseteq> fst ` set db \<union> fst ` set (map (\<lambda>(slot, plain). pcSeal env ivf pc slot plain) ?puts)" "distinct (map fst db) \<Longrightarrow> distinct (map fst db')"
    unfolding db'_def by (rule keys_idbPutMany, rule distinct_idbPutMany)
  have slots: "slots_ok (pc_ns pc) db'" if "slots_ok (pc_ns pc) db"
  proof -
    have "\<exists>id'\<in>set allBuckets. k = pc_ns pc @ ''b/'' @ id'"
      if put: "k \<in> fst ` set (map (\<lambda>(slot, plain). pcSeal env ivf pc slot plain) ?puts)" and pre: "startsWith (pc_ns pc @ ''b/'') k" for k
    proof -
      obtain slot where k: "k = pc_ns pc @ slot" "slot \<in> fst ` set ?puts" using put unfolding set_map image_image case_prod_unfold pcSeal_def fst_conv by blast
      then have "startsWith ''b/'' slot" using pre by (simp add: startsWith_def numeral_2_eq_2)
      then have "\<exists>id'\<in>set (dirtyBuckets pc rows). slot = ''b/'' @ id'"
        using k(2) by (auto simp: bucketPuts_def entryPuts_def startsWith_def image_iff split: option.splits)
      then show ?thesis using k(1) dirty_sub [of pc rows] by blast
    qed
    then show ?thesis using that keys(2) subsetD [OF keys(1)] unfolding slots_ok_def by (metis UnE)
  qed
  have "map_of db' (pc_ns pc @ ''meta'') = map_of db (pc_ns pc @ ''meta'')"
    unfolding db'_def by (rule idbPutMany_other) (auto simp: pcSeal_def bucketPuts_def entryPuts_def bucketDeletes_def split: option.splits)
  then have "marked env (db', pc') = marked env (db, pc)" unfolding marked_def fst_conv snd_conv f by simp
  then show ?thesis using that [OF w f(1,2,3,4) bucket position slots] by blast
qed

lemma pcWrite_ok:
  assumes laws: "preview_laws env" "iv_ok ivf" "length (pc_key pc) = 32"
    and ok: "rows_ok val rows" "rows_ok val (pc_saved pc)" and held: "\<not> pc_full pc \<Longrightarrow> holdsRows env (db, pc) (storedMap (pc_saved pc))"
    and w: "pcWrite env ivf True rows position (db, pc) = (s', r)"
  shows "r \<and> holdsRows env s' (storedMap rows) \<and> \<not> pc_full (snd s') \<and> storedMap (pc_saved (snd s')) = storedMap rows
    \<and> rows_ok val (pc_saved (snd s')) \<and> readPosition env s' = (case position of None \<Rightarrow> readPosition env (db, pc) | Some p \<Rightarrow> p)
    \<and> pc_ns (snd s') = pc_ns pc \<and> pc_key (snd s') = pc_key pc \<and> (slots_ok (pc_ns pc) db \<longrightarrow> slots_ok (pc_ns pc) (fst s'))
    \<and> marked env s' = marked env (db, pc)"
proof (cases "dirtyBuckets pc rows = [] \<and> newEntries pc rows = [] \<and> position = None")
  case True
  then have "s' = (db, pc)" r using w by (simp_all add: pcWrite_def)
  moreover have "\<not> pc_full pc" using True dirty_set [of pc rows] by (auto simp: allBuckets_def split: if_splits)
  moreover have "storedMap rows = storedMap (pc_saved pc)" using True clean_bucket [OF ok] by (simp add: fun_eq_iff)
  ultimately show ?thesis using True held ok by simp
next
  case False
  from pcWrite_commit [OF laws False, of db] obtain db' pc'
    where e: "pcWrite env ivf True rows position (db, pc) = ((db', pc'), True)" "pc_ns pc' = pc_ns pc" "pc_key pc' = pc_key pc"
      "pc_saved pc' = rows" "\<not> pc_full pc'"
      and b: "\<And>id'. bucketAt env (db', pc') id' = (if id' \<in> set (dirtyBuckets pc rows) then Some (map storedForm (bucketRows rows id')) else bucketAt env (db, pc) id')"
      and p: "readPosition env (db', pc') = (case position of None \<Rightarrow> readPosition env (db, pc) | Some p \<Rightarrow> p)"
      "slots_ok (pc_ns pc) db \<Longrightarrow> slots_ok (pc_ns pc) db'" "marked env (db', pc') = marked env (db, pc)" by metis
  have "\<exists>l. bucketAt env (db', pc') id' = Some l \<and> distinct (map fst l) \<and> (\<forall>h. map_of l h = (if bucketOf h = id' then storedMap rows h else None))"
    if id': "id' \<in> set allBuckets" for id'
  proof (cases "id' \<in> set (dirtyBuckets pc rows)")
    case True
    have "distinct (map fst (map storedForm (bucketRows rows id')))"
      using ok(1) unfolding rows_ok_def bucketRows_def by (simp add: comp_def storedForm_def case_prod_unfold distinct_map_filter)
    then show ?thesis using True by (simp add: b map_of_storedForm storedMap_filter)
  next
    case False
    then have "\<not> pc_full pc" using id' dirty_set [of pc rows] by auto
    then obtain l where "bucketAt env (db, pc) id' = Some l" "distinct (map fst l)" "\<And>h. map_of l h = (if bucketOf h = id' then storedMap (pc_saved pc) h else None)"
      using held id' unfolding holdsRows_def by blast
    then show ?thesis using False clean_bucket [OF ok] by (auto simp: b)
  qed
  then have "holdsRows env (db', pc') (storedMap rows)" unfolding holdsRows_def by blast
  then show ?thesis using e p w ok by auto
qed

subsection \<open>Loading\<close>

lemma addRow_simp [simp]: "addRow (h, p, v) (n, saved) = (Suc n, AList.update h \<lparr>cr_preview = (n, p), cr_version = v, cr_raw = None\<rparr> saved)"
  by (simp add: addRow_def)

lemma fold_addRow:
  assumes "distinct (map fst l)"
  shows "storedMap (snd (fold addRow l (n, saved))) h = (case map_of l h of None \<Rightarrow> storedMap saved h | Some x \<Rightarrow> Some x)"
    and "fst (fold addRow l (n, saved)) = n + length l"
proof -
  show "storedMap (snd (fold addRow l (n, saved))) h = (case map_of l h of None \<Rightarrow> storedMap saved h | Some x \<Rightarrow> Some x)"
    using assms
  proof (induction l arbitrary: n saved)
    case (Cons r l)
    obtain h' p v where r: "r = (h', p, v)" by (cases r)
    let ?sv = "AList.update h' \<lparr>cr_preview = (n, p), cr_version = v, cr_raw = None\<rparr> saved"
    have "storedMap (snd (fold addRow (r # l) (n, saved))) h = (case map_of l h of None \<Rightarrow> storedMap ?sv h | Some x \<Rightarrow> Some x)"
      using Cons r by simp
    moreover have "storedMap ?sv h = (if h = h' then Some (p, v) else storedMap saved h)" by (simp add: storedMap_def)
    moreover have "map_of l h' = None" using Cons.prems r by (simp add: map_of_eq_None_iff)
    ultimately show ?case using r by (cases "h = h'"; cases "map_of l h") simp_all
  qed simp
  show "fst (fold addRow l (n, saved)) = n + length l" by (induction l arbitrary: n saved) auto
qed

text \<open>Every object a load makes is new: the valuation is extended above the numbers in use.\<close>

definition objs_ok :: "(nat \<Rightarrow> Preview) \<Rightarrow> nat \<Rightarrow> (string, CachedRow) jsmap \<Rightarrow> bool" where
  "objs_ok val n rows \<longleftrightarrow> rows_ok val rows \<and> (\<forall>(h, r)\<in>set rows. fst (cr_preview r) < n)"

lemma objs_ok_mono: "objs_ok val n rows \<Longrightarrow> n \<le> n' \<Longrightarrow> (\<And>i. i < n \<Longrightarrow> val' i = val i) \<Longrightarrow> objs_ok val' n' rows"
  unfolding objs_ok_def rows_ok_def by fastforce

lemma objs_ok_update: "objs_ok val n rows \<Longrightarrow> objs_ok (val(n := p)) (Suc n) (AList.update h \<lparr>cr_preview = (n, p), cr_version = v, cr_raw = w\<rparr> rows)"
  unfolding objs_ok_def rows_ok_def by (fastforce dest!: set_update simp: distinct_update)

lemma fold_addRow_objs:
  assumes "objs_ok val n saved" "fold addRow l (n, saved) = (n', saved')"
  shows "\<exists>val'. (\<forall>i<n. val' i = val i) \<and> objs_ok val' n' saved' \<and> n \<le> n'"
  using assms
proof (induction l arbitrary: n saved val)
  case (Cons r l)
  obtain h p v where r: "r = (h, p, v)" by (cases r)
  obtain val' where "\<forall>i<Suc n. val' i = (val(n := p)) i" "objs_ok val' n' saved'" "Suc n \<le> n'"
    using Cons.IH [OF objs_ok_update [OF Cons.prems(1), of p h v None]] Cons.prems(2) unfolding r fold_simps addRow_simp by metis
  then show ?case by (intro exI [of _ val']) auto
qed auto

lemma slots_entry:
  assumes "slots_ok ns db" "e \<in> set (idbEntriesWithPrefix (ns @ ''b/'') db)"
  shows "\<exists>id'\<in>set allBuckets. fst e = ns @ ''b/'' @ id' \<and> map_of db (fst e) = Some (snd e)"
proof -
  have "e \<in> set db" "startsWith (ns @ ''b/'') (fst e)" using assms(2) by (auto simp: idbEntriesWithPrefix_def)
  then show ?thesis using assms(1) by (fastforce simp: slots_ok_def intro: map_of_is_SomeI)
qed

lemma entries_distinct: "distinct (map fst db) \<Longrightarrow> distinct (map fst (idbEntriesWithPrefix p db))"
  by (auto simp: idbEntriesWithPrefix_def distinct_map intro: inj_on_subset)

lemma map_of_entries:
  assumes "distinct (map fst db)" "startsWith p k"
  shows "map_of (idbEntriesWithPrefix p db) k = map_of db k"
proof -
  have "map_of (idbEntriesWithPrefix p db) k = Some v \<longleftrightarrow> map_of db k = Some v" for v
    using assms entries_distinct [OF assms(1), of p] by (simp add: map_of_eq_Some_iff) (simp add: idbEntriesWithPrefix_def)
  then show ?thesis by (metis option.exhaust)
qed

text \<open>
  Loading the buckets one after the other: each hash is only in its own bucket, so the rows found are those
  of that bucket.
\<close>

definition foundRow :: "preview_env \<Rightarrow> PreviewCache \<Rightarrow> string \<Rightarrow> (string \<times> cache_value) list \<Rightarrow> string \<Rightarrow> (Preview \<times> nat option) option" where
  "foundRow env pc ns es h =
     Option.bind (map_of es (ns @ ''b/'' @ bucketOf h)) (\<lambda>v. Option.bind (parseRows env pc (ns @ ''b/'' @ bucketOf h, v)) (\<lambda>l. map_of l h))"

lemma fold_loadBucket:
  assumes "\<forall>e\<in>set es. \<exists>id' l. fst e = ns @ ''b/'' @ id' \<and> parseRows env pc e = Some l \<and> distinct (map fst l)
      \<and> (\<forall>h. map_of l h \<noteq> None \<longrightarrow> bucketOf h = id')"
    and "distinct (map fst es)" "pc_key acc = pc_key pc" "objs_ok val n (pc_saved acc)"
    and "fold (loadBucket env) es (n, acc) = (n', pc')"
  shows "pc_intact pc' = pc_intact acc \<and> pc_ns pc' = pc_ns acc \<and> pc_key pc' = pc_key acc \<and> pc_full pc' = pc_full acc
    \<and> pc_withEntry pc' = pc_withEntry acc \<and> (\<exists>val'. (\<forall>i<n. val' i = val i) \<and> objs_ok val' n' (pc_saved pc') \<and> n \<le> n')
    \<and> storedMap (pc_saved pc') = storedMap (pc_saved acc) ++ foundRow env pc ns es"
  using assms
proof (induction es arbitrary: n acc val)
  case (Cons e es)
  from Cons.prems(1) obtain id' l where e: "fst e = ns @ ''b/'' @ id'" "parseRows env pc e = Some l" "distinct (map fst l)"
    "\<And>h. map_of l h \<noteq> None \<Longrightarrow> bucketOf h = id'" by auto
  have pr: "parseRows env acc e = Some l" using e(2) Cons.prems(3) by (simp add: parseRows_def pcUnseal_def cong: cache_value.case_cong)
  obtain n1 sv where f: "fold addRow l (n, pc_saved acc) = (n1, sv)" by fastforce
  let ?acc = "acc\<lparr>pc_saved := sv\<rparr>"
  have step: "loadBucket env e (n, acc) = (n1, ?acc)" using pr f by (simp add: loadBucket_def)
  obtain val1 where v1: "\<forall>i<n. val1 i = val i" "objs_ok val1 n1 sv" "n \<le> n1" using fold_addRow_objs [OF Cons.prems(4) f] by blast
  have sv: "storedMap sv h = (case map_of l h of None \<Rightarrow> storedMap (pc_saved acc) h | Some x \<Rightarrow> Some x)" for h
    using fold_addRow(1) [OF e(3), of n "pc_saved acc" h] f by simp
  have rest: "fold (loadBucket env) es (n1, ?acc) = (n', pc')" using Cons.prems(5) step by simp
  note ih = Cons.IH [OF _ _ _ _ rest, of val1]
  have IH: "pc_intact pc' = pc_intact acc \<and> pc_ns pc' = pc_ns acc \<and> pc_key pc' = pc_key acc \<and> pc_full pc' = pc_full acc
    \<and> pc_withEntry pc' = pc_withEntry acc \<and> (\<exists>val'. (\<forall>i<n1. val' i = val1 i) \<and> objs_ok val' n' (pc_saved pc') \<and> n1 \<le> n')
    \<and> storedMap (pc_saved pc') = storedMap sv ++ foundRow env pc ns es"
    using ih Cons.prems(1,2,3) v1(2) by simp
  have "(storedMap sv ++ foundRow env pc ns es) h = (storedMap (pc_saved acc) ++ foundRow env pc ns (e # es)) h" for h
  proof (cases "bucketOf h = id'")
    case True
    then have "map_of es (fst e) = None" using Cons.prems(2) e(1) by (simp add: map_of_eq_None_iff)
    then have "foundRow env pc ns es h = None" "foundRow env pc ns (e # es) h = map_of l h"
      using True e(1,2) by (cases e; simp add: foundRow_def)+
    then show ?thesis using sv [of h] by (simp add: map_add_def)
  next
    case False
    then have "map_of l h = None" using e(4) by blast
    moreover have "foundRow env pc ns (e # es) h = foundRow env pc ns es h" using e(1) False by (cases e) (simp add: foundRow_def)
    ultimately show ?thesis using sv [of h] by (simp add: map_add_def split: option.splits)
  qed
  then have "storedMap sv ++ foundRow env pc ns es = storedMap (pc_saved acc) ++ foundRow env pc ns (e # es)" by blast
  moreover have "\<exists>val'. (\<forall>i<n. val' i = val i) \<and> objs_ok val' n' (pc_saved pc') \<and> n \<le> n'"
    using IH v1 by (metis (no_types, lifting) le_trans less_le_trans)
  ultimately show ?case using IH by simp
qed (auto simp: foundRow_def map_add_def fun_eq_iff)

lemma pcLoad_ok:
  assumes "holdsRows env (db, pc) m" "slots_ok (pc_ns pc) db" "marked env (db, pc)" "pcLoad env iv n (db, pc) = (s', n', rows, position)"
  shows "fst s' = db \<and> storedMap rows = m \<and> position = readPosition env (db, pc) \<and> pc_saved (snd s') = rows
    \<and> pc_ns (snd s') = pc_ns pc \<and> pc_key (snd s') = pc_key pc \<and> (\<exists>val'. (\<forall>i<n. val' i = val i) \<and> objs_ok val' n' rows \<and> n \<le> n')"
proof -
  let ?ns = "pc_ns pc" and ?pre = "pc_ns pc @ ''e/''"
  let ?es = "idbEntriesWithPrefix (?ns @ ''b/'') db"
  define pc1 where "pc1 = pc\<lparr>pc_saved := [], pc_withEntry := [], pc_intact := True, pc_withEntry := fold setAdd (map (drop (length ?pre)) (idbKeysWithPrefix ?pre db)) []\<rparr>"
  obtain n2 pc2 where f: "fold (loadBucket env) ?es (n, pc1) = (n2, pc2)" by fastforce
  have keep: "keepIfOpens (pe_crypto env) (pc_key pc) iv HEADERS_VERSION ?ns db = (db, True)"
    using assms(3) by (auto simp: marked_def keepIfOpens_def split: option.splits cache_value.splits)
  have pos: "readPosition env (db, pc\<lparr>pc_saved := [], pc_withEntry := [], pc_intact := True\<rparr>) = readPosition env (db, pc)"
    by (simp add: readPosition_def pcUnseal_def Let_def cong: option.case_cong cache_value.case_cong)
  have ld: "pcLoad env iv n (db, pc) = ((db, pc2), n2, pc_saved pc2, if pc_intact pc2 then readPosition env (db, pc) else None)"
    unfolding pcLoad_def prod.case Let_def keep bool.case pos pc1_def [symmetric] f by (rule refl)
  have bucket: "parseRows env pc (?ns @ ''b/'' @ id', v) = bucketAt env (db, pc) id'" if "map_of db (?ns @ ''b/'' @ id') = Some v" for id' v
    using that by (auto simp: parseRows_def bucketAt_def slotPlain_def split: option.splits)
  have entry: "\<exists>id' l. fst e = ?ns @ ''b/'' @ id' \<and> parseRows env pc e = Some l \<and> distinct (map fst l) \<and> (\<forall>h. map_of l h \<noteq> None \<longrightarrow> bucketOf h = id')"
    if ein: "e \<in> set ?es" for e
  proof -
    obtain id' where i: "id' \<in> set allBuckets" "fst e = ?ns @ ''b/'' @ id'" "map_of db (fst e) = Some (snd e)"
      using slots_entry [OF assms(2) ein] by blast
    then obtain l where "bucketAt env (db, pc) id' = Some l" "distinct (map fst l)" "\<forall>h. map_of l h = (if bucketOf h = id' then m h else None)"
      using assms(1) unfolding holdsRows_def by blast
    then show ?thesis using bucket [of id' "snd e"] i by (metis prod.collapse)
  qed
  have objs: "objs_ok val n (pc_saved pc1)" by (simp add: pc1_def objs_ok_def rows_ok_def)
  have dist: "distinct (map fst ?es)" using assms(2) entries_distinct unfolding slots_ok_def by blast
  have res: "pc_intact pc2 = pc_intact pc1 \<and> pc_ns pc2 = pc_ns pc1 \<and> pc_key pc2 = pc_key pc1 \<and> pc_full pc2 = pc_full pc1
    \<and> pc_withEntry pc2 = pc_withEntry pc1 \<and> (\<exists>val'. (\<forall>i<n. val' i = val i) \<and> objs_ok val' n2 (pc_saved pc2) \<and> n \<le> n2)
    \<and> storedMap (pc_saved pc2) = storedMap (pc_saved pc1) ++ foundRow env pc ?ns ?es"
    by (rule fold_loadBucket [OF _ dist _ objs f]) (use entry in \<open>auto simp: pc1_def\<close>)
  have "foundRow env pc ?ns ?es h = m h" for h
  proof -
    have mo: "map_of ?es (?ns @ ''b/'' @ bucketOf h) = map_of db (?ns @ ''b/'' @ bucketOf h)"
      using assms(2) by (intro map_of_entries) (simp_all add: slots_ok_def startsWith_def)
    obtain l where l: "bucketAt env (db, pc) (bucketOf h) = Some l" "map_of l h = m h"
      using assms(1) bucketOf_in [of h] unfolding holdsRows_def by metis
    show ?thesis
    proof (cases "map_of db (?ns @ ''b/'' @ bucketOf h)")
      case None
      then have "l = []" using l(1) by (simp add: bucketAt_def slotPlain_def)
      then show ?thesis using None mo l(2) by (simp add: foundRow_def)
    next
      case (Some v)
      then show ?thesis using bucket [OF Some] mo l by (simp add: foundRow_def)
    qed
  qed
  then have "storedMap (pc_saved pc2) = m" using res by (simp add: pc1_def storedMap_def fun_eq_iff map_add_def split: option.splits)
  then show ?thesis using ld assms(4) res by (simp add: pc1_def)
qed

text \<open>After a load the marker of this key and layout stands, whatever was stored.\<close>

lemma pcLoad_marked:
  assumes "preview_laws env" "length iv = 12" "length (pc_key pc) = 32" "pcLoad env iv n (db, pc) = (s', r)"
  shows "marked env s' \<and> pc_ns (snd s') = pc_ns pc \<and> pc_key (snd s') = pc_key pc \<and> (slots_ok (pc_ns pc) db \<longrightarrow> slots_ok (pc_ns pc) (fst s'))"
proof -
  have frame: "pc_ns (snd (fold (loadBucket env) es a)) = pc_ns (snd a) \<and> pc_key (snd (fold (loadBucket env) es a)) = pc_key (snd a)" for es a
    by (induction es arbitrary: a) (auto simp: loadBucket_def split: option.splits prod.splits)
  obtain db' opens where k: "keepIfOpens (pe_crypto env) (pc_key pc) iv HEADERS_VERSION (pc_ns pc) db = (db', opens)" by fastforce
  have s': "fst s' = db' \<and> pc_ns (snd s') = pc_ns pc \<and> pc_key (snd s') = pc_key pc"
  proof (cases opens)
    case True
    let ?pc = "pc\<lparr>pc_saved := [], pc_withEntry := [], pc_intact := True, pc_withEntry := fold setAdd (map (drop (length (pc_ns pc @ ''e/''))) (idbKeysWithPrefix (pc_ns pc @ ''e/'') db')) []\<rparr>"
    have "s' = (db', snd (fold (loadBucket env) (idbEntriesWithPrefix (pc_ns pc @ ''b/'') db') (n, ?pc)))"
      using assms(4) True k unfolding pcLoad_def prod.case Let_def by (simp only: bool.case prod.case case_prod_unfold prod.inject fst_conv snd_conv)
    then show ?thesis using frame [of _ "(n, ?pc)"] by simp
  next
    case False
    then show ?thesis using assms(4) k by (auto simp: pcLoad_def)
  qed
  have "marked env (db', snd s') \<and> (slots_ok (pc_ns pc) db \<longrightarrow> slots_ok (pc_ns pc) db')"
  proof (cases opens)
    case True
    then show ?thesis using k s' by (auto simp: marked_def keepIfOpens_def split: option.splits cache_value.splits if_splits)
  next
    case False
    have db': "db' = AList.update (pc_ns pc @ ''meta'') (MetaV HEADERS_VERSION (dsSeal (pe_crypto env) (pc_key pc) iv (pc_ns pc @ ''meta'') CHECK))
        (filter (\<lambda>(k, _). \<not> startsWith (pc_ns pc) k) db)"
      using k False by (auto simp: keepIfOpens_def idbPutMany_def idbDeletePrefix_def split: option.splits cache_value.splits if_splits)
    have "marked env (db', snd s')" using s' assms(1-3) by (simp add: marked_def db' preview_laws_def unseal_sealed)
    moreover have "slots_ok (pc_ns pc) db'" if "slots_ok (pc_ns pc) db"
      using that unfolding slots_ok_def db' by (auto simp: distinct_map_filter distinct_update dom_update startsWith_def)
    ultimately show ?thesis by blast
  qed
  then show ?thesis using s' by (cases s') simp
qed

subsection \<open>A register of rows and a position\<close>

text \<open>
  A save as the caller hands it over: the initialisation vectors, whether the transaction commits, the rows and
  the position. What a sequence of saves should leave is the rows and the position of the last that committed.
\<close>

type_synonym save_call = "(string \<Rightarrow> bytes) \<times> bool \<times> (string, CachedRow) jsmap \<times> FeedPosition option option"
type_synonym register = "(string \<Rightarrow> (Preview \<times> nat option) option) \<times> FeedPosition option"

definition pcSave :: "preview_env \<Rightarrow> save_call \<Rightarrow> kept \<Rightarrow> kept" where
  "pcSave env c s = (case c of (ivf, commits, rows, position) \<Rightarrow> fst (pcWrite env ivf commits rows position s))"

definition registerSave :: "save_call \<Rightarrow> register \<Rightarrow> register" where
  "registerSave c reg =
     (case c of (_, commits, rows, position) \<Rightarrow>
        if commits then (storedMap rows, case position of None \<Rightarrow> snd reg | Some p \<Rightarrow> p) else reg)"

definition save_ok :: "(nat \<Rightarrow> Preview) \<Rightarrow> save_call \<Rightarrow> bool" where
  "save_ok val c \<longleftrightarrow> iv_ok (fst c) \<and> rows_ok val (fst (snd (snd c)))"

definition writer_state :: "preview_env \<Rightarrow> (nat \<Rightarrow> Preview) \<Rightarrow> kept \<Rightarrow> register \<Rightarrow> bool" where
  "writer_state env val s reg \<longleftrightarrow> length (pc_key (snd s)) = 32 \<and> slots_ok (pc_ns (snd s)) (fst s) \<and> marked env s
     \<and> rows_ok val (pc_saved (snd s)) \<and> readPosition env s = snd reg
     \<and> (\<not> pc_full (snd s) \<longrightarrow> holdsRows env s (fst reg) \<and> storedMap (pc_saved (snd s)) = fst reg)"

lemma pcSave_register:
  assumes "preview_laws env" "writer_state env val s reg" "save_ok val c"
  shows "writer_state env val (pcSave env c s) (registerSave c reg)" "pc_ns (snd (pcSave env c s)) = pc_ns (snd s)"
    and "pc_key (snd (pcSave env c s)) = pc_key (snd s)"
    and "fst (snd c) \<Longrightarrow> \<not> pc_full (snd (pcSave env c s))" "\<not> pc_full (snd s) \<Longrightarrow> \<not> pc_full (snd (pcSave env c s))"
proof -
  obtain ivf commits rows position where c: "c = (ivf, commits, rows, position)" by (cases c)
  obtain db pc where s: "s = (db, pc)" by (cases s)
  have w: "length (pc_key pc) = 32" "slots_ok (pc_ns pc) db" "marked env (db, pc)" "rows_ok val (pc_saved pc)" "readPosition env (db, pc) = snd reg"
    "\<not> pc_full pc \<Longrightarrow> holdsRows env (db, pc) (fst reg) \<and> storedMap (pc_saved pc) = fst reg" and ok: "iv_ok ivf" "rows_ok val rows"
    using assms(2,3) by (auto simp: writer_state_def save_ok_def s c)
  have "writer_state env val (pcSave env c s) (registerSave c reg) \<and> pc_ns (snd (pcSave env c s)) = pc_ns (snd s)
    \<and> pc_key (snd (pcSave env c s)) = pc_key (snd s)
    \<and> (commits \<longrightarrow> \<not> pc_full (snd (pcSave env c s))) \<and> (\<not> pc_full (snd s) \<longrightarrow> \<not> pc_full (snd (pcSave env c s)))"
  proof (cases commits)
    case True
    obtain s' r where e: "pcWrite env ivf True rows position (db, pc) = (s', r)" by fastforce
    have held: "\<not> pc_full pc \<Longrightarrow> holdsRows env (db, pc) (storedMap (pc_saved pc))" using w(6) by simp
    show ?thesis using pcWrite_ok [OF assms(1) ok(1) w(1) ok(2) w(4) held e] w e True
      by (auto simp: c s pcSave_def registerSave_def writer_state_def split: option.splits)
  next
    case False
    then have "pcSave env c s = s" by (simp add: c s pcSave_def pcWrite_def Let_def)
    then show ?thesis using assms(2) False by (simp add: c registerSave_def)
  qed
  then show "writer_state env val (pcSave env c s) (registerSave c reg)" "pc_ns (snd (pcSave env c s)) = pc_ns (snd s)"
    "pc_key (snd (pcSave env c s)) = pc_key (snd s)"
    "fst (snd c) \<Longrightarrow> \<not> pc_full (snd (pcSave env c s))" "\<not> pc_full (snd s) \<Longrightarrow> \<not> pc_full (snd (pcSave env c s))"
    by (simp_all add: c)
qed

lemma pcSaves_register:
  assumes "preview_laws env" "writer_state env val s reg" "\<forall>c\<in>set cs. save_ok val c"
  shows "writer_state env val (fold (pcSave env) cs s) (fold registerSave cs reg) \<and> pc_ns (snd (fold (pcSave env) cs s)) = pc_ns (snd s)
    \<and> pc_key (snd (fold (pcSave env) cs s)) = pc_key (snd s)
    \<and> ((\<exists>c\<in>set cs. fst (snd c)) \<or> \<not> pc_full (snd s) \<longrightarrow> \<not> pc_full (snd (fold (pcSave env) cs s)))"
  using assms(2,3)
proof (induction cs arbitrary: s reg)
  case (Cons c cs)
  then have "save_ok val c" by simp
  note st = pcSave_register [OF assms(1) Cons.prems(1) this]
  have "\<forall>c\<in>set cs. save_ok val c" using Cons.prems(2) by simp
  from Cons.IH [OF st(1) this] show ?case using st(2-5) by auto
qed simp

lemma writer_reload:
  assumes "writer_state env val s reg" "\<not> pc_full (snd s)" "pc_ns pc = pc_ns (snd s)" "pc_key pc = pc_key (snd s)"
    and "pcLoad env iv n (fst s, pc) = (s', n', rows, position)"
  shows "fst s' = fst s \<and> storedMap rows = fst reg \<and> position = snd reg"
proof -
  have same: "slotPlain env (fst s, pc) = slotPlain env s"
    using assms(3,4) by (auto simp: slotPlain_def pcUnseal_def fun_eq_iff map_option_case cong: option.case_cong cache_value.case_cong)
  then have b: "bucketAt env (fst s, pc) = bucketAt env s" by (simp add: bucketAt_def fun_eq_iff)
  have h: "holdsRows env (fst s, pc) (fst reg)" using assms(1,2) b by (simp add: writer_state_def holdsRows_def)
  have m: "marked env (fst s, pc)" using assms(1,3,4) by (simp add: writer_state_def marked_def cong: option.case_cong cache_value.case_cong)
  have p: "readPosition env (fst s, pc) = readPosition env s"
    using assms(3,4) by (cases s) (simp add: readPosition_def pcUnseal_def Let_def cong: option.case_cong cache_value.case_cong)
  show ?thesis using pcLoad_ok [OF h _ m assms(5)] assms(1,3) p by (simp add: writer_state_def)
qed

subsection \<open>A concrete environment\<close>

definition putPreview :: "Preview \<Rightarrow> bytes" where
  "putPreview p =
     putStr (pv_hash p) @ putStr (pv_messageId p) @ putStr (pv_threadId p) @ putStr (pv_senderAddress p) @ putStr (pv_senderPublicKey p)
     @ putStr (pv_recipientAddress p) @ putList putStr (pv_to p) @ putList putStr (pv_cc p) @ putList putStr (pv_bcc p)
     @ putStr (pv_subject p) @ putStr (pv_snippet p) @ putStr (pv_senderDisplay p) @ putNat (pv_sentAt p) @ putNat (pv_bodySize p)
     @ putNat (pv_attachmentCount p) @ putOpt putStr (pv_deliveredTo p)"

definition getPreview :: "bytes \<Rightarrow> Preview \<times> bytes" where
  "getPreview b0 =
     (case getStr b0 of (v1, b1) \<Rightarrow> case getStr b1 of (v2, b2) \<Rightarrow> case getStr b2 of (v3, b3) \<Rightarrow> case getStr b3 of (v4, b4) \<Rightarrow>
      case getStr b4 of (v5, b5) \<Rightarrow> case getStr b5 of (v6, b6) \<Rightarrow> case getList getStr b6 of (v7, b7) \<Rightarrow> case getList getStr b7 of (v8, b8) \<Rightarrow>
      case getList getStr b8 of (v9, b9) \<Rightarrow> case getStr b9 of (v10, b10) \<Rightarrow> case getStr b10 of (v11, b11) \<Rightarrow> case getStr b11 of (v12, b12) \<Rightarrow>
      case getNat b12 of (v13, b13) \<Rightarrow> case getNat b13 of (v14, b14) \<Rightarrow> case getNat b14 of (v15, b15) \<Rightarrow>
      case getOpt getStr b15 of (v16, b16) \<Rightarrow>
        (\<lparr>pv_hash = v1, pv_messageId = v2, pv_threadId = v3, pv_senderAddress = v4, pv_senderPublicKey = v5, pv_recipientAddress = v6,
          pv_to = v7, pv_cc = v8, pv_bcc = v9, pv_subject = v10, pv_snippet = v11, pv_senderDisplay = v12, pv_sentAt = v13, pv_bodySize = v14,
          pv_attachmentCount = v15, pv_deliveredTo = v16\<rparr>, b16))"

definition demo_preview_env :: preview_env where
  "demo_preview_env =
     \<lparr>pe_crypto = demo_crypto,
      rowsText = putList (putPair putStr (putPair putPreview (putOpt putNat))),
      rowsParse = (\<lambda>b. Some (fst (getList (getPair getStr (getPair getPreview (getOpt getNat))) b))),
      positionText = (\<lambda>p. putStr (fp_epoch p) @ putNat (fp_seq p)),
      positionParse = (\<lambda>b. case getStr b of (e, r) \<Rightarrow> Some \<lparr>fp_epoch = e, fp_seq = fst (getNat r)\<rparr>)\<rparr>"

lemma getPreview_put: "getPreview (putPreview p @ r) = (p, r)"
  by (simp add: getPreview_def putPreview_def get_put)

lemma demo_preview_laws: "preview_laws demo_preview_env"
proof -
  have "getPair getStr (getPair getPreview (getOpt getNat)) (putPair putStr (putPair putPreview (putOpt putNat)) x @ r) = (x, r)" for x r
    by (intro getPair_put getStr_put getPreview_put getOpt_put getNat_put)
  from getList_put [of _ "putPair putStr (putPair putPreview (putOpt putNat))", OF this, of _ "[]"]
  have "fst (getList (getPair getStr (getPair getPreview (getOpt getNat))) (putList (putPair putStr (putPair putPreview (putOpt putNat))) l)) = l" for l
    by simp
  moreover have "fst (getNat (putNat k)) = k" for k using getNat_put [of k "[]"] by simp
  ultimately show ?thesis by (simp add: preview_laws_def demo_preview_env_def demo_gcm_laws get_put)
qed

definition demo_preview :: Preview where
  "demo_preview =
     \<lparr>pv_hash = ''ab'', pv_messageId = ''01'', pv_threadId = ''02'', pv_senderAddress = ''bob@b.org'', pv_senderPublicKey = ''03'',
      pv_recipientAddress = ''a@b.org'', pv_to = [''a@b.org''], pv_cc = [], pv_bcc = [], pv_subject = ''hi'', pv_snippet = ''hello'',
      pv_senderDisplay = [], pv_sentAt = 7, pv_bodySize = 5, pv_attachmentCount = 0, pv_deliveredTo = None\<rparr>"

subsection \<open>Properties\<close>

text \<open>
  C10. What a device keeps is what its writer last committed: after an instance loads, takes over the list and
  saves any number of times, with any of the transactions aborting, every later instance of the account loads
  exactly the rows and the feed position of the last save that committed, whatever the database held before
  and although a save rewrites only the buckets that changed. Rows and position are never of different saves.
\<close>

theorem preview_cache_reload:
  assumes "preview_laws env" and "pcOpen (Some derive) address scope = Some pc" and "length (pc_key pc) = 32"
    and "slots_ok (pc_ns pc) db" and "length iv = 12"
    and "rows_ok val (pc_saved (snd (fst (pcLoad env iv n (db, pc)))))" and "\<forall>c\<in>set cs. save_ok val c" and "\<exists>c\<in>set cs. fst (snd c)"
  shows "case pcLoad env iv n (db, pc) of (s0, n0, rows0, position0) \<Rightarrow>
      (let s = fold (pcSave env) cs (fst s0, rewriteAll (snd s0)) in
       case pcLoad env iv' m (fst s, pc) of (s', m', rows, position) \<Rightarrow>
         fst s' = fst s \<and> (storedMap rows, position) = fold registerSave cs ((\<lambda>_. None), readPosition env s0))"
proof -
  obtain s0 n0 rows0 position0 where l: "pcLoad env iv n (db, pc) = (s0, n0, rows0, position0)" by (cases "pcLoad env iv n (db, pc)")
  define s where "s = fold (pcSave env) cs (fst s0, rewriteAll (snd s0))"
  obtain s' m' rows position where l': "pcLoad env iv' m (fst s, pc) = (s', m', rows, position)" by (cases "pcLoad env iv' m (fst s, pc)")
  have start: "marked env s0 \<and> pc_ns (snd s0) = pc_ns pc \<and> pc_key (snd s0) = pc_key pc \<and> slots_ok (pc_ns pc) (fst s0)"
    using pcLoad_marked [OF assms(1,5,3) l] assms(4) by blast
  have p: "readPosition env (fst s0, rewriteAll (snd s0)) = readPosition env s0"
    by (cases s0) (simp add: readPosition_def rewriteAll_def pcUnseal_def Let_def cong: option.case_cong cache_value.case_cong)
  have mk: "marked env (fst s0, rewriteAll (snd s0)) = marked env s0" by (simp add: marked_def rewriteAll_def cong: option.case_cong cache_value.case_cong)
  have "writer_state env val (fst s0, rewriteAll (snd s0)) ((\<lambda>_. None), readPosition env s0)"
    using start assms(3,6) l p mk by (simp add: writer_state_def) (simp add: rewriteAll_def)
  from pcSaves_register [OF assms(1) this assms(7)]
  have w: "writer_state env val s (fold registerSave cs ((\<lambda>_. None), readPosition env s0))" "\<not> pc_full (snd s)" "pc_ns pc = pc_ns (snd s)" "pc_key pc = pc_key (snd s)"
    using start assms(8) unfolding s_def by (auto simp: rewriteAll_def)
  show ?thesis unfolding l prod.case Let_def s_def [symmetric] l' using writer_reload [OF w l'] by (auto intro: prod_eqI)
qed

text \<open>A first save aborts, a second commits one row at position 4, a third, with another position, aborts.\<close>

theorem preview_cache_reload_witness:
  defines "pc \<equiv> \<lparr>pc_ns = pcNs ''a@b.org'' Inbox, pc_key = replicate 32 0, pc_saved = [], pc_withEntry = [], pc_intact = True, pc_full = False\<rparr>"
    and "row \<equiv> \<lparr>cr_preview = (0, demo_preview), cr_version = None, cr_raw = Some ''eA==''\<rparr>"
    and "ivf \<equiv> (\<lambda>_ :: string. replicate 12 (0 :: byte))"
  shows "case pcLoad demo_preview_env (replicate 12 0) 1 ([], pc) of (s0, n0, rows0, position0) \<Rightarrow>
      (let s = fold (pcSave demo_preview_env)
            [(ivf, False, [], Some None), (ivf, True, [(''ab'', row)], Some (Some \<lparr>fp_epoch = ''e'', fp_seq = 4\<rparr>)),
             (ivf, False, [], Some (Some \<lparr>fp_epoch = ''e'', fp_seq = 9\<rparr>))] (fst s0, rewriteAll (snd s0)) in
       case pcLoad demo_preview_env (replicate 12 0) 1 (fst s, pc) of (s', m', rows, position) \<Rightarrow>
         storedMap rows ''ab'' = Some (demo_preview, None) \<and> storedMap rows ''cd'' = None \<and> position = Some \<lparr>fp_epoch = ''e'', fp_seq = 4\<rparr>)"
proof -
  let ?cs = "[(ivf, False, [], Some None), (ivf, True, [(''ab'', row)], Some (Some \<lparr>fp_epoch = ''e'', fp_seq = 4\<rparr>)),
             (ivf, False, [], Some (Some \<lparr>fp_epoch = ''e'', fp_seq = 9\<rparr>))]"
  have o: "pcOpen (Some (\<lambda>_ _. replicate 32 0)) ''a@b.org'' Inbox = Some pc" by (simp add: pcOpen_def pc_def deriveDeviceKey_def)
  have l: "pc_saved (snd (fst (pcLoad demo_preview_env (replicate 12 0) 1 ([], pc)))) = []"
    by (simp add: pcLoad_def keepIfOpens_def pc_def)
  have saves: "\<forall>c\<in>set ?cs. save_ok (\<lambda>_. demo_preview) c" by (simp add: save_ok_def iv_ok_def rows_ok_def ivf_def row_def)
  have fin: "fold registerSave ?cs ((\<lambda>_. None), p) = (storedMap [(''ab'', row)], Some \<lparr>fp_epoch = ''e'', fp_seq = 4\<rparr>)" for p
    by (simp add: registerSave_def)
  have row: "storedMap [(''ab'', row)] ''ab'' = Some (demo_preview, None)" "storedMap [(''ab'', row)] ''cd'' = None" by (simp_all add: storedMap_def row_def)
  note t = preview_cache_reload [OF demo_preview_laws o, where db = "[]" and iv = "replicate 12 0" and n = 1 and val = "\<lambda>_. demo_preview" and cs = ?cs
    and iv' = "replicate 12 0" and m = 1, unfolded l fin]
  have "case pcLoad demo_preview_env (replicate 12 0) 1 ([], pc) of (s0, n0, rows0, position0) \<Rightarrow>
      (let s = fold (pcSave demo_preview_env) ?cs (fst s0, rewriteAll (snd s0)) in
       case pcLoad demo_preview_env (replicate 12 0) 1 (fst s, pc) of (s', m', rows, position) \<Rightarrow>
         fst s' = fst s \<and> (storedMap rows, position) = (storedMap [(''ab'', row)], Some \<lparr>fp_epoch = ''e'', fp_seq = 4\<rparr>))"
    by (rule t) (use saves in \<open>simp_all add: pc_def slots_ok_def rows_ok_def\<close>)
  then show ?thesis using row by (auto simp: Let_def split: prod.splits)
qed

end
