(* ===== verification/Mailbox.thy ===== *)
theory Mailbox
  imports Preview_Cache Split Keys
begin

section \<open>The mailbox client\<close>

text \<open>
  \<open>lib/api/mailboxRest.ts\<close> with the types of \<open>lib/sync/changes.ts\<close>. \<open>MailboxSync\<close> is a record beside the
  device database; an operation takes the answers of its environment (the device store, the identity
  service, the relay) as arguments and returns the new state, which keeps what was done before a failure.
  Two effects of the source are fields of the record: the rows last handed to the subscriber, and the
  deletions \<open>previews\<close> starts without awaiting them. The decoders of the generated codec and the JSON text
  of a row are parameters.
\<close>

subsection \<open>Data\<close>

datatype ChangeKind = MailStored | MailDeleted | KvPut | KvDeleted | FilterChanged

record ChangeEvent =
  ev_seq :: nat
  ev_kind :: ChangeKind
  ev_hash :: "string option"
  ev_key :: "string option"
  ev_version :: "nat option"
  ev_entry :: "string option"

record WorkingKeys =
  wk_ed25519Sign :: bytes
  wk_x25519Derive :: bytes
  wk_ed25519Public :: bytes
  wk_x25519Public :: bytes
  wk_deviceId :: bytes
  wk_createdAt :: nat
  wk_address :: string
  wk_aliasRoot :: "bytes option"

datatype identity_kind = SharedKey | IsolatedKey

record AccountIdentity =
  ai_address :: string
  ai_keys :: WorkingKeys
  ai_kind :: identity_kind
  ai_retiredAt :: "nat option"

record RingKey =
  rg_keys :: WorkingKeys
  rg_address :: "string option"

type_synonym keyring = "(string, RingKey) jsmap"
type_synonym retirements = "(string, nat) jsmap"

record OpenedEntry =
  oe_entry :: MailboxEntryLike
  oe_header :: MessageHeaderFields
  oe_keys :: WorkingKeys
  oe_address :: "string option"

record CachedEntry =
  ce_preview :: preview_obj
  ce_raw :: "string option"
  ce_opened :: "OpenedEntry option"

record FullBody =
  fb_bodyText :: string
  fb_htmlBody :: "string option"
  fb_attachments :: "DecryptedAttachment list"
  fb_replyToId :: string
  fb_row :: Preview

datatype mailbox_error = NotListedYet | BadEntryText | SealedToNone | NotOpened seal_error | NoCachedHeader | RelayFailed | StoreFailed

record mailbox_env =
  mv_split :: split_env
  mv_preview :: preview_env
  mv_deriveBits :: "bytes \<Rightarrow> bytes \<Rightarrow> bytes \<Rightarrow> bytes"
  decodeMailboxEntry :: "bytes \<Rightarrow> MailboxEntryLike option"
  decodeMailboxBody :: "bytes \<Rightarrow> MailboxBodyLike option"
  previewText :: "Preview \<Rightarrow> string"

text \<open>What one call meets: the device store (whether a load, a read and a write succeed), the retired keys it holds, and the identity service (absent, failing, or an answer).\<close>

record mailbox_io =
  io_loads :: bool
  io_reads :: bool
  io_writes :: bool
  io_iv :: bytes
  io_ivf :: "string \<Rightarrow> bytes"
  io_retiredKeys :: "RetiredKeys list"
  io_identities :: "AccountIdentity list option option"

record MailboxSync =
  ms_keys :: WorkingKeys
  ms_cache :: "(string, CachedEntry) jsmap"
  ms_lastPreviewSig :: string
  ms_retired :: retirements
  ms_ring :: "keyring option"
  ms_rows :: "PreviewCache option"
  ms_restored :: bool
  ms_listed :: bool
  ms_position :: "FeedPosition option"
  ms_writer :: bool
  ms_shown :: "Preview list"
  ms_deleting :: "string list"
  ms_objects :: nat

type_synonym mbox = "cache_db \<times> MailboxSync"

definition newMailbox :: "WorkingKeys \<Rightarrow> nat \<Rightarrow> MailboxSync" where
  "newMailbox keys n =
     \<lparr>ms_keys = keys, ms_cache = [], ms_lastPreviewSig = [], ms_retired = [], ms_ring = None, ms_rows = None, ms_restored = False,
      ms_listed = False, ms_position = None, ms_writer = False, ms_shown = [], ms_deleting = [], ms_objects = n\<rparr>"

text \<open>A string field that is absent or empty is falsy.\<close>

definition given :: "string option \<Rightarrow> bool" where
  "given s = (case s of None \<Rightarrow> False | Some x \<Rightarrow> x \<noteq> [])"

definition hexOrEmpty :: "bytes option \<Rightarrow> string" where
  "hexOrEmpty b = (case b of None \<Rightarrow> [] | Some x \<Rightarrow> toHex x)"

definition replyIdHex :: "bytes option \<Rightarrow> string" where
  "replyIdHex b = (case b of None \<Rightarrow> [] | Some x \<Rightarrow> if \<exists>y\<in>set x. y \<noteq> 0 then toHex x else [])"

definition previewOf :: "string \<Rightarrow> MessageHeaderFields \<Rightarrow> string option \<Rightarrow> Preview" where
  "previewOf hash h deliveredTo =
     \<lparr>pv_hash = hash, pv_messageId = hexOrEmpty (Some (mh_messageId h)), pv_threadId = hexOrEmpty (Some (mh_threadId h)),
      pv_senderAddress = mh_senderAddress h, pv_senderPublicKey = hexOrEmpty (Some (mh_senderPublicKey h)),
      pv_recipientAddress = mh_recipientAddress h,
      pv_to = (case mh_to h of None \<Rightarrow> [] | Some l \<Rightarrow> l), pv_cc = (case mh_cc h of None \<Rightarrow> [] | Some l \<Rightarrow> l),
      pv_bcc = (case mh_bcc h of None \<Rightarrow> [] | Some l \<Rightarrow> l), pv_subject = mh_subject h, pv_snippet = mh_snippet h,
      pv_senderDisplay = (case mh_senderDisplay h of None \<Rightarrow> [] | Some d \<Rightarrow> d), pv_sentAt = mh_sentAt h, pv_bodySize = mh_bodySize h,
      pv_attachmentCount = mh_attachmentCount h, pv_deliveredTo = deliveredTo\<rparr>"

definition sameRow :: "mailbox_env \<Rightarrow> Preview \<Rightarrow> Preview \<Rightarrow> bool" where
  "sameRow env a b = (previewText env a = previewText env b)"

subsection \<open>Keys a mailbox may hold copies sealed to\<close>

definition retiredRing :: "WorkingKeys \<Rightarrow> RetiredKeys \<Rightarrow> keyring \<Rightarrow> keyring" where
  "retiredRing keys r ring =
     (let hex = toHex (rk_x25519Public r); d = asDecryptOnly (wk_address keys) r in
      if map_of ring hex \<noteq> None then ring
      else AList.update hex
        \<lparr>rg_keys = keys\<lparr>wk_address := do_address d, wk_x25519Public := do_x25519Public d, wk_x25519Derive := do_x25519Derive d,
                        wk_aliasRoot := do_aliasRoot d\<rparr>, rg_address = None\<rparr> ring)"

definition identityRing :: "AccountIdentity \<Rightarrow> keyring \<times> retirements \<Rightarrow> keyring \<times> retirements" where
  "identityRing i acc =
     (case acc of (ring, retired) \<Rightarrow>
        (let hex = toHex (wk_x25519Public (ai_keys i)) in
         (if map_of ring hex \<noteq> None then ring else AList.update hex \<lparr>rg_keys = ai_keys i, rg_address = Some (ai_address i)\<rparr> ring,
          case ai_retiredAt i of None \<Rightarrow> retired | Some t \<Rightarrow> if t = 0 then retired else AList.update (toLowerCase (ai_address i)) t retired)))"

definition keyringFor :: "WorkingKeys \<Rightarrow> RetiredKeys list \<Rightarrow> AccountIdentity list option option \<Rightarrow> keyring \<times> retirements" where
  "keyringFor keys generations identities =
     (let ring = fold (retiredRing keys) generations [(toHex (wk_x25519Public keys), \<lparr>rg_keys = keys, rg_address = None\<rparr>)] in
      case identities of
        None \<Rightarrow> (ring, [])
      | Some answer \<Rightarrow> fold identityRing (case answer of None \<Rightarrow> [] | Some l \<Rightarrow> l) (ring, []))"

definition arrivedAfterRetirement :: "string option \<Rightarrow> nat \<Rightarrow> retirements \<Rightarrow> bool" where
  "arrivedAfterRetirement address sentAt retired =
     (if retired = [] \<or> \<not> given address then False
      else (case map_of retired (toLowerCase (case address of None \<Rightarrow> [] | Some a \<Rightarrow> a)) of None \<Rightarrow> False | Some at \<Rightarrow> sentAt > at))"

fun sealedTo :: "RecipientRecord list \<Rightarrow> keyring \<Rightarrow> RingKey option" where
  "sealedTo [] ring = None"
| "sealedTo (r # rs) ring = (case map_of ring (toHex (recipientXPub r)) of Some hit \<Rightarrow> Some hit | None \<Rightarrow> sealedTo rs ring)"

definition sealedToOurs :: "MailboxEntryLike \<Rightarrow> keyring \<Rightarrow> RingKey option" where
  "sealedToOurs entry ring = sealedTo (me_recipients entry) ring"

definition openEntry :: "mailbox_env \<Rightarrow> keyring option \<Rightarrow> string \<Rightarrow> mailbox_error + OpenedEntry" where
  "openEntry env ring raw =
     (case ring of
        None \<Rightarrow> Inl NotListedYet
      | Some rg \<Rightarrow>
          (case Option.bind (fromBase64 raw) (decodeMailboxEntry env) of
             None \<Rightarrow> Inl BadEntryText
           | Some entry \<Rightarrow>
               (case sealedToOurs entry rg of
                  None \<Rightarrow> Inl SealedToNone
                | Some ours \<Rightarrow>
                    (case decryptHeader (mv_split env) entry (wk_x25519Derive (rg_keys ours)) (wk_x25519Public (rg_keys ours)) of
                       Inl e \<Rightarrow> Inl (NotOpened e)
                     | Inr header \<Rightarrow>
                         Inr \<lparr>oe_entry = entry, oe_header = header, oe_keys = rg_keys ours, oe_address = rg_address ours\<rparr>))))"

subsection \<open>Drawing the rows\<close>

definition hiddenRow :: "retirements \<Rightarrow> Preview \<Rightarrow> bool" where
  "hiddenRow retired p =
     arrivedAfterRetirement (case pv_deliveredTo p of None \<Rightarrow> Some (pv_recipientAddress p) | Some d \<Rightarrow> Some d) (pv_sentAt p) retired"

definition previews :: "MailboxSync \<Rightarrow> MailboxSync \<times> Preview list" where
  "previews m =
     (let hidden = (\<lambda>(hash, c). hiddenRow (ms_retired m) (snd (ce_preview c)));
          shown = filter (\<lambda>e. \<not> hidden e) (ms_cache m) in
      (m\<lparr>ms_cache := shown, ms_deleting := ms_deleting m @ map fst (filter hidden (ms_cache m))\<rparr>,
       sort_key (\<lambda>p. - int (pv_sentAt p)) (map (\<lambda>(hash, c). snd (ce_preview c)) shown)))"

definition emit :: "bool \<Rightarrow> MailboxSync \<Rightarrow> MailboxSync \<times> Preview list" where
  "emit force m =
     (case previews m of (m', ps) \<Rightarrow>
        (let sig = joinWith ''|'' (map pv_hash ps) in
         (if force \<or> sig \<noteq> ms_lastPreviewSig m' then m'\<lparr>ms_lastPreviewSig := sig, ms_shown := ps\<rparr> else m', ps)))"

subsection \<open>The rows kept on the device\<close>

definition snapshot :: "MailboxSync \<Rightarrow> (string, CachedRow) jsmap" where
  "snapshot m = map (\<lambda>(hash, c). (hash, \<lparr>cr_preview = ce_preview c, cr_version = None, cr_raw = ce_raw c\<rparr>)) (ms_cache m)"

definition keptRow :: "string \<times> CachedRow \<Rightarrow> (string, CachedEntry) jsmap \<Rightarrow> (string, CachedEntry) jsmap" where
  "keptRow e cache =
     (case e of (hash, row) \<Rightarrow>
        if map_of cache hash \<noteq> None then cache
        else AList.update hash \<lparr>ce_preview = cr_preview row, ce_raw = None, ce_opened = None\<rparr> cache)"

definition restore :: "mailbox_env \<Rightarrow> mailbox_io \<Rightarrow> mbox \<Rightarrow> mbox" where
  "restore env io s =
     (case s of (db, m) \<Rightarrow>
        if ms_restored m then s
        else
          (let m0 = m\<lparr>ms_restored := True\<rparr>; keys = ms_keys m in
           case pcOpen (map_option (mv_deriveBits env) (wk_aliasRoot keys)) (wk_address keys) Inbox of
             None \<Rightarrow> (db, m0\<lparr>ms_rows := None\<rparr>)
           | Some pc \<Rightarrow>
               if \<not> io_loads io then (db, m0\<lparr>ms_rows := None\<rparr>)
               else
                 (case pcLoad (mv_preview env) (io_iv io) (ms_objects m) (db, pc) of
                    ((db', pc'), n, rows, position) \<Rightarrow>
                      (let m1 = m0\<lparr>ms_rows := Some pc', ms_objects := n, ms_cache := fold keptRow rows (ms_cache m),
                                   ms_position := (case ms_position m of None \<Rightarrow> position | Some p \<Rightarrow> Some p)\<rparr> in
                       (db', if ms_cache m1 \<noteq> [] then fst (emit False m1) else m1)))))"

text \<open>\<open>this.rows.save(this.snapshot(), this.position)\<close> for a writer that has rows; whether it was written.\<close>

definition saveRows :: "mailbox_env \<Rightarrow> mailbox_io \<Rightarrow> mbox \<Rightarrow> mbox \<times> bool" where
  "saveRows env io s =
     (case s of (db, m) \<Rightarrow>
        (case ms_rows m of
           Some pc \<Rightarrow>
             if ms_writer m then
               (case pcWrite (mv_preview env) (io_ivf io) (io_writes io) (snapshot m) (Some (ms_position m)) (db, pc) of
                  ((db', pc'), ok) \<Rightarrow> ((db', m\<lparr>ms_rows := Some pc'\<rparr>), ok))
             else (s, True)
         | None \<Rightarrow> (s, True)))"

definition persist :: "mailbox_env \<Rightarrow> mailbox_io \<Rightarrow> mbox \<Rightarrow> mbox" where
  "persist env io s = fst (saveRows env io s)"

definition ensureRing :: "mailbox_io \<Rightarrow> MailboxSync \<Rightarrow> MailboxSync" where
  "ensureRing io m =
     (if ms_ring m \<noteq> None then m
      else (case keyringFor (ms_keys m) (io_retiredKeys io) (io_identities io) of
              (ring, retired) \<Rightarrow> m\<lparr>ms_ring := Some ring, ms_retired := retired\<rparr>))"

definition feedPosition :: "mailbox_env \<Rightarrow> mailbox_io \<Rightarrow> mbox \<Rightarrow> mbox \<times> FeedPosition option" where
  "feedPosition env io s = (let s' = restore env io s in (s', ms_position (snd s')))"

definition setFeedPosition :: "mailbox_env \<Rightarrow> mailbox_io \<Rightarrow> FeedPosition \<Rightarrow> mbox \<Rightarrow> mbox \<times> mailbox_error option" where
  "setFeedPosition env io p s =
     (case restore env io s of (db, m) \<Rightarrow>
        (case saveRows env io (db, m\<lparr>ms_position := Some p\<rparr>) of (s', ok) \<Rightarrow> (s', if ok then None else Some StoreFailed)))"

definition becomeWriter :: "mailbox_env \<Rightarrow> mailbox_io \<Rightarrow> mbox \<Rightarrow> mbox \<times> mailbox_error option" where
  "becomeWriter env io s =
     (case restore env io s of (db, m) \<Rightarrow>
        (case ms_rows m of
           None \<Rightarrow> ((db, m\<lparr>ms_writer := True\<rparr>), None)
         | Some pc \<Rightarrow>
             (case saveRows env io (db, m\<lparr>ms_writer := True, ms_rows := Some (rewriteAll pc)\<rparr>) of
                (s', ok) \<Rightarrow> (s', if ok then None else Some StoreFailed))))"

definition invalidateRing :: "mbox \<Rightarrow> mbox" where
  "invalidateRing s = (fst s, (snd s)\<lparr>ms_ring := None\<rparr>)"

subsection \<open>Change events\<close>

definition addOpened :: "string \<Rightarrow> string \<Rightarrow> OpenedEntry \<Rightarrow> MailboxSync \<Rightarrow> MailboxSync" where
  "addOpened hash raw o' m =
     m\<lparr>ms_cache := AList.update hash
          \<lparr>ce_preview = (ms_objects m, previewOf hash (oe_header o') (oe_address o')), ce_raw = Some raw, ce_opened = Some o'\<rparr> (ms_cache m),
        ms_objects := Suc (ms_objects m)\<rparr>"

definition applyEvent :: "mailbox_env \<Rightarrow> mailbox_io \<Rightarrow> ChangeEvent \<Rightarrow> bool \<times> MailboxSync \<Rightarrow> bool \<times> MailboxSync" where
  "applyEvent env io e acc =
     (case acc of (changed, m) \<Rightarrow>
        (case ev_hash e of
           None \<Rightarrow> acc
         | Some hash \<Rightarrow>
             if hash = [] then acc
             else if ev_kind e = MailDeleted then
               (if map_of (ms_cache m) hash \<noteq> None then (True, m\<lparr>ms_cache := AList.delete hash (ms_cache m)\<rparr>) else acc)
             else if ev_kind e \<noteq> MailStored \<or> \<not> given (ev_entry e) then acc
             else
               (case map_of (ms_cache m) hash of
                  Some had \<Rightarrow>
                    if \<not> given (ce_raw had) then (True, m\<lparr>ms_cache := AList.update hash (had\<lparr>ce_raw := ev_entry e\<rparr>) (ms_cache m)\<rparr>) else acc
                | None \<Rightarrow>
                    (let m' = ensureRing io m; raw = (case ev_entry e of None \<Rightarrow> [] | Some r \<Rightarrow> r) in
                     case openEntry env (ms_ring m') raw of
                       Inl _ \<Rightarrow> (changed, m')
                     | Inr o' \<Rightarrow> (True, addOpened hash raw o' m')))))"

definition applyEvents :: "mailbox_env \<Rightarrow> mailbox_io \<Rightarrow> ChangeEvent list \<Rightarrow> mbox \<Rightarrow> mbox \<times> mailbox_error option" where
  "applyEvents env io events s =
     (case restore env io s of (db, m) \<Rightarrow>
        (case fold (applyEvent env io) events (False, m) of (changed, m1) \<Rightarrow>
           if \<not> changed then ((db, m1), None)
           else (case saveRows env io (db, fst (emit False m1)) of (s', ok) \<Rightarrow> (s', if ok then None else Some StoreFailed))))"

subsection \<open>Listing\<close>

record ListResp =
  lr_entries :: "(string \<times> string) list"
  lr_nextCursor :: "string option"

text \<open>
  A listing in the steps its awaits divide it into: before the first page, one page, after the last. \<open>seen\<close> and
  \<open>firstPage\<close> are its local variables.
\<close>

definition listBegin :: "mailbox_env \<Rightarrow> mailbox_io \<Rightarrow> mbox \<Rightarrow> mbox" where
  "listBegin env io s =
     (case restore env io s of (db, m) \<Rightarrow>
        (case keyringFor (ms_keys m) (io_retiredKeys io) (io_identities io) of
           (ring, retired) \<Rightarrow> (db, m\<lparr>ms_ring := Some ring, ms_retired := retired\<rparr>)))"

definition listEntry :: "mailbox_env \<Rightarrow> string \<times> string \<Rightarrow> MailboxSync \<Rightarrow> MailboxSync" where
  "listEntry env e m =
     (case e of (hash, raw) \<Rightarrow>
        (case map_of (ms_cache m) hash of
           Some had \<Rightarrow> m\<lparr>ms_cache := AList.update hash (had\<lparr>ce_raw := Some raw\<rparr>) (ms_cache m)\<rparr>
         | None \<Rightarrow> (case openEntry env (ms_ring m) raw of Inl _ \<Rightarrow> m | Inr o' \<Rightarrow> addOpened hash raw o' m)))"

definition cursorOf :: "ListResp \<Rightarrow> string" where
  "cursorOf res = (case lr_nextCursor res of None \<Rightarrow> [] | Some c \<Rightarrow> c)"

definition listPage :: "mailbox_env \<Rightarrow> ListResp \<Rightarrow> string list \<times> bool \<Rightarrow> MailboxSync \<Rightarrow> MailboxSync \<times> string list" where
  "listPage env res vars m =
     (case vars of (seen, firstPage) \<Rightarrow>
        (let m1 = fold (listEntry env) (lr_entries res) m in
         (if firstPage \<and> cursorOf res \<noteq> [] then fst (emit False m1) else m1, fold setAdd (map fst (lr_entries res)) seen)))"

fun listingPages :: "mailbox_env \<Rightarrow> ListResp option list \<Rightarrow> string list \<times> bool \<Rightarrow> MailboxSync \<Rightarrow> MailboxSync \<times> string list option" where
  "listingPages env [] vars m = (m, None)"
| "listingPages env (None # _) vars m = (m, None)"
| "listingPages env (Some res # answers) vars m =
     (case listPage env res vars m of (m', seen) \<Rightarrow>
        if cursorOf res = [] then (m', Some seen) else listingPages env answers (seen, False) m')"

definition listEnd :: "mailbox_env \<Rightarrow> mailbox_io \<Rightarrow> string list \<Rightarrow> mbox \<Rightarrow> mbox \<times> Preview list" where
  "listEnd env io seen s =
     (case s of (db, m) \<Rightarrow>
        (case emit False (m\<lparr>ms_cache := filter (\<lambda>(hash, _). hash \<in> set seen) (ms_cache m), ms_listed := True\<rparr>) of
           (m', ps) \<Rightarrow> (persist env io (db, m'), ps)))"

definition listAll :: "mailbox_env \<Rightarrow> mailbox_io \<Rightarrow> ListResp option list \<Rightarrow> mbox \<Rightarrow> mbox \<times> (mailbox_error + Preview list)" where
  "listAll env io answers s =
     (case listBegin env io s of (db, m) \<Rightarrow>
        (case listingPages env answers ([], True) m of
           (m', None) \<Rightarrow> ((db, m'), Inl RelayFailed)
         | (m', Some seen) \<Rightarrow> (case listEnd env io seen (db, m') of (s', ps) \<Rightarrow> (s', Inr ps))))"

subsection \<open>Opening and deleting\<close>

text \<open>The entry kept beside a row, read when the row has none yet.\<close>

definition keptEntry :: "mailbox_env \<Rightarrow> mailbox_io \<Rightarrow> string \<Rightarrow> mbox \<Rightarrow> mbox \<times> bool" where
  "keptEntry env io hash s =
     (case s of (db, m) \<Rightarrow>
        (case (map_of (ms_cache m) hash, ms_rows m) of
           (Some cached, Some pc) \<Rightarrow>
             if given (ce_raw cached) then (s, True)
             else if \<not> io_reads io then (s, False)
             else
               (let raw = pcEntry (mv_preview env) (db, pc) hash;
                    m' = m\<lparr>ms_cache := AList.update hash (cached\<lparr>ce_raw := raw\<rparr>) (ms_cache m)\<rparr> in
                ((db, if given raw then ensureRing io m' else m'), True))
         | _ \<Rightarrow> (s, True)))"

definition rawOf :: "MailboxSync \<Rightarrow> string \<Rightarrow> string option" where
  "rawOf m hash = Option.bind (map_of (ms_cache m) hash) ce_raw"

definition listIfNeeded :: "mailbox_env \<Rightarrow> mailbox_io \<Rightarrow> ListResp option list \<Rightarrow> string \<Rightarrow> mbox \<Rightarrow> mbox \<times> mailbox_error option" where
  "listIfNeeded env io answers hash s =
     (if \<not> given (rawOf (snd s) hash) \<and> \<not> ms_listed (snd s)
      then (case listAll env io answers s of (s', Inl e) \<Rightarrow> (s', Some e) | (s', Inr _) \<Rightarrow> (s', None))
      else (s, None))"

text \<open>A row that was not opened this session is opened and corrected to what its verified header says.\<close>

definition openCached :: "mailbox_env \<Rightarrow> mailbox_io \<Rightarrow> string \<Rightarrow> CachedEntry \<Rightarrow> mbox \<Rightarrow> mbox \<times> (mailbox_error + OpenedEntry)" where
  "openCached env io hash cached s =
     (case s of (db, m) \<Rightarrow>
        (case ce_opened cached of
           Some o' \<Rightarrow> (s, Inr o')
         | None \<Rightarrow>
             (case openEntry env (ms_ring m) (case ce_raw cached of None \<Rightarrow> [] | Some r \<Rightarrow> r) of
                Inl e \<Rightarrow> (s, Inl e)
              | Inr o' \<Rightarrow>
                  (let verified = previewOf hash (oe_header o') (oe_address o') in
                   if sameRow env verified (snd (ce_preview cached))
                   then ((db, m\<lparr>ms_cache := AList.update hash (cached\<lparr>ce_opened := Some o'\<rparr>) (ms_cache m)\<rparr>), Inr o')
                   else
                     (persist env io
                        (db, fst (emit True (m\<lparr>ms_cache := AList.update hash (cached\<lparr>ce_preview := (ms_objects m, verified), ce_opened := Some o'\<rparr>) (ms_cache m),
                                               ms_objects := Suc (ms_objects m)\<rparr>))), Inr o')))))"

text \<open>
  The row a body is returned with is the cached object's, which the call still holds when drawing the list has
  dropped it.
\<close>

definition rowAfter :: "mailbox_env \<Rightarrow> string \<Rightarrow> CachedEntry \<Rightarrow> OpenedEntry \<Rightarrow> Preview" where
  "rowAfter env hash cached o' =
     (let verified = previewOf hash (oe_header o') (oe_address o') in
      if ce_opened cached \<noteq> None \<or> sameRow env verified (snd (ce_preview cached)) then snd (ce_preview cached) else verified)"

definition openBody :: "mailbox_env \<Rightarrow> OpenedEntry \<Rightarrow> Preview \<Rightarrow> string option \<Rightarrow> mailbox_error + FullBody" where
  "openBody env o' row answer =
     (case answer of
        None \<Rightarrow> Inl RelayFailed
      | Some body \<Rightarrow>
          (case Option.bind (fromBase64 body) (decodeMailboxBody env) of
             None \<Rightarrow> Inl BadEntryText
           | Some b \<Rightarrow>
               (case decryptBody (mv_split env) (oe_entry o') b (oe_header o') (wk_x25519Derive (oe_keys o')) (wk_x25519Public (oe_keys o')) of
                  Inl e \<Rightarrow> Inl (NotOpened e)
                | Inr c \<Rightarrow>
                    Inr \<lparr>fb_bodyText = db_bodyText c, fb_htmlBody = db_htmlBody c, fb_attachments = db_attachments c,
                         fb_replyToId = replyIdHex (mh_replyToId (oe_header o')), fb_row = row\<rparr>)))"

definition fetchFull ::
    "mailbox_env \<Rightarrow> mailbox_io \<Rightarrow> ListResp option list \<Rightarrow> string option \<Rightarrow> string \<Rightarrow> mbox \<Rightarrow> mbox \<times> (mailbox_error + FullBody)" where
  "fetchFull env io answers body hash s =
     (case keptEntry env io hash (restore env io s) of
        (s1, False) \<Rightarrow> (s1, Inl StoreFailed)
      | (s1, True) \<Rightarrow>
          (case listIfNeeded env io answers hash s1 of
             (s2, Some e) \<Rightarrow> (s2, Inl e)
           | (s2, None) \<Rightarrow>
               (case map_of (ms_cache (snd s2)) hash of
                  None \<Rightarrow> (s2, Inl NoCachedHeader)
                | Some cached \<Rightarrow>
                    if \<not> given (ce_raw cached) then (s2, Inl NoCachedHeader)
                    else
                      (case openCached env io hash cached s2 of
                         (s3, Inl e) \<Rightarrow> (s3, Inl e)
                       | (s3, Inr o') \<Rightarrow> (s3, openBody env o' (rowAfter env hash cached o') body)))))"

definition fetchBody ::
    "mailbox_env \<Rightarrow> mailbox_io \<Rightarrow> ListResp option list \<Rightarrow> string option \<Rightarrow> string \<Rightarrow> mbox \<Rightarrow> mbox \<times> (mailbox_error + string)" where
  "fetchBody env io answers body hash s =
     (case fetchFull env io answers body hash s of (s', Inl e) \<Rightarrow> (s', Inl e) | (s', Inr f) \<Rightarrow> (s', Inr (fb_bodyText f)))"

text \<open>The relay answers a deletion or the call fails; a deletion that \<open>previews\<close> started leaves the queue.\<close>

definition deleteMessage :: "mailbox_env \<Rightarrow> mailbox_io \<Rightarrow> bool \<Rightarrow> string \<Rightarrow> mbox \<Rightarrow> mbox \<times> mailbox_error option" where
  "deleteMessage env io answered hash s =
     (case s of (db, m) \<Rightarrow>
        if \<not> answered then (s, Some RelayFailed)
        else (persist env io (db, fst (emit False (m\<lparr>ms_cache := AList.delete hash (ms_cache m)\<rparr>))), None))"

end
