(* ===== verification/Feed.thy ===== *)
theory Feed
  imports Mailbox
begin

section \<open>Following the relay's change log\<close>

text \<open>
  \<open>lib/sync/feedSync.ts\<close> and the pages of \<open>lib/sync/changes.ts\<close>: one pass asks the relay what changed since the
  position the rows are at, applies it and only then moves the position. The relay is a log of events of
  which it serves pages; the target of a pass is a locale, interpreted on the mailbox client below.
\<close>

subsection \<open>A pass\<close>

record ChangePage =
  cp_epoch :: string
  cp_events :: "ChangeEvent list"
  cp_head :: nat
  cp_resync :: bool
  cp_more :: bool

datatype since_answer = FeedUnavailable | FeedFailed | FeedPage ChangePage

record ChangeBatch =
  cb_events :: "ChangeEvent list"
  cb_resync :: bool

datatype feed_error = ChangeFeedUnavailable | SinceFailed | TargetFailed mailbox_error

text \<open>The part of the mailbox client a pass drives; the number is the page during which a call is made.\<close>

record 's FeedTarget =
  ft_list :: "nat \<Rightarrow> 's \<Rightarrow> 's \<times> mailbox_error option"
  ft_applyEvents :: "nat \<Rightarrow> ChangeEvent list \<Rightarrow> 's \<Rightarrow> 's \<times> mailbox_error option"
  ft_feedPosition :: "'s \<Rightarrow> 's \<times> FeedPosition option"
  ft_setFeedPosition :: "nat \<Rightarrow> FeedPosition \<Rightarrow> 's \<Rightarrow> 's \<times> mailbox_error option"
  ft_invalidateRing :: "'s \<Rightarrow> 's"

definition MAX_PAGES :: nat where
  "MAX_PAGES = 50"

definition aliasKey :: string where
  "aliasKey = ''aliases/isolated''"

text \<open>One turn of the loop of \<open>feedPass\<close>: it returns, or it goes on from a position.\<close>

datatype page_end = Returned "feed_error option" | GoOn FeedPosition

definition resyncPage :: "nat \<Rightarrow> ChangePage \<Rightarrow> 's FeedTarget \<Rightarrow> ChangeBatch list \<Rightarrow> 's \<Rightarrow> 's \<times> ChangeBatch list \<times> page_end" where
  "resyncPage page res target pub s =
     (case ft_list target page s of
        (s1, Some e) \<Rightarrow> (s1, pub, Returned (Some (TargetFailed e)))
      | (s1, None) \<Rightarrow>
          (case ft_setFeedPosition target page \<lparr>fp_epoch = cp_epoch res, fp_seq = cp_head res\<rparr> s1 of
             (s2, Some e) \<Rightarrow> (s2, pub, Returned (Some (TargetFailed e)))
           | (s2, None) \<Rightarrow> (s2, pub @ [\<lparr>cb_events = [], cb_resync = True\<rparr>], Returned None)))"

definition eventsPage :: "nat \<Rightarrow> ChangePage \<Rightarrow> 's FeedTarget \<Rightarrow> ChangeBatch list \<Rightarrow> 's \<Rightarrow> 's \<times> ChangeBatch list \<times> page_end" where
  "eventsPage page res target pub s =
     (let s0 = (if \<exists>e\<in>set (cp_events res). ev_key e = Some aliasKey then ft_invalidateRing target s else s) in
      case ft_applyEvents target page (cp_events res) s0 of
        (s1, Some e) \<Rightarrow> (s1, pub, Returned (Some (TargetFailed e)))
      | (s1, None) \<Rightarrow>
          (let pos = \<lparr>fp_epoch = cp_epoch res, fp_seq = ev_seq (last (cp_events res))\<rparr> in
           case ft_setFeedPosition target page pos s1 of
             (s2, Some e) \<Rightarrow> (s2, pub, Returned (Some (TargetFailed e)))
           | (s2, None) \<Rightarrow>
               (s2, pub @ [\<lparr>cb_events = cp_events res, cb_resync = False\<rparr>], if \<not> cp_more res then Returned None else GoOn pos)))"

definition feedPage ::
    "nat \<Rightarrow> since_answer \<Rightarrow> 's FeedTarget \<Rightarrow> ChangeBatch list \<Rightarrow> 's \<Rightarrow> 's \<times> ChangeBatch list \<times> page_end" where
  "feedPage page answer target pub s =
     (case answer of
        FeedUnavailable \<Rightarrow> (s, pub, Returned (Some ChangeFeedUnavailable))
      | FeedFailed \<Rightarrow> (s, pub, Returned (Some SinceFailed))
      | FeedPage res \<Rightarrow>
          if cp_resync res then resyncPage page res target pub s
          else if cp_events res = [] then (s, pub, Returned None)
          else eventsPage page res target pub s)"

text \<open>The loop with the pages it may still read, the number of the next, and what was published so far.\<close>

fun feedPages ::
    "nat \<Rightarrow> nat \<Rightarrow> (nat \<Rightarrow> string \<Rightarrow> nat \<Rightarrow> since_answer) \<Rightarrow> 's FeedTarget \<Rightarrow> FeedPosition \<Rightarrow> ChangeBatch list \<Rightarrow> 's
      \<Rightarrow> 's \<times> ChangeBatch list \<times> feed_error option" where
  "feedPages 0 page since target pos pub s = (s, pub, None)"
| "feedPages (Suc k) page since target pos pub s =
     (case feedPage page (since page (fp_epoch pos) (fp_seq pos)) target pub s of
        (s', pub', Returned e) \<Rightarrow> (s', pub', e)
      | (s', pub', GoOn pos') \<Rightarrow> feedPages k (Suc page) since target pos' pub' s')"

definition feedPass ::
    "(nat \<Rightarrow> string \<Rightarrow> nat \<Rightarrow> since_answer) \<Rightarrow> 's FeedTarget \<Rightarrow> 's \<Rightarrow> 's \<times> ChangeBatch list \<times> feed_error option" where
  "feedPass since target s =
     (case ft_feedPosition target s of (s1, kept) \<Rightarrow>
        feedPages MAX_PAGES 0 since target (case kept of None \<Rightarrow> \<lparr>fp_epoch = [], fp_seq = 0\<rparr> | Some p \<Rightarrow> p) [] s1)"

text \<open>Which listeners a published batch concerns (\<open>lib/sync/useSync.ts\<close>).\<close>

definition storeKey :: "string \<Rightarrow> ChangeEvent \<Rightarrow> bool" where
  "storeKey keyOrPrefix e =
     ((ev_kind e = KvPut \<or> ev_kind e = KvDeleted) \<and> given (ev_key e)
      \<and> (let key = (case ev_key e of None \<Rightarrow> [] | Some k \<Rightarrow> k) in
         if keyOrPrefix \<noteq> [] \<and> last keyOrPrefix = CHR ''/'' then startsWith keyOrPrefix key else key = keyOrPrefix))"

definition filterChanged :: "ChangeEvent \<Rightarrow> bool" where
  "filterChanged e = (ev_kind e = FilterChanged)"

definition concerns :: "(ChangeEvent \<Rightarrow> bool) \<Rightarrow> ChangeBatch \<Rightarrow> bool" where
  "concerns match b = (cb_resync b \<or> (\<exists>e\<in>set (cb_events b). match e))"

subsection \<open>The relay's log\<close>

definition mailOf :: "ChangeEvent \<Rightarrow> string option" where
  "mailOf e = (if (ev_kind e = MailStored \<or> ev_kind e = MailDeleted) \<and> given (ev_hash e) then ev_hash e else None)"

definition logStep :: "ChangeEvent \<Rightarrow> string set \<Rightarrow> string set" where
  "logStep e mail = (case mailOf e of None \<Rightarrow> mail | Some h \<Rightarrow> if ev_kind e = MailStored then insert h mail else mail - {h})"

definition mailbox :: "ChangeEvent list \<Rightarrow> string set" where
  "mailbox log = fold logStep log {}"

definition touched :: "ChangeEvent list \<Rightarrow> string set" where
  "touched es = {h. \<exists>e\<in>set es. mailOf e = Some h}"

definition later :: "ChangeEvent list \<Rightarrow> nat \<Rightarrow> ChangeEvent list" where
  "later log n = filter (\<lambda>e. n < ev_seq e) log"

definition headOf :: "ChangeEvent list \<Rightarrow> nat" where
  "headOf log = (if log = [] then 0 else ev_seq (last log))"

definition log_ok :: "ChangeEvent list \<Rightarrow> bool" where
  "log_ok log \<longleftrightarrow> sorted_wrt (<) (map ev_seq log) \<and> (\<forall>e\<in>set log. 0 < ev_seq e)"

text \<open>An event as served: with the list entry of a stored message that is still in the mailbox.\<close>

definition serve :: "(string \<Rightarrow> string) \<Rightarrow> string set \<Rightarrow> ChangeEvent \<Rightarrow> ChangeEvent" where
  "serve rawFor mail e =
     e\<lparr>ev_entry := (if ev_kind e = MailStored then (case mailOf e of Some h \<Rightarrow> if h \<in> mail then Some (rawFor h) else None | None \<Rightarrow> None) else None)\<rparr>"

text \<open>The answers of a relay that keeps its log: a page of what follows the position, or the head when it does not have the position.\<close>

definition page_ok :: "(string \<Rightarrow> string) \<Rightarrow> string \<Rightarrow> ChangeEvent list \<Rightarrow> string \<Rightarrow> nat \<Rightarrow> ChangePage \<Rightarrow> bool" where
  "page_ok rawFor epoch log e n res \<longleftrightarrow> cp_epoch res = epoch \<and>
     (if cp_resync res then cp_head res = headOf log
      else e = epoch \<and> (\<exists>k. cp_events res = map (serve rawFor (mailbox log)) (take k (later log n))
             \<and> (cp_events res = [] \<longrightarrow> later log n = []) \<and> (\<not> cp_more res \<longrightarrow> length (later log n) \<le> k)))"

text \<open>What applying events does to the set of rows, and rows that are at a position of the log.\<close>

definition replayEvent :: "string set \<Rightarrow> ChangeEvent \<Rightarrow> string set \<Rightarrow> string set" where
  "replayEvent vis e rows =
     (case mailOf e of
        None \<Rightarrow> rows
      | Some h \<Rightarrow> if ev_kind e = MailDeleted then rows - {h} else if given (ev_entry e) \<and> h \<in> vis then insert h rows else rows)"

definition replay :: "string set \<Rightarrow> ChangeEvent list \<Rightarrow> string set \<Rightarrow> string set" where
  "replay vis es rows = fold (replayEvent vis) es rows"

definition in_step :: "string set \<Rightarrow> string \<Rightarrow> ChangeEvent list \<Rightarrow> FeedPosition option \<Rightarrow> string set \<Rightarrow> bool" where
  "in_step vis epoch log p rows \<longleftrightarrow> rows \<subseteq> vis \<and>
     (case p of None \<Rightarrow> True
      | Some q \<Rightarrow> fp_epoch q = epoch \<longrightarrow> fp_seq q \<le> headOf log
          \<and> (\<forall>h. h \<notin> touched (later log (fp_seq q)) \<longrightarrow> (h \<in> rows \<longleftrightarrow> h \<in> mailbox log \<and> h \<in> vis)))"

subsection \<open>Replaying\<close>

lemma touched_append [simp]: "touched (a @ b) = touched a \<union> touched b"
  by (auto simp: touched_def)

lemma touched_Nil [simp]: "touched [] = {}"
  by (simp add: touched_def)

lemma logStep_other: "mailOf e \<noteq> Some h \<Longrightarrow> h \<in> logStep e mail \<longleftrightarrow> h \<in> mail"
  by (auto simp: logStep_def split: option.splits)

lemma fold_logStep_untouched: "h \<notin> touched es \<Longrightarrow> h \<in> fold logStep es mail \<longleftrightarrow> h \<in> mail"
  by (induction es arbitrary: mail) (auto simp: touched_def logStep_def split: option.splits)

lemma mailbox_append: "mailbox (log @ es) = fold logStep es (mailbox log)"
  by (simp add: mailbox_def)

lemma mailOf_serve [simp]: "mailOf (serve rawFor mail e) = mailOf e" "ev_kind (serve rawFor mail e) = ev_kind e" "ev_seq (serve rawFor mail e) = ev_seq e"
  by (simp_all add: serve_def mailOf_def)

lemma replayEvent_sub: "rows \<subseteq> vis \<Longrightarrow> replayEvent vis e rows \<subseteq> vis"
  by (auto simp: replayEvent_def split: option.splits)

lemma replay_sub: "rows \<subseteq> vis \<Longrightarrow> replay vis es rows \<subseteq> vis"
  unfolding replay_def by (induction es arbitrary: rows) (simp_all add: replayEvent_sub)

lemma replay_untouched: "h \<notin> touched es \<Longrightarrow> h \<in> replay vis es rows \<longleftrightarrow> h \<in> rows"
  unfolding replay_def by (induction es arbitrary: rows) (auto simp: touched_def replayEvent_def split: option.splits if_splits)

lemma replay_snoc: "replay vis (es @ [e]) rows = replayEvent vis e (replay vis es rows)"
  by (simp add: replay_def)

text \<open>Where the last event of a message was served, the rows agree with the mailbox about it.\<close>

lemma replay_touched:
  assumes "rows \<subseteq> vis" "\<forall>h. rawFor h \<noteq> []" "h \<in> touched es" "h \<in> fold logStep es mail0 \<longleftrightarrow> h \<in> mail"
  shows "h \<in> replay vis (map (serve rawFor mail) es) rows \<longleftrightarrow> h \<in> mail \<and> h \<in> vis"
  using assms(3,4)
proof (induction es rule: rev_induct)
  case (snoc e es)
  show ?case
  proof (cases "mailOf e = Some h")
    case True
    then have k: "ev_kind e = MailStored \<or> ev_kind e = MailDeleted" by (auto simp: mailOf_def split: if_splits)
    have sub: "replay vis (map (serve rawFor mail) es) rows \<subseteq> vis" by (rule replay_sub [OF assms(1)])
    from k show ?thesis
    proof
      assume st: "ev_kind e = MailStored"
      then have "h \<in> mail" using snoc.prems(2) True by (simp add: logStep_def)
      moreover then have "ev_entry (serve rawFor mail e) = Some (rawFor h)" using st True by (simp add: serve_def)
      ultimately show ?thesis using st True sub assms(2) by (auto simp: replay_snoc replayEvent_def given_def)
    next
      assume de: "ev_kind e = MailDeleted"
      then have "h \<notin> mail" using snoc.prems(2) True by (simp add: logStep_def)
      then show ?thesis using de True by (simp add: replay_snoc replayEvent_def)
    qed
  next
    case False
    then have "h \<in> touched es" using snoc.prems(1) by (simp add: touched_def)
    moreover have "h \<in> fold logStep es mail0 \<longleftrightarrow> h \<in> mail" using snoc.prems(2) False by (simp add: logStep_other)
    moreover have "h \<in> replay vis (map (serve rawFor mail) (es @ [e])) rows \<longleftrightarrow> h \<in> replay vis (map (serve rawFor mail) es) rows"
      using False by (auto simp: replay_snoc replayEvent_def split: option.splits)
    ultimately show ?thesis using snoc.IH by blast
  qed
qed simp

lemma log_split:
  assumes "log_ok log"
  shows "log = filter (\<lambda>e. ev_seq e \<le> n) log @ later log n"
proof -
  have "sorted_wrt (<) (map ev_seq log)" using assms by (simp add: log_ok_def)
  then show ?thesis
  proof (induction log)
    case (Cons e log)
    show ?case
    proof (cases "ev_seq e \<le> n")
      case False
      then have "filter (\<lambda>e. ev_seq e \<le> n) log = []" "later log n = log"
        using Cons.prems by (fastforce simp: filter_empty_conv later_def intro: filter_True)+
      then show ?thesis using False by (simp add: later_def)
    qed (use Cons in \<open>simp add: later_def\<close>)
  qed (simp add: later_def)
qed

lemma later_later: "n \<le> m \<Longrightarrow> later (later log n) m = later log m"
  unfolding later_def by (auto intro!: filter_cong)

lemma later_rest:
  assumes "log_ok log" "later log n = es @ rest" "es \<noteq> []"
  shows "later log (ev_seq (last es)) = rest" "n < ev_seq (last es)" "ev_seq (last es) \<le> headOf log"
proof -
  have so: "sorted_wrt (<) (map ev_seq (es @ rest))"
    using assms(1,2) unfolding log_ok_def later_def by (metis (no_types, lifting) sorted_wrt_filter sorted_wrt_map)
  have inl: "last es \<in> set (later log n)" using assms(2,3) by simp
  have n: "n < ev_seq (last es)" using inl by (simp add: later_def)
  have le: "ev_seq e \<le> ev_seq (last es)" if "e \<in> set es" for e
    using so that assms(3) by (cases es rule: rev_cases) (auto simp: sorted_wrt_append)
  have gt: "ev_seq (last es) < ev_seq e" if "e \<in> set rest" for e
    using so that last_in_set [OF assms(3)] by (auto simp: sorted_wrt_append)
  have "later log (ev_seq (last es)) = later (es @ rest) (ev_seq (last es))" using later_later [of n "ev_seq (last es)" log] n assms(2) by simp
  also have "\<dots> = rest" using le gt by (auto simp: later_def filter_empty_conv intro!: filter_True)  (meson leD)
  finally show "later log (ev_seq (last es)) = rest" .
  show "n < ev_seq (last es)" by (rule n)
  have mem: "last es \<in> set log" using inl by (simp add: later_def)
  have "sorted_wrt (<) (map ev_seq log)" using assms(1) by (simp add: log_ok_def)
  then show "ev_seq (last es) \<le> headOf log"
    using mem by (cases log rule: rev_cases) (auto simp: headOf_def sorted_wrt_append less_imp_le)
qed

subsection \<open>Rows at a position\<close>

lemma later_append:
  assumes "log_ok (log @ d)" "n \<le> headOf log"
  shows "later (log @ d) n = later log n @ d"
proof -
  have "n < ev_seq e" if "e \<in> set d" for e
  proof (cases log rule: rev_cases)
    case Nil
    then show ?thesis using assms that by (auto simp: log_ok_def headOf_def)
  next
    case (snoc l x)
    then have "ev_seq x < ev_seq e" using assms(1) that by (auto simp: log_ok_def sorted_wrt_append)
    then show ?thesis using assms(2) snoc by (simp add: headOf_def)
  qed
  then show ?thesis by (simp add: later_def)
qed

lemma headOf_append: "log_ok (log @ d) \<Longrightarrow> headOf log \<le> headOf (log @ d)"
  by (cases d rule: rev_cases; cases log rule: rev_cases) (auto simp: headOf_def log_ok_def sorted_wrt_append less_imp_le)

lemma in_step_grow:
  assumes "log_ok (log @ d)" "in_step vis epoch log p rows"
  shows "in_step vis epoch (log @ d) p rows"
  using assms headOf_append [OF assms(1)]
  by (auto simp: in_step_def later_append mailbox_append fold_logStep_untouched split: option.splits)

lemma in_step_page:
  assumes "log_ok log" "in_step vis epoch log (Some \<lparr>fp_epoch = epoch, fp_seq = n\<rparr>) rows" "\<forall>h. rawFor h \<noteq> []"
    and "es = take k (later log n)" "es \<noteq> []"
  defines "rows' \<equiv> replay vis (map (serve rawFor (mailbox log)) es) rows"
  shows "in_step vis epoch log (Some \<lparr>fp_epoch = epoch, fp_seq = n\<rparr>) rows'"
    and "in_step vis epoch log (Some \<lparr>fp_epoch = epoch, fp_seq = ev_seq (last es)\<rparr>) rows'"
proof -
  let ?rest = "drop k (later log n)"
  have split: "later log n = es @ ?rest" using assms(4) by simp
  note rest = later_rest [OF assms(1) split assms(5)]
  have sub: "rows \<subseteq> vis" "rows' \<subseteq> vis" using assms(2) replay_sub by (auto simp: in_step_def rows'_def)
  have old: "h \<in> rows \<longleftrightarrow> h \<in> mailbox log \<and> h \<in> vis" if "h \<notin> touched (later log n)" for h
    using assms(2) that by (simp add: in_step_def)
  have te: "touched (map (serve rawFor (mailbox log)) es) = touched es" by (auto simp: touched_def)
  have keep: "h \<in> rows' \<longleftrightarrow> h \<in> rows" if "h \<notin> touched es" for h
    unfolding rows'_def using replay_untouched [of h "map (serve rawFor (mailbox log)) es"] te that by blast
  have new: "h \<in> rows' \<longleftrightarrow> h \<in> mailbox log \<and> h \<in> vis" if "h \<notin> touched ?rest" for h
  proof (cases "h \<in> touched es")
    case True
    have "h \<in> fold logStep es (mailbox (filter (\<lambda>e. ev_seq e \<le> n) log)) \<longleftrightarrow> h \<in> mailbox log"
    proof -
      have "mailbox log = fold logStep ?rest (fold logStep es (mailbox (filter (\<lambda>e. ev_seq e \<le> n) log)))"
        using log_split [OF assms(1), of n] split by (metis mailbox_append append_assoc)
      then show ?thesis using fold_logStep_untouched [OF that] by metis
    qed
    from replay_touched [OF sub(1) assms(3) True this] show ?thesis unfolding rows'_def .
  next
    case False
    then show ?thesis using keep old that split by (metis Un_iff touched_append)
  qed
  have le: "n \<le> headOf log" using rest(2,3) by simp
  show "in_step vis epoch log (Some \<lparr>fp_epoch = epoch, fp_seq = ev_seq (last es)\<rparr>) rows'"
    using sub(2) rest new by (simp add: in_step_def)
  have "h \<in> rows' \<longleftrightarrow> h \<in> mailbox log \<and> h \<in> vis" if "h \<notin> touched (later log n)" for h
    using new [of h] that split by (metis Un_iff touched_append)
  then show "in_step vis epoch log (Some \<lparr>fp_epoch = epoch, fp_seq = n\<rparr>) rows'" using sub(2) le by (simp add: in_step_def)
qed

text \<open>
  A listing made while the log grew from \<open>log\<close>: what did not change meanwhile is listed exactly when it is in the
  mailbox; of a listing that broke off only the first half is known.
\<close>

definition listing_ok :: "ChangeEvent list \<Rightarrow> ChangeEvent list \<Rightarrow> string set \<Rightarrow> bool \<Rightarrow> bool" where
  "listing_ok log log' hs whole \<longleftrightarrow>
     (\<forall>h. h \<notin> touched (later log' (headOf log)) \<longrightarrow> (h \<in> hs \<longrightarrow> h \<in> mailbox log') \<and> (whole \<longrightarrow> h \<in> mailbox log' \<longrightarrow> h \<in> hs))"

lemma in_step_listed:
  assumes "log_ok (log @ d)" "listing_ok log (log @ d) hs True"
  shows "in_step vis epoch (log @ d) (Some \<lparr>fp_epoch = epoch', fp_seq = headOf log\<rparr>) (hs \<inter> vis)"
  using assms headOf_append [OF assms(1)] by (auto simp: in_step_def listing_ok_def)

lemma later_mono: "n \<le> m \<Longrightarrow> touched (later log m) \<subseteq> touched (later log n)"
  by (auto simp: touched_def later_def)

lemma in_step_listing:
  assumes "log_ok (log @ d)" "in_step vis epoch log p rows" "listing_ok log (log @ d) hs whole"
    and "whole \<and> rows' = hs \<inter> vis \<or> rows \<subseteq> rows' \<and> rows' \<subseteq> rows \<union> (hs \<inter> vis)"
  shows "in_step vis epoch (log @ d) p rows'"
proof (cases p)
  case (Some q)
  have g: "in_step vis epoch (log @ d) p rows" by (rule in_step_grow [OF assms(1,2)])
  have "fp_epoch q = epoch \<Longrightarrow> touched (later (log @ d) (headOf log)) \<subseteq> touched (later (log @ d) (fp_seq q))"
    using assms(2) Some by (intro later_mono) (simp add: in_step_def)
  moreover have "h \<in> rows' \<longleftrightarrow> h \<in> mailbox (log @ d) \<and> h \<in> vis"
    if un: "h \<notin> touched (later (log @ d) (headOf log))" and old: "h \<in> rows \<longleftrightarrow> h \<in> mailbox (log @ d) \<and> h \<in> vis" for h
  proof -
    have "(h \<in> hs \<longrightarrow> h \<in> mailbox (log @ d)) \<and> (whole \<longrightarrow> h \<in> mailbox (log @ d) \<longrightarrow> h \<in> hs)"
      using assms(3) un unfolding listing_ok_def by blast
    then show ?thesis using assms(4) old by blast
  qed
  moreover have "rows' \<subseteq> vis" using assms(2,4) by (auto simp: in_step_def)
  ultimately show ?thesis using g unfolding Some in_step_def option.case by (meson subsetD)
qed (use assms(2,4) in \<open>auto simp: in_step_def\<close>)

lemma in_step_caught_up: "in_step vis epoch log (Some \<lparr>fp_epoch = epoch, fp_seq = n\<rparr>) rows \<Longrightarrow> later log n = [] \<Longrightarrow> rows = mailbox log \<inter> vis"
  by (auto simp: in_step_def)

subsection \<open>What a pass asks of its target\<close>

text \<open>
  The laws of the interface \<open>FeedTarget\<close>: applying events replays them on the rows, a listing leaves what was
  listed, only \<open>setFeedPosition\<close> moves the position, and what is kept on the device is either as before or the rows
  and the position of that moment.
\<close>

locale feed_target =
  fixes target :: "'s FeedTarget" and good :: "'s \<Rightarrow> bool" and rows :: "'s \<Rightarrow> string set" and pos :: "'s \<Rightarrow> FeedPosition option"
    and stored :: "'s \<Rightarrow> string set \<times> FeedPosition option" and vis :: "string set" and rawFor :: "string \<Rightarrow> string"
    and listed :: "nat \<Rightarrow> string set" and whole :: "nat \<Rightarrow> bool"
  assumes position: "good s \<Longrightarrow> ft_feedPosition target s = (s, pos s)"
    and events: "good s \<Longrightarrow> \<forall>e\<in>set es. given (ev_entry e) \<longrightarrow> (\<exists>h. mailOf e = Some h \<and> ev_entry e = Some (rawFor h))
      \<Longrightarrow> ft_applyEvents target i es s = (s', err)
      \<Longrightarrow> good s' \<and> pos s' = pos s \<and> rows s' = replay vis es (rows s) \<and> (stored s' = stored s \<or> stored s' = (rows s', pos s'))"
    and moved: "good s \<Longrightarrow> ft_setFeedPosition target i p s = (s', err)
      \<Longrightarrow> good s' \<and> pos s' = Some p \<and> rows s' = rows s \<and> (stored s' = stored s \<or> stored s' = (rows s', pos s'))"
    and listing: "good s \<Longrightarrow> ft_list target i s = (s', err)
      \<Longrightarrow> good s' \<and> pos s' = pos s \<and> (err = None \<longrightarrow> whole i \<and> rows s' = listed i \<inter> vis)
        \<and> (err \<noteq> None \<longrightarrow> rows s \<subseteq> rows s' \<and> rows s' \<subseteq> rows s \<union> (listed i \<inter> vis))
        \<and> (stored s' = stored s \<or> stored s' = (rows s', pos s'))"
    and forgotten: "good s \<Longrightarrow> good (ft_invalidateRing target s) \<and> rows (ft_invalidateRing target s) = rows s
      \<and> pos (ft_invalidateRing target s) = pos s \<and> stored (ft_invalidateRing target s) = stored s"
begin

definition follows :: "string \<Rightarrow> ChangeEvent list \<Rightarrow> 's \<Rightarrow> bool" where
  "follows epoch log s \<longleftrightarrow> good s \<and> in_step vis epoch log (pos s) (rows s) \<and> in_step vis epoch log (snd (stored s)) (fst (stored s))"

lemma follows_grow: "log_ok (log @ d) \<Longrightarrow> follows epoch log s \<Longrightarrow> follows epoch (log @ d) s"
  by (auto simp: follows_def intro: in_step_grow)

lemma follows_stored:
  "good s' \<Longrightarrow> in_step vis epoch log (pos s') (rows s') \<Longrightarrow> stored s' = stored s \<or> stored s' = (rows s', pos s')
    \<Longrightarrow> in_step vis epoch log (snd (stored s)) (fst (stored s)) \<Longrightarrow> follows epoch log s'"
  by (auto simp: follows_def)

lemma resync_follows:
  assumes "follows epoch log s" "log_ok (log @ d)" "listing_ok log (log @ d) (listed i) (whole i)" "ft_list target i s = (s1, err)"
  shows "follows epoch (log @ d) s1"
    and "err = None \<Longrightarrow> ft_setFeedPosition target i \<lparr>fp_epoch = epoch, fp_seq = headOf log\<rparr> s1 = (s2, err2) \<Longrightarrow> follows epoch (log @ d) s2"
    and "err = None \<Longrightarrow> rows s1 = listed i \<inter> vis"
proof -
  note l = listing [OF _ assms(4)]
  have g: "good s" "in_step vis epoch log (pos s) (rows s)" "in_step vis epoch (log @ d) (snd (stored s)) (fst (stored s))"
    using assms(1) follows_grow [OF assms(2,1)] by (auto simp: follows_def)
  have st: "in_step vis epoch (log @ d) (pos s) (rows s1)"
    by (rule in_step_listing [OF assms(2) g(2) assms(3)]) (use l [OF g(1)] in \<open>cases err; auto\<close>)
  then show f: "follows epoch (log @ d) s1" using l [OF g(1)] follows_stored [of s1 epoch "log @ d" s] g(3) by auto
  show rows: "err = None \<Longrightarrow> rows s1 = listed i \<inter> vis" using l [OF g(1)] by simp
  assume e: "err = None" "ft_setFeedPosition target i \<lparr>fp_epoch = epoch, fp_seq = headOf log\<rparr> s1 = (s2, err2)"
  note m = moved [OF _ e(2)]
  have "listing_ok log (log @ d) (listed i) True" using assms(3) l [OF g(1)] e(1) by simp
  then have "in_step vis epoch (log @ d) (Some \<lparr>fp_epoch = epoch, fp_seq = headOf log\<rparr>) (rows s1)"
    using in_step_listed [OF assms(2)] rows [OF e(1)] by simp
  then show "follows epoch (log @ d) s2" using m f follows_stored [of s2 epoch "log @ d" s1] by (auto simp: follows_def)
qed

lemma events_follow:
  assumes "follows epoch log s" "log_ok log" "\<forall>h. rawFor h \<noteq> []" "pos s = Some \<lparr>fp_epoch = epoch, fp_seq = n\<rparr>"
    and "es = take k (later log n)" "es \<noteq> []" "ft_applyEvents target i (map (serve rawFor (mailbox log)) es) s = (s1, err)"
  shows "follows epoch log s1"
    and "ft_setFeedPosition target i \<lparr>fp_epoch = epoch, fp_seq = ev_seq (last es)\<rparr> s1 = (s2, err2) \<Longrightarrow> follows epoch log s2"
proof -
  have served: "\<forall>e\<in>set (map (serve rawFor (mailbox log)) es). given (ev_entry e) \<longrightarrow> (\<exists>h. mailOf e = Some h \<and> ev_entry e = Some (rawFor h))"
    by (auto simp: serve_def given_def mailOf_def split: option.splits if_splits)
  note a = events [OF _ served assms(7)]
  have g: "good s" using assms(1) by (simp add: follows_def)
  have i: "in_step vis epoch log (Some \<lparr>fp_epoch = epoch, fp_seq = n\<rparr>) (rows s)" using assms(1,4) by (simp add: follows_def)
  note pg = in_step_page [OF assms(2) i assms(3) assms(5,6)]
  show f: "follows epoch log s1" using a [OF g] pg(1) assms(1,4) follows_stored [of s1 epoch log s] by (auto simp: follows_def)
  assume m: "ft_setFeedPosition target i \<lparr>fp_epoch = epoch, fp_seq = ev_seq (last es)\<rparr> s1 = (s2, err2)"
  show "follows epoch log s2"
    using moved [OF _ m] f a [OF g] pg(2) follows_stored [of s2 epoch log s1] by (auto simp: follows_def)
qed

text \<open>One page, over a relay whose log grows by \<open>d\<close> until the next.\<close>

lemma resyncPage_follows:
  assumes "follows epoch log s" "log_ok (log @ d)" "listing_ok log (log @ d) (listed i) (whole i)" "cp_epoch res = epoch" "cp_head res = headOf log"
    and "resyncPage i res target pub s = (s', pub', out)"
  shows "\<exists>e. out = Returned e \<and> follows epoch (log @ d) s' \<and> (e = None \<longrightarrow> pos s' = Some \<lparr>fp_epoch = epoch, fp_seq = headOf log\<rparr>)"
proof -
  obtain s1 e1 where l: "ft_list target i s = (s1, e1)" by fastforce
  obtain s2 e2 where m: "ft_setFeedPosition target i \<lparr>fp_epoch = epoch, fp_seq = headOf log\<rparr> s1 = (s2, e2)" by fastforce
  note r = resync_follows [OF assms(1-3) l]
  have "pos s2 = Some \<lparr>fp_epoch = epoch, fp_seq = headOf log\<rparr>" using moved [OF _ m] r(1) by (simp add: follows_def)
  then show ?thesis using assms(4-6) l m r by (auto simp: resyncPage_def split: option.splits prod.splits)
qed

lemma eventsPage_follows:
  assumes "follows epoch log s" "log_ok log" "\<forall>h. rawFor h \<noteq> []" "pos s = Some \<lparr>fp_epoch = epoch, fp_seq = n\<rparr>"
    and "cp_epoch res = epoch" "cp_events res = map (serve rawFor (mailbox log)) (take k (later log n))" "cp_events res \<noteq> []"
    and "eventsPage i res target pub s = (s', pub', out)"
  defines "p' \<equiv> \<lparr>fp_epoch = epoch, fp_seq = ev_seq (last (take k (later log n)))\<rparr>"
  shows "follows epoch log s' \<and> (out = Returned None \<longrightarrow> \<not> cp_more res) \<and> (\<forall>q. out = GoOn q \<longrightarrow> q = p') \<and> (out = Returned None \<or> out = GoOn p' \<longrightarrow> pos s' = Some p')"
proof -
  let ?es = "take k (later log n)"
  have lst: "ev_seq (last (cp_events res)) = ev_seq (last ?es)" "?es \<noteq> []" using assms(6,7) by (simp_all add: last_map)
  define s0 where "s0 = (if \<exists>e\<in>set (cp_events res). ev_key e = Some aliasKey then ft_invalidateRing target s else s)"
  have f0: "follows epoch log s0" "pos s0 = Some \<lparr>fp_epoch = epoch, fp_seq = n\<rparr>"
    using assms(1,4) forgotten [of s] by (auto simp: s0_def follows_def)
  obtain s1 e1 where a: "ft_applyEvents target i (cp_events res) s0 = (s1, e1)" by fastforce
  obtain s2 e2 where m: "ft_setFeedPosition target i p' s1 = (s2, e2)" by fastforce
  note ef = events_follow [OF f0(1) assms(2,3) f0(2) refl lst(2) a [unfolded assms(6)]]
  have "pos s2 = Some p'" using moved [OF _ m] ef(1) by (simp add: follows_def)
  then show ?thesis using assms(5,8) a m ef lst(1)
    by (auto simp: eventsPage_def Let_def s0_def [symmetric] p'_def split: option.splits prod.splits if_splits)
qed

text \<open>
  Either way it follows the log, and it is at the end of the log when it returns, or strictly further on when it
  goes on.
\<close>

lemma feedPage_follows:
  assumes fl: "follows epoch log s" and okd: "log_ok (log @ d)" and raw: "\<forall>h. rawFor h \<noteq> []" and ep: "epoch \<noteq> []"
    and honest: "\<And>res. answer = FeedPage res \<Longrightarrow> page_ok rawFor epoch log (fp_epoch p) (fp_seq p) res"
    and lists: "listing_ok log (log @ d) (listed i) (whole i)" and at: "pos s = Some p \<or> pos s = None \<and> fp_epoch p = []"
    and pg: "feedPage i answer target pub s = (s1, pub1, out)"
  shows "follows epoch (log @ d) s1
    \<and> (\<forall>q. out = GoOn q \<longrightarrow> pos s1 = Some q \<and> fp_epoch q = epoch \<and> length (later log (fp_seq q)) < length (later log (fp_seq p)))
    \<and> (out = Returned None \<longrightarrow> (\<exists>q. pos s1 = Some q \<and> fp_epoch q = epoch \<and> later log (fp_seq q) = []))"
proof (cases answer)
  case (FeedPage res)
  note h = honest [OF FeedPage, unfolded page_ok_def]
  have ok: "log_ok log" using okd by (simp add: log_ok_def sorted_wrt_append)
  show ?thesis
  proof (cases "cp_resync res")
    case True
    have "later log (headOf log) = []"
      using ok by (cases log rule: rev_cases) (auto simp: later_def headOf_def log_ok_def sorted_wrt_append filter_empty_conv)
    moreover have "\<exists>e. out = Returned e \<and> follows epoch (log @ d) s1 \<and> (e = None \<longrightarrow> pos s1 = Some \<lparr>fp_epoch = epoch, fp_seq = headOf log\<rparr>)"
      using resyncPage_follows [OF fl okd lists, of res pub s1 pub1 out] h pg FeedPage True by (simp add: feedPage_def)
    ultimately show ?thesis by auto
  next
    case nores: False
    then have ps: "pos s = Some \<lparr>fp_epoch = epoch, fp_seq = fp_seq p\<rparr>" using at h ep by auto
    obtain n where es: "cp_events res = map (serve rawFor (mailbox log)) (take n (later log (fp_seq p)))"
      "cp_events res = [] \<longrightarrow> later log (fp_seq p) = []" "\<not> cp_more res \<longrightarrow> length (later log (fp_seq p)) \<le> n"
      using h nores unfolding if_not_P [OF nores] by blast
    show ?thesis
    proof (cases "cp_events res = []")
      case True
      then show ?thesis using follows_grow [OF okd fl] pg FeedPage nores ps es(2) by (auto simp: feedPage_def)
    next
      case False
      let ?es = "take n (later log (fp_seq p))"
      have "eventsPage i res target pub s = (s1, pub1, out)" using pg FeedPage nores False by (simp add: feedPage_def)
      note e = eventsPage_follows [OF fl ok raw ps _ es(1) False this]
      have ne: "?es \<noteq> []" using es(1) False by simp
      have rest: "later log (ev_seq (last ?es)) = drop n (later log (fp_seq p))"
        using later_rest(1) [OF ok _ ne, of "fp_seq p" "drop n (later log (fp_seq p))"] by simp
      have len: "length (drop n (later log (fp_seq p))) < length (later log (fp_seq p))" using ne by (cases n) auto
      show ?thesis using e h follows_grow [OF okd] rest len es(3) by auto
    qed
  qed
qed (use follows_grow [OF okd fl] pg in \<open>auto simp: feedPage_def\<close>)

text \<open>The whole loop, over a relay whose log may grow between the pages.\<close>

lemma feedPages_follow:
  assumes grow: "\<And>j. \<exists>d. logs (Suc j) = logs j @ d" and ok: "\<And>j. log_ok (logs j)" and raw: "\<forall>h. rawFor h \<noteq> []" and ep: "epoch \<noteq> []"
    and honest: "\<And>j e n res. since j e n = FeedPage res \<Longrightarrow> page_ok rawFor epoch (logs j) e n res"
    and lists: "\<And>j. listing_ok (logs j) (logs (Suc j)) (listed j) (whole j)"
    and "follows epoch (logs i) s" "pos s = Some p \<or> pos s = None \<and> fp_epoch p = []" "feedPages k i since target p pub s = (s', pub', err)"
  shows "follows epoch (logs (i + k)) s'"
  using assms(7-9)
proof (induction k arbitrary: i p pub s)
  case (Suc k)
  obtain d where d: "logs (Suc i) = logs i @ d" using grow by blast
  have okd: "log_ok (logs i @ d)" using ok [of "Suc i"] d by simp
  have up: "follows epoch (logs j) t \<Longrightarrow> follows epoch (logs (j + m)) t" for j m t
  proof (induction m)
    case (Suc m)
    obtain x where "logs (Suc (j + m)) = logs (j + m) @ x" using grow by blast
    then show ?case using Suc follows_grow [of "logs (j + m)" x epoch t] ok [of "Suc (j + m)"] by simp
  qed simp
  obtain s1 pub1 out where pg: "feedPage i (since i (fp_epoch p) (fp_seq p)) target pub s = (s1, pub1, out)"
    by (cases "feedPage i (since i (fp_epoch p) (fp_seq p)) target pub s")
  note one = feedPage_follows [OF Suc.prems(1) okd raw ep honest lists [of i, unfolded d] Suc.prems(2) pg]
  show ?case
  proof (cases out)
    case (Returned e)
    then show ?thesis using Suc.prems(3) pg one up [of "Suc i" s1 k] by (simp add: d)
  next
    case (GoOn q)
    then show ?thesis using Suc.prems(3) pg one Suc.IH [of "Suc i" s1 q pub1] by (simp add: d)
  qed
qed simp

text \<open>Over a log that stays as it is, a pass that returns normally reads it to the end, or at least one event a page.\<close>

lemma feedPages_catch_up:
  assumes ok: "log_ok log" and raw: "\<forall>h. rawFor h \<noteq> []" and ep: "epoch \<noteq> []"
    and honest: "\<And>j e n res. since j e n = FeedPage res \<Longrightarrow> page_ok rawFor epoch log e n res"
    and lists: "\<And>j. listing_ok log log (listed j) (whole j)"
    and "follows epoch log s" "pos s = Some p \<or> pos s = None \<and> fp_epoch p = []" "feedPages k i since target p pub s = (s', pub', None)"
    and "k = 0 \<Longrightarrow> pos s = Some p \<and> fp_epoch p = epoch"
  shows "\<exists>q. pos s' = Some q \<and> fp_epoch q = epoch
    \<and> (later log (fp_seq q) = [] \<and> rows s' = mailbox log \<inter> vis \<or> length (later log (fp_seq q)) + k \<le> length (later log (fp_seq p)))"
  using assms(6-9)
proof (induction k arbitrary: i p pub s)
  case (Suc k)
  have okd: "log_ok (log @ [])" using ok by simp
  have li: "listing_ok log (log @ []) (listed i) (whole i)" using lists by simp
  obtain s1 pub1 out where pg: "feedPage i (since i (fp_epoch p) (fp_seq p)) target pub s = (s1, pub1, out)"
    by (cases "feedPage i (since i (fp_epoch p) (fp_seq p)) target pub s")
  have pk: "page_ok rawFor epoch log (fp_epoch p) (fp_seq p) res" if "since i (fp_epoch p) (fp_seq p) = FeedPage res" for res
    by (rule honest [OF that])
  note one = feedPage_follows [OF Suc.prems(1) okd raw ep pk li Suc.prems(2) pg, simplified]
  show ?case
  proof (cases out)
    case (Returned e)
    then have "s' = s1" "out = Returned None" using Suc.prems(3) pg by auto
    then obtain q where q: "pos s' = Some q" "fp_epoch q = epoch" "later log (fp_seq q) = []" using one by blast
    have "in_step vis epoch log (pos s') (rows s')" using one \<open>s' = s1\<close> by (simp add: follows_def)
    then have "rows s' = mailbox log \<inter> vis" using in_step_caught_up [of vis epoch log "fp_seq q" "rows s'"] q by (cases q) simp
    then show ?thesis using q by blast
  next
    case (GoOn q)
    then have q: "pos s1 = Some q" "fp_epoch q = epoch" "length (later log (fp_seq q)) < length (later log (fp_seq p))" "follows epoch log s1"
      using one by auto
    have "feedPages k (Suc i) since target q pub1 s1 = (s', pub', None)" using Suc.prems(3) pg GoOn by simp
    from Suc.IH [OF q(4) _ this] q show ?thesis by fastforce
  qed
qed auto

end

end
