(* ===== verification/Mailbox_Feed.thy ===== *)
theory Mailbox_Feed
  imports Feed
begin

section \<open>The mailbox client as the target of a feed pass\<close>

text \<open>
  The mailbox client keeps the contract \<open>feed_target\<close>: its operations act on the set of rows as the laws say, and
  what the device keeps is the rows and the position of one moment. The keys the mailbox opens with and the
  retired addresses are those of one answer of the identity service (\<open>ring\<close>, \<open>late\<close>), and \<open>rawFor\<close> gives the
  entry stored under a hash, which does not change as the hash is its digest.
\<close>

subsection \<open>What a mailbox shows\<close>

definition openRow :: "mailbox_env \<Rightarrow> keyring \<Rightarrow> (string \<Rightarrow> string) \<Rightarrow> string \<Rightarrow> Preview option" where
  "openRow env ring rawFor h =
     (case openEntry env (Some ring) (rawFor h) of Inl _ \<Rightarrow> None | Inr o' \<Rightarrow> Some (previewOf h (oe_header o') (oe_address o')))"

text \<open>The messages that open and are not late arrivals at a retired address.\<close>

definition visible :: "mailbox_env \<Rightarrow> keyring \<Rightarrow> retirements \<Rightarrow> (string \<Rightarrow> string) \<Rightarrow> string set" where
  "visible env ring late rawFor = {h. \<exists>p. openRow env ring rawFor h = Some p \<and> \<not> hiddenRow late p}"

definition rowsOf :: "string set \<Rightarrow> mbox \<Rightarrow> string set" where
  "rowsOf vis s = fst ` set (ms_cache (snd s)) \<inter> vis"

definition positionOf :: "mbox \<Rightarrow> FeedPosition option" where
  "positionOf s = ms_position (snd s)"

text \<open>What a later instance would start from, for the instance that keeps the list on the device.\<close>

definition keptOn :: "mailbox_env \<Rightarrow> string set \<Rightarrow> mbox \<Rightarrow> string set \<times> FeedPosition option" where
  "keptOn env vis s =
     (case ms_rows (snd s) of
        Some pc \<Rightarrow>
          if ms_writer (snd s)
          then (case pcLoad (mv_preview env) (replicate 12 0) 0 (fst s, pc) of (_, _, rows, position) \<Rightarrow> (fst ` set rows \<inter> vis, position))
          else ({}, None)
      | None \<Rightarrow> ({}, None))"

subsection \<open>The invariant\<close>

definition cache_good :: "mailbox_env \<Rightarrow> keyring \<Rightarrow> (string \<Rightarrow> string) \<Rightarrow> (string, CachedEntry) jsmap \<Rightarrow> bool" where
  "cache_good env ring rawFor cache \<longleftrightarrow> distinct (map fst cache)
     \<and> (\<forall>(h, c)\<in>set cache. h \<noteq> [] \<and> openRow env ring rawFor h = Some (snd (ce_preview c)))"

definition ring_good :: "keyring \<Rightarrow> retirements \<Rightarrow> MailboxSync \<Rightarrow> bool" where
  "ring_good ring late m \<longleftrightarrow> (ms_ring m = None \<or> ms_ring m = Some ring) \<and> (ms_retired m = [] \<or> ms_retired m = late)"

definition cache_objs :: "(nat \<Rightarrow> Preview) \<Rightarrow> nat \<Rightarrow> (string, CachedEntry) jsmap \<Rightarrow> bool" where
  "cache_objs val n cache \<longleftrightarrow> (\<forall>(h, c)\<in>set cache. fst (ce_preview c) < n \<and> snd (ce_preview c) = val (fst (ce_preview c)))"

text \<open>The cache of the account, and what it holds, for the instance that writes it.\<close>

definition account_cache :: "mailbox_env \<Rightarrow> WorkingKeys \<Rightarrow> PreviewCache option" where
  "account_cache env keys = pcOpen (map_option (mv_deriveBits env) (wk_aliasRoot keys)) (wk_address keys) Inbox"

definition reg_good :: "mailbox_env \<Rightarrow> keyring \<Rightarrow> (string \<Rightarrow> string) \<Rightarrow> PreviewCache \<Rightarrow> register \<Rightarrow> bool" where
  "reg_good env ring rawFor pc reg \<longleftrightarrow> (\<not> pc_full pc \<longrightarrow> (\<forall>h p v. fst reg h = Some (p, v) \<longrightarrow> h \<noteq> [] \<and> openRow env ring rawFor h = Some p))"

definition kept_ok :: "mailbox_env \<Rightarrow> WorkingKeys \<Rightarrow> keyring \<Rightarrow> (string \<Rightarrow> string) \<Rightarrow> (nat \<Rightarrow> Preview) \<Rightarrow> mbox \<Rightarrow> bool" where
  "kept_ok env keys ring rawFor val s \<longleftrightarrow> (\<forall>pc. ms_rows (snd s) = Some pc \<longrightarrow> ms_writer (snd s) \<longrightarrow>
     objs_ok val (ms_objects (snd s)) (pc_saved pc) \<and> (\<exists>reg. writer_state (mv_preview env) val (fst s, pc) reg \<and> reg_good env ring rawFor pc reg)
     \<and> (\<exists>pc0. account_cache env keys = Some pc0 \<and> pc_ns pc = pc_ns pc0 \<and> pc_key pc = pc_key pc0))"

definition io_ok :: "WorkingKeys \<Rightarrow> keyring \<Rightarrow> retirements \<Rightarrow> mailbox_io \<Rightarrow> bool" where
  "io_ok keys ring late io \<longleftrightarrow> iv_ok (io_ivf io) \<and> keyringFor keys (io_retiredKeys io) (io_identities io) = (ring, late)"

definition mail_good :: "mailbox_env \<Rightarrow> WorkingKeys \<Rightarrow> keyring \<Rightarrow> retirements \<Rightarrow> (string \<Rightarrow> string) \<Rightarrow> mbox \<Rightarrow> bool" where
  "mail_good env keys ring late rawFor s \<longleftrightarrow> preview_laws (mv_preview env) \<and> ms_restored (snd s) \<and> ms_keys (snd s) = keys
     \<and> cache_good env ring rawFor (ms_cache (snd s)) \<and> ring_good ring late (snd s)
     \<and> (\<exists>val. cache_objs val (ms_objects (snd s)) (ms_cache (snd s)) \<and> kept_ok env keys ring rawFor val s)"

lemma restore_id: "ms_restored (snd s) \<Longrightarrow> restore env io s = s"
  by (cases s) (simp add: restore_def)

lemma ensureRing_good:
  assumes "ring_good ring late m" "io_ok (ms_keys m) ring late io"
  shows "ring_good ring late (ensureRing io m)" "ms_ring (ensureRing io m) = Some ring"
    and "ms_cache (ensureRing io m) = ms_cache m" "ms_objects (ensureRing io m) = ms_objects m" "ms_restored (ensureRing io m) = ms_restored m"
    and "ms_keys (ensureRing io m) = ms_keys m" "ms_rows (ensureRing io m) = ms_rows m" "ms_writer (ensureRing io m) = ms_writer m"
    and "ms_position (ensureRing io m) = ms_position m"
  using assms by (auto simp: ring_good_def io_ok_def ensureRing_def)

lemma cache_objs_mono: "cache_objs val n cache \<Longrightarrow> n \<le> n' \<Longrightarrow> (\<And>i. i < n \<Longrightarrow> val' i = val i) \<Longrightarrow> cache_objs val' n' cache"
  unfolding cache_objs_def by fastforce

lemma cache_objs_sub: "cache_objs val n cache \<Longrightarrow> set cache' \<subseteq> set cache \<Longrightarrow> cache_objs val n cache'"
  unfolding cache_objs_def by blast

lemma set_delete_sub: "set (AList.delete k m) \<subseteq> set m"
  by (induction m) auto

lemma cache_delete:
  assumes "cache_good env ring rawFor cache" "cache_objs val n cache"
  shows "cache_good env ring rawFor (AList.delete h cache)" "cache_objs val n (AList.delete h cache)"
    and "fst ` set (AList.delete h cache) = fst ` set cache - {h}"
proof -
  have "set (AList.delete h cache) \<subseteq> set cache" by (rule set_delete_sub)
  then show "cache_good env ring rawFor (AList.delete h cache)" "cache_objs val n (AList.delete h cache)"
    using assms cache_objs_sub unfolding cache_good_def by (auto simp: distinct_delete)
  show "fst ` set (AList.delete h cache) = fst ` set cache - {h}"
    using arg_cong [OF delete_keys [of h cache], of set] by simp
qed

lemma cache_raw:
  assumes "cache_good env ring rawFor cache" "cache_objs val n cache" "map_of cache h = Some c" "ce_preview c' = ce_preview c"
  shows "cache_good env ring rawFor (AList.update h c' cache)" "cache_objs val n (AList.update h c' cache)"
    and "fst ` set (AList.update h c' cache) = fst ` set cache"
proof -
  have m: "(h, c) \<in> set cache" by (rule map_of_SomeD [OF assms(3)])
  then show "cache_good env ring rawFor (AList.update h c' cache)" "cache_objs val n (AList.update h c' cache)"
    using assms(1,2,4) unfolding cache_good_def cache_objs_def by (auto simp: distinct_update dest!: set_update)
  show "fst ` set (AList.update h c' cache) = fst ` set cache" using imageI [OF m, of fst] by (simp add: dom_update insert_absorb)
qed

lemma addOpened_good:
  assumes "cache_good env ring rawFor (ms_cache m)" "cache_objs val (ms_objects m) (ms_cache m)" "openEntry env (Some ring) (rawFor h) = Inr o'" "h \<noteq> []"
  shows "cache_good env ring rawFor (ms_cache (addOpened h (rawFor h) o' m))" "fst ` set (ms_cache (addOpened h (rawFor h) o' m)) = insert h (fst ` set (ms_cache m))"
    and "\<exists>val'. (\<forall>i<ms_objects m. val' i = val i) \<and> cache_objs val' (ms_objects (addOpened h (rawFor h) o' m)) (ms_cache (addOpened h (rawFor h) o' m))"
    and "ms_objects m \<le> ms_objects (addOpened h (rawFor h) o' m)" "openRow env ring rawFor h \<noteq> None"
proof -
  let ?p = "previewOf h (oe_header o') (oe_address o')"
  show "openRow env ring rawFor h \<noteq> None" using assms(3) by (simp add: openRow_def)
  have "openRow env ring rawFor h = Some ?p" using assms(3) by (simp add: openRow_def)
  then show "cache_good env ring rawFor (ms_cache (addOpened h (rawFor h) o' m))"
    using assms(1,4) unfolding cache_good_def addOpened_def by (auto simp: distinct_update dest!: set_update)
  show "fst ` set (ms_cache (addOpened h (rawFor h) o' m)) = insert h (fst ` set (ms_cache m))" by (simp add: addOpened_def dom_update)
  have "cache_objs (val(ms_objects m := ?p)) (Suc (ms_objects m)) (ms_cache (addOpened h (rawFor h) o' m))"
    using assms(2) unfolding cache_objs_def addOpened_def by (fastforce dest!: set_update)
  then show "\<exists>val'. (\<forall>i<ms_objects m. val' i = val i) \<and> cache_objs val' (ms_objects (addOpened h (rawFor h) o' m)) (ms_cache (addOpened h (rawFor h) o' m))"
    by (intro exI [of _ "val(ms_objects m := ?p)"]) (simp add: addOpened_def)
  show "ms_objects m \<le> ms_objects (addOpened h (rawFor h) o' m)" by (simp add: addOpened_def)
qed

subsection \<open>Steps of the memory\<close>

definition mem_ok :: "mailbox_env \<Rightarrow> WorkingKeys \<Rightarrow> keyring \<Rightarrow> retirements \<Rightarrow> (string \<Rightarrow> string) \<Rightarrow> (nat \<Rightarrow> Preview) \<Rightarrow> MailboxSync \<Rightarrow> bool" where
  "mem_ok env keys ring late rawFor val m \<longleftrightarrow> ms_restored m \<and> ms_keys m = keys \<and> cache_good env ring rawFor (ms_cache m)
     \<and> ring_good ring late m \<and> cache_objs val (ms_objects m) (ms_cache m)"

text \<open>New objects only, and nothing of what concerns the device changed.\<close>

definition extends :: "MailboxSync \<Rightarrow> (nat \<Rightarrow> Preview) \<Rightarrow> MailboxSync \<Rightarrow> (nat \<Rightarrow> Preview) \<Rightarrow> bool" where
  "extends m val m' val' \<longleftrightarrow> ms_objects m \<le> ms_objects m' \<and> (\<forall>i<ms_objects m. val' i = val i) \<and> ms_rows m' = ms_rows m
     \<and> ms_writer m' = ms_writer m \<and> ms_position m' = ms_position m"

lemma extends_refl [simp]: "extends m val m val"
  by (simp add: extends_def)

lemma extends_trans: "extends a u b v \<Longrightarrow> extends b v c w \<Longrightarrow> extends a u c w"
  by (auto simp: extends_def)

definition moves :: "mailbox_env \<Rightarrow> WorkingKeys \<Rightarrow> keyring \<Rightarrow> retirements \<Rightarrow> (string \<Rightarrow> string) \<Rightarrow> (nat \<Rightarrow> Preview) \<Rightarrow> MailboxSync \<Rightarrow> MailboxSync \<Rightarrow> string set \<Rightarrow> bool" where
  "moves env keys ring late rawFor val m m' rows \<longleftrightarrow>
     (\<exists>val'. mem_ok env keys ring late rawFor val' m' \<and> extends m val m' val') \<and> fst ` set (ms_cache m') \<inter> visible env ring late rawFor = rows"

lemma movesI:
  "mem_ok env keys ring late rawFor val' m' \<Longrightarrow> extends m val m' val' \<Longrightarrow> fst ` set (ms_cache m') \<inter> visible env ring late rawFor = rows
    \<Longrightarrow> moves env keys ring late rawFor val m m' rows"
  by (auto simp: moves_def)

lemma moves_add:
  assumes "mem_ok env keys ring late rawFor val m" "ms_ring m = Some ring" "h \<noteq> []"
    and "m' = (case openEntry env (ms_ring m) (rawFor h) of Inl _ \<Rightarrow> m | Inr o' \<Rightarrow> addOpened h (rawFor h) o' m)"
  shows "moves env keys ring late rawFor val m m'
    (if h \<in> visible env ring late rawFor then insert h (fst ` set (ms_cache m) \<inter> visible env ring late rawFor) else fst ` set (ms_cache m) \<inter> visible env ring late rawFor)"
proof (cases "openEntry env (Some ring) (rawFor h)")
  case (Inl e)
  then have "h \<notin> visible env ring late rawFor" by (simp add: visible_def openRow_def)
  then show ?thesis using assms Inl by (intro movesI [where val' = val]) simp_all
next
  case (Inr o')
  have good: "cache_good env ring rawFor (ms_cache m)" "cache_objs val (ms_objects m) (ms_cache m)" using assms(1) by (simp_all add: mem_ok_def)
  note a = addOpened_good [OF good Inr assms(3)]
  obtain val' where v: "\<forall>i<ms_objects m. val' i = val i" "cache_objs val' (ms_objects (addOpened h (rawFor h) o' m)) (ms_cache (addOpened h (rawFor h) o' m))"
    using a(3) by blast
  have m': "m' = addOpened h (rawFor h) o' m" using assms(2,4) Inr by simp
  have "mem_ok env keys ring late rawFor val' m'" using assms(1) a(1) v(2) m' by (simp add: mem_ok_def ring_good_def) (simp add: addOpened_def)
  moreover have "extends m val m' val'" using v(1) a(4) m' by (simp add: extends_def) (simp add: addOpened_def)
  ultimately show ?thesis using a(2) m' by (intro movesI [where val' = val']) auto
qed

lemma applyEvent_moves:
  assumes "mem_ok env keys ring late rawFor val m" "io_ok keys ring late io"
    and "given (ev_entry e) \<longrightarrow> (\<exists>h. mailOf e = Some h \<and> ev_entry e = Some (rawFor h))"
  shows "moves env keys ring late rawFor val m (snd (applyEvent env io e (changed, m)))
    (replayEvent (visible env ring late rawFor) e (fst ` set (ms_cache m) \<inter> visible env ring late rawFor))"
proof (cases "mailOf e")
  case None
  then have "snd (applyEvent env io e (changed, m)) = m"
    by (auto simp: applyEvent_def mailOf_def given_def split: option.splits if_splits)
  then show ?thesis using None assms(1) by (simp add: replayEvent_def movesI [where val' = val])
next
  case (Some h)
  then have h: "ev_hash e = Some h" "h \<noteq> []" "ev_kind e = MailStored \<or> ev_kind e = MailDeleted"
    by (auto simp: mailOf_def given_def split: if_splits option.splits)
  have g: "cache_good env ring rawFor (ms_cache m)" "cache_objs val (ms_objects m) (ms_cache m)" "ring_good ring late m" "ms_keys m = keys"
    using assms(1) by (simp_all add: mem_ok_def)
  have upd: "mem_ok env keys ring late rawFor val (m\<lparr>ms_cache := c\<rparr>)" "extends m val (m\<lparr>ms_cache := c\<rparr>) val"
    if "cache_good env ring rawFor c" "cache_objs val (ms_objects m) c" for c
    using assms(1) that by (simp_all add: mem_ok_def extends_def ring_good_def)
  from h(3) show ?thesis
  proof
    assume de: "ev_kind e = MailDeleted"
    have "snd (applyEvent env io e (changed, m)) = m\<lparr>ms_cache := AList.delete h (ms_cache m)\<rparr>"
      using h de by (auto simp: applyEvent_def map_of_eq_None_iff)
    then show ?thesis using Some de upd [OF cache_delete(1,2) [OF g(1,2)]] cache_delete(3) [OF g(1,2), of h]
      by (intro movesI [where val' = val]) (auto simp: replayEvent_def)
  next
    assume st: "ev_kind e = MailStored"
    show ?thesis
    proof (cases "given (ev_entry e)")
      case False
      then have "snd (applyEvent env io e (changed, m)) = m" using h st by (simp add: applyEvent_def)
      then show ?thesis using Some st False assms(1) by (simp add: replayEvent_def movesI [where val' = val])
    next
      case True
      then have raw: "ev_entry e = Some (rawFor h)" using assms(3) Some by auto
      show ?thesis
      proof (cases "map_of (ms_cache m) h")
        case None
        let ?m = "ensureRing io m"
        note er = ensureRing_good [OF g(3), of io, unfolded g(4), OF assms(2)]
        have ok: "mem_ok env keys ring late rawFor val ?m" using assms(1) er by (simp add: mem_ok_def)
        have ap: "snd (applyEvent env io e (changed, m)) = (case openEntry env (ms_ring ?m) (rawFor h) of Inl _ \<Rightarrow> ?m | Inr o' \<Rightarrow> addOpened h (rawFor h) o' ?m)"
          using h st True raw None by (simp add: applyEvent_def split: sum.splits)
        have "extends m val ?m val" using er by (simp add: extends_def)
        then show ?thesis using moves_add [OF ok er(2) h(2) ap] Some st True er(3) by (auto simp: moves_def replayEvent_def intro: extends_trans)
      next
        case (Some had)
        have mem: "h \<in> fst ` set (ms_cache m)" using map_of_SomeD [OF Some] by force
        have sn: "snd (applyEvent env io e (changed, m)) = (if given (ce_raw had) then m else m\<lparr>ms_cache := AList.update h (had\<lparr>ce_raw := ev_entry e\<rparr>) (ms_cache m)\<rparr>)"
          using h st True Some by (simp add: applyEvent_def)
        note u = cache_raw [OF g(1,2) Some, of "had\<lparr>ce_raw := ev_entry e\<rparr>", simplified]
        have "fst ` set (ms_cache (snd (applyEvent env io e (changed, m)))) = fst ` set (ms_cache m)" using sn u(3) by simp
        moreover have "mem_ok env keys ring late rawFor val (snd (applyEvent env io e (changed, m))) \<and> extends m val (snd (applyEvent env io e (changed, m))) val"
          using sn upd [OF u(1,2)] assms(1) by simp
        ultimately show ?thesis using \<open>mailOf e = Some h\<close> st True mem by (intro movesI [where val' = val]) (auto simp: replayEvent_def)
      qed
    qed
  qed
qed

lemma applyEvents_moves:
  assumes "mem_ok env keys ring late rawFor val m" "io_ok keys ring late io"
    and "\<forall>e\<in>set es. given (ev_entry e) \<longrightarrow> (\<exists>h. mailOf e = Some h \<and> ev_entry e = Some (rawFor h))"
  shows "moves env keys ring late rawFor val m (snd (fold (applyEvent env io) es (changed, m)))
    (replay (visible env ring late rawFor) es (fst ` set (ms_cache m) \<inter> visible env ring late rawFor))"
  using assms(1,3)
proof (induction es arbitrary: val m changed)
  case (Cons e es)
  obtain c1 m1 where s: "applyEvent env io e (changed, m) = (c1, m1)" by fastforce
  have "given (ev_entry e) \<longrightarrow> (\<exists>h. mailOf e = Some h \<and> ev_entry e = Some (rawFor h))" using Cons.prems(2) by simp
  from applyEvent_moves [OF Cons.prems(1) assms(2) this, of changed] s
  obtain v1 where v1: "mem_ok env keys ring late rawFor v1 m1" "extends m val m1 v1"
    "fst ` set (ms_cache m1) \<inter> visible env ring late rawFor = replayEvent (visible env ring late rawFor) e (fst ` set (ms_cache m) \<inter> visible env ring late rawFor)"
    by (auto simp: moves_def)
  from Cons.IH [OF v1(1), of c1] Cons.prems(2) show ?case using s v1(2,3) by (auto simp: moves_def replay_def intro: extends_trans)
qed (auto simp: replay_def intro: movesI)

lemma hiddenRow_Nil [simp]: "\<not> hiddenRow [] p"
  by (simp add: hiddenRow_def arrivedAfterRetirement_def)

lemma emit_moves:
  assumes "mem_ok env keys ring late rawFor val m"
  shows "moves env keys ring late rawFor val m (fst (emit force m)) (fst ` set (ms_cache m) \<inter> visible env ring late rawFor)"
proof -
  define shown where "shown = filter (\<lambda>(h, c). \<not> hiddenRow (ms_retired m) (snd (ce_preview c))) (ms_cache m)"
  have e: "ms_cache (fst (emit force m)) = shown" "ms_objects (fst (emit force m)) = ms_objects m" "ms_rows (fst (emit force m)) = ms_rows m"
    "ms_writer (fst (emit force m)) = ms_writer m" "ms_position (fst (emit force m)) = ms_position m" "ms_restored (fst (emit force m)) = ms_restored m"
    "ms_keys (fst (emit force m)) = ms_keys m" "ms_ring (fst (emit force m)) = ms_ring m" "ms_retired (fst (emit force m)) = ms_retired m"
    by (auto simp: emit_def previews_def shown_def Let_def case_prod_unfold)
  have g: "cache_good env ring rawFor (ms_cache m)" "ring_good ring late m" "cache_objs val (ms_objects m) (ms_cache m)" using assms by (simp_all add: mem_ok_def)
  have "cache_good env ring rawFor shown" using g(1) unfolding cache_good_def shown_def by (auto simp: distinct_map_filter)
  moreover have "cache_objs val (ms_objects m) shown" by (rule cache_objs_sub [OF g(3)]) (auto simp: shown_def)
  ultimately have ok: "mem_ok env keys ring late rawFor val (fst (emit force m))" using assms e by (simp add: mem_ok_def ring_good_def)
  have "h \<in> fst ` set shown" if "(h, c) \<in> set (ms_cache m)" "h \<in> visible env ring late rawFor" for h c
  proof -
    have "openRow env ring rawFor h = Some (snd (ce_preview c))" using g(1) that(1) by (auto simp: cache_good_def)
    then have "\<not> hiddenRow (ms_retired m) (snd (ce_preview c))" using that(2) g(2) by (auto simp: visible_def ring_good_def)
    then show ?thesis using that(1) by (force simp: shown_def)
  qed
  then have "fst ` set shown \<inter> visible env ring late rawFor = fst ` set (ms_cache m) \<inter> visible env ring late rawFor"
    by (auto simp: shown_def)
  then show ?thesis using ok e by (intro movesI [where val' = val]) (simp_all add: extends_def)
qed

subsection \<open>Writing the rows\<close>

lemma mail_good_iff:
  "mail_good env keys ring late rawFor s \<longleftrightarrow> preview_laws (mv_preview env) \<and> (\<exists>val. mem_ok env keys ring late rawFor val (snd s) \<and> kept_ok env keys ring rawFor val s)"
  by (auto simp: mail_good_def mem_ok_def)

lemma rows_ok_mono: "objs_ok val n rows \<Longrightarrow> (\<And>i. i < n \<Longrightarrow> val' i = val i) \<Longrightarrow> rows_ok val' rows"
  using objs_ok_mono [of val n rows n val'] by (simp add: objs_ok_def)

lemma kept_ok_extends:
  assumes "kept_ok env keys ring rawFor val (db, m)" "extends m val m' val'"
  shows "kept_ok env keys ring rawFor val' (db, m')"
  unfolding kept_ok_def
proof (intro allI impI)
  fix pc
  assume "ms_rows (snd (db, m')) = Some pc" "ms_writer (snd (db, m'))"
  then have k: "objs_ok val (ms_objects m) (pc_saved pc)" "\<exists>reg. writer_state (mv_preview env) val (db, pc) reg \<and> reg_good env ring rawFor pc reg"
    "\<exists>pc0. account_cache env keys = Some pc0 \<and> pc_ns pc = pc_ns pc0 \<and> pc_key pc = pc_key pc0"
    using assms by (auto simp: kept_ok_def extends_def)
  have x: "ms_objects m \<le> ms_objects m'" "\<And>i. i < ms_objects m \<Longrightarrow> val' i = val i" using assms(2) by (auto simp: extends_def)
  have "rows_ok val' (pc_saved pc)" by (rule rows_ok_mono [OF k(1) x(2)])
  then have "\<exists>reg. writer_state (mv_preview env) val' (db, pc) reg \<and> reg_good env ring rawFor pc reg" using k(2) by (auto simp: writer_state_def)
  then show "objs_ok val' (ms_objects (snd (db, m'))) (pc_saved pc) \<and> (\<exists>reg. writer_state (mv_preview env) val' (fst (db, m'), pc) reg \<and> reg_good env ring rawFor pc reg)
      \<and> (\<exists>pc0. account_cache env keys = Some pc0 \<and> pc_ns pc = pc_ns pc0 \<and> pc_key pc = pc_key pc0)"
    using objs_ok_mono [OF k(1) x] k(3) by simp
qed

lemma keptOn_cong: "fst s' = fst s \<Longrightarrow> ms_rows (snd s') = ms_rows (snd s) \<Longrightarrow> ms_writer (snd s') = ms_writer (snd s) \<Longrightarrow> keptOn env vis s' = keptOn env vis s"
  unfolding keptOn_def by (cases "ms_rows (snd s)") simp_all

lemma keptOn_extends: "extends m val m' val' \<Longrightarrow> keptOn env vis (db, m') = keptOn env vis (db, m)"
  by (rule keptOn_cong) (simp_all add: extends_def)

lemma snapshot_objs:
  assumes "mem_ok env keys ring late rawFor val m"
  shows "objs_ok val (ms_objects m) (snapshot m)" "fst ` set (snapshot m) = fst ` set (ms_cache m)"
proof -
  have k: "map fst (snapshot m) = map fst (ms_cache m)" by (simp add: snapshot_def comp_def case_prod_unfold)
  show "objs_ok val (ms_objects m) (snapshot m)"
    using assms unfolding objs_ok_def rows_ok_def mem_ok_def cache_good_def cache_objs_def k by (auto simp: snapshot_def)
  show "fst ` set (snapshot m) = fst ` set (ms_cache m)" by (force simp: snapshot_def)
qed

lemma snapshot_row:
  assumes "mem_ok env keys ring late rawFor val m" "storedMap (snapshot m) h = Some (p, v)"
  shows "h \<noteq> [] \<and> openRow env ring rawFor h = Some p"
proof -
  have "\<exists>c. (h, c) \<in> set (ms_cache m) \<and> p = snd (ce_preview c)"
    using assms(2) by (fastforce simp: storedMap_def snapshot_def dest!: map_of_SomeD)
  then show ?thesis using assms(1) by (auto simp: mem_ok_def cache_good_def)
qed

lemma dom_storedMap: "{h. storedMap rows h \<noteq> None} = fst ` set rows"
  by (auto simp: storedMap_def map_of_eq_None_iff)

lemma pcWrite_saved: "pc_saved (snd (fst (pcWrite env ivf c rows p (db, pc)))) \<in> {rows, pc_saved pc}"
  by (simp add: pcWrite_def Let_def)

lemma pcWrite_abort: "pcWrite env ivf False rows p s = (s, r) \<or> pcWrite env ivf False rows p s = (s, \<not> r)"
  by (cases s) (simp add: pcWrite_def Let_def)

lemma saveRows_ok:
  assumes laws: "preview_laws (mv_preview env)" and mem: "mem_ok env keys ring late rawFor val m" and kept: "kept_ok env keys ring rawFor val (db, m)"
    and iv: "iv_ok (io_ivf io)" and sv: "saveRows env io (db, m) = (s', ok)"
  shows "mail_good env keys ring late rawFor s' \<and> ms_cache (snd s') = ms_cache m \<and> ms_position (snd s') = ms_position m
    \<and> (keptOn env vis s' = keptOn env vis (db, m) \<or> keptOn env vis s' = (fst ` set (ms_cache m) \<inter> vis, ms_position m))"
proof (cases "\<exists>pc. ms_rows m = Some pc \<and> ms_writer m")
  case False
  then have "s' = (db, m)" using sv by (auto simp: saveRows_def split: option.splits if_splits)
  then show ?thesis using laws mem kept by (auto simp: mail_good_iff)
next
  case True
  then obtain pc where pc: "ms_rows m = Some pc" "ms_writer m" by blast
  let ?c = "(io_ivf io, io_writes io, snapshot m, Some (ms_position m))"
  obtain db' pc' r where w: "pcWrite (mv_preview env) (io_ivf io) (io_writes io) (snapshot m) (Some (ms_position m)) (db, pc) = ((db', pc'), r)"
    by (metis surj_pair)
  then have s': "s' = (db', m\<lparr>ms_rows := Some pc'\<rparr>)" using sv pc by (simp add: saveRows_def)
  obtain reg where k: "objs_ok val (ms_objects m) (pc_saved pc)" "writer_state (mv_preview env) val (db, pc) reg" "reg_good env ring rawFor pc reg"
    "\<exists>pc0. account_cache env keys = Some pc0 \<and> pc_ns pc = pc_ns pc0 \<and> pc_key pc = pc_key pc0"
    using kept pc by (auto simp: kept_ok_def)
  note sn = snapshot_objs [OF mem]
  have sok: "save_ok val ?c" using iv sn(1) by (simp add: save_ok_def objs_ok_def)
  have eq: "pcSave (mv_preview env) ?c (db, pc) = (db', pc')" using w by (simp add: pcSave_def)
  note reg = pcSave_register [OF laws k(2) sok, unfolded eq]
  have objs: "objs_ok val (ms_objects m) (pc_saved pc')"
    using pcWrite_saved [of "mv_preview env" "io_ivf io" "io_writes io" "snapshot m" "Some (ms_position m)" db pc] w sn(1) k(1) by auto
  have rg: "reg_good env ring rawFor pc' (registerSave ?c reg)"
  proof (cases "io_writes io")
    case True
    then show ?thesis using snapshot_row [OF mem] by (simp add: reg_good_def registerSave_def)
  next
    case False
    then have "pc' = pc" using w pcWrite_abort [of "mv_preview env" "io_ivf io" "snapshot m" "Some (ms_position m)" "(db, pc)" r] by auto
    then show ?thesis using k(3) False by (simp add: registerSave_def)
  qed
  have "mem_ok env keys ring late rawFor val (snd s') \<and> kept_ok env keys ring rawFor val s'"
    using mem objs exI [of "\<lambda>reg. writer_state (mv_preview env) val (db', pc') reg \<and> reg_good env ring rawFor pc' reg", OF conjI [OF reg(1) rg]] s' k(4) reg(2,3)
    by (simp add: mem_ok_def kept_ok_def ring_good_def)
  then have good: "mail_good env keys ring late rawFor s'" using laws by (auto simp: mail_good_iff)
  have "keptOn env vis s' = keptOn env vis (db, m) \<or> keptOn env vis s' = (fst ` set (ms_cache m) \<inter> vis, ms_position m)"
  proof (cases "io_writes io")
    case True
    obtain x n rows p where l: "pcLoad (mv_preview env) (replicate 12 0) 0 (db', pc') = (x, n, rows, p)" by (metis surj_pair)
    have "storedMap rows = storedMap (snapshot m) \<and> p = ms_position m"
      using writer_reload [OF reg(1), of pc' "replicate 12 0" 0 x n rows p] reg(4) True l by (simp add: registerSave_def)
    then have "fst ` set rows = fst ` set (ms_cache m)" "p = ms_position m"
      using dom_storedMap [of rows] dom_storedMap [of "snapshot m"] sn(2) by auto
    then show ?thesis using s' l pc by (simp add: keptOn_def)
  next
    case False
    then have "(db', pc') = (db, pc)" using w pcWrite_abort [of "mv_preview env" "io_ivf io" "snapshot m" "Some (ms_position m)" "(db, pc)" r] by auto
    then show ?thesis using s' pc by (simp add: keptOn_def)
  qed
  then show ?thesis using good s' by simp
qed

subsection \<open>Listing\<close>

text \<open>The hashes of the pages a listing reads, and whether it reaches the last.\<close>

fun listedOf :: "ListResp option list \<Rightarrow> string set \<times> bool" where
  "listedOf [] = ({}, False)"
| "listedOf (None # _) = ({}, False)"
| "listedOf (Some res # answers) =
     (if cursorOf res = [] then (fst ` set (lr_entries res), True)
      else (fst ` set (lr_entries res) \<union> fst (listedOf answers), snd (listedOf answers)))"

definition answers_ok :: "(string \<Rightarrow> string) \<Rightarrow> ListResp option list \<Rightarrow> bool" where
  "answers_ok rawFor answers \<longleftrightarrow> (\<forall>res. Some res \<in> set answers \<longrightarrow> (\<forall>(h, raw)\<in>set (lr_entries res). h \<noteq> [] \<and> raw = rawFor h))"

lemma moves_trans:
  "moves env keys ring late rawFor val m m1 r1 \<Longrightarrow> (\<And>v. mem_ok env keys ring late rawFor v m1 \<Longrightarrow> moves env keys ring late rawFor v m1 m2 r2)
    \<Longrightarrow> moves env keys ring late rawFor val m m2 r2"
  unfolding moves_def by (meson extends_trans)

lemma moves_view: "moves env keys ring late rawFor val m m1 r1 \<Longrightarrow> fst ` set (ms_cache m1) \<inter> visible env ring late rawFor = r1"
  by (simp add: moves_def)

lemma listEntry_moves:
  assumes "mem_ok env keys ring late rawFor val m" "ms_ring m = Some ring" "h \<noteq> []"
  shows "moves env keys ring late rawFor val m (listEntry env (h, rawFor h) m)
      (fst ` set (ms_cache m) \<inter> visible env ring late rawFor \<union> ({h} \<inter> visible env ring late rawFor))"
    and "ms_ring (listEntry env (h, rawFor h) m) = Some ring"
proof -
  show "ms_ring (listEntry env (h, rawFor h) m) = Some ring"
    using assms(2) by (simp add: listEntry_def addOpened_def split: option.splits sum.splits)
  have g: "cache_good env ring rawFor (ms_cache m)" "cache_objs val (ms_objects m) (ms_cache m)" using assms(1) by (simp_all add: mem_ok_def)
  show "moves env keys ring late rawFor val m (listEntry env (h, rawFor h) m)
      (fst ` set (ms_cache m) \<inter> visible env ring late rawFor \<union> ({h} \<inter> visible env ring late rawFor))"
  proof (cases "map_of (ms_cache m) h")
    case None
    then have "listEntry env (h, rawFor h) m = (case openEntry env (ms_ring m) (rawFor h) of Inl _ \<Rightarrow> m | Inr o' \<Rightarrow> addOpened h (rawFor h) o' m)"
      by (simp add: listEntry_def)
    from moves_add [OF assms this] show ?thesis by (auto simp: moves_def)
  next
    case (Some had)
    note u = cache_raw [OF g Some, of "had\<lparr>ce_raw := Some (rawFor h)\<rparr>", simplified]
    have "h \<in> fst ` set (ms_cache m)" using map_of_SomeD [OF Some] by force
    then show ?thesis using Some u assms(1) by (intro movesI [where val' = val]) (auto simp: listEntry_def mem_ok_def ring_good_def extends_def)
  qed
qed

lemma listEntries_moves:
  assumes "mem_ok env keys ring late rawFor val m" "ms_ring m = Some ring" "\<forall>(h, raw)\<in>set es. h \<noteq> [] \<and> raw = rawFor h"
  shows "moves env keys ring late rawFor val m (fold (listEntry env) es m)
      (fst ` set (ms_cache m) \<inter> visible env ring late rawFor \<union> (fst ` set es \<inter> visible env ring late rawFor))
    \<and> ms_ring (fold (listEntry env) es m) = Some ring"
  using assms
proof (induction es arbitrary: m val)
  case (Cons e es)
  obtain h where e: "e = (h, rawFor h)" "h \<noteq> []" using Cons.prems(3) by (cases e) auto
  let ?m = "listEntry env e m" and ?v = "visible env ring late rawFor"
  note l = listEntry_moves [OF Cons.prems(1,2) e(2), folded e(1)]
  have rest: "\<forall>(h, raw)\<in>set es. h \<noteq> [] \<and> raw = rawFor h" using Cons.prems(3) by simp
  have "moves env keys ring late rawFor v ?m (fold (listEntry env) es ?m) (fst ` set (ms_cache ?m) \<inter> ?v \<union> (fst ` set es \<inter> ?v)) \<and> ms_ring (fold (listEntry env) es ?m) = Some ring"
    if "mem_ok env keys ring late rawFor v ?m" for v by (rule Cons.IH [OF that l(2) rest])
  moreover have "fst ` set (ms_cache ?m) \<inter> ?v \<union> (fst ` set es \<inter> ?v) = fst ` set (ms_cache m) \<inter> ?v \<union> (fst ` set (e # es) \<inter> ?v)"
    using moves_view [OF l(1)] e(1) by auto
  ultimately show ?case using moves_trans [OF l(1)] l(1) by (auto simp: moves_def)
qed (auto intro: movesI)

lemma emit_ring: "ms_ring (fst (emit f m)) = ms_ring m"
  by (simp add: emit_def previews_def Let_def case_prod_unfold)

lemma listPage_moves:
  assumes "mem_ok env keys ring late rawFor val m" "ms_ring m = Some ring" "\<forall>(h, raw)\<in>set (lr_entries res). h \<noteq> [] \<and> raw = rawFor h"
    and "listPage env res (seen, first) m = (m', seen')"
  shows "moves env keys ring late rawFor val m m'
      (fst ` set (ms_cache m) \<inter> visible env ring late rawFor \<union> (fst ` set (lr_entries res) \<inter> visible env ring late rawFor))
    \<and> ms_ring m' = Some ring \<and> set seen' = set seen \<union> fst ` set (lr_entries res)"
proof -
  let ?m = "fold (listEntry env) (lr_entries res) m"
  note l = listEntries_moves [OF assms(1-3)]
  have e: "m' = (if first \<and> cursorOf res \<noteq> [] then fst (emit False ?m) else ?m)" "seen' = fold setAdd (map fst (lr_entries res)) seen"
    using assms(4) by (simp_all add: listPage_def Let_def)
  then have m': "m' = ?m \<or> m' = fst (emit False ?m)" and s': "set seen' = set seen \<union> fst ` set (lr_entries res)" by simp_all
  have view: "fst ` set (ms_cache ?m) \<inter> visible env ring late rawFor
     = fst ` set (ms_cache m) \<inter> visible env ring late rawFor \<union> (fst ` set (lr_entries res) \<inter> visible env ring late rawFor)"
    using moves_view [of env keys ring late rawFor val m ?m] l by blast
  have "moves env keys ring late rawFor val m (fst (emit False ?m)) (fst ` set (ms_cache ?m) \<inter> visible env ring late rawFor)"
    using moves_trans [OF conjunct1 [OF l], of "fst (emit False ?m)"] emit_moves [of env keys ring late rawFor _ ?m False] by blast
  then show ?thesis using m' l s' by (auto simp: view emit_ring)
qed

lemma listingPages_moves:
  assumes "mem_ok env keys ring late rawFor val m" "ms_ring m = Some ring" "answers_ok rawFor answers" "listingPages env answers (seen, first) m = (m', r)"
  shows "moves env keys ring late rawFor val m m'
      (fst ` set (ms_cache m) \<inter> visible env ring late rawFor \<union> (fst (listedOf answers) \<inter> visible env ring late rawFor))
    \<and> (\<forall>seen'. r = Some seen' \<longrightarrow> set seen' = set seen \<union> fst (listedOf answers) \<and> snd (listedOf answers))"
  using assms
proof (induction answers arbitrary: m val seen first)
  case (Cons a answers)
  show ?case
  proof (cases a)
    case None
    then show ?thesis using Cons.prems by (auto intro: movesI)
  next
    case (Some res)
    obtain m1 seen1 where pg: "listPage env res (seen, first) m = (m1, seen1)" by fastforce
    have ent: "\<forall>(h, raw)\<in>set (lr_entries res). h \<noteq> [] \<and> raw = rawFor h" "answers_ok rawFor answers"
      using Cons.prems(3) Some by (auto simp: answers_ok_def)
    note p1 = listPage_moves [OF Cons.prems(1,2) ent(1) pg]
    show ?thesis
    proof (cases "cursorOf res = []")
      case True
      then show ?thesis using p1 Cons.prems(4) Some pg by auto
    next
      case False
      then have r: "listingPages env answers (seen1, False) m1 = (m', r)" using Cons.prems(4) Some pg by simp
      let ?v = "visible env ring late rawFor"
      have ih: "moves env keys ring late rawFor v m1 m' (fst ` set (ms_cache m1) \<inter> ?v \<union> (fst (listedOf answers) \<inter> ?v))
        \<and> (\<forall>seen'. r = Some seen' \<longrightarrow> set seen' = set seen1 \<union> fst (listedOf answers) \<and> snd (listedOf answers))"
        if "mem_ok env keys ring late rawFor v m1" for v by (rule Cons.IH [OF that _ ent(2) r]) (use p1 in simp)
      have eq: "fst ` set (ms_cache m1) \<inter> ?v \<union> (fst (listedOf answers) \<inter> ?v) = fst ` set (ms_cache m) \<inter> ?v \<union> (fst (listedOf (a # answers)) \<inter> ?v)"
        using moves_view [OF conjunct1 [OF p1]] Some False by auto
      have "moves env keys ring late rawFor val m m' (fst ` set (ms_cache m) \<inter> ?v \<union> (fst (listedOf (a # answers)) \<inter> ?v))"
        using moves_trans [OF conjunct1 [OF p1]] ih unfolding eq by blast
      moreover have "\<exists>v. mem_ok env keys ring late rawFor v m1" using p1 by (auto simp: moves_def)
      ultimately show ?thesis using ih p1 Some False by auto
    qed
  qed
qed (auto intro: movesI)

lemma listAll_ok:
  assumes "mail_good env keys ring late rawFor s" "io_ok keys ring late io" "answers_ok rawFor answers" "listAll env io answers s = (s', r)"
  defines "vis \<equiv> visible env ring late rawFor"
  shows "mail_good env keys ring late rawFor s' \<and> ms_position (snd s') = ms_position (snd s)
    \<and> (\<forall>ps. r = Inr ps \<longrightarrow> snd (listedOf answers) \<and> rowsOf vis s' = fst (listedOf answers) \<inter> vis)
    \<and> (\<forall>e. r = Inl e \<longrightarrow> rowsOf vis s \<subseteq> rowsOf vis s' \<and> rowsOf vis s' \<subseteq> rowsOf vis s \<union> (fst (listedOf answers) \<inter> vis))
    \<and> (keptOn env vis s' = keptOn env vis s \<or> keptOn env vis s' = (rowsOf vis s', positionOf s'))"
proof -
  obtain db m where s: "s = (db, m)" by (cases s)
  obtain val where g: "preview_laws (mv_preview env)" "mem_ok env keys ring late rawFor val m" "kept_ok env keys ring rawFor val (db, m)"
    using assms(1) by (auto simp: mail_good_iff s)
  define m0 where "m0 = m\<lparr>ms_ring := Some ring, ms_retired := late\<rparr>"
  have b: "listBegin env io s = (db, m0)"
    using g(2) assms(2) by (simp add: listBegin_def s restore_id mem_ok_def io_ok_def m0_def)
  have m0: "mem_ok env keys ring late rawFor val m0" "ms_ring m0 = Some ring" "extends m val m0 val" "ms_cache m0 = ms_cache m"
    using g(2) by (auto simp: m0_def mem_ok_def ring_good_def extends_def)
  obtain m1 r1 where p: "listingPages env answers ([], True) m0 = (m1, r1)" by fastforce
  note lp = listingPages_moves [OF m0(1,2) assms(3) p]
  obtain v1 where v1: "mem_ok env keys ring late rawFor v1 m1" "extends m0 val m1 v1"
    and view: "fst ` set (ms_cache m1) \<inter> vis = fst ` set (ms_cache m) \<inter> vis \<union> (fst (listedOf answers) \<inter> vis)"
    using lp m0(4) by (auto simp: moves_def vis_def)
  have x1: "extends m val m1 v1" by (rule extends_trans [OF m0(3) v1(2)])
  have k1: "kept_ok env keys ring rawFor v1 (db, m1)" by (rule kept_ok_extends [OF g(3) x1])
  show ?thesis
  proof (cases r1)
    case None
    then have "s' = (db, m1)" "r = Inl RelayFailed" using assms(4) b p by (simp_all add: listAll_def)
    then show ?thesis using g(1) v1(1) k1 view x1 keptOn_extends [OF x1, of env vis db] by (auto simp: mail_good_iff rowsOf_def s extends_def)
  next
    case (Some seen)
    then have seen: "set seen = fst (listedOf answers)" "snd (listedOf answers)" using lp by auto
    define m2 where "m2 = m1\<lparr>ms_cache := filter (\<lambda>(h, _). h \<in> set seen) (ms_cache m1), ms_listed := True\<rparr>"
    have m2: "mem_ok env keys ring late rawFor v1 m2" "extends m1 v1 m2 v1"
      using v1(1) by (auto simp: m2_def mem_ok_def ring_good_def extends_def cache_good_def cache_objs_def distinct_map_filter)
    obtain v3 where v3: "mem_ok env keys ring late rawFor v3 (fst (emit False m2))" "extends m2 v1 (fst (emit False m2)) v3"
      and view3: "fst ` set (ms_cache (fst (emit False m2))) \<inter> vis = fst ` set (ms_cache m2) \<inter> vis"
      using emit_moves [OF m2(1), of False] by (auto simp: moves_def vis_def)
    have x3: "extends m val (fst (emit False m2)) v3" by (rule extends_trans [OF x1 extends_trans [OF m2(2) v3(2)]])
    have k3: "kept_ok env keys ring rawFor v3 (db, fst (emit False m2))" by (rule kept_ok_extends [OF g(3) x3])
    obtain ok where sv: "saveRows env io (db, fst (emit False m2)) = (s', ok)" and r: "r = Inr (snd (emit False m2))"
      using assms(4) b p Some
      by (cases "saveRows env io (db, fst (emit False m2))") (auto simp: listAll_def listEnd_def persist_def m2_def [symmetric] split: prod.splits)
    have "iv_ok (io_ivf io)" using assms(2) by (simp add: io_ok_def)
    note sr = saveRows_ok [OF g(1) v3(1) k3 this sv, of vis]
    have "fst ` set (ms_cache m2) = fst ` set (ms_cache m1) \<inter> set seen" by (force simp: m2_def)
    then have "fst ` set (ms_cache m2) \<inter> vis = fst (listedOf answers) \<inter> vis" using view seen(1) by blast
    then have "rowsOf vis s' = fst (listedOf answers) \<inter> vis" using sr view3 by (simp add: rowsOf_def)
    moreover have "ms_position (fst (emit False m2)) = ms_position m" using x3 by (simp add: extends_def)
    ultimately show ?thesis using sr r seen(2) keptOn_extends [OF x3, of env vis db] by (auto simp: s rowsOf_def positionOf_def)
  qed
qed

subsection \<open>The contract\<close>

definition mailboxTarget :: "mailbox_env \<Rightarrow> (nat \<Rightarrow> nat \<Rightarrow> mailbox_io) \<Rightarrow> (nat \<Rightarrow> ListResp option list) \<Rightarrow> mbox FeedTarget" where
  "mailboxTarget env ios answers =
     \<lparr>ft_list = (\<lambda>i s. case listAll env (ios i 0) (answers i) s of (s', Inl e) \<Rightarrow> (s', Some e) | (s', Inr _) \<Rightarrow> (s', None)),
      ft_applyEvents = (\<lambda>i es s. applyEvents env (ios i 1) es s),
      ft_feedPosition = feedPosition env (ios 0 3),
      ft_setFeedPosition = (\<lambda>i p s. setFeedPosition env (ios i 2) p s),
      ft_invalidateRing = invalidateRing\<rparr>"

definition target_good ::
    "mailbox_env \<Rightarrow> (nat \<Rightarrow> nat \<Rightarrow> mailbox_io) \<Rightarrow> (nat \<Rightarrow> ListResp option list) \<Rightarrow> WorkingKeys \<Rightarrow> keyring \<Rightarrow> retirements \<Rightarrow> (string \<Rightarrow> string) \<Rightarrow> mbox \<Rightarrow> bool" where
  "target_good env ios answers keys ring late rawFor s \<longleftrightarrow> (\<forall>i c. io_ok keys ring late (ios i c)) \<and> (\<forall>i. answers_ok rawFor (answers i))
     \<and> mail_good env keys ring late rawFor s"

lemma applyEvents_ok:
  assumes "mail_good env keys ring late rawFor s" "io_ok keys ring late io"
    and "\<forall>e\<in>set es. given (ev_entry e) \<longrightarrow> (\<exists>h. mailOf e = Some h \<and> ev_entry e = Some (rawFor h))" "applyEvents env io es s = (s', err)"
  defines "vis \<equiv> visible env ring late rawFor"
  shows "mail_good env keys ring late rawFor s' \<and> positionOf s' = positionOf s \<and> rowsOf vis s' = replay vis es (rowsOf vis s)
    \<and> (keptOn env vis s' = keptOn env vis s \<or> keptOn env vis s' = (rowsOf vis s', positionOf s'))"
proof -
  obtain db m where s: "s = (db, m)" by (cases s)
  obtain val where g: "preview_laws (mv_preview env)" "mem_ok env keys ring late rawFor val m" "kept_ok env keys ring rawFor val (db, m)"
    using assms(1) by (auto simp: mail_good_iff s)
  obtain changed m1 where f: "fold (applyEvent env io) es (False, m) = (changed, m1)" by fastforce
  obtain v1 where v1: "mem_ok env keys ring late rawFor v1 m1" "extends m val m1 v1" "fst ` set (ms_cache m1) \<inter> vis = replay vis es (fst ` set (ms_cache m) \<inter> vis)"
    using applyEvents_moves [OF g(2) assms(2,3), of False] f by (auto simp: moves_def vis_def)
  have r: "restore env io s = (db, m)" using g(2) by (simp add: restore_id s mem_ok_def)
  show ?thesis
  proof (cases changed)
    case False
    then have "s' = (db, m1)" using assms(4) r f by (simp add: applyEvents_def)
    then show ?thesis using g(1) v1 kept_ok_extends [OF g(3) v1(2)] keptOn_extends [OF v1(2), of env vis db]
      by (auto simp: mail_good_iff s rowsOf_def positionOf_def extends_def)
  next
    case True
    obtain v2 where v2: "mem_ok env keys ring late rawFor v2 (fst (emit False m1))" "extends m1 v1 (fst (emit False m1)) v2"
      "fst ` set (ms_cache (fst (emit False m1))) \<inter> vis = fst ` set (ms_cache m1) \<inter> vis"
      using emit_moves [OF v1(1), of False] by (auto simp: moves_def vis_def)
    have x: "extends m val (fst (emit False m1)) v2" by (rule extends_trans [OF v1(2) v2(2)])
    obtain ok where sv: "saveRows env io (db, fst (emit False m1)) = (s', ok)"
      using assms(4) r f True by (auto simp: applyEvents_def split: prod.splits)
    have iv: "iv_ok (io_ivf io)" using assms(2) by (simp add: io_ok_def)
    have "ms_position (fst (emit False m1)) = ms_position m" using x by (simp add: extends_def)
    then show ?thesis using saveRows_ok [OF g(1) v2(1) kept_ok_extends [OF g(3) x] iv sv, of vis] v1(3) v2(3) keptOn_extends [OF x, of env vis db]
      by (auto simp: s rowsOf_def positionOf_def)
  qed
qed

lemma setFeedPosition_ok:
  assumes "mail_good env keys ring late rawFor s" "io_ok keys ring late io" "setFeedPosition env io p s = (s', err)"
  shows "mail_good env keys ring late rawFor s' \<and> positionOf s' = Some p \<and> rowsOf vis s' = rowsOf vis s
    \<and> (keptOn env vis s' = keptOn env vis s \<or> keptOn env vis s' = (rowsOf vis s', positionOf s'))"
proof -
  obtain db m where s: "s = (db, m)" by (cases s)
  obtain val where g: "preview_laws (mv_preview env)" "mem_ok env keys ring late rawFor val m" "kept_ok env keys ring rawFor val (db, m)"
    using assms(1) by (auto simp: mail_good_iff s)
  let ?m = "m\<lparr>ms_position := Some p\<rparr>"
  have m: "mem_ok env keys ring late rawFor val ?m" "kept_ok env keys ring rawFor val (db, ?m)"
    using g(2,3) by (simp_all add: mem_ok_def ring_good_def kept_ok_def)
  obtain ok where sv: "saveRows env io (db, ?m) = (s', ok)"
    using assms(3) g(2) by (auto simp: setFeedPosition_def s restore_id mem_ok_def split: prod.splits)
  have iv: "iv_ok (io_ivf io)" using assms(2) by (simp add: io_ok_def)
  have "keptOn env vis (db, ?m) = keptOn env vis (db, m)" by (rule keptOn_cong) simp_all
  then show ?thesis using saveRows_ok [OF g(1) m iv sv, of vis] by (auto simp: s rowsOf_def positionOf_def)
qed

interpretation mb: feed_target "mailboxTarget env ios answers" "target_good env ios answers keys ring late rawFor"
  "rowsOf (visible env ring late rawFor)" positionOf "keptOn env (visible env ring late rawFor)" "visible env ring late rawFor" rawFor
  "\<lambda>i. fst (listedOf (answers i))" "\<lambda>i. snd (listedOf (answers i))"
  for env ios answers keys ring late rawFor
proof unfold_locales
  fix s s' :: mbox and i :: nat and es p and err :: "mailbox_error option"
  assume g: "target_good env ios answers keys ring late rawFor s"
  then have good: "mail_good env keys ring late rawFor s" and io: "io_ok keys ring late (ios i c)" and an: "answers_ok rawFor (answers i)" for i c
    by (simp_all add: target_good_def)
  have res: "ms_restored (snd s)" using good by (simp add: mail_good_def)
  show "ft_feedPosition (mailboxTarget env ios answers) s = (s, positionOf s)"
    by (simp add: mailboxTarget_def feedPosition_def restore_id [OF res] Let_def positionOf_def)
  show "target_good env ios answers keys ring late rawFor (ft_invalidateRing (mailboxTarget env ios answers) s)
      \<and> rowsOf (visible env ring late rawFor) (ft_invalidateRing (mailboxTarget env ios answers) s) = rowsOf (visible env ring late rawFor) s
      \<and> positionOf (ft_invalidateRing (mailboxTarget env ios answers) s) = positionOf s
      \<and> keptOn env (visible env ring late rawFor) (ft_invalidateRing (mailboxTarget env ios answers) s) = keptOn env (visible env ring late rawFor) s"
    using g keptOn_cong [of "(fst s, (snd s)\<lparr>ms_ring := None\<rparr>)" s env "visible env ring late rawFor"]
    by (simp add: target_good_def mailboxTarget_def invalidateRing_def mail_good_def ring_good_def kept_ok_def rowsOf_def positionOf_def)
  show "target_good env ios answers keys ring late rawFor s' \<and> positionOf s' = positionOf s
      \<and> rowsOf (visible env ring late rawFor) s' = replay (visible env ring late rawFor) es (rowsOf (visible env ring late rawFor) s)
      \<and> (keptOn env (visible env ring late rawFor) s' = keptOn env (visible env ring late rawFor) s
         \<or> keptOn env (visible env ring late rawFor) s' = (rowsOf (visible env ring late rawFor) s', positionOf s'))"
    if "\<forall>e\<in>set es. given (ev_entry e) \<longrightarrow> (\<exists>h. mailOf e = Some h \<and> ev_entry e = Some (rawFor h))"
      and "ft_applyEvents (mailboxTarget env ios answers) i es s = (s', err)"
    using applyEvents_ok [OF good io that(1), of i 1 s' err] that(2) g by (auto simp: target_good_def mailboxTarget_def)
  show "target_good env ios answers keys ring late rawFor s' \<and> positionOf s' = Some p
      \<and> rowsOf (visible env ring late rawFor) s' = rowsOf (visible env ring late rawFor) s
      \<and> (keptOn env (visible env ring late rawFor) s' = keptOn env (visible env ring late rawFor) s
         \<or> keptOn env (visible env ring late rawFor) s' = (rowsOf (visible env ring late rawFor) s', positionOf s'))"
    if "ft_setFeedPosition (mailboxTarget env ios answers) i p s = (s', err)"
    using setFeedPosition_ok [OF good io, of i 2 p s' err "visible env ring late rawFor"] that g by (auto simp: target_good_def mailboxTarget_def)
  show "target_good env ios answers keys ring late rawFor s' \<and> positionOf s' = positionOf s
      \<and> (err = None \<longrightarrow> snd (listedOf (answers i)) \<and> rowsOf (visible env ring late rawFor) s' = fst (listedOf (answers i)) \<inter> visible env ring late rawFor)
      \<and> (err \<noteq> None \<longrightarrow> rowsOf (visible env ring late rawFor) s \<subseteq> rowsOf (visible env ring late rawFor) s'
          \<and> rowsOf (visible env ring late rawFor) s' \<subseteq> rowsOf (visible env ring late rawFor) s \<union> fst (listedOf (answers i)) \<inter> visible env ring late rawFor)
      \<and> (keptOn env (visible env ring late rawFor) s' = keptOn env (visible env ring late rawFor) s
         \<or> keptOn env (visible env ring late rawFor) s' = (rowsOf (visible env ring late rawFor) s', positionOf s'))"
    if "ft_list (mailboxTarget env ios answers) i s = (s', err)"
  proof -
    obtain r where "listAll env (ios i 0) (answers i) s = (s', r)" "err = (case r of Inl e \<Rightarrow> Some e | Inr _ \<Rightarrow> None)"
      using \<open>ft_list (mailboxTarget env ios answers) i s = (s', err)\<close> by (auto simp: mailboxTarget_def split: prod.splits sum.splits)
    with listAll_ok [OF good io an this(1)] show ?thesis using g by (cases r) (auto simp: target_good_def positionOf_def)
  qed
qed

subsection \<open>Starting again from the device\<close>

lemma fold_keptRow:
  assumes "distinct (map fst rows)" "fst ` set rows \<inter> fst ` set cache = {}"
  shows "fold keptRow rows cache = cache @ map (\<lambda>(h, r). (h, \<lparr>ce_preview = cr_preview r, ce_raw = None, ce_opened = None\<rparr>)) rows"
  using assms
proof (induction rows arbitrary: cache)
  case (Cons e rows)
  obtain h r where e: "e = (h, r)" by (cases e)
  let ?c = "\<lparr>ce_preview = cr_preview r, ce_raw = None, ce_opened = None\<rparr>"
  have "h \<notin> fst ` set cache" using Cons.prems(2) e by auto
  then have "keptRow e cache = cache @ [(h, ?c)]" by (induction cache) (auto simp: e keptRow_def map_of_eq_None_iff)
  then show ?case using Cons e by (auto simp: image_iff)
qed simp

text \<open>A database that holds rows and a position for the account: what a writer leaves, or a wiped one.\<close>

definition device_holds :: "mailbox_env \<Rightarrow> WorkingKeys \<Rightarrow> cache_db \<Rightarrow> register \<Rightarrow> bool" where
  "device_holds env keys db reg \<longleftrightarrow> (\<exists>pc. account_cache env keys = Some pc \<and> length (pc_key pc) = 32 \<and> slots_ok (pc_ns pc) db
     \<and> marked (mv_preview env) (db, pc) \<and> holdsRows (mv_preview env) (db, pc) (fst reg) \<and> readPosition (mv_preview env) (db, pc) = snd reg)"

definition regRows :: "register \<Rightarrow> string set" where
  "regRows reg = {h. fst reg h \<noteq> None}"

text \<open>Which instance reads does not matter, only its slots and its key.\<close>

lemma same_slots:
  assumes "pc_ns pc = pc_ns pc'" "pc_key pc = pc_key pc'"
  shows "holdsRows env (db, pc) m = holdsRows env (db, pc') m" "marked env (db, pc) = marked env (db, pc')"
    and "readPosition env (db, pc) = readPosition env (db, pc')"
proof -
  have "slotPlain env (db, pc) = slotPlain env (db, pc')"
    using assms by (auto simp: slotPlain_def pcUnseal_def fun_eq_iff map_option_case cong: option.case_cong cache_value.case_cong)
  then have "bucketAt env (db, pc) = bucketAt env (db, pc')" by (simp add: bucketAt_def fun_eq_iff)
  then show "holdsRows env (db, pc) m = holdsRows env (db, pc') m" by (simp add: holdsRows_def)
  show "marked env (db, pc) = marked env (db, pc')" "readPosition env (db, pc) = readPosition env (db, pc')"
    using assms by (simp_all add: marked_def readPosition_def pcUnseal_def Let_def cong: option.case_cong cache_value.case_cong)
qed

lemma device_load:
  assumes "device_holds env keys db reg" "account_cache env keys = Some pc0" "pc_ns pc = pc_ns pc0" "pc_key pc = pc_key pc0"
    and "pcLoad (mv_preview env) iv n (db, pc) = (s', n', rows, position)"
  shows "fst s' = db \<and> storedMap rows = fst reg \<and> position = snd reg \<and> pc_saved (snd s') = rows \<and> pc_ns (snd s') = pc_ns pc \<and> pc_key (snd s') = pc_key pc
    \<and> (\<exists>val. objs_ok val n' rows)"
proof -
  have h: "slots_ok (pc_ns pc) db" "marked (mv_preview env) (db, pc)" "holdsRows (mv_preview env) (db, pc) (fst reg)" "readPosition (mv_preview env) (db, pc) = snd reg"
    using assms(1,2,3) same_slots [OF assms(3,4)] by (auto simp: device_holds_def)
  show ?thesis using pcLoad_ok [OF h(3,1,2) assms(5)] h(4) by blast
qed

lemma writer_device:
  assumes "mail_good env keys ring late rawFor s" "ms_rows (snd s) = Some pc" "ms_writer (snd s)" "\<not> pc_full pc"
  obtains reg where "device_holds env keys (fst s) reg" "\<forall>h p v. fst reg h = Some (p, v) \<longrightarrow> h \<noteq> [] \<and> openRow env ring rawFor h = Some p"
    and "keptOn env vis s = (regRows reg \<inter> vis, snd reg)"
proof -
  obtain val reg pc0 where g: "writer_state (mv_preview env) val (fst s, pc) reg" "reg_good env ring rawFor pc reg"
    "account_cache env keys = Some pc0" "pc_ns pc = pc_ns pc0" "pc_key pc = pc_key pc0"
    using assms(1-3) by (auto simp: mail_good_iff kept_ok_def)
  have d: "device_holds env keys (fst s) reg"
    using g assms(4) same_slots [OF g(4,5)] unfolding device_holds_def by (intro exI [of _ pc0]) (simp add: writer_state_def)
  obtain x n rows p where l: "pcLoad (mv_preview env) (replicate 12 0) 0 (fst s, pc) = (x, n, rows, p)" by (metis surj_pair)
  have "storedMap rows = fst reg \<and> p = snd reg" using device_load [OF d g(3-5) l] by blast
  then have "keptOn env vis s = (regRows reg \<inter> vis, snd reg)"
    using assms(2,3) l dom_storedMap [of rows] by (simp add: keptOn_def regRows_def)
  with d g(2) assms(4) that show ?thesis by (auto simp: reg_good_def)
qed

text \<open>What the first load of an instance finds, and leaves.\<close>

definition loads_as :: "mailbox_env \<Rightarrow> WorkingKeys \<Rightarrow> bytes \<Rightarrow> nat \<Rightarrow> cache_db \<Rightarrow> cache_db \<Rightarrow> register \<Rightarrow> bool" where
  "loads_as env keys iv n db db' reg \<longleftrightarrow> device_holds env keys db' reg \<and> (\<exists>pc0 pc n' rows. account_cache env keys = Some pc0
     \<and> pcLoad (mv_preview env) iv n (db, pc0) = ((db', pc), n', rows, snd reg) \<and> storedMap rows = fst reg \<and> pc_saved pc = rows
     \<and> pc_ns pc = pc_ns pc0 \<and> pc_key pc = pc_key pc0 \<and> (\<exists>val. objs_ok val n' rows))"

lemma device_loads_as:
  assumes "device_holds env keys db reg"
  shows "loads_as env keys iv n db db reg"
proof -
  obtain pc0 where pc0: "account_cache env keys = Some pc0" using assms by (auto simp: device_holds_def)
  obtain d pc n' rs p where l: "pcLoad (mv_preview env) iv n (db, pc0) = ((d, pc), n', rs, p)" by (metis surj_pair)
  show ?thesis using device_load [OF assms pc0 refl refl l] assms pc0 l unfolding loads_as_def by auto
qed

text \<open>A device that has nothing of the account starts from nothing.\<close>

lemma fresh_loads_as:
  assumes "preview_laws (mv_preview env)" "account_cache env keys = Some pc" "length (pc_key pc) = 32" "length iv = 12" "distinct (map fst db)"
    and fresh: "\<forall>k\<in>fst ` set db. \<not> startsWith (pc_ns pc) k"
  shows "\<exists>db'. loads_as env keys iv n db db' ((\<lambda>_. None), None)"
proof -
  let ?meta = "pc_ns pc @ ''meta''"
  have none: "map_of db (pc_ns pc @ slot) = None" for slot
    using fresh by (fastforce simp: map_of_eq_None_iff startsWith_def)
  define db' where "db' = idbPutMany [(?meta, MetaV HEADERS_VERSION (dsSeal (pe_crypto (mv_preview env)) (pc_key pc) iv ?meta CHECK))] [] (idbDeletePrefix (pc_ns pc) db)"
  let ?pc = "pc\<lparr>pc_saved := [], pc_withEntry := [], pc_intact := True\<rparr>"
  have l: "pcLoad (mv_preview env) iv n (db, pc) = ((db', ?pc), n, [], None)"
    by (simp add: pcLoad_def keepIfOpens_def none Let_def db'_def)
  have "\<not> startsWith (pc_ns pc @ ''b/'') k" if "k \<in> fst ` set db" for k
    using bspec [OF fresh that] unfolding startsWith_def by (metis append_assoc append_eq_conv_conj append_take_drop_id)
  then have "slots_ok (pc_ns pc) db" using assms(5) by (simp add: slots_ok_def)
  then have m: "marked (mv_preview env) (db', pc)" "slots_ok (pc_ns pc) db'"
    using pcLoad_marked [OF assms(1,4,3) l] same_slots(2) [of ?pc pc] by auto
  have free: "map_of db' (pc_ns pc @ slot) = None" if "slot \<noteq> ''meta''" for slot
    using none that by (auto simp: db'_def idbPutMany_def idbDeletePrefix_def map_of_eq_None_iff dom_update)
  have "bucketAt (mv_preview env) (db', pc) id' = Some []" for id' using free [of "''b/'' @ id'"] by (simp add: bucketAt_def slotPlain_def)
  then have h: "holdsRows (mv_preview env) (db', pc) (\<lambda>_. None)" by (simp add: holdsRows_def)
  have p: "readPosition (mv_preview env) (db', pc) = None" using free [of "''position''"] by (simp add: readPosition_def)
  have d: "device_holds env keys db' ((\<lambda>_. None), None)" using assms(2,3) m h p by (auto simp: device_holds_def)
  have "objs_ok val n []" for val by (simp add: objs_ok_def rows_ok_def)
  then have "loads_as env keys iv n db db' ((\<lambda>_. None), None)"
    unfolding loads_as_def using d assms(2) l by (auto simp: storedMap_def fun_eq_iff)
  then show ?thesis ..
qed

lemma restore_ok:
  assumes laws: "preview_laws (mv_preview env)" and ld: "loads_as env keys (io_iv io) n db db' reg"
    and rows: "\<forall>h p v. fst reg h = Some (p, v) \<longrightarrow> h \<noteq> [] \<and> openRow env ring rawFor h = Some p" and io: "io_loads io"
  shows "\<exists>m val pc pc0. restore env io (db, newMailbox keys n) = (db', m) \<and> mem_ok env keys ring late rawFor val m
    \<and> fst ` set (ms_cache m) \<inter> visible env ring late rawFor = regRows reg \<inter> visible env ring late rawFor
    \<and> ms_position m = snd reg \<and> ms_rows m = Some pc \<and> \<not> ms_writer m
    \<and> account_cache env keys = Some pc0 \<and> pc_ns pc = pc_ns pc0 \<and> pc_key pc = pc_key pc0 \<and> objs_ok val (ms_objects m) (pc_saved pc)"
proof -
  obtain pc0 pc n' rs val where l: "account_cache env keys = Some pc0" "pcLoad (mv_preview env) (io_iv io) n (db, pc0) = ((db', pc), n', rs, snd reg)"
    and r: "storedMap rs = fst reg" "pc_saved pc = rs" "pc_ns pc = pc_ns pc0" "pc_key pc = pc_key pc0" and v: "objs_ok val n' rs"
    using ld by (auto simp: loads_as_def)
  let ?cache = "map (\<lambda>(h, r). (h, \<lparr>ce_preview = cr_preview r, ce_raw = None, ce_opened = None\<rparr>)) rs"
  have d: "distinct (map fst rs)" using v by (simp add: objs_ok_def rows_ok_def)
  define m1 where "m1 = (newMailbox keys n)\<lparr>ms_restored := True, ms_rows := Some pc, ms_objects := n', ms_cache := ?cache, ms_position := snd reg\<rparr>"
  have re: "restore env io (db, newMailbox keys n) = (db', if ?cache \<noteq> [] then fst (emit False m1) else m1)"
    using l io fold_keptRow [OF d, of "[]"] unfolding restore_def account_cache_def m1_def by (simp add: newMailbox_def Let_def)
  have row: "h \<noteq> [] \<and> openRow env ring rawFor h = Some (snd (cr_preview r'))" if "(h, r') \<in> set rs" for h r'
  proof -
    have "map_of rs h = Some r'" using d that by simp
    then have "fst reg h = Some (snd (cr_preview r'), cr_version r')" using r(1) by (metis storedMap_def option.simps(9))
    then show ?thesis using rows by blast
  qed
  have "cache_good env ring rawFor ?cache" using row d by (auto simp: cache_good_def comp_def case_prod_unfold)
  moreover have "cache_objs val n' ?cache" using v by (auto simp: cache_objs_def objs_ok_def rows_ok_def)
  ultimately have m1: "mem_ok env keys ring late rawFor val m1" by (simp add: m1_def mem_ok_def ring_good_def newMailbox_def)
  have wr: "\<not> ms_writer m1" "ms_position m1 = snd reg" "ms_rows m1 = Some pc" "ms_objects m1 = n'" by (simp_all add: m1_def newMailbox_def)
  have k: "fst ` set (ms_cache m1) = regRows reg" using dom_storedMap [of rs] unfolding r(1) by (simp add: regRows_def m1_def image_image case_prod_unfold)
  obtain v2 where e: "mem_ok env keys ring late rawFor v2 (fst (emit False m1))" "extends m1 val (fst (emit False m1)) v2"
    "fst ` set (ms_cache (fst (emit False m1))) \<inter> visible env ring late rawFor = fst ` set (ms_cache m1) \<inter> visible env ring late rawFor"
    using emit_moves [OF m1, of False] by (auto simp: moves_def)
  have o2: "objs_ok v2 (ms_objects (fst (emit False m1))) rs"
    by (rule objs_ok_mono [OF v]) (use e(2) wr(4) in \<open>auto simp: extends_def\<close>)
  show ?thesis
  proof (cases "?cache \<noteq> []")
    case True
    then show ?thesis using re e wr k r o2 l(1) by (intro exI [of _ "fst (emit False m1)"] exI [of _ v2] exI [of _ pc] exI [of _ pc0]) (simp add: extends_def)
  next
    case False
    then show ?thesis using re m1 wr k r v l(1) by (intro exI [of _ m1] exI [of _ val] exI [of _ pc] exI [of _ pc0]) simp
  qed
qed

lemma rewriteAll_parts [simp]: "pc_ns (rewriteAll pc) = pc_ns pc" "pc_key (rewriteAll pc) = pc_key pc" "pc_saved (rewriteAll pc) = pc_saved pc" "pc_full (rewriteAll pc)"
  by (simp_all add: rewriteAll_def)

text \<open>An instance that starts from what a device holds and takes over the list is good, and stands where the device stands.\<close>

lemma becomeWriter_ok:
  assumes laws: "preview_laws (mv_preview env)" and ld: "loads_as env keys (io_iv io) n db db' reg"
    and rows: "\<forall>h p v. fst reg h = Some (p, v) \<longrightarrow> h \<noteq> [] \<and> openRow env ring rawFor h = Some p" and io: "io_loads io" "io_ok keys ring late io"
    and bw: "becomeWriter env io (db, newMailbox keys n) = (s', err)"
  defines "vis \<equiv> visible env ring late rawFor"
  shows "mail_good env keys ring late rawFor s' \<and> (rowsOf vis s', positionOf s') = (regRows reg \<inter> vis, snd reg) \<and> keptOn env vis s' = (regRows reg \<inter> vis, snd reg)"
proof -
  have dev: "device_holds env keys db' reg" using ld by (simp add: loads_as_def)
  from restore_ok [OF laws ld rows io(1), of late]
  obtain m val pc pc0 where r: "restore env io (db, newMailbox keys n) = (db', m)" "mem_ok env keys ring late rawFor val m"
    "fst ` set (ms_cache m) \<inter> vis = regRows reg \<inter> vis" "ms_position m = snd reg" "ms_rows m = Some pc" "\<not> ms_writer m"
    "account_cache env keys = Some pc0" "pc_ns pc = pc_ns pc0" "pc_key pc = pc_key pc0" "objs_ok val (ms_objects m) (pc_saved pc)"
    unfolding vis_def by blast
  define m1 where "m1 = m\<lparr>ms_writer := True, ms_rows := Some (rewriteAll pc)\<rparr>"
  have mem: "mem_ok env keys ring late rawFor val m1" "ms_rows m1 = Some (rewriteAll pc)" "ms_writer m1" "ms_cache m1 = ms_cache m" "ms_position m1 = snd reg"
    using r(2,4) by (simp_all add: m1_def mem_ok_def ring_good_def)
  have h: "length (pc_key pc) = 32" "slots_ok (pc_ns pc) db'" "marked (mv_preview env) (db', rewriteAll pc)" "readPosition (mv_preview env) (db', rewriteAll pc) = snd reg"
    using dev r(7-9) same_slots [of "rewriteAll pc" pc0] by (auto simp: device_holds_def)
  have "writer_state (mv_preview env) val (db', rewriteAll pc) ((\<lambda>_. None), snd reg)" using h r(10) by (simp add: writer_state_def objs_ok_def)
  moreover have "reg_good env ring rawFor (rewriteAll pc) ((\<lambda>_. None), snd reg)" by (simp add: reg_good_def)
  ultimately have k: "kept_ok env keys ring rawFor val (db', m1)" using r(7-10) mem(2) by (auto simp: kept_ok_def m1_def)
  obtain ok where sv: "saveRows env io (db', m1) = (s', ok)" using bw r(1,5) by (auto simp: becomeWriter_def m1_def split: prod.splits)
  have iv: "iv_ok (io_ivf io)" using io(2) by (simp add: io_ok_def)
  obtain x n2 rs p where l: "pcLoad (mv_preview env) (replicate 12 0) 0 (db', rewriteAll pc) = (x, n2, rs, p)" by (metis surj_pair)
  have "storedMap rs = fst reg \<and> p = snd reg" using device_load [OF dev r(7) _ _ l] r(8,9) by simp
  then have kept: "keptOn env vis (db', m1) = (regRows reg \<inter> vis, snd reg)" using mem(2,3) l dom_storedMap [of rs] by (simp add: keptOn_def regRows_def)
  show ?thesis using saveRows_ok [OF laws mem(1) k iv sv, of vis] mem(4,5) r(3) kept by (auto simp: rowsOf_def positionOf_def)
qed

end
