(* ===== verification/Mailbox_Properties.thy ===== *)
theory Mailbox_Properties
  imports Mailbox_Feed
begin

section \<open>What the mailbox client promises\<close>

text \<open>
  The properties of the mailbox client and of its feed passes: they follow the relay's log, a later instance goes
  on where the device stands, a body is shown only under a verified header, and mail that arrives at a retired
  address is not shown.
\<close>

subsection \<open>A body and its header\<close>

text \<open>What was opened this session was opened with a key of the ring at that time, and its row says what its header says.\<close>

definition opened_ok :: "mailbox_env \<Rightarrow> string \<Rightarrow> CachedEntry \<Rightarrow> bool" where
  "opened_ok env hash c \<longleftrightarrow> (\<forall>o'. ce_opened c = Some o' \<longrightarrow>
     (\<exists>ring raw. openEntry env (Some ring) raw = Inr o') \<and> snd (ce_preview c) = previewOf hash (oe_header o') (oe_address o'))"

definition session_ok :: "mailbox_env \<Rightarrow> MailboxSync \<Rightarrow> bool" where
  "session_ok env m \<longleftrightarrow> (\<forall>(hash, c)\<in>set (ms_cache m). opened_ok env hash c)"

lemma session_sub: "session_ok env m \<Longrightarrow> set (ms_cache m') \<subseteq> set (ms_cache m) \<Longrightarrow> session_ok env m'"
  unfolding session_ok_def by blast

lemma session_update:
  assumes "session_ok env m" "opened_ok env hash c" "ms_cache m' = AList.update hash c (ms_cache m)"
  shows "session_ok env m'"
  using assms unfolding session_ok_def by (auto dest!: set_update)

lemma session_set: "session_ok env m \<Longrightarrow> opened_ok env hash c \<Longrightarrow> session_ok env (m\<lparr>ms_cache := AList.update hash c (ms_cache m)\<rparr>)"
  by (erule session_update) simp_all

lemma session_lookup: "session_ok env m \<Longrightarrow> map_of (ms_cache m) hash = Some c \<Longrightarrow> opened_ok env hash c"
  unfolding session_ok_def by (auto dest: map_of_SomeD)

lemma session_addOpened: "session_ok env m \<Longrightarrow> openEntry env ring raw' = Inr o' \<Longrightarrow> session_ok env (addOpened hash raw o' m)"
  by (cases ring; rule session_update [of env m hash]) (auto simp: addOpened_def opened_ok_def openEntry_def [of env None])

lemma session_emit: "session_ok env m \<Longrightarrow> session_ok env (fst (emit f m))"
  by (erule session_sub) (auto simp: emit_def previews_def Let_def case_prod_unfold)

lemma saveRows_cache [simp]: "ms_cache (snd (fst (saveRows env io s))) = ms_cache (snd s)"
  by (auto simp: saveRows_def split: prod.splits option.splits)

lemma session_persist: "session_ok env (snd s) \<Longrightarrow> session_ok env (snd (persist env io s))"
  by (erule session_sub) (simp add: persist_def)

lemma session_ensureRing [simp]: "ms_cache (ensureRing io m) = ms_cache m"
  by (simp add: ensureRing_def split: prod.splits)

lemma session_restore:
  assumes "session_ok env (snd s)"
  shows "session_ok env (snd (restore env io s))"
proof -
  have kept: "session_ok env m" if "session_ok env m0" "ms_cache m = fold keptRow rows (ms_cache m0)" for m m0 :: MailboxSync and rows
    using that
  proof (induction rows arbitrary: m0)
    case Nil
    then show ?case by (auto intro: session_sub)
  next
    case (Cons e rows)
    have "session_ok env (m0\<lparr>ms_cache := keptRow e (ms_cache m0)\<rparr>)"
    proof (cases "map_of (ms_cache m0) (fst e)")
      case None
      have "opened_ok env (fst e) \<lparr>ce_preview = cr_preview (snd e), ce_raw = None, ce_opened = None\<rparr>" by (simp add: opened_ok_def)
      then show ?thesis by (rule session_update [OF Cons.prems(1)]) (simp add: keptRow_def None case_prod_unfold)
    qed (use Cons.prems(1) in \<open>simp add: keptRow_def case_prod_unfold\<close>)
    from Cons.IH [OF this] Cons.prems(2) show ?case by simp
  qed
  obtain db m where s: "s = (db, m)" by (cases s)
  show ?thesis
  proof (cases "ms_restored m \<or> account_cache env (ms_keys m) = None \<or> \<not> io_loads io")
    case True
    then have "ms_cache (snd (restore env io s)) = ms_cache m" by (auto simp: restore_def s account_cache_def Let_def split: option.split)
    then show ?thesis using assms s by (auto elim: session_sub)
  next
    case False
    then obtain pc where pc: "\<not> ms_restored m" "account_cache env (ms_keys m) = Some pc" "io_loads io" by auto
    obtain db' pc' n rows position where l: "pcLoad (mv_preview env) (io_iv io) (ms_objects m) (db, pc) = ((db', pc'), n, rows, position)"
      by (metis surj_pair)
    define m1 where "m1 = m\<lparr>ms_restored := True, ms_rows := Some pc', ms_objects := n, ms_cache := fold keptRow rows (ms_cache m),
        ms_position := (case ms_position m of None \<Rightarrow> position | Some p \<Rightarrow> Some p)\<rparr>"
    have "restore env io s = (db', if ms_cache m1 \<noteq> [] then fst (emit False m1) else m1)"
      using pc l by (simp add: restore_def s account_cache_def Let_def m1_def)
    moreover have "session_ok env m1" by (rule kept [of m _ rows]) (use assms s in \<open>simp_all add: m1_def\<close>)
    ultimately show ?thesis by (simp add: session_emit)
  qed
qed

lemma session_listEntry:
  assumes "session_ok env m"
  shows "session_ok env (listEntry env e m)"
proof (cases "map_of (ms_cache m) (fst e)")
  case None
  then show ?thesis using assms by (auto simp: listEntry_def case_prod_unfold split: sum.split intro: session_addOpened)
next
  case (Some had)
  have "opened_ok env (fst e) (had\<lparr>ce_raw := Some (snd e)\<rparr>)" using session_lookup [OF assms Some] by (simp add: opened_ok_def)
  then show ?thesis by (rule session_update [OF assms]) (simp add: listEntry_def Some case_prod_unfold)
qed

lemma session_listingPages: "session_ok env m \<Longrightarrow> session_ok env (fst (listingPages env answers vars m))"
proof (induction env answers vars m rule: listingPages.induct)
  case (3 env res answers vars m)
  have "session_ok env (fold (listEntry env) es m)" for es
    using "3.prems" by (induction es arbitrary: m) (simp_all add: session_listEntry)
  then have "session_ok env (fst (listPage env res vars m))" by (simp add: listPage_def Let_def session_emit split: prod.splits)
  then show ?case using "3.IH" by (auto split: prod.splits)
qed simp_all

lemma session_listAll:
  assumes "session_ok env (snd s)"
  shows "session_ok env (snd (fst (listAll env io answers s)))"
proof -
  have b: "session_ok env (snd (listBegin env io s))"
    using session_restore [OF assms, of io] by (auto simp: listBegin_def split: prod.splits elim: session_sub)
  obtain db m where lb: "listBegin env io s = (db, m)" by fastforce
  obtain m' r where lp: "listingPages env answers ([], True) m = (m', r)" by fastforce
  have m': "session_ok env m'" using session_listingPages [of env m answers "([], True)"] b lb lp by simp
  then have "session_ok env (m'\<lparr>ms_cache := filter (\<lambda>(hash, _). hash \<in> set seen) (ms_cache m'), ms_listed := True\<rparr>)" for seen
    by (rule session_sub) auto
  then have e: "session_ok env (snd (persist env io (db, fst (emit False (m'\<lparr>ms_cache := filter (\<lambda>(hash, _). hash \<in> set seen) (ms_cache m'), ms_listed := True\<rparr>)))))" for seen
    by (intro session_persist) (simp add: session_emit)
  show ?thesis using m' e lb lp by (simp add: listAll_def listEnd_def case_prod_unfold split: option.splits)
qed

lemma session_applyEvent:
  assumes "session_ok env m"
  shows "session_ok env (snd (applyEvent env io e (changed, m)))"
proof -
  have del: "session_ok env (m\<lparr>ms_cache := AList.delete h (ms_cache m)\<rparr>)" for h
    using set_delete_sub by (intro session_sub [OF assms]) simp
  have raw: "session_ok env (m\<lparr>ms_cache := AList.update h (had\<lparr>ce_raw := r\<rparr>) (ms_cache m)\<rparr>)" if "map_of (ms_cache m) h = Some had" for h had r
    using session_lookup [OF assms that] by (intro session_set [OF assms]) (simp add: opened_ok_def)
  have ring: "session_ok env (ensureRing io m)" by (rule session_sub [OF assms]) simp
  then show ?thesis using assms del raw session_addOpened [OF ring]
    by (auto simp: applyEvent_def Let_def split: option.split sum.split)
qed

lemma session_applyEvents:
  assumes "session_ok env (snd s)"
  shows "session_ok env (snd (fst (applyEvents env io es s)))"
proof -
  have f: "session_ok env (snd a) \<Longrightarrow> session_ok env (snd (fold (applyEvent env io) es a))" for a
  proof (induction es arbitrary: a)
    case (Cons e es)
    then show ?case using session_applyEvent [of env "snd a" io e "fst a"] by simp
  qed simp
  obtain db m where r: "restore env io s = (db, m)" by fastforce
  then have m: "session_ok env m" using session_restore [OF assms, of io] by simp
  obtain changed m1 where e: "fold (applyEvent env io) es (False, m) = (changed, m1)" by fastforce
  then have "session_ok env m1" using f [of "(False, m)"] m by simp
  then have "session_ok env m1" "session_ok env (snd (fst (saveRows env io (db, fst (emit False m1)))))"
    using session_persist [of env "(db, fst (emit False m1))" io] by (simp_all add: persist_def session_emit)
  then show ?thesis using r e by (simp add: applyEvents_def case_prod_unfold)
qed

lemma session_keptEntry:
  assumes "session_ok env (snd s)"
  shows "session_ok env (snd (fst (keptEntry env io hash s)))"
proof -
  obtain db m where s: "s = (db, m)" by (cases s)
  have "session_ok env (m\<lparr>ms_cache := AList.update hash (c\<lparr>ce_raw := r\<rparr>) (ms_cache m)\<rparr>)" if "map_of (ms_cache m) hash = Some c" for c r
    using session_lookup [of env m hash c] assms s that by (intro session_set) (simp_all add: opened_ok_def)
  moreover have "session_ok env (ensureRing io (m\<lparr>ms_cache := AList.update hash (c\<lparr>ce_raw := r\<rparr>) (ms_cache m)\<rparr>))" if "map_of (ms_cache m) hash = Some c" for c r
    by (rule session_sub [OF calculation [OF that, of r]]) simp
  ultimately show ?thesis using assms s
    by (cases "map_of (ms_cache m) hash"; cases "ms_rows m") (simp_all add: keptEntry_def Let_def)
qed

lemma session_listIfNeeded: "session_ok env (snd s) \<Longrightarrow> session_ok env (snd (fst (listIfNeeded env io answers hash s)))"
  using session_listAll [of env s io answers] by (auto simp: listIfNeeded_def split: prod.split sum.split)

text \<open>Opening a row leaves it as its verified header says; \<open>JSON.stringify\<close> tells different rows apart.\<close>

lemma openCached_ok:
  assumes "session_ok env (snd s)" "inj (previewText env)" "map_of (ms_cache (snd s)) hash = Some cached" "openCached env io hash cached s = (s', r)"
  shows "session_ok env (snd s')"
    and "r = Inr o' \<Longrightarrow> (\<exists>ring raw. openEntry env (Some ring) raw = Inr o') \<and> rowAfter env hash cached o' = previewOf hash (oe_header o') (oe_address o')"
proof -
  obtain db m where s: "s = (db, m)" by (cases s)
  have c: "opened_ok env hash cached" using session_lookup assms(1,3) by blast
  have same: "sameRow env a b \<longleftrightarrow> a = b" for a b using assms(2) by (auto simp: sameRow_def inj_def)
  show "r = Inr o' \<Longrightarrow> (\<exists>ring raw. openEntry env (Some ring) raw = Inr o') \<and> rowAfter env hash cached o' = previewOf hash (oe_header o') (oe_address o')"
  proof (cases "ce_opened cached")
    case None
    assume "r = Inr o'"
    then have "openEntry env (ms_ring m) (case ce_raw cached of None \<Rightarrow> [] | Some r \<Rightarrow> r) = Inr o'"
      using assms(4) None by (auto simp: openCached_def s Let_def split: sum.splits if_splits)
    then have "\<exists>ring raw. openEntry env (Some ring) raw = Inr o'" by (cases "ms_ring m") (auto simp: openEntry_def [of env None])
    then show ?thesis using None by (simp add: rowAfter_def same)
  next
    case (Some o1)
    assume "r = Inr o'"
    then have "o1 = o'" using assms(4) Some by (simp add: openCached_def s)
    then show ?thesis using c Some by (auto simp: opened_ok_def rowAfter_def)
  qed
  show "session_ok env (snd s')"
  proof (cases "ce_opened cached")
    case None
    show ?thesis
    proof (cases "openEntry env (ms_ring m) (case ce_raw cached of None \<Rightarrow> [] | Some r \<Rightarrow> r)")
      case (Inr o1)
      then have o1: "\<exists>ring raw. openEntry env (Some ring) raw = Inr o1" by (cases "ms_ring m") (auto simp: openEntry_def [of env None])
      let ?v = "previewOf hash (oe_header o1) (oe_address o1)"
      define m1 where "m1 = m\<lparr>ms_cache := AList.update hash (cached\<lparr>ce_opened := Some o1\<rparr>) (ms_cache m)\<rparr>"
      define m2 where "m2 = m\<lparr>ms_cache := AList.update hash (cached\<lparr>ce_preview := (ms_objects m, ?v), ce_opened := Some o1\<rparr>) (ms_cache m), ms_objects := Suc (ms_objects m)\<rparr>"
      have m1: "session_ok env m1" if "?v = snd (ce_preview cached)"
        unfolding m1_def using assms(1) s o1 that by (intro session_set) (simp_all add: opened_ok_def)
      have "session_ok env m2"
        by (rule session_update [of env m hash "cached\<lparr>ce_preview := (ms_objects m, ?v), ce_opened := Some o1\<rparr>"])
          (use assms(1) s o1 in \<open>simp_all add: opened_ok_def m2_def\<close>)
      then have m2: "session_ok env (snd (persist env io (db, fst (emit True m2))))" by (intro session_persist) (simp add: session_emit)
      have "s' = (if ?v = snd (ce_preview cached) then (db, m1) else persist env io (db, fst (emit True m2)))"
        using assms(4) None Inr by (auto simp: openCached_def s Let_def same m1_def m2_def)
      then show ?thesis using m1 m2 by auto
    qed (use assms(1,4) None s in \<open>auto simp: openCached_def\<close>)
  qed (use assms(1,4) s in \<open>auto simp: openCached_def\<close>)
qed

lemma fetchFull_ok:
  assumes "session_ok env (snd s)" "inj (previewText env)" "fetchFull env io answers body hash s = (s', r)"
  shows "session_ok env (snd s')"
    and "r = Inr f \<Longrightarrow> \<exists>ring raw o'. openEntry env (Some ring) raw = Inr o' \<and> openBody env o' (previewOf hash (oe_header o') (oe_address o')) body = Inr f"
proof -
  obtain s1 k where k: "keptEntry env io hash (restore env io s) = (s1, k)" by fastforce
  have s1: "session_ok env (snd s1)" using session_keptEntry [OF session_restore [OF assms(1)], of io hash io] k by simp
  obtain s2 e where l: "listIfNeeded env io answers hash s1 = (s2, e)" by fastforce
  have s2: "session_ok env (snd s2)" using session_listIfNeeded [OF s1, of io answers hash] l by simp
  show "session_ok env (snd s')"
    using assms(3) k l s1 s2 openCached_ok(1) [OF s2 assms(2)] unfolding fetchFull_def
    by (auto split: bool.splits option.splits if_splits prod.splits sum.splits)
  assume "r = Inr f"
  then have "k" "e = None" using assms(3) k l by (auto simp: fetchFull_def split: bool.splits option.splits)
  then obtain cached where c: "map_of (ms_cache (snd s2)) hash = Some cached"
    using assms(3) k l \<open>r = Inr f\<close> by (auto simp: fetchFull_def split: option.splits)
  obtain s3 x where o3: "openCached env io hash cached s2 = (s3, x)" by fastforce
  obtain o' where "x = Inr o'" "openBody env o' (rowAfter env hash cached o') body = Inr f"
    using assms(3) k l \<open>k\<close> \<open>e = None\<close> \<open>r = Inr f\<close> c o3 by (auto simp: fetchFull_def split: if_splits sum.splits)
  with openCached_ok(2) [OF s2 assms(2) c o3] show "\<exists>ring raw o'. openEntry env (Some ring) raw = Inr o' \<and> openBody env o' (previewOf hash (oe_header o') (oe_address o')) body = Inr f"
    by metis
qed

subsection \<open>Runs of one instance\<close>

inductive mailbox_run :: "mailbox_env \<Rightarrow> mbox \<Rightarrow> bool" for env where
  start: "mailbox_run env (db, newMailbox keys n)"
| kept: "mailbox_run env s \<Longrightarrow> mailbox_run env (restore env io s)"
| list: "mailbox_run env s \<Longrightarrow> mailbox_run env (fst (listAll env io answers s))"
| events: "mailbox_run env s \<Longrightarrow> mailbox_run env (fst (applyEvents env io es s))"
| moved: "mailbox_run env s \<Longrightarrow> mailbox_run env (fst (setFeedPosition env io p s))"
| writer: "mailbox_run env s \<Longrightarrow> mailbox_run env (fst (becomeWriter env io s))"
| ring: "mailbox_run env s \<Longrightarrow> mailbox_run env (invalidateRing s)"
| fetch: "mailbox_run env s \<Longrightarrow> mailbox_run env (fst (fetchFull env io answers body hash s))"
| delete: "mailbox_run env s \<Longrightarrow> mailbox_run env (fst (deleteMessage env io answered hash s))"

lemma session_setFeedPosition: "session_ok env (snd s) \<Longrightarrow> session_ok env (snd (fst (setFeedPosition env io p s)))"
  by (drule session_restore [of _ _ io], erule session_sub) (simp add: setFeedPosition_def case_prod_unfold)

lemma session_becomeWriter: "session_ok env (snd s) \<Longrightarrow> session_ok env (snd (fst (becomeWriter env io s)))"
  by (drule session_restore [of _ _ io], erule session_sub) (simp add: becomeWriter_def case_prod_unfold split: option.split)

lemma session_deleteMessage:
  assumes "session_ok env (snd s)"
  shows "session_ok env (snd (fst (deleteMessage env io answered hash s)))"
proof -
  have "session_ok env ((snd s)\<lparr>ms_cache := AList.delete hash (ms_cache (snd s))\<rparr>)" using set_delete_sub by (intro session_sub [OF assms]) simp
  then have "session_ok env (snd (persist env io (fst s, fst (emit False ((snd s)\<lparr>ms_cache := AList.delete hash (ms_cache (snd s))\<rparr>)))))"
    by (intro session_persist) (simp add: session_emit)
  then show ?thesis using assms by (simp add: deleteMessage_def case_prod_unfold)
qed

lemma run_session:
  assumes "inj (previewText env)" "mailbox_run env s"
  shows "session_ok env (snd s)"
  using assms(2)
proof induction
  case (start db keys n)
  then show ?case by (simp add: session_ok_def newMailbox_def)
next
  case (ring s)
  then show ?case by (simp add: invalidateRing_def session_ok_def)
next
  case (fetch s io answers body hash)
  obtain s' r where "fetchFull env io answers body hash s = (s', r)" by fastforce
  with fetchFull_ok(1) [OF fetch.IH assms(1) this] show ?case by simp
qed (simp_all add: session_restore session_listAll session_applyEvents session_setFeedPosition session_becomeWriter session_deleteMessage)

subsection \<open>A concrete mailbox\<close>

text \<open>A mailbox with the one message of the composing example, under every hash.\<close>

definition demo_mailbox_env :: "SplitEnvelope \<Rightarrow> mailbox_env" where
  "demo_mailbox_env e =
     \<lparr>mv_split = demo_split, mv_preview = demo_preview_env, mv_deriveBits = (\<lambda>_ _ _. replicate 32 0),
      decodeMailboxEntry = (\<lambda>b. if b = [] then None else Some (entryOf e)), decodeMailboxBody = (\<lambda>_. Some (bodyOf e)),
      previewText = (\<lambda>p. map (char_of \<circ> unat) (putPreview p))\<rparr>"

definition demo_mailbox_keys :: WorkingKeys where
  "demo_mailbox_keys =
     \<lparr>wk_ed25519Sign = replicate 32 8, wk_x25519Derive = replicate 32 7, wk_ed25519Public = [], wk_x25519Public = x25519_public demo_crypto (replicate 32 7),
      wk_deviceId = [], wk_createdAt = 0, wk_address = ''bo@y.io'', wk_aliasRoot = Some [1]\<rparr>"

definition demo_ring :: keyring where
  "demo_ring = [(toHex (x25519_public demo_crypto (replicate 32 7)), \<lparr>rg_keys = demo_mailbox_keys, rg_address = None\<rparr>)]"

definition demo_mailbox_io :: mailbox_io where
  "demo_mailbox_io = \<lparr>io_loads = True, io_reads = True, io_writes = True, io_iv = replicate 12 0, io_ivf = (\<lambda>_. replicate 12 0), io_retiredKeys = [], io_identities = None\<rparr>"

lemma demo_message:
  obtains e h d where "encryptSplit demo_split demo_split_randoms demo_compose = Inr e"
    "decryptHeader demo_split (entryOf e) (replicate 32 7) (x25519_public demo_crypto (replicate 32 7)) = Inr h" "mh_subject h = ''hi''" "mh_sentAt h = 50"
    "decryptBody demo_split (entryOf e) (bodyOf e) h (replicate 32 7) (x25519_public demo_crypto (replicate 32 7)) = Inr d"
proof -
  have cr: "sp_crypto demo_split = demo_crypto" by (simp add: demo_split_def demo_split_base_def)
  have r: "randoms_fit demo_split_randoms demo_compose" by (simp add: randoms_fit_def demo_split_randoms_def demo_compose_def)
  have s: "length (ci_senderSignKey demo_compose) = 32" "ci_senderPublicKey demo_compose = ed25519_public (sp_crypto demo_split) (ci_senderSignKey demo_compose)"
    by (simp_all add: cr demo_compose_def demo_crypto_def)
  have p: "\<forall>r\<in>set (ci_recipients demo_compose). \<exists>p. length p = 32 \<and> ri_x25519Pub r = x25519_public (sp_crypto demo_split) p"
    by (auto simp: cr demo_compose_def intro!: exI [of _ "replicate 32 7"])
  have m: "x25519_public (sp_crypto demo_split) (replicate 32 7) \<in> ri_x25519Pub ` set (ci_recipients demo_compose)" by (simp add: cr demo_compose_def)
  have h: "mh_subject (headerOf demo_split demo_split_randoms demo_compose) = ''hi''" "mh_sentAt (headerOf demo_split demo_split_randoms demo_compose) = 50"
    by (simp_all add: headerOf_def composedHeader_def demo_compose_def)
  show ?thesis using split_opens [OF demo_split_laws r demo_decodes demo_split_sizes s p _ m] h that unfolding cr by (fastforce simp: same_header_def)
qed

lemma demo_keyring: "keyringFor demo_mailbox_keys [] None = (demo_ring, [])"
  by (simp add: keyringFor_def demo_ring_def demo_mailbox_keys_def)

lemma demo_env_laws: "preview_laws (mv_preview (demo_mailbox_env e))" "inj (previewText (demo_mailbox_env e))"
proof -
  have "p = q" if "map (char_of \<circ> unat) (putPreview p) = map (char_of \<circ> unat) (putPreview q)" for p q
  proof -
    have "inj (char_of \<circ> unat :: byte \<Rightarrow> char)"
      by (intro injI) (metis byte_of_char_of_unat comp_apply)
    then have "putPreview p = putPreview q" using that by (simp add: inj_map_eq_map)
    then show ?thesis using getPreview_put [of p "[]"] getPreview_put [of q "[]"] by simp
  qed
  then show "inj (previewText (demo_mailbox_env e))" by (simp add: demo_mailbox_env_def inj_def)
qed (simp add: demo_mailbox_env_def demo_preview_laws)

lemma decryptHeader_recipient:
  assumes "decryptHeader env entry priv pub = Inr h"
  shows "\<exists>r\<in>set (me_recipients entry). recipientXPub r = pub"
  using assms by (auto simp: decryptHeader_def openCEK_def findRecipient_def Let_def find_Some_iff split: sum.splits option.splits)

lemma demo_open:
  assumes "decryptHeader demo_split (entryOf e) (replicate 32 7) (x25519_public demo_crypto (replicate 32 7)) = Inr h"
  shows "openEntry (demo_mailbox_env e) (Some demo_ring) (toBase64 [120]) = Inr \<lparr>oe_entry = entryOf e, oe_header = h, oe_keys = demo_mailbox_keys, oe_address = None\<rparr>"
proof -
  let ?hit = "\<lparr>rg_keys = demo_mailbox_keys, rg_address = None\<rparr>"
  have "sealedTo rs demo_ring = Some ?hit" if "\<exists>r\<in>set rs. recipientXPub r = x25519_public demo_crypto (replicate 32 7)" for rs
    using that by (induction rs) (auto simp: demo_ring_def)
  then have "sealedToOurs (entryOf e) demo_ring = Some ?hit" using decryptHeader_recipient [OF assms] by (simp add: sealedToOurs_def)
  then show ?thesis using assms by (simp add: openEntry_def demo_mailbox_env_def fromBase64_toBase64 demo_mailbox_keys_def)
qed

definition demo_event :: ChangeEvent where
  "demo_event = \<lparr>ev_seq = 1, ev_kind = MailStored, ev_hash = Some ''ab'', ev_key = None, ev_version = None, ev_entry = None\<rparr>"

definition demo_since :: "nat \<Rightarrow> string \<Rightarrow> nat \<Rightarrow> since_answer" where
  "demo_since j e n = FeedPage
     \<lparr>cp_epoch = ''e'', cp_events = (if e = ''e'' then map (serve (\<lambda>_. toBase64 [120]) {''ab''}) (later [demo_event] n) else []),
      cp_head = 1, cp_resync = (e \<noteq> ''e''), cp_more = False\<rparr>"

definition demo_pages :: "ListResp option list" where
  "demo_pages = [Some \<lparr>lr_entries = [(''ab'', toBase64 [120])], lr_nextCursor = None\<rparr>]"

definition demo_start :: "SplitEnvelope \<Rightarrow> mbox" where
  "demo_start e = fst (becomeWriter (demo_mailbox_env e) demo_mailbox_io ([], newMailbox demo_mailbox_keys 0))"

lemma demo_log: "log_ok [demo_event]" "mailbox [demo_event] = {''ab''}" "later [demo_event] 0 = [demo_event]" "headOf [demo_event] = 1"
  by (simp_all add: demo_event_def log_ok_def mailbox_def logStep_def mailOf_def given_def later_def headOf_def)

lemma demo_raw: "toBase64 [120] \<noteq> []"
proof
  assume "toBase64 [120] = []"
  then have "fromBase64 [] = Some [120]" using fromBase64_toBase64 [of "[120]"] by simp
  moreover have "fromBase64 (toBase64 []) = Some []" by (rule fromBase64_toBase64)
  moreover have "toBase64 [] = []" by code_simp
  ultimately show False by simp
qed

lemma demo_page_ok: "\<exists>res. demo_since j e n = FeedPage res \<and> page_ok (\<lambda>_. toBase64 [120]) ''e'' [demo_event] e n res"
proof -
  have l: "later [demo_event] n = (if n = 0 then [demo_event] else [])" by (simp add: later_def demo_event_def)
  show ?thesis by (auto simp: demo_since_def page_ok_def demo_log l intro!: exI [of _ 1])
qed

lemma demo_listed: "listedOf demo_pages = ({''ab''}, True)" "answers_ok (\<lambda>_. toBase64 [120]) demo_pages"
  by (simp_all add: demo_pages_def cursorOf_def answers_ok_def)

lemma demo_mailbox_io_ok: "io_ok demo_mailbox_keys demo_ring [] demo_mailbox_io" "io_loads demo_mailbox_io" "io_writes demo_mailbox_io"
  by (simp_all add: io_ok_def demo_mailbox_io_def demo_keyring iv_ok_def)

lemma demo_loads: "\<exists>db'. loads_as (demo_mailbox_env e) demo_mailbox_keys (io_iv demo_mailbox_io) 0 [] db' ((\<lambda>_. None), None)"
proof -
  define pc where "pc = \<lparr>pc_ns = pcNs ''bo@y.io'' Inbox, pc_key = replicate 32 0, pc_saved = [], pc_withEntry = [], pc_intact = True, pc_full = False\<rparr>"
  have a: "account_cache (demo_mailbox_env e) demo_mailbox_keys = Some pc"
    by (simp add: account_cache_def pcOpen_def demo_mailbox_env_def demo_mailbox_keys_def pc_def deriveDeviceKey_def)
  show ?thesis using fresh_loads_as [OF demo_env_laws(1) a, of "io_iv demo_mailbox_io" "[]" 0] by (simp add: pc_def demo_mailbox_io_def)
qed

lemma demo_start_good:
  defines "vis e \<equiv> visible (demo_mailbox_env e) demo_ring [] (\<lambda>_. toBase64 [120])"
  shows "target_good (demo_mailbox_env e) (\<lambda>_ _. demo_mailbox_io) (\<lambda>_. demo_pages) demo_mailbox_keys demo_ring [] (\<lambda>_. toBase64 [120]) (demo_start e)
    \<and> rowsOf (vis e) (demo_start e) = {} \<and> positionOf (demo_start e) = None \<and> keptOn (demo_mailbox_env e) (vis e) (demo_start e) = ({}, None)"
proof -
  obtain db' where l: "loads_as (demo_mailbox_env e) demo_mailbox_keys (io_iv demo_mailbox_io) 0 [] db' ((\<lambda>_. None), None)" using demo_loads by blast
  obtain err where b: "becomeWriter (demo_mailbox_env e) demo_mailbox_io ([], newMailbox demo_mailbox_keys 0) = (demo_start e, err)"
    by (metis demo_start_def fst_conv surj_pair)
  have "\<forall>h p v. fst ((\<lambda>_. None), None) h = Some (p, v) \<longrightarrow> h \<noteq> [] \<and> openRow (demo_mailbox_env e) demo_ring (\<lambda>_. toBase64 [120]) h = Some p" by simp
  from becomeWriter_ok [OF demo_env_laws(1) l this demo_mailbox_io_ok(2,1) b]
  show ?thesis by (simp add: target_good_def demo_mailbox_io_ok demo_listed regRows_def vis_def)
qed

lemma saveRows_writer:
  "ms_rows (snd s) = Some pc \<Longrightarrow> ms_writer (snd s) \<Longrightarrow> io_writes io
    \<Longrightarrow> \<exists>pc'. ms_rows (snd (fst (saveRows env io s))) = Some pc' \<and> \<not> pc_full pc' \<and> ms_writer (snd (fst (saveRows env io s)))"
  by (simp add: saveRows_def pcWrite_def Let_def case_prod_unfold)

lemma demo_writes:
  assumes "setFeedPosition (demo_mailbox_env e) demo_mailbox_io p (demo_start e) = (s, err)"
  shows "\<exists>pc. ms_rows (snd s) = Some pc \<and> ms_writer (snd s) \<and> \<not> pc_full pc"
proof -
  obtain db m where r: "restore (demo_mailbox_env e) demo_mailbox_io ([], newMailbox demo_mailbox_keys 0) = (db, m)" by fastforce
  obtain db' where l: "loads_as (demo_mailbox_env e) demo_mailbox_keys (io_iv demo_mailbox_io) 0 [] db' ((\<lambda>_. None), None)" using demo_loads by blast
  have "\<forall>h p v. fst ((\<lambda>_. None), None) h = Some (p, v) \<longrightarrow> h \<noteq> [] \<and> openRow (demo_mailbox_env e) demo_ring (\<lambda>_. toBase64 [120]) h = Some p" by simp
  from restore_ok [OF demo_env_laws(1) l this demo_mailbox_io_ok(2), of "[]"] r have "\<exists>pc. ms_rows m = Some pc" by auto
  then obtain pc where pc: "ms_rows m = Some pc" ..
  have "\<exists>pc'. ms_rows (snd (demo_start e)) = Some pc' \<and> ms_writer (snd (demo_start e))"
    using saveRows_writer [of "(db, m\<lparr>ms_writer := True, ms_rows := Some (rewriteAll pc)\<rparr>)" "rewriteAll pc" demo_mailbox_io "demo_mailbox_env e"] r pc demo_mailbox_io_ok(3)
    by (auto simp: demo_start_def becomeWriter_def case_prod_unfold)
  moreover have "ms_restored (snd (demo_start e))" using demo_start_good [of e] by (simp add: target_good_def mail_good_def)
  ultimately show ?thesis
    using assms saveRows_writer [of "(fst (demo_start e), (snd (demo_start e))\<lparr>ms_position := Some p\<rparr>)" _ demo_mailbox_io "demo_mailbox_env e"] demo_mailbox_io_ok(3)
    by (auto simp: setFeedPosition_def restore_id case_prod_unfold)
qed

subsection \<open>A pass that is answered\<close>

lemma saveRows_writes: "io_writes io \<Longrightarrow> snd (saveRows env io s)"
  by (auto simp: saveRows_def pcWrite_def Let_def split: prod.split option.split)

lemma listingPages_whole: "snd (listedOf answers) \<Longrightarrow> snd (listingPages env answers vars m) \<noteq> None"
proof (induction answers arbitrary: vars m)
  case (Cons a answers)
  then show ?case by (cases a) (auto split: prod.split)
qed simp

lemma listAll_whole:
  assumes "snd (listedOf answers)"
  shows "\<exists>s' ps. listAll env io answers s = (s', Inr ps)"
proof -
  obtain db m where b: "listBegin env io s = (db, m)" by fastforce
  obtain m' seen where "listingPages env answers ([], True) m = (m', Some seen)"
    using listingPages_whole [OF assms, of env "([], True)" m] by (cases "listingPages env answers ([], True) m") auto
  then show ?thesis using b by (auto simp: listAll_def split: prod.split)
qed

lemma feedPages_no_error:
  assumes "\<forall>j e n. \<exists>res. since j e n = FeedPage res" "\<forall>i c. io_writes (ios i c)" "\<forall>i. snd (listedOf (answers i))"
  shows "snd (snd (feedPages k i since (mailboxTarget env ios answers) p pub s)) = None"
proof (induction k arbitrary: i p pub s)
  case (Suc k)
  let ?t = "mailboxTarget env ios answers"
  have ap: "\<exists>s'. ft_applyEvents ?t i es x = (s', None)" for i es x
    using saveRows_writes assms(2) by (simp add: mailboxTarget_def applyEvents_def case_prod_unfold)
  have mv: "\<exists>s'. ft_setFeedPosition ?t i q x = (s', None)" for i q x
    using saveRows_writes assms(2) by (simp add: mailboxTarget_def setFeedPosition_def case_prod_unfold)
  have li: "\<exists>s'. ft_list ?t i x = (s', None)" for i x
  proof -
    obtain s' ps where "listAll env (ios i 0) (answers i) x = (s', Inr ps)" using listAll_whole assms(3) by blast
    then show ?thesis by (simp add: mailboxTarget_def)
  qed
  obtain res where r: "since i (fp_epoch p) (fp_seq p) = FeedPage res" using assms(1) by blast
  obtain s' pub' out where pg: "feedPage i (FeedPage res) ?t pub s = (s', pub', out)" by (metis surj_pair)
  obtain s1 where s1: "ft_list ?t i s = (s1, None)" using li by blast
  obtain s2 where "ft_setFeedPosition ?t i \<lparr>fp_epoch = cp_epoch res, fp_seq = cp_head res\<rparr> s1 = (s2, None)" using mv by blast
  then have rs: "snd (snd (resyncPage i res ?t pub s)) = Returned None" using s1 by (simp add: resyncPage_def)
  obtain s3 where s3: "ft_applyEvents ?t i (cp_events res) (if \<exists>e\<in>set (cp_events res). ev_key e = Some aliasKey then ft_invalidateRing ?t s else s) = (s3, None)"
    using ap by blast
  obtain s4 where "ft_setFeedPosition ?t i \<lparr>fp_epoch = cp_epoch res, fp_seq = ev_seq (last (cp_events res))\<rparr> s3 = (s4, None)" using mv by blast
  then have ev: "snd (snd (eventsPage i res ?t pub s)) \<in> {Returned None} \<union> range GoOn" using s3 by (simp add: eventsPage_def Let_def)
  have "out = Returned None \<or> (\<exists>q. out = GoOn q)"
    using pg rs ev by (auto simp: feedPage_def split: if_splits)
  then show ?case
  proof
    assume "out = Returned None"
    then show ?thesis using r pg by simp
  next
    assume "\<exists>q. out = GoOn q"
    then obtain q where "out = GoOn q" ..
    then show ?thesis using Suc.IH [of "Suc i" q pub' s'] r pg by simp
  qed
qed simp

subsection \<open>Mail that a pass leaves out\<close>

text \<open>
  When the identity service cannot be reached while a page is applied, mail sealed to another of the account's
  keys is skipped, the position moves past it, and the ring without that key is kept: no later pass brings the
  message back, only a full listing does.
\<close>

lemma unreachable_identities_skip_mail:
  assumes "ms_restored m" "ms_ring m = None" "\<not> ms_writer m" "io_identities (ios i 1) = Some None"
    and "keyringFor (ms_keys m) (io_retiredKeys (ios i 1)) None = (own, [])" "openEntry env (Some own) raw = Inl why"
    and "cp_events res = [e]" "ev_kind e = MailStored" "ev_hash e = Some h" "ev_key e = None" "ev_entry e = Some raw" "h \<noteq> []" "raw \<noteq> []"
    and "map_of (ms_cache m) h = None" "eventsPage i res (mailboxTarget env ios answers) pub (db, m) = (s', pub', out)"
  shows "positionOf s' = Some \<lparr>fp_epoch = cp_epoch res, fp_seq = ev_seq e\<rparr>" "map_of (ms_cache (snd s')) h = None"
    and "\<forall>err. out \<noteq> Returned (Some err)" "ensureRing io (snd s') = snd s'"
proof -
  have k: "keyringFor (ms_keys m) (io_retiredKeys (ios i 1)) (Some None) = (own, [])" using assms(5) by (simp add: keyringFor_def Let_def)
  have "s' = (db, m\<lparr>ms_ring := Some own, ms_retired := [], ms_position := Some \<lparr>fp_epoch = cp_epoch res, fp_seq = ev_seq e\<rparr>\<rparr>)
      \<and> (\<forall>err. out \<noteq> Returned (Some err))"
    using assms k
    by (auto simp: eventsPage_def mailboxTarget_def applyEvents_def restore_id applyEvent_def given_def ensureRing_def setFeedPosition_def saveRows_def Let_def
        split: option.splits if_splits)
  then show "positionOf s' = Some \<lparr>fp_epoch = cp_epoch res, fp_seq = ev_seq e\<rparr>" "map_of (ms_cache (snd s')) h = None"
    "\<forall>err. out \<noteq> Returned (Some err)" "ensureRing io (snd s') = snd s'"
    using assms(14) by (simp_all add: positionOf_def ensureRing_def)
qed

text \<open>
  A listing ends by dropping every row it did not read. A row that a feed pass added after the page it would
  have been on was read goes with them, and the position the pass moved to stays.
\<close>

lemma listing_drops_row_of_pass:
  assumes "h \<notin> set seen"
  shows "map_of (ms_cache (snd (fst (listEnd env io seen (db, m))))) h = None"
    and "ms_position (snd (fst (listEnd env io seen (db, m)))) = ms_position m"
proof -
  let ?m = "m\<lparr>ms_cache := filter (\<lambda>(hash, _). hash \<in> set seen) (ms_cache m), ms_listed := True\<rparr>"
  have c: "set (ms_cache (fst (emit False ?m))) \<subseteq> set (ms_cache ?m)" "ms_position (fst (emit False ?m)) = ms_position m"
    by (auto simp: emit_def previews_def Let_def case_prod_unfold)
  have "h \<notin> fst ` set (ms_cache (fst (emit False ?m)))" using c(1) assms by auto
  then show "map_of (ms_cache (snd (fst (listEnd env io seen (db, m))))) h = None"
    by (simp add: listEnd_def case_prod_unfold persist_def map_of_eq_None_iff)
  have "ms_position (snd (fst (saveRows env io s))) = ms_position (snd s)" for s
    by (auto simp: saveRows_def split: prod.splits option.splits)
  then show "ms_position (snd (fst (listEnd env io seen (db, m)))) = ms_position m"
    using c(2) by (simp add: listEnd_def case_prod_unfold persist_def)
qed

subsection \<open>Properties\<close>





text \<open>
  C7. A session goes on where the last one stood: when an instance has written its list to the device, a later
  instance of the account that starts there and takes over the list shows those rows at that position, with the
  device still holding both, also when its first write fails; if the device cannot be read it starts with no rows
  and no position, that is, with a full listing.
\<close>

theorem session_restart:
  assumes "mail_good env keys ring late rawFor s" and "ms_rows (snd s) = Some pc" and "ms_writer (snd s)" and "\<not> pc_full pc"
    and "io_ok keys ring late io" and "becomeWriter env io (fst s, newMailbox keys n) = (s', err)"
  shows "mail_good env keys ring late rawFor s'
    \<and> (io_loads io \<longrightarrow> (rowsOf (visible env ring late rawFor) s', positionOf s') = keptOn env (visible env ring late rawFor) s
         \<and> keptOn env (visible env ring late rawFor) s' = keptOn env (visible env ring late rawFor) s)
    \<and> (\<not> io_loads io \<longrightarrow> ms_cache (snd s') = [] \<and> positionOf s' = None \<and> fst s' = fst s)"
proof (cases "io_loads io")
  case True
  obtain reg where r: "device_holds env keys (fst s) reg" "\<forall>h p v. fst reg h = Some (p, v) \<longrightarrow> h \<noteq> [] \<and> openRow env ring rawFor h = Some p"
    "keptOn env (visible env ring late rawFor) s = (regRows reg \<inter> visible env ring late rawFor, snd reg)"
    using writer_device [OF assms(1-4)] by blast
  have laws: "preview_laws (mv_preview env)" using assms(1) by (simp add: mail_good_def)
  show ?thesis using becomeWriter_ok [OF laws device_loads_as [OF r(1)] r(2) True assms(5,6)] r(3) True by auto
next
  case False
  have laws: "preview_laws (mv_preview env)" using assms(1) by (simp add: mail_good_def)
  have "restore env io (fst s, newMailbox keys n) = (fst s, (newMailbox keys n)\<lparr>ms_restored := True, ms_rows := None\<rparr>)"
    using False by (simp add: restore_def newMailbox_def Let_def split: option.split)
  then have "s' = (fst s, (newMailbox keys n)\<lparr>ms_restored := True, ms_rows := None, ms_writer := True\<rparr>)"
    using assms(6) by (simp add: becomeWriter_def)
  then show ?thesis using False laws
    by (simp add: newMailbox_def positionOf_def mail_good_def cache_good_def ring_good_def cache_objs_def kept_ok_def)
qed

text \<open>An instance that wrote its position is closed and another starts.\<close>

theorem session_restart_witness:
  "\<exists>e. let env = demo_mailbox_env e; vis = visible env demo_ring [] (\<lambda>_. toBase64 [120]);
           s = fst (setFeedPosition env demo_mailbox_io \<lparr>fp_epoch = ''e'', fp_seq = 3\<rparr> (demo_start e));
           s' = fst (becomeWriter env demo_mailbox_io (fst s, newMailbox demo_mailbox_keys 0)) in
     (rowsOf vis s', positionOf s') = keptOn env vis s \<and> keptOn env vis s' = keptOn env vis s"
proof -
  obtain e where "encryptSplit demo_split demo_split_randoms demo_compose = Inr e" using demo_message by blast
  let ?env = "demo_mailbox_env e" and ?vis = "visible (demo_mailbox_env e) demo_ring [] (\<lambda>_. toBase64 [120])"
  obtain s err where s: "setFeedPosition ?env demo_mailbox_io \<lparr>fp_epoch = ''e'', fp_seq = 3\<rparr> (demo_start e) = (s, err)" by fastforce
  have g: "mail_good ?env demo_mailbox_keys demo_ring [] (\<lambda>_. toBase64 [120]) (demo_start e)" using demo_start_good [of e] by (simp add: target_good_def)
  have good: "mail_good ?env demo_mailbox_keys demo_ring [] (\<lambda>_. toBase64 [120]) s" using setFeedPosition_ok [OF g demo_mailbox_io_ok(1) s] by blast
  obtain pc where w: "ms_rows (snd s) = Some pc" "ms_writer (snd s)" "\<not> pc_full pc" using demo_writes [OF s] by blast
  obtain s' err' where b: "becomeWriter ?env demo_mailbox_io (fst s, newMailbox demo_mailbox_keys 0) = (s', err')" by fastforce
  show ?thesis using session_restart [OF good w demo_mailbox_io_ok(1) b] s b demo_mailbox_io_ok(2) by (intro exI [of _ e]) (simp add: Let_def)
qed

text \<open>
  C8. A body is read under a header that was verified in this session: in every run of an instance, whatever rows
  the device held, a body is returned only when an entry opened with one of the account's keys, its header's
  signature included, and the body decrypts under that header; the row returned with it says what that header says.
\<close>

theorem body_under_verified_header:
  assumes "mailbox_run env s" and "inj (previewText env)" and "fetchFull env io answers body hash s = (s', Inr f)"
  shows "\<exists>ring raw o' b c. openEntry env (Some ring) raw = Inr o' \<and> fb_row f = previewOf hash (oe_header o') (oe_address o')
    \<and> Option.bind body (\<lambda>t. Option.bind (fromBase64 t) (decodeMailboxBody env)) = Some b
    \<and> decryptBody (mv_split env) (oe_entry o') b (oe_header o') (wk_x25519Derive (oe_keys o')) (wk_x25519Public (oe_keys o')) = Inr c
    \<and> fb_bodyText f = db_bodyText c \<and> fb_htmlBody f = db_htmlBody c \<and> fb_attachments f = db_attachments c"
proof -
  obtain ring raw o' where o: "openEntry env (Some ring) raw = Inr o'" "openBody env o' (previewOf hash (oe_header o') (oe_address o')) body = Inr f"
    using fetchFull_ok(2) [OF run_session [OF assms(2,1)] assms(2,3) refl] by blast
  then show ?thesis by (intro exI [of _ ring] exI [of _ raw] exI [of _ o']) (auto simp: openBody_def split: option.splits sum.splits)
qed

text \<open>A message is listed and its body opened.\<close>

theorem body_under_verified_header_witness:
  "\<exists>e h s f. decryptHeader demo_split (entryOf e) (replicate 32 7) (x25519_public demo_crypto (replicate 32 7)) = Inr h
     \<and> fetchFull (demo_mailbox_env e) (demo_mailbox_io\<lparr>io_loads := False\<rparr>) demo_pages (Some (toBase64 [120])) ''ab'' ([], newMailbox demo_mailbox_keys 0) = (s, Inr f)
     \<and> (\<exists>(o' :: OpenedEntry) d. fb_row f = previewOf ''ab'' (oe_header o') (oe_address o') \<and> fb_bodyText f = db_bodyText d
         \<and> decryptBody demo_split (oe_entry o') (bodyOf e) (oe_header o') (wk_x25519Derive (oe_keys o')) (wk_x25519Public (oe_keys o')) = Inr d)"
proof -
  obtain e h d where m: "decryptHeader demo_split (entryOf e) (replicate 32 7) (x25519_public demo_crypto (replicate 32 7)) = Inr h"
    "decryptBody demo_split (entryOf e) (bodyOf e) h (replicate 32 7) (x25519_public demo_crypto (replicate 32 7)) = Inr d"
    using demo_message by blast
  let ?env = "demo_mailbox_env e" and ?io = "demo_mailbox_io\<lparr>io_loads := False\<rparr>" and ?s = "([], newMailbox demo_mailbox_keys 0)"
  let ?o = "\<lparr>oe_entry = entryOf e, oe_header = h, oe_keys = demo_mailbox_keys, oe_address = None\<rparr>"
  have op: "openEntry ?env (Some demo_ring) (toBase64 [120]) = Inr ?o" by (rule demo_open [OF m(1)])
  have re: "restore ?env ?io ?s = ([], (newMailbox demo_mailbox_keys 0)\<lparr>ms_restored := True\<rparr>)"
    by (simp add: restore_def newMailbox_def Let_def split: option.split)
  have k: "keyringFor demo_mailbox_keys (io_retiredKeys ?io) (io_identities ?io) = (demo_ring, [])" by (simp add: demo_mailbox_io_def demo_keyring)
  have li: "\<exists>s2 ps. listAll ?env ?io demo_pages ([], (newMailbox demo_mailbox_keys 0)\<lparr>ms_restored := True\<rparr>) = (s2, Inr ps)
      \<and> ms_cache (snd s2) = [(''ab'', \<lparr>ce_preview = (0, previewOf ''ab'' h None), ce_raw = Some (toBase64 [120]), ce_opened = Some ?o\<rparr>)]"
    using op k by (simp add: listAll_def listBegin_def restore_id newMailbox_def demo_pages_def listPage_def listEntry_def cursorOf_def addOpened_def
        listEnd_def emit_def previews_def Let_def persist_def saveRows_def case_prod_unfold)
  then obtain s2 ps where s2: "listAll ?env ?io demo_pages ([], (newMailbox demo_mailbox_keys 0)\<lparr>ms_restored := True\<rparr>) = (s2, Inr ps)"
    "ms_cache (snd s2) = [(''ab'', \<lparr>ce_preview = (0, previewOf ''ab'' h None), ce_raw = Some (toBase64 [120]), ce_opened = Some ?o\<rparr>)]" by blast
  have b: "\<exists>f. openBody ?env ?o row (Some (toBase64 [120])) = Inr f" for row
    using m(2) by (simp add: openBody_def demo_mailbox_env_def fromBase64_toBase64 demo_mailbox_keys_def)
  obtain f where f: "openBody ?env ?o (rowAfter ?env ''ab'' \<lparr>ce_preview = (0, previewOf ''ab'' h None), ce_raw = Some (toBase64 [120]), ce_opened = Some ?o\<rparr> ?o) (Some (toBase64 [120])) = Inr f"
    using b by blast
  have run: "fetchFull ?env ?io demo_pages (Some (toBase64 [120])) ''ab'' ?s = (s2, Inr f)"
    using re s2 f demo_raw
    by (cases s2) (simp add: fetchFull_def keptEntry_def newMailbox_def listIfNeeded_def rawOf_def given_def openCached_def)
  have dec: "Option.bind (Some (toBase64 [120])) (\<lambda>t. Option.bind (fromBase64 t) (decodeMailboxBody ?env)) = Some (bodyOf e)" "mv_split ?env = demo_split"
    by (simp_all add: demo_mailbox_env_def fromBase64_toBase64)
  have "\<exists>(o' :: OpenedEntry) d. fb_row f = previewOf ''ab'' (oe_header o') (oe_address o') \<and> fb_bodyText f = db_bodyText d
      \<and> decryptBody demo_split (oe_entry o') (bodyOf e) (oe_header o') (wk_x25519Derive (oe_keys o')) (wk_x25519Public (oe_keys o')) = Inr d"
    using body_under_verified_header [OF mailbox_run.start demo_env_laws(2) run] unfolding dec option.inject by blast
  then show ?thesis using m(1) run by blast
qed


end
