(* ===== verification/Drafts.thy ===== *)
theory Drafts
  imports Personal_Store
begin

section \<open>Drafts\<close>

text \<open>
  \<open>lib/api/draftStore.ts\<close> and the refresh of \<open>lib/hooks/useDrafts.ts\<close>: the messages being written, each a row,
  a body and one record per attachment in the owner's personal storage, with a copy on the device until the
  relay has it. The two interfaces of the source, \<open>DraftKv\<close> and \<open>DraftBackstop\<close>, are records of functions on a
  world that each call may change; any call may fail. They are interpreted on personal storage and on the
  device's database. A record read back under the wrong type makes the source throw where it uses it; here the
  read fails. An absent string is empty, as the source tests it. The ellipsis of a snippet lies outside the
  characters of the model and is an argument.
\<close>

subsection \<open>Data\<close>

record AttachmentInput =
  ai_attachmentId :: bytes
  ai_filename :: string
  ai_contentType :: string
  ai_sizeBytes :: nat
  ai_contentHash :: bytes
  ai_content :: bytes
  ai_contentId :: string
  ai_disposition :: string

record ComposeReplyTo =
  rt_to :: "string list"
  rt_cc :: "string list option"
  rt_subject :: string
  rt_sentTo :: "string list option"
  rt_quote :: "string option"
  rt_quoteHtml :: "string option"
  rt_replyToId :: "string option"
  rt_threadId :: "string option"

record PendingFields =
  pn_to :: string
  pn_cc :: string
  pn_bcc :: string

record DraftContent =
  dc_from :: string
  dc_to :: "string list"
  dc_cc :: "string list"
  dc_bcc :: "string list"
  dc_pending :: PendingFields
  dc_showCcBcc :: bool
  dc_subject :: string
  dc_rich :: bool
  dc_text :: string
  dc_html :: string
  dc_replyTo :: "ComposeReplyTo option"
  dc_attachments :: "AttachmentInput list"

record DraftSummary =
  sm_id :: string
  sm_from :: string
  sm_to :: "string list"
  sm_cc :: "string list"
  sm_bcc :: "string list"
  sm_subject :: string
  sm_snippet :: string
  sm_updatedAt :: nat
  sm_attachmentCount :: nat

record DraftBase =
  db_head :: nat
  db_body :: nat
  db_atts :: "string list"

definition NEW_DRAFT_BASE :: DraftBase where
  "NEW_DRAFT_BASE = \<lparr>db_head = 0, db_body = 0, db_atts = []\<rparr>"

record LoadedDraft =
  ld_id :: string
  ld_content :: DraftContent
  ld_base :: DraftBase
  ld_updatedAt :: nat

text \<open>The device's copy has the same members.\<close>

type_synonym LocalDraft = LoadedDraft

record StoredAttachment =
  sa_id :: string
  sa_filename :: string
  sa_contentType :: string
  sa_sizeBytes :: nat
  sa_contentHash :: string
  sa_contentId :: string
  sa_disposition :: string

record StoredHead =
  sh_from :: string
  sh_to :: "string list"
  sh_cc :: "string list"
  sh_bcc :: "string list"
  sh_subject :: string
  sh_snippet :: string
  sh_updatedAt :: nat
  sh_attachments :: "StoredAttachment list"

record StoredBody =
  sy_pending :: PendingFields
  sy_showCcBcc :: bool
  sy_rich :: bool
  sy_text :: string
  sy_html :: string
  sy_replyTo :: "ComposeReplyTo option"

datatype draft_value = HeadValue StoredHead | BodyValue StoredBody | BytesValue string

datatype draft_error = DraftConflictError | StoreError store_error | DeviceError | BadRecord

subsection \<open>Keys and small functions\<close>

definition headKey :: "string \<Rightarrow> string" where
  "headKey id' = ''drafts/'' @ id'"

definition bodyKey :: "string \<Rightarrow> string" where
  "bodyKey id' = ''draft-body/'' @ id'"

definition attPrefix :: "string \<Rightarrow> string" where
  "attPrefix id' = ''draft-att/'' @ id' @ ''/''"

definition attKey :: "string \<Rightarrow> string \<Rightarrow> string" where
  "attKey id' attId = attPrefix id' @ attId"

definition idFromKey :: "string \<Rightarrow> string" where
  "idFromKey key = (case indexOf (CHR ''/'') key of None \<Rightarrow> key | Some i \<Rightarrow> drop (Suc i) key)"

definition newDraftId :: "bytes \<Rightarrow> string" where
  "newDraftId rnd = toHex rnd"

definition SNIPPET_CHARS :: nat where
  "SNIPPET_CHARS = 140"

definition draftSnippet :: "char \<Rightarrow> string \<Rightarrow> string" where
  "draftSnippet ellipsis text' =
     (let flat = trim (collapse text') in
      if SNIPPET_CHARS < length flat then take (SNIPPET_CHARS - 1) flat @ [ellipsis] else flat)"

text \<open>\<open>subject.replace(/^Re:\s*/i, '')\<close>.\<close>

definition stripRe :: "string \<Rightarrow> string" where
  "stripRe s = (if startsWith ''re:'' (toLowerCase s) then dropWhile is_space (drop 3 s) else s)"

definition replySubject :: "string \<Rightarrow> string" where
  "replySubject s = (if s = [] then [] else ''Re: '' @ stripRe s)"

definition draftHasContent :: "DraftContent \<Rightarrow> string \<Rightarrow> bool" where
  "draftHasContent c untouchedText =
     (let pending = (trim (pn_to (dc_pending c)) \<noteq> [] \<or> trim (pn_cc (dc_pending c)) \<noteq> [] \<or> trim (pn_bcc (dc_pending c)) \<noteq> []);
          typed = (trim (dc_text c) \<noteq> trim untouchedText) in
      case dc_replyTo c of
        Some rt \<Rightarrow> typed \<or> trim (dc_subject c) \<noteq> trim (replySubject (rt_subject rt)) \<or> dc_attachments c \<noteq> [] \<or> pending \<or> dc_bcc c \<noteq> []
      | None \<Rightarrow> typed \<or> trim (dc_subject c) \<noteq> [] \<or> dc_attachments c \<noteq> [] \<or> pending \<or> dc_to c \<noteq> [] \<or> dc_cc c \<noteq> [] \<or> dc_bcc c \<noteq> [])"

text \<open>\<open>html.replace(/src="cid:([^"]*)"/g, ...)\<close> with the attachments by content id.\<close>

definition byCid :: "AttachmentInput list \<Rightarrow> (string, AttachmentInput) jsmap" where
  "byCid attachments = fold (\<lambda>a m. AList.update (ai_contentId a) a m) (filter (\<lambda>a. ai_contentId a \<noteq> []) attachments) []"

definition cidReference :: "string \<Rightarrow> string" where
  "cidReference cid = ''src=\"cid:'' @ cid @ [CHR 0x22]"

definition dataReference :: "AttachmentInput \<Rightarrow> string \<Rightarrow> string" where
  "dataReference a cid =
     ''src=\"data:'' @ ai_contentType a @ '';base64,'' @ toBase64 (ai_content a) @ ''\" data-cid=\"'' @ cid @ [CHR 0x22]"

function replaceCids :: "(string, AttachmentInput) jsmap \<Rightarrow> string \<Rightarrow> string" where
  "replaceCids cids [] = []"
| "replaceCids cids (c # cs) =
     (let rest = drop 9 (c # cs); cid = takeWhile (\<lambda>x. x \<noteq> CHR 0x22) rest in
      if startsWith ''src=\"cid:'' (c # cs) \<and> length cid < length rest
      then (case map_of cids cid of None \<Rightarrow> cidReference cid | Some a \<Rightarrow> dataReference a cid) @ replaceCids cids (drop (Suc (length cid)) rest)
      else c # replaceCids cids cs)"
  by pat_completeness auto
termination
  by (relation "measure (\<lambda>(_, s). length s)") auto

definition inlinePreviews :: "string \<Rightarrow> AttachmentInput list \<Rightarrow> string" where
  "inlinePreviews html attachments = replaceCids (byCid attachments) html"

definition storedAttachment :: "AttachmentInput \<Rightarrow> StoredAttachment" where
  "storedAttachment a =
     \<lparr>sa_id = toHex (ai_attachmentId a), sa_filename = ai_filename a, sa_contentType = ai_contentType a, sa_sizeBytes = ai_sizeBytes a,
      sa_contentHash = toBase64 (ai_contentHash a), sa_contentId = ai_contentId a, sa_disposition = ai_disposition a\<rparr>"

definition summaryOf :: "string \<Rightarrow> StoredHead \<Rightarrow> nat \<Rightarrow> DraftSummary" where
  "summaryOf id' h count' =
     \<lparr>sm_id = id', sm_from = sh_from h, sm_to = sh_to h, sm_cc = sh_cc h, sm_bcc = sh_bcc h, sm_subject = sh_subject h,
      sm_snippet = sh_snippet h, sm_updatedAt = sh_updatedAt h, sm_attachmentCount = count'\<rparr>"

subsection \<open>The interfaces\<close>

record 'w DraftKv =
  dk_get :: "'w \<Rightarrow> string \<Rightarrow> 'w \<times> (store_error + draft_value StorageEntry option)"
  dk_put :: "'w \<Rightarrow> string \<Rightarrow> draft_value \<Rightarrow> nat \<Rightarrow> 'w \<times> (store_error + nat)"
  dk_list :: "'w \<Rightarrow> string \<Rightarrow> ('w \<times> (store_error + draft_value StorageEntry list)) option"
  dk_listKeys :: "'w \<Rightarrow> string \<Rightarrow> ('w \<times> (store_error + (string \<times> nat) list)) option"
  dk_delete :: "'w \<Rightarrow> string \<Rightarrow> 'w \<times> (store_error + unit)"

text \<open>An answer \<open>None\<close> or \<open>False\<close> of the device is an aborted transaction.\<close>

record 'w DraftBackstop =
  bs_get :: "'w \<Rightarrow> string \<Rightarrow> 'w \<times> LocalDraft option option"
  bs_put :: "'w \<Rightarrow> string \<Rightarrow> LocalDraft \<Rightarrow> 'w \<times> bool"
  bs_delete :: "'w \<Rightarrow> string \<Rightarrow> 'w \<times> bool"
  bs_entries :: "'w \<Rightarrow> string \<Rightarrow> 'w \<times> (string \<times> LocalDraft) list option"

record 'w DraftStore =
  ds_kv :: "'w DraftKv"
  ds_local :: "'w DraftBackstop option"
  ds_prefix :: string
  ds_ellipsis :: char

definition localPrefix :: "string \<Rightarrow> string" where
  "localPrefix address = ''draft::'' @ norm address @ ''::''"

definition forgetLocalDrafts :: "string \<Rightarrow> (string, LocalDraft) jsmap \<Rightarrow> (string, LocalDraft) jsmap" where
  "forgetLocalDrafts address db = filter (\<lambda>(k, _). \<not> startsWith (localPrefix address) k) db"

definition LOCAL_SETTLE_MS :: nat where
  "LOCAL_SETTLE_MS = 60000"

definition newDraftStore :: "char \<Rightarrow> 'w DraftKv \<Rightarrow> 'w DraftBackstop \<Rightarrow> bool \<Rightarrow> string \<Rightarrow> 'w DraftStore" where
  "newDraftStore ellipsis kv backstop keepLocal address =
     \<lparr>ds_kv = kv, ds_local = (if keepLocal then Some backstop else None), ds_prefix = localPrefix address, ds_ellipsis = ellipsis\<rparr>"

definition keepsLocal :: "'w DraftStore \<Rightarrow> bool" where
  "keepsLocal ds \<longleftrightarrow> ds_local ds \<noteq> None"

subsection \<open>Reading\<close>

definition localDrafts :: "'w DraftStore \<Rightarrow> 'w \<Rightarrow> 'w \<times> LocalDraft list" where
  "localDrafts ds w =
     (case ds_local ds of
        None \<Rightarrow> (w, [])
      | Some b \<Rightarrow> (case bs_entries b w (ds_prefix ds) of (w', None) \<Rightarrow> (w', []) | (w', Some es) \<Rightarrow> (w', map snd es)))"

fun storedRows :: "draft_value StorageEntry list \<Rightarrow> (string, DraftSummary) jsmap \<Rightarrow> (string, DraftSummary) jsmap option" where
  "storedRows [] rows = Some rows"
| "storedRows (e # es) rows =
     (case se_value e of
        HeadValue h \<Rightarrow>
          (let id' = idFromKey (se_key e) in storedRows es (AList.update id' (summaryOf id' h (length (sh_attachments h))) rows))
      | _ \<Rightarrow> None)"

text \<open>What \<open>summaryOf\<close> is given for a device copy: the content with its snippet and time.\<close>

definition headRecord :: "char \<Rightarrow> DraftContent \<Rightarrow> nat \<Rightarrow> StoredHead" where
  "headRecord ellipsis c at =
     \<lparr>sh_from = dc_from c, sh_to = dc_to c, sh_cc = dc_cc c, sh_bcc = dc_bcc c, sh_subject = dc_subject c,
      sh_snippet = draftSnippet ellipsis (dc_text c), sh_updatedAt = at, sh_attachments = map storedAttachment (dc_attachments c)\<rparr>"

definition mergeLocal :: "char \<Rightarrow> LocalDraft \<Rightarrow> (string, DraftSummary) jsmap \<Rightarrow> (string, DraftSummary) jsmap" where
  "mergeLocal ellipsis d rows =
     (let had = map_of rows (ld_id d) in
      if had = None \<and> 0 < db_head (ld_base d) then rows
      else if (case had of None \<Rightarrow> False | Some s \<Rightarrow> ld_updatedAt d < sm_updatedAt s) then rows
      else AList.update (ld_id d) (summaryOf (ld_id d) (headRecord ellipsis (ld_content d) (ld_updatedAt d)) (length (dc_attachments (ld_content d)))) rows)"

text \<open>The sort is stable and puts the newest first. \<open>None\<close> is a listing that never ends.\<close>

definition dsList :: "'w DraftStore \<Rightarrow> 'w \<Rightarrow> ('w \<times> (draft_error + DraftSummary list)) option" where
  "dsList ds w =
     (case dk_list (ds_kv ds) w ''drafts/'' of
        None \<Rightarrow> None
      | Some (w1, Inl e) \<Rightarrow> Some (w1, Inl (StoreError e))
      | Some (w1, Inr es) \<Rightarrow>
          (case storedRows es [] of
             None \<Rightarrow> Some (w1, Inl BadRecord)
           | Some rows \<Rightarrow>
               (case localDrafts ds w1 of
                  (w2, mine) \<Rightarrow>
                    Some (w2, Inr (rev (sort_key sm_updatedAt (rev (map snd (fold (mergeLocal (ds_ellipsis ds)) mine rows)))))))))"

definition readAs :: "(draft_value \<Rightarrow> 'a option) \<Rightarrow> 'w DraftKv \<Rightarrow> string \<Rightarrow> 'w \<Rightarrow> 'w \<times> (draft_error + ('a \<times> nat) option)" where
  "readAs proj kv key w =
     (case dk_get kv w key of
        (w', Inl e) \<Rightarrow> (w', Inl (StoreError e))
      | (w', Inr None) \<Rightarrow> (w', Inr None)
      | (w', Inr (Some e)) \<Rightarrow> (case proj (se_value e) of None \<Rightarrow> (w', Inl BadRecord) | Some x \<Rightarrow> (w', Inr (Some (x, se_version e)))))"

definition asHead :: "draft_value \<Rightarrow> StoredHead option" where
  "asHead v = (case v of HeadValue h \<Rightarrow> Some h | _ \<Rightarrow> None)"

definition asBody :: "draft_value \<Rightarrow> StoredBody option" where
  "asBody v = (case v of BodyValue b \<Rightarrow> Some b | _ \<Rightarrow> None)"

definition asBytes :: "draft_value \<Rightarrow> string option" where
  "asBytes v = (case v of BytesValue s \<Rightarrow> Some s | _ \<Rightarrow> None)"

definition loadedAttachment :: "StoredAttachment \<Rightarrow> bytes \<Rightarrow> bytes \<Rightarrow> AttachmentInput" where
  "loadedAttachment a content hash =
     \<lparr>ai_attachmentId = fromHex (sa_id a), ai_filename = sa_filename a, ai_contentType = sa_contentType a, ai_sizeBytes = sa_sizeBytes a,
      ai_contentHash = hash, ai_content = content, ai_contentId = sa_contentId a, ai_disposition = sa_disposition a\<rparr>"

fun loadAtts ::
    "'w DraftKv \<Rightarrow> string \<Rightarrow> StoredAttachment list \<Rightarrow> AttachmentInput list \<Rightarrow> string list \<Rightarrow> 'w \<Rightarrow>
     'w \<times> (draft_error + AttachmentInput list \<times> string list)" where
  "loadAtts kv id' [] attachments atts w = (w, Inr (attachments, atts))"
| "loadAtts kv id' (a # as) attachments atts w =
     (case readAs asBytes kv (attKey id' (sa_id a)) w of
        (w', Inl e) \<Rightarrow> (w', Inl e)
      | (w', Inr None) \<Rightarrow> loadAtts kv id' as attachments atts w'
      | (w', Inr (Some (b64, _))) \<Rightarrow>
          (case (fromBase64 b64, fromBase64 (sa_contentHash a)) of
             (Some content, Some hash) \<Rightarrow> loadAtts kv id' as (attachments @ [loadedAttachment a content hash]) (atts @ [sa_id a]) w'
           | _ \<Rightarrow> (w', Inl BadRecord)))"

definition loadedContent :: "StoredHead \<Rightarrow> StoredBody \<Rightarrow> AttachmentInput list \<Rightarrow> DraftContent" where
  "loadedContent h b attachments =
     \<lparr>dc_from = sh_from h, dc_to = sh_to h, dc_cc = sh_cc h, dc_bcc = sh_bcc h, dc_pending = sy_pending b, dc_showCcBcc = sy_showCcBcc b,
      dc_subject = sh_subject h, dc_rich = sy_rich b, dc_text = sy_text b, dc_html = sy_html b, dc_replyTo = sy_replyTo b,
      dc_attachments = attachments\<rparr>"

definition loadStored :: "'w DraftStore \<Rightarrow> string \<Rightarrow> 'w \<Rightarrow> 'w \<times> (draft_error + LoadedDraft option)" where
  "loadStored ds id' w =
     (case readAs asHead (ds_kv ds) (headKey id') w of
        (w1, Inl e) \<Rightarrow> (w1, Inl e)
      | (w1, Inr None) \<Rightarrow> (w1, Inr None)
      | (w1, Inr (Some (h, hv))) \<Rightarrow>
          (case readAs asBody (ds_kv ds) (bodyKey id') w1 of
             (w2, Inl e) \<Rightarrow> (w2, Inl e)
           | (w2, Inr None) \<Rightarrow> (w2, Inr None)
           | (w2, Inr (Some (b, bv))) \<Rightarrow>
               (case loadAtts (ds_kv ds) id' (sh_attachments h) [] [] w2 of
                  (w3, Inl e) \<Rightarrow> (w3, Inl e)
                | (w3, Inr (attachments, atts)) \<Rightarrow>
                    (w3, Inr (Some \<lparr>ld_id = id', ld_content = loadedContent h b attachments,
                       ld_base = \<lparr>db_head = hv, db_body = bv, db_atts = atts\<rparr>, ld_updatedAt = sh_updatedAt h\<rparr>)))))"

definition dsLoad :: "'w DraftStore \<Rightarrow> string \<Rightarrow> 'w \<Rightarrow> 'w \<times> (draft_error + LoadedDraft option)" where
  "dsLoad ds id' w =
     (case ds_local ds of
        None \<Rightarrow> loadStored ds id' w
      | Some b \<Rightarrow>
          (case bs_get b w (ds_prefix ds @ id') of
             (w', None) \<Rightarrow> (w', Inl DeviceError)
           | (w', Some None) \<Rightarrow> loadStored ds id' w'
           | (w', Some (Some mine)) \<Rightarrow> (w', Inr (Some (mine\<lparr>ld_id := id'\<rparr>)))))"

definition isStored :: "'w DraftStore \<Rightarrow> string \<Rightarrow> 'w \<Rightarrow> 'w \<times> (draft_error + bool)" where
  "isStored ds id' w = (case dk_get (ds_kv ds) w (headKey id') of (w', Inl e) \<Rightarrow> (w', Inl (StoreError e)) | (w', Inr x) \<Rightarrow> (w', Inr (x \<noteq> None)))"

subsection \<open>Writing\<close>

definition saveLocal :: "'w DraftStore \<Rightarrow> string \<Rightarrow> DraftContent \<Rightarrow> DraftBase \<Rightarrow> nat \<Rightarrow> 'w \<Rightarrow> 'w \<times> (draft_error + unit)" where
  "saveLocal ds id' content base updatedAt w =
     (case ds_local ds of
        None \<Rightarrow> (w, Inr ())
      | Some b \<Rightarrow>
          (case bs_put b w (ds_prefix ds @ id') \<lparr>ld_id = id', ld_content = content, ld_base = base, ld_updatedAt = updatedAt\<rparr> of
             (w', ok) \<Rightarrow> (w', if ok then Inr () else Inl DeviceError)))"

definition dropLocal :: "'w DraftBackstop \<Rightarrow> string \<Rightarrow> 'w \<Rightarrow> 'w \<times> (draft_error + unit)" where
  "dropLocal b key w = (case bs_delete b w key of (w', ok) \<Rightarrow> (w', if ok then Inr () else Inl DeviceError))"

definition clearLocal :: "'w DraftStore \<Rightarrow> string \<Rightarrow> nat option \<Rightarrow> 'w \<Rightarrow> 'w \<times> (draft_error + unit)" where
  "clearLocal ds id' updatedAt w =
     (case ds_local ds of
        None \<Rightarrow> (w, Inr ())
      | Some b \<Rightarrow>
          (let key = ds_prefix ds @ id' in
           case updatedAt of
             None \<Rightarrow> dropLocal b key w
           | Some at \<Rightarrow>
               (case bs_get b w key of
                  (w', None) \<Rightarrow> (w', Inl DeviceError)
                | (w', Some cur) \<Rightarrow>
                    if (case cur of None \<Rightarrow> False | Some d \<Rightarrow> at < ld_updatedAt d) then (w', Inr ()) else dropLocal b key w')))"

text \<open>\<open>new Set(xs)\<close> and \<open>new Map(...)\<close> keep the order of first insertion.\<close>

definition jsSet :: "'a list \<Rightarrow> 'a list" where
  "jsSet xs = rev (remdups (rev xs))"

definition wantedAtts :: "DraftContent \<Rightarrow> (string, AttachmentInput) jsmap" where
  "wantedAtts content = fold (\<lambda>a m. AList.update (toHex (ai_attachmentId a)) a m) (dc_attachments content) []"

fun uploadAtts ::
    "'w DraftKv \<Rightarrow> string \<Rightarrow> (string, AttachmentInput) jsmap \<Rightarrow> string list \<Rightarrow> 'w \<Rightarrow> 'w \<times> (store_error + string list)" where
  "uploadAtts kv id' [] stored w = (w, Inr stored)"
| "uploadAtts kv id' ((attId, a) # want) stored w =
     (if attId \<in> set stored then uploadAtts kv id' want stored w
      else (case dk_put kv w (attKey id' attId) (BytesValue (toBase64 (ai_content a))) 0 of
              (w', Inl e) \<Rightarrow> (w', Inl e)
            | (w', Inr _) \<Rightarrow> uploadAtts kv id' want (stored @ [attId]) w'))"

fun removeAtts :: "'w DraftKv \<Rightarrow> string \<Rightarrow> string set \<Rightarrow> string list \<Rightarrow> string list \<Rightarrow> 'w \<Rightarrow> 'w \<times> string list" where
  "removeAtts kv id' want [] stored w = (w, stored)"
| "removeAtts kv id' want (attId # rest) stored w =
     (if attId \<in> want then removeAtts kv id' want rest stored w
      else (case dk_delete kv w (attKey id' attId) of
              (w', Inl _) \<Rightarrow> removeAtts kv id' want rest stored w'
            | (w', Inr _) \<Rightarrow> removeAtts kv id' want rest (removeAll attId stored) w'))"

definition bodyRecord :: "DraftContent \<Rightarrow> StoredBody" where
  "bodyRecord c =
     \<lparr>sy_pending = dc_pending c, sy_showCcBcc = dc_showCcBcc c, sy_rich = dc_rich c, sy_text = dc_text c, sy_html = dc_html c,
      sy_replyTo = dc_replyTo c\<rparr>"

definition asDraftError :: "store_error \<Rightarrow> draft_error" where
  "asDraftError e = (if e = Conflict then DraftConflictError else StoreError e)"

definition dsSave ::
    "'w DraftStore \<Rightarrow> string \<Rightarrow> DraftContent \<Rightarrow> DraftBase \<Rightarrow> nat \<Rightarrow> bool \<Rightarrow> 'w \<Rightarrow> 'w \<times> (draft_error + DraftBase)" where
  "dsSave ds id' content base updatedAt force w =
     (let kv = ds_kv ds; want = wantedAtts content in
      case uploadAtts kv id' want (jsSet (db_atts base)) w of
        (w1, Inl e) \<Rightarrow> (w1, Inl (StoreError e))
      | (w1, Inr stored) \<Rightarrow>
          (case dk_put kv w1 (bodyKey id') (BodyValue (bodyRecord content)) (if force then 0 else db_body base) of
             (w2, Inl e) \<Rightarrow> (w2, Inl (asDraftError e))
           | (w2, Inr bodyVersion) \<Rightarrow>
               (case dk_put kv w2 (headKey id') (HeadValue (headRecord (ds_ellipsis ds) content updatedAt)) (if force then 0 else db_head base) of
                  (w3, Inl e) \<Rightarrow> (w3, Inl (asDraftError e))
                | (w3, Inr headVersion) \<Rightarrow>
                    (case removeAtts kv id' (fst ` set want) stored stored w3 of
                       (w4, atts) \<Rightarrow> (w4, Inr \<lparr>db_head = headVersion, db_body = bodyVersion, db_atts = atts\<rparr>)))))"

fun deleteKeys :: "'w DraftKv \<Rightarrow> string list \<Rightarrow> 'w \<Rightarrow> 'w \<times> (draft_error + unit)" where
  "deleteKeys kv [] w = (w, Inr ())"
| "deleteKeys kv (k # ks) w = (case dk_delete kv w k of (w', Inl e) \<Rightarrow> (w', Inl (StoreError e)) | (w', Inr _) \<Rightarrow> deleteKeys kv ks w')"

definition dsDelete :: "'w DraftStore \<Rightarrow> string \<Rightarrow> 'w \<Rightarrow> ('w \<times> (draft_error + unit)) option" where
  "dsDelete ds id' w =
     (case clearLocal ds id' None w of
        (w1, Inl e) \<Rightarrow> Some (w1, Inl e)
      | (w1, Inr _) \<Rightarrow>
          (case deleteKeys (ds_kv ds) [headKey id', bodyKey id'] w1 of
             (w2, Inl e) \<Rightarrow> Some (w2, Inl e)
           | (w2, Inr _) \<Rightarrow>
               (case dk_listKeys (ds_kv ds) w2 (attPrefix id') of
                  None \<Rightarrow> None
                | Some (w3, Inl e) \<Rightarrow> Some (w3, Inl (StoreError e))
                | Some (w3, Inr ks) \<Rightarrow> Some (deleteKeys (ds_kv ds) (map fst ks) w3))))"

subsection \<open>Uploading what the device kept\<close>

text \<open>One copy: the save and the removal of the copy stand in one \<open>try\<close>; what follows a conflict may throw.\<close>

definition settleOne :: "'w DraftStore \<Rightarrow> LocalDraft \<Rightarrow> 'w \<Rightarrow> 'w \<times> (draft_error + bool)" where
  "settleOne ds d w =
     (case dsSave ds (ld_id d) (ld_content d) (ld_base d) (ld_updatedAt d) False w of
        (w1, Inr _) \<Rightarrow> (case clearLocal ds (ld_id d) (Some (ld_updatedAt d)) w1 of (w2, Inl _) \<Rightarrow> (w2, Inr False) | (w2, Inr _) \<Rightarrow> (w2, Inr True))
      | (w1, Inl e) \<Rightarrow>
          if e \<noteq> DraftConflictError \<or> db_head (ld_base d) = 0 then (w1, Inr False)
          else (case isStored ds (ld_id d) w1 of
                  (w2, Inl err) \<Rightarrow> (w2, Inl err)
                | (w2, Inr True) \<Rightarrow> (w2, Inr False)
                | (w2, Inr False) \<Rightarrow>
                    (case clearLocal ds (ld_id d) (Some (ld_updatedAt d)) w2 of (w3, Inl err) \<Rightarrow> (w3, Inl err) | (w3, Inr _) \<Rightarrow> (w3, Inr True))))"

fun settleAll :: "'w DraftStore \<Rightarrow> string set \<Rightarrow> nat \<Rightarrow> LocalDraft list \<Rightarrow> bool \<Rightarrow> 'w \<Rightarrow> 'w \<times> (draft_error + bool)" where
  "settleAll ds skip now [] changed w = (w, Inr changed)"
| "settleAll ds skip now (d # rest) changed w =
     (if ld_id d \<in> skip \<or> now - ld_updatedAt d < LOCAL_SETTLE_MS then settleAll ds skip now rest changed w
      else (case settleOne ds d w of
              (w', Inl e) \<Rightarrow> (w', Inl e)
            | (w', Inr c) \<Rightarrow> settleAll ds skip now rest (changed \<or> c) w'))"

definition settleLocal :: "'w DraftStore \<Rightarrow> string set \<Rightarrow> nat \<Rightarrow> 'w \<Rightarrow> 'w \<times> (draft_error + bool)" where
  "settleLocal ds skip now w = (case localDrafts ds w of (w', mine) \<Rightarrow> settleAll ds skip now mine False w')"

text \<open>A refresh of the Drafts folder: what the device kept goes up, whether or not that fails, then the list.\<close>

definition doSync :: "'w DraftStore \<Rightarrow> string set \<Rightarrow> nat \<Rightarrow> 'w \<Rightarrow> ('w \<times> (draft_error + DraftSummary list)) option" where
  "doSync ds openIds now w = dsList ds (fst (settleLocal ds openIds now w))"

end
