(* ===== verification/Draft_Laws.thy ===== *)
theory Draft_Laws
  imports Drafts
begin

section \<open>What drafts rely on of the stores under them\<close>

text \<open>
  The contract of \<open>DraftKv\<close> and \<open>DraftBackstop\<close> as locales: \<open>look\<close> is what the storage holds and \<open>mine\<close> what the
  device keeps. A write that fails may still have been carried out, unless it was refused as a conflict. The lemmas
  about saving, loading, deleting and settling are proved once here; at the end the contract is interpreted on
  personal storage and on the device's database.
\<close>

subsection \<open>Keys\<close>

named_theorems draft_keys \<open>the three namespaces are disjoint and a key determines its draft\<close>

lemma draft_key_kinds [draft_keys]:
  "headKey i \<noteq> bodyKey j" "bodyKey j \<noteq> headKey i" "headKey i \<noteq> attKey j a" "attKey j a \<noteq> headKey i" "bodyKey i \<noteq> attKey j a" "attKey j a \<noteq> bodyKey i"
  by (simp_all add: headKey_def bodyKey_def attKey_def attPrefix_def)

lemma draft_key_inj [draft_keys]:
  "headKey i = headKey j \<longleftrightarrow> i = j" "bodyKey i = bodyKey j \<longleftrightarrow> i = j" "attKey i a = attKey i b \<longleftrightarrow> a = b"
  by (simp_all add: headKey_def bodyKey_def attKey_def)

definition plainId :: "string \<Rightarrow> bool" where
  "plainId i \<longleftrightarrow> CHR ''/'' \<notin> set i"

lemma split_at_slash: "i @ CHR ''/'' # a = j @ CHR ''/'' # b \<Longrightarrow> plainId i \<Longrightarrow> plainId j \<Longrightarrow> i = j \<and> a = b"
  by (induction i arbitrary: j) (case_tac j; auto simp: plainId_def)+

lemma attKey_inj: "plainId i \<Longrightarrow> plainId j \<Longrightarrow> attKey i a = attKey j b \<longleftrightarrow> i = j \<and> a = b"
  using split_at_slash [of i a j b] by (auto simp: attKey_def attPrefix_def)

lemma attPrefix_iff: "startsWith (attPrefix i) k \<longleftrightarrow> (\<exists>a. k = attKey i a)"
  by (auto simp: startsWith_iff attKey_def)

lemma namespaces [draft_keys]:
  "startsWith ''drafts/'' (headKey i)" "\<not> startsWith ''draft-body/'' (headKey i)" "\<not> startsWith ''draft-att/'' (headKey i)"
  "\<not> startsWith ''drafts/'' (bodyKey i)" "startsWith ''draft-body/'' (bodyKey i)" "\<not> startsWith ''draft-att/'' (bodyKey i)"
  "\<not> startsWith ''drafts/'' (attKey i a)" "\<not> startsWith ''draft-body/'' (attKey i a)" "startsWith ''draft-att/'' (attKey i a)"
  by (simp_all add: headKey_def bodyKey_def attKey_def attPrefix_def startsWith_def)

lemma idFromKey_headKey: "idFromKey (headKey i) = i"
  by (simp add: idFromKey_def headKey_def)

lemma fst_wantedAtts: "fst ` set (wantedAtts c) = (\<lambda>a. toHex (ai_attachmentId a)) ` set (dc_attachments c)"
proof -
  have "fst ` set (fold (\<lambda>a m. AList.update (toHex (ai_attachmentId a)) a m) as m) = (\<lambda>a. toHex (ai_attachmentId a)) ` set as \<union> fst ` set m" for as m
    by (induction as arbitrary: m) (auto simp: dom_update)
  from this [of "dc_attachments c" "[]"] show ?thesis unfolding wantedAtts_def by simp
qed

lemma distinct_wantedAtts: "distinct (map fst (wantedAtts c))"
proof -
  have "distinct (map fst m) \<Longrightarrow> distinct (map fst (fold (\<lambda>a m. AList.update (toHex (ai_attachmentId a)) a m) as m))" for as m
    by (induction as arbitrary: m) (auto simp: distinct_update)
  from this [of "[]" "dc_attachments c"] show ?thesis unfolding wantedAtts_def by simp
qed

lemma wantedAtts_mem:
  assumes "distinct (map ai_attachmentId (dc_attachments c))" "a \<in> set (dc_attachments c)"
  shows "(toHex (ai_attachmentId a), a) \<in> set (wantedAtts c)"
proof -
  have inj: "toHex x = toHex y \<longleftrightarrow> x = y" for x y by (metis fromHex_toHex)
  have "distinct (map ai_attachmentId as) \<Longrightarrow> a \<in> set as \<Longrightarrow> map_of (fold (\<lambda>a m. AList.update (toHex (ai_attachmentId a)) a m) as []) (toHex (ai_attachmentId a)) = Some a" for as
    by (induction as rule: rev_induct) (auto simp: update_conv' inj image_iff)
  from this [OF assms] show ?thesis unfolding wantedAtts_def by (rule map_of_SomeD)
qed

lemma set_jsSet [simp]: "set (jsSet xs) = set xs"
  by (simp add: jsSet_def)

subsection \<open>What the storage holds\<close>

type_synonym draft_map = "string \<Rightarrow> (draft_value \<times> nat) option"

definition versionOf :: "(draft_value \<times> nat) option \<Rightarrow> nat" where
  "versionOf x = (case x of None \<Rightarrow> 0 | Some (_, n) \<Rightarrow> n)"

lemma versionOf_simps [simp]: "versionOf None = 0" "versionOf (Some (v, n)) = n"
  by (simp_all add: versionOf_def)

definition recordTyped :: "string \<Rightarrow> draft_value \<Rightarrow> bool" where
  "recordTyped k v \<longleftrightarrow>
     (startsWith ''drafts/'' k \<longrightarrow> (\<exists>h. v = HeadValue h \<and> (\<forall>a\<in>set (sh_attachments h). fromBase64 (sa_contentHash a) \<noteq> None)))
     \<and> (startsWith ''draft-body/'' k \<longrightarrow> (\<exists>b. v = BodyValue b))
     \<and> (startsWith ''draft-att/'' k \<longrightarrow> (\<exists>s. v = BytesValue s \<and> fromBase64 s \<noteq> None))"

definition typed :: "draft_map \<Rightarrow> bool" where
  "typed m \<longleftrightarrow> (\<forall>k v n. m k = Some (v, n) \<longrightarrow> 0 < n \<and> recordTyped k v)"

text \<open>A row never points at a body or an attachment that is not there.\<close>

definition rowsComplete :: "draft_map \<Rightarrow> bool" where
  "rowsComplete m \<longleftrightarrow>
     (\<forall>i h n. plainId i \<longrightarrow> m (headKey i) = Some (HeadValue h, n) \<longrightarrow>
        m (bodyKey i) \<noteq> None \<and> (\<forall>a\<in>set (sh_attachments h). m (attKey i (sa_id a)) \<noteq> None))"

lemma rowsCompleteD:
  "rowsComplete m \<Longrightarrow> plainId i \<Longrightarrow> m (headKey i) = Some (HeadValue h, n) \<Longrightarrow>
   m (bodyKey i) \<noteq> None \<and> (\<forall>a\<in>set (sh_attachments h). m (attKey i (sa_id a)) \<noteq> None)"
  by (simp add: rowsComplete_def)

text \<open>A base is sound while the attachments it counts as stored are, or its body version is out of date.\<close>

definition soundBase :: "draft_map \<Rightarrow> string \<Rightarrow> DraftBase \<Rightarrow> bool" where
  "soundBase m i base \<longleftrightarrow>
     (\<forall>a\<in>set (db_atts base). m (attKey i a) \<noteq> None) \<or> 0 < db_body base \<and> versionOf (m (bodyKey i)) \<noteq> db_body base"

lemma soundBase_new [simp]: "soundBase m i NEW_DRAFT_BASE"
  by (simp add: soundBase_def NEW_DRAFT_BASE_def)

lemma typed_upd: "typed m \<Longrightarrow> recordTyped k v \<Longrightarrow> typed (m(k \<mapsto> (v, Suc n)))"
  by (auto simp: typed_def)

lemma typed_del: "typed m \<Longrightarrow> typed (m(k := None))"
  by (auto simp: typed_def)

lemma recordTyped_written [simp]:
  "recordTyped (headKey i) (HeadValue (headRecord el c at))" "recordTyped (bodyKey i) (BodyValue b)" "recordTyped (attKey i a) (BytesValue (toBase64 x))"
  by (auto simp: recordTyped_def draft_keys headRecord_def storedAttachment_def fromBase64_toBase64)

text \<open>Nothing but attachments of one draft was added or replaced.\<close>

definition attsGrow :: "string \<Rightarrow> draft_map \<Rightarrow> draft_map \<Rightarrow> bool" where
  "attsGrow i m m' \<longleftrightarrow> (\<forall>k. (\<forall>a. k \<noteq> attKey i a) \<longrightarrow> m' k = m k) \<and> (\<forall>k. m k \<noteq> None \<longrightarrow> m' k \<noteq> None) \<and> (typed m \<longrightarrow> typed m')"

lemma attsGrow_refl [simp]: "attsGrow i m m"
  by (simp add: attsGrow_def)

lemma attsGrow_trans: "attsGrow i m m' \<Longrightarrow> attsGrow i m' m'' \<Longrightarrow> attsGrow i m m''"
  by (simp add: attsGrow_def)

lemma attsGrow_put: "attsGrow i m (m(attKey i x \<mapsto> (BytesValue (toBase64 b), Suc n)))"
  by (auto simp: attsGrow_def typed_upd)

lemma attsGrow_rows [simp]: "attsGrow i m m' \<Longrightarrow> m' (headKey j) = m (headKey j)" "attsGrow i m m' \<Longrightarrow> m' (bodyKey j) = m (bodyKey j)"
  by (simp_all add: attsGrow_def draft_keys)

lemma attsGrow_complete: "attsGrow i m m' \<Longrightarrow> rowsComplete m \<Longrightarrow> rowsComplete m'"
  unfolding rowsComplete_def by (simp add: draft_keys) (simp add: attsGrow_def)

lemma attsGrow_sound: "attsGrow i m m' \<Longrightarrow> soundBase m j base \<Longrightarrow> soundBase m' j base"
  unfolding soundBase_def by (simp add: draft_keys) (auto simp: attsGrow_def)

text \<open>The attachment a row names, as the storage holds it.\<close>

definition attAt :: "draft_map \<Rightarrow> string \<Rightarrow> StoredAttachment \<Rightarrow> AttachmentInput" where
  "attAt m i a =
     loadedAttachment a (case m (attKey i (sa_id a)) of Some (BytesValue s, _) \<Rightarrow> the (fromBase64 s) | _ \<Rightarrow> []) (the (fromBase64 (sa_contentHash a)))"

subsection \<open>What a save writes\<close>

definition uploaded :: "string \<Rightarrow> DraftContent \<Rightarrow> DraftBase \<Rightarrow> draft_map \<Rightarrow> draft_map \<Rightarrow> bool" where
  "uploaded i c base m m' \<longleftrightarrow> attsGrow i m m' \<and> (\<forall>x\<in>set (db_atts base). m' (attKey i x) = m (attKey i x))
     \<and> (\<forall>x a. (x, a) \<in> set (wantedAtts c) \<longrightarrow> x \<notin> set (db_atts base) \<longrightarrow> (\<exists>n. m' (attKey i x) = Some (BytesValue (toBase64 (ai_content a)), n)))"

lemma uploaded_rows: "uploaded i c base m m' \<Longrightarrow> m' (headKey j) = m (headKey j)" "uploaded i c base m m' \<Longrightarrow> m' (bodyKey j) = m (bodyKey j)"
  unfolding uploaded_def by (auto intro: attsGrow_rows)

definition savedBody :: "string \<Rightarrow> DraftContent \<Rightarrow> draft_map \<Rightarrow> draft_map" where
  "savedBody i c m = m(bodyKey i \<mapsto> (BodyValue (bodyRecord c), Suc (versionOf (m (bodyKey i)))))"

definition savedRow :: "char \<Rightarrow> string \<Rightarrow> DraftContent \<Rightarrow> nat \<Rightarrow> draft_map \<Rightarrow> draft_map" where
  "savedRow el i c at m = m(headKey i \<mapsto> (HeadValue (headRecord el c at), Suc (versionOf (m (headKey i)))))"

text \<open>The storage holds what a device copy says: its row, its body, and the attachments its base does not count.\<close>

definition holdsDraft :: "char \<Rightarrow> draft_map \<Rightarrow> LocalDraft \<Rightarrow> bool" where
  "holdsDraft el m d \<longleftrightarrow>
     (\<exists>n. m (headKey (ld_id d)) = Some (HeadValue (headRecord el (ld_content d) (ld_updatedAt d)), n))
     \<and> (\<exists>n. m (bodyKey (ld_id d)) = Some (BodyValue (bodyRecord (ld_content d)), n))
     \<and> (\<forall>x a. (x, a) \<in> set (wantedAtts (ld_content d)) \<longrightarrow> x \<notin> set (db_atts (ld_base d)) \<longrightarrow>
          (\<exists>n. m (attKey (ld_id d) x) = Some (BytesValue (toBase64 (ai_content a)), n)))"

lemma holdsDraft_cong:
  "m (headKey (ld_id d)) = m' (headKey (ld_id d)) \<Longrightarrow> m (bodyKey (ld_id d)) = m' (bodyKey (ld_id d)) \<Longrightarrow>
   (\<And>a. m (attKey (ld_id d) a) = m' (attKey (ld_id d) a)) \<Longrightarrow> holdsDraft el m d \<longleftrightarrow> holdsDraft el m' d"
  by (simp add: holdsDraft_def)

subsection \<open>What composers and other devices do\<close>

text \<open>
  A device works with the base of each draft it has open. It opens a draft, saves it, keeps its copy after a
  conflict, or deletes it; whatever the result, a base changes only as the composer changes it. Other devices
  change the storage in between (\<open>elsewhere\<close>): they keep to the same rules, a version a base of this device
  names is not given to another body, and while the body is at that version its attachments stay.
\<close>

inductive draftStep ::
    "'w DraftStore \<Rightarrow> ('w \<Rightarrow> draft_map) \<Rightarrow> ('w \<Rightarrow> bool) \<Rightarrow> 'w \<times> (string \<Rightarrow> DraftBase) \<Rightarrow> 'w \<times> (string \<Rightarrow> DraftBase) \<Rightarrow> bool"
  for ds look good where
  opens: "plainId i \<Longrightarrow> loadStored ds i w = (w', Inr (Some d)) \<Longrightarrow> draftStep ds look good (w, bases) (w', bases(i := ld_base d))"
| saves: "plainId i \<Longrightarrow> dsSave ds i c (bases i) at False w = (w', res) \<Longrightarrow>
    draftStep ds look good (w, bases) (w', case res of Inr b \<Rightarrow> bases(i := b) | Inl _ \<Rightarrow> bases)"
| keeps: "plainId i \<Longrightarrow> dsSave ds i c NEW_DRAFT_BASE at True w = (w', res) \<Longrightarrow>
    draftStep ds look good (w, bases) (w', bases(i := case res of Inr b \<Rightarrow> b | Inl _ \<Rightarrow> NEW_DRAFT_BASE))"
| deletes: "plainId i \<Longrightarrow> dsDelete ds i w = Some (w', res) \<Longrightarrow> draftStep ds look good (w, bases) (w', bases(i := NEW_DRAFT_BASE))"
| elsewhere: "good w' \<Longrightarrow> typed (look w') \<Longrightarrow> rowsComplete (look w') \<Longrightarrow>
    (\<And>i. plainId i \<Longrightarrow> 0 < db_body (bases i) \<Longrightarrow> versionOf (look w' (bodyKey i)) = db_body (bases i) \<Longrightarrow>
       versionOf (look w (bodyKey i)) = db_body (bases i) \<and> (\<forall>a. look w (attKey i a) \<noteq> None \<longrightarrow> look w' (attKey i a) \<noteq> None)) \<Longrightarrow>
    draftStep ds look good (w, bases) (w', bases)"

definition basesOk :: "draft_map \<Rightarrow> (string \<Rightarrow> DraftBase) \<Rightarrow> bool" where
  "basesOk m bases \<longleftrightarrow> (\<forall>i. plainId i \<longrightarrow> soundBase m i (bases i) \<and> (db_body (bases i) = 0 \<longrightarrow> db_atts (bases i) = []))"

lemma basesOk_new [simp]: "basesOk m (\<lambda>_. NEW_DRAFT_BASE)"
  by (simp add: basesOk_def NEW_DRAFT_BASE_def soundBase_def)

lemma basesOk_upd:
  "basesOk m bases \<Longrightarrow> (\<And>j base. plainId j \<Longrightarrow> j \<noteq> i \<Longrightarrow> soundBase m j base \<Longrightarrow> soundBase m' j base) \<Longrightarrow>
   soundBase m' i b \<Longrightarrow> (db_body b = 0 \<Longrightarrow> db_atts b = []) \<Longrightarrow> basesOk m' (bases(i := b))"
  by (simp add: basesOk_def)

subsection \<open>The storage interface\<close>

locale draft_kv =
  fixes kv :: "'w DraftKv"
    and look :: "'w \<Rightarrow> draft_map"
    and good :: "'w \<Rightarrow> bool"
  assumes get_reads: "good w \<Longrightarrow> dk_get kv w k = (w', got) \<Longrightarrow>
        good w' \<and> look w' = look w \<and> (\<forall>x. got = Inr x \<longrightarrow> look w k = map_option (\<lambda>e. (se_value e, se_version e)) x)"
    and put_done: "good w \<Longrightarrow> dk_put kv w k v e = (w', Inr n) \<Longrightarrow>
        good w' \<and> (0 < e \<longrightarrow> versionOf (look w k) = e) \<and> n = Suc (versionOf (look w k)) \<and> look w' = (look w)(k \<mapsto> (v, n))"
    and put_failed: "good w \<Longrightarrow> dk_put kv w k v e = (w', Inl err) \<Longrightarrow>
        good w' \<and> (err = Conflict \<longrightarrow> 0 < e \<and> versionOf (look w k) \<noteq> e)
        \<and> (look w' = look w \<or> err \<noteq> Conflict \<and> (0 < e \<longrightarrow> versionOf (look w k) = e) \<and> look w' = (look w)(k \<mapsto> (v, Suc (versionOf (look w k)))))"
    and delete_done: "good w \<Longrightarrow> dk_delete kv w k = (w', Inr u) \<Longrightarrow> good w' \<and> look w' = (look w)(k := None)"
    and delete_failed: "good w \<Longrightarrow> dk_delete kv w k = (w', Inl err) \<Longrightarrow> good w' \<and> look w' = look w"
    and list_reads: "good w \<Longrightarrow> dk_list kv w p = Some (w', listed) \<Longrightarrow>
        good w' \<and> look w' = look w
        \<and> (\<forall>es. listed = Inr es \<longrightarrow> (\<forall>e\<in>set es. startsWith p (se_key e) \<and> look w (se_key e) = Some (se_value e, se_version e))
             \<and> (\<forall>k. startsWith p k \<longrightarrow> look w k \<noteq> None \<longrightarrow> k \<in> se_key ` set es))"
    and keys_reads: "good w \<Longrightarrow> dk_listKeys kv w p = Some (w', keys) \<Longrightarrow>
        good w' \<and> look w' = look w
        \<and> (\<forall>ks. keys = Inr ks \<longrightarrow> (\<forall>k\<in>fst ` set ks. startsWith p k) \<and> (\<forall>k. startsWith p k \<longrightarrow> look w k \<noteq> None \<longrightarrow> k \<in> fst ` set ks))"
begin

lemma readAs_ok:
  assumes "good w" "readAs proj kv k w = (w', res)"
  shows "good w' \<and> look w' = look w"
    and "res = Inr None \<Longrightarrow> look w k = None"
    and "res = Inr (Some (x, n)) \<Longrightarrow> \<exists>v. look w k = Some (v, n) \<and> proj v = Some x"
    and "res = Inl e \<Longrightarrow> (\<And>v n. look w k = Some (v, n) \<Longrightarrow> proj v \<noteq> None) \<Longrightarrow> \<exists>s. e = StoreError s"
proof -
  obtain w1 r where g: "dk_get kv w k = (w1, r)" by fastforce
  note l = get_reads [OF assms(1) g]
  show "good w' \<and> look w' = look w" "res = Inr None \<Longrightarrow> look w k = None" "res = Inr (Some (x, n)) \<Longrightarrow> \<exists>v. look w k = Some (v, n) \<and> proj v = Some x"
    "res = Inl e \<Longrightarrow> (\<And>v n. look w k = Some (v, n) \<Longrightarrow> proj v \<noteq> None) \<Longrightarrow> \<exists>s. e = StoreError s"
    using assms(2) l by (auto simp: readAs_def g split: sum.splits option.splits)
qed

text \<open>Uploading only adds attachments of the draft.\<close>

lemma upload_keeps:
  assumes "good w" "uploadAtts kv i want stored w = (w', res)"
  shows "good w' \<and> attsGrow i (look w) (look w') \<and> (\<forall>x\<in>set stored. look w' (attKey i x) = look w (attKey i x))
     \<and> (\<forall>stored'. res = Inr stored' \<longrightarrow> set stored' = set stored \<union> fst ` set want
          \<and> (distinct (map fst want) \<longrightarrow> (\<forall>x a. (x, a) \<in> set want \<longrightarrow> x \<notin> set stored \<longrightarrow> (\<exists>n. look w' (attKey i x) = Some (BytesValue (toBase64 (ai_content a)), n)))))"
  using assms
proof (induction want arbitrary: stored w)
  case (Cons p want)
  obtain x a where p: "p = (x, a)" by (cases p)
  show ?case
  proof (cases "x \<in> set stored")
    case True
    then have "uploadAtts kv i want stored w = (w', res)" using Cons.prems(2) p by simp
    from Cons.IH [OF Cons.prems(1) this] show ?thesis using True p by (auto simp: insert_absorb)
  next
    case False
    obtain w1 r where put: "dk_put kv w (attKey i x) (BytesValue (toBase64 (ai_content a))) 0 = (w1, r)" by fastforce
    show ?thesis
    proof (cases r)
      case (Inl e)
      then have "w' = w1" "res = Inl e" using Cons.prems(2) p False put by auto
      then show ?thesis using put_failed [OF Cons.prems(1) put [unfolded Inl]] False attsGrow_put by (auto simp: draft_keys)
    next
      case (Inr n)
      then have u: "uploadAtts kv i want (stored @ [x]) w1 = (w', res)" using Cons.prems(2) p False put by auto
      have l: "good w1" "look w1 = (look w)(attKey i x \<mapsto> (BytesValue (toBase64 (ai_content a)), n))" "n = Suc (versionOf (look w (attKey i x)))"
        using put_done [OF Cons.prems(1) put [unfolded Inr]] by auto
      note ih = Cons.IH [OF l(1) u]
      have "attsGrow i (look w) (look w')" using ih attsGrow_trans attsGrow_put l(2,3) by metis
      moreover have "look w' (attKey i x) = Some (BytesValue (toBase64 (ai_content a)), n)" using ih l(2) by auto
      moreover have "\<forall>y\<in>set stored. look w' (attKey i y) = look w (attKey i y)" using ih l(2) False by (auto simp: draft_keys)
      ultimately show ?thesis using ih p False by (force simp: image_iff)
    qed
  qed
qed auto

lemma remove_effect:
  assumes "good w" "removeAtts kv i want todo stored w = (w', atts)"
  shows "good w' \<and> (\<exists>D. D \<subseteq> set todo - want \<and> look w' = (\<lambda>k. if k \<in> attKey i ` D then None else look w k) \<and> set atts = set stored - D)"
  using assms
proof (induction todo arbitrary: stored w)
  case Nil
  then show ?case by (auto intro: exI [of _ "{}"])
next
  case (Cons x todo)
  show ?case
  proof (cases "x \<in> want")
    case True
    then show ?thesis using Cons.IH [of w stored] Cons.prems by auto
  next
    case False
    obtain w1 r where d: "dk_delete kv w (attKey i x) = (w1, r)" by fastforce
    show ?thesis
    proof (cases r)
      case (Inl e)
      then have r: "removeAtts kv i want todo stored w1 = (w', atts)" using Cons.prems(2) False d by simp
      have l: "good w1" "look w1 = look w" using delete_failed [OF Cons.prems(1) d [unfolded Inl]] by auto
      obtain D where "good w'" "D \<subseteq> set todo - want" "look w' = (\<lambda>k. if k \<in> attKey i ` D then None else look w k)" "set atts = set stored - D"
        using Cons.IH [OF l(1) r, unfolded l(2)] by blast
      then show ?thesis by (intro conjI exI [of _ D]) auto
    next
      case (Inr u)
      note l = delete_done [OF Cons.prems(1) d [unfolded Inr]]
      have "removeAtts kv i want todo (removeAll x stored) w1 = (w', atts)" using Cons.prems(2) False d Inr by simp
      from Cons.IH [OF _ this] l obtain D where
        "good w'" "D \<subseteq> set todo - want" "look w' = (\<lambda>k. if k \<in> attKey i ` D then None else look w1 k)" "set atts = set (removeAll x stored) - D" by blast
      note D = this
      have "look w' = (\<lambda>k. if k \<in> attKey i ` insert x D then None else look w k)" unfolding D(3) using l by (simp add: fun_eq_iff)
      moreover have "insert x D \<subseteq> set (x # todo) - want" "set atts = set stored - insert x D" using D(2,4) False by auto
      ultimately show ?thesis using D(1) by blast
    qed
  qed
qed

text \<open>
  How a save can end: nothing but attachments was written; the body too, at the version the base names; or the
  row as well, after which attachments that are no longer wanted are removed.
\<close>

lemma save_outcomes:
  assumes "good w" "dsSave ds i c base at force w = (w', res)" "ds_kv ds = kv"
  obtains
    (unwritten) e where "good w'" "res = Inl e" "attsGrow i (look w) (look w')"
      "e = DraftConflictError \<longrightarrow> \<not> force \<and> 0 < db_body base \<and> versionOf (look w (bodyKey i)) \<noteq> db_body base"
  | (half) m e where "good w'" "res = Inl e" "uploaded i c base (look w) m" "\<not> force \<and> 0 < db_body base \<longrightarrow> versionOf (look w (bodyKey i)) = db_body base"
      "look w' = savedBody i c m"
      "e = DraftConflictError \<longrightarrow> \<not> force \<and> 0 < db_head base \<and> versionOf (look w (headKey i)) \<noteq> db_head base"
  | (written) m D where "good w'" "uploaded i c base (look w) m" "\<not> force \<and> 0 < db_body base \<longrightarrow> versionOf (look w (bodyKey i)) = db_body base"
      "\<not> force \<and> 0 < db_head base \<longrightarrow> versionOf (look w (headKey i)) = db_head base"
      "D \<inter> fst ` set (wantedAtts c) = {}"
      "look w' = (\<lambda>k. if k \<in> attKey i ` D then None else savedRow (ds_ellipsis ds) i c at (savedBody i c m) k)"
      "\<And>b. res = Inr b \<Longrightarrow> db_body b = versionOf (look w' (bodyKey i)) \<and> db_head b = versionOf (look w' (headKey i))
          \<and> set (db_atts b) = set (db_atts base) \<union> fst ` set (wantedAtts c) - D"
      "\<And>e. res = Inl e \<Longrightarrow> D = {} \<and> e \<noteq> DraftConflictError"
proof -
  obtain w1 r1 where u: "uploadAtts kv i (wantedAtts c) (jsSet (db_atts base)) w = (w1, r1)" by fastforce
  note up = upload_keeps [OF assms(1) u]
  show thesis
  proof (cases r1)
    case (Inl e)
    then show ?thesis using assms(2,3) u up unwritten by (auto simp: dsSave_def Let_def)
  next
    case (Inr stored)
    have ul: "uploaded i c base (look w) (look w1)" using up Inr distinct_wantedAtts [of c] by (auto simp: uploaded_def)
    have st: "set stored = set (db_atts base) \<union> fst ` set (wantedAtts c)" using up Inr by auto
    have g1: "good w1" and b1: "look w1 (bodyKey i) = look w (bodyKey i)" and h1: "look w1 (headKey i) = look w (headKey i)" using up by auto
    obtain w2 r2 where b: "dk_put kv w1 (bodyKey i) (BodyValue (bodyRecord c)) (if force then 0 else db_body base) = (w2, r2)" by fastforce
    show ?thesis
    proof (cases r2)
      case (Inl e)
      have out: "w' = w2" "res = Inl (asDraftError e)" using assms(2,3) u Inr b Inl by (auto simp: dsSave_def Let_def)
      note l = put_failed [OF g1 b [unfolded Inl]]
      show ?thesis
      proof (cases "look w2 = look w1")
        case True
        then show ?thesis using unwritten [of "asDraftError e"] out l up b1 by (auto simp: asDraftError_def split: if_splits)
      next
        case False
        then show ?thesis using half [of "asDraftError e" "look w1"] out l ul b1 by (auto simp: asDraftError_def savedBody_def split: if_splits)
      qed
    next
      case (Inr bv)
      note l2 = put_done [OF g1 b [unfolded Inr]]
      then have g2: "good w2" and m2: "look w2 = savedBody i c (look w1)" and bc: "\<not> force \<and> 0 < db_body base \<longrightarrow> versionOf (look w (bodyKey i)) = db_body base"
        using b1 by (auto simp: savedBody_def split: if_splits)
      have h2: "look w2 (headKey i) = look w (headKey i)" using m2 h1 by (simp add: savedBody_def draft_keys)
      obtain w3 r3 where h: "dk_put kv w2 (headKey i) (HeadValue (headRecord (ds_ellipsis ds) c at)) (if force then 0 else db_head base) = (w3, r3)" by fastforce
      show ?thesis
      proof (cases r3)
        case (Inl e)
        have out: "w' = w3" "res = Inl (asDraftError e)" using assms(2,3) u \<open>r1 = Inr stored\<close> b Inr h Inl by (auto simp: dsSave_def Let_def)
        note l = put_failed [OF g2 h [unfolded Inl]]
        show ?thesis
        proof (cases "look w3 = look w2")
          case True
          then show ?thesis using half [of "asDraftError e" "look w1"] out l ul bc m2 h2 by (auto simp: asDraftError_def split: if_splits)
        next
          case False
          then have "look w3 = savedRow (ds_ellipsis ds) i c at (savedBody i c (look w1))" "\<not> force \<and> 0 < db_head base \<longrightarrow> versionOf (look w (headKey i)) = db_head base" "e \<noteq> Conflict"
            using l m2 h2 by (auto simp: savedRow_def split: if_splits)
          then show ?thesis using written [of "look w1" "{}"] out l ul bc by (simp add: asDraftError_def)
        qed
      next
        case (Inr hv)
        note l3 = put_done [OF g2 h [unfolded Inr]]
        then have m3: "look w3 = savedRow (ds_ellipsis ds) i c at (savedBody i c (look w1))" and hc: "\<not> force \<and> 0 < db_head base \<longrightarrow> versionOf (look w (headKey i)) = db_head base"
          using m2 h2 by (auto simp: savedRow_def split: if_splits)
        obtain w4 atts where r: "removeAtts kv i (fst ` set (wantedAtts c)) stored stored w3 = (w4, atts)" by fastforce
        then obtain D where D: "good w4" "D \<subseteq> set stored - fst ` set (wantedAtts c)" "look w4 = (\<lambda>k. if k \<in> attKey i ` D then None else look w3 k)" "set atts = set stored - D"
          using remove_effect [OF _ r] l3 by blast
        have out: "w' = w4" "res = Inr \<lparr>db_head = hv, db_body = bv, db_atts = atts\<rparr>"
          using assms(2,3) u \<open>r1 = Inr stored\<close> b \<open>r2 = Inr bv\<close> h Inr r by (auto simp: dsSave_def Let_def)
        have "versionOf (look w4 (bodyKey i)) = bv" "versionOf (look w4 (headKey i)) = hv"
          using D(3) l2 l3 by (auto simp: draft_keys)
        note v = this
        show ?thesis
        proof (rule written [of "look w1" D])
          show "D \<inter> fst ` set (wantedAtts c) = {}" using D(2) by blast
          show "look w' = (\<lambda>k. if k \<in> attKey i ` D then None else savedRow (ds_ellipsis ds) i c at (savedBody i c (look w1)) k)"
            unfolding out(1) D(3) m3 ..
        qed (use out D(1,4) ul bc hc st v in \<open>simp_all\<close>)
      qed
    qed
  qed
qed

lemma save_others:
  assumes "good w" "dsSave ds i c base at force w = (w', res)" "ds_kv ds = kv" "k \<noteq> headKey i" "k \<noteq> bodyKey i" "\<And>a. k \<noteq> attKey i a"
  shows "look w' k = look w k"
  using assms(1-3)
proof (cases rule: save_outcomes)
  case (unwritten e)
  then show ?thesis using assms(6) by (simp add: attsGrow_def)
next
  case (half m e)
  then show ?thesis using assms(5,6) by (simp add: uploaded_def attsGrow_def savedBody_def)
next
  case (written m D)
  have "k \<notin> attKey i ` D" using assms(6) by blast
  then show ?thesis using written(2) assms(4,5,6) by (simp add: written(6) uploaded_def attsGrow_def savedBody_def savedRow_def)
qed

lemma save_done:
  assumes "good w" "dsSave ds (ld_id d) (ld_content d) (ld_base d) (ld_updatedAt d) force w = (w', Inr b)" "ds_kv ds = kv"
  shows "holdsDraft (ds_ellipsis ds) (look w') d"
  using assms
proof (cases rule: save_outcomes)
  case (written m D)
  have "look w' (attKey (ld_id d) x) = m (attKey (ld_id d) x)" if "x \<notin> D" for x using that by (auto simp: written(6) savedRow_def savedBody_def draft_keys)
  moreover have "x \<notin> D" if "(x, a) \<in> set (wantedAtts (ld_content d))" for x a using that written(5) by (force simp: image_iff)
  moreover have "look w' (headKey (ld_id d)) = Some (HeadValue (headRecord (ds_ellipsis ds) (ld_content d) (ld_updatedAt d)), Suc (versionOf (savedBody (ld_id d) (ld_content d) m (headKey (ld_id d)))))"
    "look w' (bodyKey (ld_id d)) = Some (BodyValue (bodyRecord (ld_content d)), Suc (versionOf (m (bodyKey (ld_id d)))))"
    by (auto simp: written(6) savedRow_def savedBody_def draft_keys)
  ultimately show ?thesis using written(2) unfolding holdsDraft_def uploaded_def by simp
qed auto

lemma save_base:
  assumes "good w" "dsSave ds i c base at force w = (w', Inr b)" "ds_kv ds = kv"
  shows "db_body b = versionOf (look w' (bodyKey i)) \<and> db_head b = versionOf (look w' (headKey i)) \<and> 0 < db_body b \<and> 0 < db_head b"
  using assms
proof (cases rule: save_outcomes)
  case (written m D)
  have "0 < versionOf (look w' (bodyKey i))" "0 < versionOf (look w' (headKey i))" by (auto simp: written(6) savedRow_def savedBody_def draft_keys)
  then show ?thesis using written(7) by simp
qed auto

lemma save_keeps:
  assumes "good w" "dsSave ds i c base at force w = (w', res)" "ds_kv ds = kv" "plainId i" "typed (look w)" "rowsComplete (look w)"
    and sound: "soundBase (look w) i base" and forced: "force \<Longrightarrow> db_atts base = []"
  shows "(good w' \<and> typed (look w') \<and> rowsComplete (look w')) \<and> (\<forall>e. res = Inl e \<longrightarrow> soundBase (look w') i base) \<and> (\<forall>b. res = Inr b \<longrightarrow> soundBase (look w') i b)
    \<and> (\<forall>j base'. plainId j \<longrightarrow> j \<noteq> i \<longrightarrow> soundBase (look w) j base' \<longrightarrow> soundBase (look w') j base')"
  using assms(1-3)
proof (cases rule: save_outcomes)
  case (unwritten e')
  then have "typed (look w') \<and> rowsComplete (look w')" using assms(5,6) attsGrow_complete by (auto simp: attsGrow_def)
  then show ?thesis using unwritten sound attsGrow_sound [OF unwritten(3)] by auto
next
  case (half m e')
  have m: "attsGrow i (look w) m" "typed m" "rowsComplete m" using half(3) assms(5,6) attsGrow_complete by (auto simp: uploaded_def attsGrow_def)
  have present: "\<forall>a\<in>set (db_atts base). look w (attKey i a) \<noteq> None" using sound forced half(4) by (auto simp: soundBase_def)
  have "typed (look w') \<and> rowsComplete (look w')" using m(2,3) unfolding half(5) savedBody_def by (auto simp: typed_upd rowsComplete_def draft_keys)
  moreover have "soundBase (look w') i base" using half(5) m(1) present by (auto simp: soundBase_def savedBody_def draft_keys attsGrow_def)
  moreover have "soundBase (look w') j base'" if "j \<noteq> i" "soundBase (look w) j base'" for j base'
    using attsGrow_sound [OF m(1) that(2)] that(1) unfolding half(5) savedBody_def by (auto simp: soundBase_def draft_keys)
  ultimately show ?thesis using half(1,2) by auto
next
  case (written m D)
  have m: "attsGrow i (look w) m" "typed m" "rowsComplete m" using written(2) assms(5,6) attsGrow_complete by (auto simp: uploaded_def attsGrow_def)
  have present: "\<forall>a\<in>set (db_atts base). look w (attKey i a) \<noteq> None" using sound forced written(3) by (auto simp: soundBase_def)
  have all: "m (attKey i x) \<noteq> None" if x: "x \<in> set (db_atts base) \<union> fst ` set (wantedAtts c)" for x
  proof (cases "x \<in> set (db_atts base)")
    case False
    then obtain a where "(x, a) \<in> set (wantedAtts c)" using x by auto
    then show ?thesis using written(2) False unfolding uploaded_def by fastforce
  qed (use present m(1) in \<open>auto simp: attsGrow_def\<close>)
  let ?m = "savedRow (ds_ellipsis ds) i c at (savedBody i c m)"
  have eqs: "look w' (headKey j) = ?m (headKey j)" "look w' (bodyKey j) = ?m (bodyKey j)" for j by (auto simp: written(6) draft_keys)
  have others: "look w' (attKey j x) = m (attKey j x)" if "plainId j" "j \<noteq> i \<or> x \<notin> D" for j x
  proof -
    have "attKey j x \<notin> attKey i ` D" using that(2) attKey_inj [OF that(1) assms(4)] by auto
    then show ?thesis by (simp add: written(6) savedRow_def savedBody_def draft_keys)
  qed
  have "typed (look w')"
    using m(2) recordTyped_written(1,2) [of i] unfolding written(6) savedRow_def savedBody_def typed_def by (auto simp: draft_keys split: if_splits)
  moreover have "rowsComplete (look w')" unfolding rowsComplete_def
  proof (intro allI impI)
    fix j h n assume j: "plainId j" "look w' (headKey j) = Some (HeadValue h, n)"
    show "look w' (bodyKey j) \<noteq> None \<and> (\<forall>a\<in>set (sh_attachments h). look w' (attKey j (sa_id a)) \<noteq> None)"
    proof (cases "j = i")
      case True
      then have "h = headRecord (ds_ellipsis ds) c at" using j(2) eqs by (simp add: savedRow_def)
      then have ids: "sa_id ` set (sh_attachments h) = fst ` set (wantedAtts c)" by (auto simp: headRecord_def storedAttachment_def fst_wantedAtts image_image)
      have "look w' (attKey i x) \<noteq> None" if x: "x \<in> fst ` set (wantedAtts c)" for x
      proof -
        have "x \<notin> D" using x written(5) by blast
        then show ?thesis using x all [of x] others [OF assms(4), of x] by simp
      qed
      then have "\<forall>a\<in>set (sh_attachments h). look w' (attKey i (sa_id a)) \<noteq> None" using ids by blast
      moreover have "look w' (bodyKey i) \<noteq> None" using eqs(2) [of i] by (simp add: savedRow_def savedBody_def draft_keys)
      ultimately show ?thesis using True by simp
    next
      case False
      then have "m (headKey j) = Some (HeadValue h, n)" using j(2) eqs by (simp add: savedRow_def savedBody_def draft_keys)
      then show ?thesis using m(3) j(1) False eqs others by (auto simp: rowsComplete_def savedRow_def savedBody_def draft_keys)
    qed
  qed
  ultimately have keep: "good w' \<and> typed (look w') \<and> rowsComplete (look w')" using written(1) by simp
  have "soundBase (look w') i base" if "res = Inl e" for e using written(8) [OF that] all others [OF assms(4)] by (auto simp: soundBase_def)
  moreover have "soundBase (look w') i b" if "res = Inr b" for b using written(7) [OF that] all others [OF assms(4)] by (auto simp: soundBase_def)
  moreover have "soundBase (look w') j base'" if "plainId j" "j \<noteq> i" "soundBase (look w) j base'" for j base'
    using attsGrow_sound [OF m(1) that(3)] others [OF that(1)] eqs that(2) by (auto simp: soundBase_def savedRow_def savedBody_def draft_keys)
  ultimately show ?thesis using keep by blast
qed

text \<open>Loading what the storage holds.\<close>

lemma loadAtts_complete:
  assumes "good w" "typed (look w)" "\<forall>a\<in>set as. look w (attKey i (sa_id a)) \<noteq> None \<and> fromBase64 (sa_contentHash a) \<noteq> None"
    and "loadAtts kv i as xs ids w = (w', res)"
  shows "(\<forall>e. res = Inl e \<longrightarrow> (\<exists>s. e = StoreError s)) \<and> (\<forall>ys js. res = Inr (ys, js) \<longrightarrow> ys = xs @ map (attAt (look w) i) as \<and> js = ids @ map sa_id as)"
  using assms
proof (induction as arbitrary: w xs ids)
  case (Cons a as)
  obtain w1 r where g: "readAs asBytes kv (attKey i (sa_id a)) w = (w1, r)" by fastforce
  have l: "good w1" "look w1 = look w" using readAs_ok(1) [OF Cons.prems(1) g] by auto
  obtain v n where v: "look w (attKey i (sa_id a)) = Some (v, n)" using Cons.prems(3) by auto
  then have "recordTyped (attKey i (sa_id a)) v" using Cons.prems(2) by (auto simp: typed_def)
  then obtain s x where s: "v = BytesValue s" "fromBase64 s = Some x" by (auto simp: recordTyped_def draft_keys)
  obtain hash where hash: "fromBase64 (sa_contentHash a) = Some hash" using Cons.prems(3) by auto
  show ?case
  proof (cases r)
    case (Inl e)
    have "asBytes v' \<noteq> None" if "look w (attKey i (sa_id a)) = Some (v', k)" for v' k using that v s by (auto simp: asBytes_def)
    then have "\<exists>t. e = StoreError t" using readAs_ok(4) [OF Cons.prems(1) g Inl] by blast
    then show ?thesis using Cons.prems(4) g Inl by auto
  next
    case (Inr y)
    then have "y \<noteq> None" using readAs_ok(2) [OF Cons.prems(1) g] v by (cases y) auto
    then obtain t k where y: "y = Some (t, k)" by (cases y) auto
    then have "t = s" using readAs_ok(3) [OF Cons.prems(1) g] Inr v s by (auto simp: asBytes_def)
    then have rest: "loadAtts kv i as (xs @ [loadedAttachment a x hash]) (ids @ [sa_id a]) w1 = (w', res)" using Cons.prems(4) g Inr y s hash by simp
    have "attAt (look w) i a = loadedAttachment a x hash" using v s hash by (simp add: attAt_def)
    moreover have "typed (look w1)" "\<forall>b\<in>set as. look w1 (attKey i (sa_id b)) \<noteq> None \<and> fromBase64 (sa_contentHash b) \<noteq> None" using Cons.prems(2,3) l by auto
    ultimately show ?thesis using Cons.IH [OF l(1) _ _ rest] l(2) by simp
  qed
qed auto

lemma load_complete:
  assumes "good w" "typed (look w)" "rowsComplete (look w)" "plainId i" "look w (headKey i) = Some (HeadValue h, n)"
    and "loadStored ds i w = (w', res)" "ds_kv ds = kv"
  shows "(\<forall>e. res = Inl e \<longrightarrow> (\<exists>s. e = StoreError s))
    \<and> (\<forall>x. res = Inr x \<longrightarrow> (\<exists>b bv. look w (bodyKey i) = Some (BodyValue b, bv)
         \<and> x = Some \<lparr>ld_id = i, ld_content = loadedContent h b (map (attAt (look w) i) (sh_attachments h)),
              ld_base = \<lparr>db_head = n, db_body = bv, db_atts = map sa_id (sh_attachments h)\<rparr>, ld_updatedAt = sh_updatedAt h\<rparr>))"
proof -
  have t: "recordTyped (headKey i) (HeadValue h)" using assms(2,5) by (auto simp: typed_def)
  obtain v bv where "look w (bodyKey i) = Some (v, bv)" using rowsCompleteD [OF assms(3,4,5)] by auto
  moreover from this have "recordTyped (bodyKey i) v" using assms(2) by (auto simp: typed_def)
  ultimately obtain b where b: "look w (bodyKey i) = Some (BodyValue b, bv)" by (auto simp: recordTyped_def draft_keys)
  have atts: "\<forall>a\<in>set (sh_attachments h). look w (attKey i (sa_id a)) \<noteq> None \<and> fromBase64 (sa_contentHash a) \<noteq> None"
    using rowsCompleteD [OF assms(3,4,5)] t by (auto simp: recordTyped_def draft_keys)
  obtain w1 r1 where g1: "readAs asHead kv (headKey i) w = (w1, r1)" by fastforce
  have l1: "good w1" "look w1 = look w" using readAs_ok(1) [OF assms(1) g1] by auto
  obtain w2 r2 where g2: "readAs asBody kv (bodyKey i) w1 = (w2, r2)" by fastforce
  have l2: "good w2" "look w2 = look w" using readAs_ok(1) [OF l1(1) g2] l1 by auto
  have e1: "\<exists>s. e = StoreError s" if "r1 = Inl e" for e using readAs_ok(4) [OF assms(1) g1 that] assms(5) by (auto simp: asHead_def)
  have e2: "\<exists>s. e = StoreError s" if "r2 = Inl e" for e using readAs_ok(4) [OF l1(1) g2 that] b l1 by (auto simp: asBody_def)
  have o1: "y = Some (h, n)" if "r1 = Inr y" for y
    using readAs_ok(2,3) [OF assms(1) g1] that assms(5) by (cases y) (auto simp: asHead_def)
  have o2: "y = Some (b, bv)" if "r2 = Inr y" for y
    using readAs_ok(2,3) [OF l1(1) g2] that b l1 by (cases y) (auto simp: asBody_def)
  obtain w3 r3 where g3: "loadAtts kv i (sh_attachments h) [] [] w2 = (w3, r3)" by fastforce
  note l3 = loadAtts_complete [OF l2(1) _ _ g3, unfolded l2(2), OF assms(2) atts]
  show ?thesis
  proof (cases r1)
    case (Inl e)
    then show ?thesis using assms(6,7) g1 e1 by (auto simp: loadStored_def)
  next
    case (Inr y)
    note y = o1 [OF this]
    show ?thesis
    proof (cases r2)
      case (Inl e)
      then show ?thesis using assms(6,7) g1 Inr y g2 e2 by (auto simp: loadStored_def)
    next
      case (Inr z)
      then show ?thesis using assms(6,7) g1 \<open>r1 = Inr y\<close> y g2 o2 g3 l3 b by (cases r3) (auto simp: loadStored_def)
    qed
  qed
qed

lemma loadAtts_keeps: "good w \<Longrightarrow> loadAtts kv i as xs ids w = (w', res) \<Longrightarrow> good w' \<and> look w' = look w"
proof (induction as arbitrary: w xs ids)
  case (Cons a as)
  obtain w1 r where g: "readAs asBytes kv (attKey i (sa_id a)) w = (w1, r)" by fastforce
  have l: "good w1" "look w1 = look w" using readAs_ok(1) [OF Cons.prems(1) g] by auto
  show ?case
  proof (cases "\<exists>ys js. loadAtts kv i as ys js w1 = (w', res)")
    case True
    then show ?thesis using Cons.IH [OF l(1)] l(2) by auto
  next
    case False
    then have "w' = w1" using Cons.prems(2) g by (auto split: sum.splits option.splits)
    then show ?thesis using l by simp
  qed
qed simp

lemma loadStored_keeps:
  assumes "good w" "loadStored ds i w = (w', res)" "ds_kv ds = kv"
  shows "good w' \<and> look w' = look w"
proof -
  obtain w1 r1 where g1: "readAs asHead kv (headKey i) w = (w1, r1)" by fastforce
  obtain w2 r2 where g2: "readAs asBody kv (bodyKey i) w1 = (w2, r2)" by fastforce
  have l1: "good w1" "look w1 = look w" using readAs_ok(1) [OF assms(1) g1] by auto
  have l2: "good w2" "look w2 = look w" using readAs_ok(1) [OF l1(1) g2] l1 by auto
  show ?thesis using assms(2,3) g1 g2 l1 l2 loadAtts_keeps [OF l2(1)] by (auto simp: loadStored_def split: sum.splits option.splits prod.splits)
qed

lemma load_row:
  assumes "good w" "typed (look w)" "loadStored ds i w = (w', Inr (Some d))" "ds_kv ds = kv"
  obtains h n where "look w (headKey i) = Some (HeadValue h, n)"
proof (cases "look w (headKey i)")
  case None
  obtain w1 r1 where g1: "readAs asHead kv (headKey i) w = (w1, r1)" by fastforce
  have "r1 \<noteq> Inr (Some x)" for x using readAs_ok(3) [OF assms(1) g1] None by (cases x) auto
  then show ?thesis using assms(3,4) g1 by (auto simp: loadStored_def split: sum.splits option.splits)
next
  case (Some x)
  then obtain v n where v: "look w (headKey i) = Some (v, n)" by (cases x) auto
  then have "recordTyped (headKey i) v" using assms(2) by (auto simp: typed_def)
  then show ?thesis using that v by (auto simp: recordTyped_def draft_keys)
qed

lemma load_base:
  assumes "good w" "typed (look w)" "rowsComplete (look w)" "plainId i" "loadStored ds i w = (w', Inr (Some d))" "ds_kv ds = kv"
  shows "soundBase (look w) i (ld_base d) \<and> 0 < db_body (ld_base d)"
proof -
  obtain h n where h: "look w (headKey i) = Some (HeadValue h, n)" using load_row [OF assms(1,2,5,6)] .
  obtain b bv where b: "look w (bodyKey i) = Some (BodyValue b, bv)" "db_body (ld_base d) = bv" "db_atts (ld_base d) = map sa_id (sh_attachments h)"
    using load_complete [OF assms(1-4) h assms(5,6)] by auto
  have "0 < bv" using assms(2) b(1) by (auto simp: typed_def)
  then show ?thesis using b(2,3) rowsCompleteD [OF assms(3,4) h] by (auto simp: soundBase_def)
qed

lemma loaded_stored: "loadedAttachment (storedAttachment a) (ai_content a) (ai_contentHash a) = a"
  by (simp add: loadedAttachment_def storedAttachment_def fromHex_toHex)

text \<open>What was saved is what loads, from any world that holds the same.\<close>

lemma save_load:
  assumes "good w" "dsSave ds i c base at force w = (w', Inr b)" "ds_kv ds = kv" "plainId i" "typed (look w)" "rowsComplete (look w)"
    and "soundBase (look w) i base" "force \<Longrightarrow> db_atts base = []" "distinct (map ai_attachmentId (dc_attachments c))"
    and kept: "\<And>a. a \<in> set (dc_attachments c) \<Longrightarrow> toHex (ai_attachmentId a) \<in> set (db_atts base) \<Longrightarrow>
        \<exists>n. look w (attKey i (toHex (ai_attachmentId a))) = Some (BytesValue (toBase64 (ai_content a)), n)"
    and later: "good w2" "look w2 = look w'" "loadStored ds i w2 = (w3, Inr x)"
  shows "x = Some \<lparr>ld_id = i, ld_content = c, ld_base = b\<lparr>db_atts := map (\<lambda>a. toHex (ai_attachmentId a)) (dc_attachments c)\<rparr>, ld_updatedAt = at\<rparr>"
  using assms(1-3)
proof (cases rule: save_outcomes)
  case (written m D)
  have inv: "typed (look w2)" "rowsComplete (look w2)" using save_keeps [OF assms(1-8)] later(2) by auto
  have row: "look w2 (headKey i) = Some (HeadValue (headRecord (ds_ellipsis ds) c at), db_head b)"
    and body: "look w2 (bodyKey i) = Some (BodyValue (bodyRecord c), db_body b)"
    using written(7) later(2) by (auto simp: written(6) savedRow_def savedBody_def draft_keys)
  have "attAt (look w2) i (storedAttachment a) = a" if a: "a \<in> set (dc_attachments c)" for a
  proof -
    have mem: "(toHex (ai_attachmentId a), a) \<in> set (wantedAtts c)" using wantedAtts_mem [OF assms(9) a] .
    then have "toHex (ai_attachmentId a) \<notin> D" using written(5) by (force simp: image_iff)
    then have "look w2 (attKey i (toHex (ai_attachmentId a))) = m (attKey i (toHex (ai_attachmentId a)))"
      using later(2) by (auto simp: written(6) savedRow_def savedBody_def draft_keys)
    also have "\<exists>n. \<dots> = Some (BytesValue (toBase64 (ai_content a)), n)"
      using written(2) mem kept [OF a] unfolding uploaded_def by (cases "toHex (ai_attachmentId a) \<in> set (db_atts base)") auto
    finally obtain n where "look w2 (attKey i (toHex (ai_attachmentId a))) = Some (BytesValue (toBase64 (ai_content a)), n)" by auto
    then show ?thesis using loaded_stored [of a] by (simp add: attAt_def storedAttachment_def fromBase64_toBase64)
  qed
  then have atts: "map (attAt (look w2) i) (sh_attachments (headRecord (ds_ellipsis ds) c at)) = dc_attachments c" by (simp add: headRecord_def map_idI comp_def)
  have ids: "map sa_id (sh_attachments (headRecord (ds_ellipsis ds) c at)) = map (\<lambda>a. toHex (ai_attachmentId a)) (dc_attachments c)"
    by (simp add: headRecord_def storedAttachment_def comp_def)
  have "loadedContent (headRecord (ds_ellipsis ds) c at) (bodyRecord c) (dc_attachments c) = c" by (simp add: loadedContent_def headRecord_def bodyRecord_def)
  then show ?thesis using load_complete [OF later(1) inv assms(4) row later(3) assms(3)] body unfolding atts ids by (auto simp: headRecord_def)
qed auto

lemma stale_save:
  assumes "good w" "dsSave ds i c base at False w = (w', res)" "ds_kv ds = kv" "0 < db_body base" "versionOf (look w (bodyKey i)) \<noteq> db_body base"
  shows "\<exists>e. res = Inl e \<and> attsGrow i (look w) (look w')"
  using assms(1-3) by (cases rule: save_outcomes) (use assms(4,5) in auto)

lemma list_typed:
  assumes "good w" "typed (look w)" "ds_kv ds = kv"
  shows "dsList ds w \<noteq> Some (w', Inl BadRecord)"
proof
  assume l: "dsList ds w = Some (w', Inl BadRecord)"
  then obtain w1 es where es: "dk_list kv w ''drafts/'' = Some (w1, Inr es)" "storedRows es [] = None"
    using assms(3) by (auto simp: dsList_def split: option.splits sum.splits prod.splits)
  have "\<exists>h. se_value e = HeadValue h" if "e \<in> set es" for e
    using list_reads [OF assms(1) es(1)] that assms(2) by (fastforce simp: typed_def recordTyped_def)
  then have "\<forall>e\<in>set es. \<exists>h. se_value e = HeadValue h" by blast
  then have "storedRows es rows \<noteq> None" for rows by (induction es arbitrary: rows) (auto simp: Let_def)
  from this [of "[]"] show False using es(2) by simp
qed

lemma load_typed:
  assumes "good w" "typed (look w)" "rowsComplete (look w)" "plainId i" "ds_kv ds = kv"
  shows "snd (loadStored ds i w) \<noteq> Inl BadRecord"
proof (cases "look w (headKey i)")
  case None
  obtain w1 r1 where g1: "readAs asHead kv (headKey i) w = (w1, r1)" by fastforce
  have "r1 \<noteq> Inr (Some x)" "r1 \<noteq> Inl BadRecord" for x using readAs_ok(3,4) [OF assms(1) g1] None by (cases x; force)+
  then show ?thesis using assms(5) g1 by (cases r1) (auto simp: loadStored_def split: option.splits)
next
  case (Some x)
  then obtain v n where v: "look w (headKey i) = Some (v, n)" by (cases x) auto
  then have "recordTyped (headKey i) v" using assms(2) by (auto simp: typed_def)
  then obtain h where "look w (headKey i) = Some (HeadValue h, n)" using v by (auto simp: recordTyped_def draft_keys)
  from load_complete [OF assms(1-4) this _ assms(5)] show ?thesis by (cases "loadStored ds i w") auto
qed

text \<open>Deleting keys in order stops at the first failure.\<close>

lemma deleteKeys_effect:
  assumes "good w" "deleteKeys kv ks w = (w', res)"
  shows "good w' \<and> (\<exists>n. look w' = (\<lambda>k. if k \<in> set (take n ks) then None else look w k) \<and> (\<forall>u. res = Inr u \<longrightarrow> n = length ks))"
  using assms
proof (induction ks arbitrary: w)
  case Nil
  then show ?case by auto
next
  case (Cons k ks)
  obtain w1 r where d: "dk_delete kv w k = (w1, r)" by fastforce
  show ?case
  proof (cases r)
    case (Inl e)
    then show ?thesis using Cons.prems(2) d delete_failed [OF Cons.prems(1) d [unfolded Inl]] by (auto intro!: exI [of _ 0])
  next
    case (Inr u)
    have l: "good w1" "look w1 = (look w)(k := None)" using delete_done [OF Cons.prems(1) d [unfolded Inr]] by auto
    have "deleteKeys kv ks w1 = (w', res)" using Cons.prems(2) d Inr by simp
    from Cons.IH [OF l(1) this] obtain n where n: "good w'" "look w' = (\<lambda>x. if x \<in> set (take n ks) then None else look w1 x)" "\<forall>u. res = Inr u \<longrightarrow> n = length ks"
      by blast
    have "look w' = (\<lambda>x. if x \<in> set (take (Suc n) (k # ks)) then None else look w x)" unfolding n(2) l(2) by (simp add: fun_eq_iff)
    then show ?thesis using n(1,3) by (intro conjI exI [of _ "Suc n"]) auto
  qed
qed

text \<open>Removing keys of one draft, the row first, leaves every row complete.\<close>

lemma removed_keeps:
  assumes "typed m" "rowsComplete m" "plainId i" "\<forall>k\<in>K. k = headKey i \<or> k = bodyKey i \<or> (\<exists>a. k = attKey i a)" "K \<noteq> {} \<longrightarrow> headKey i \<in> K \<or> m (headKey i) = None"
  shows "typed (\<lambda>k. if k \<in> K then None else m k) \<and> rowsComplete (\<lambda>k. if k \<in> K then None else m k)
    \<and> (\<forall>j base. plainId j \<longrightarrow> j \<noteq> i \<longrightarrow> soundBase m j base \<longrightarrow> soundBase (\<lambda>k. if k \<in> K then None else m k) j base)"
proof -
  let ?m = "\<lambda>k. if k \<in> K then None else m k"
  have other: "?m (headKey j) = m (headKey j)" "?m (bodyKey j) = m (bodyKey j)" "?m (attKey j a) = m (attKey j a)" if "plainId j" "j \<noteq> i" for j a
    using assms(4) that attKey_inj [OF that(1) assms(3)] by (auto simp: draft_keys)
  have row: "K = {} \<or> ?m (headKey i) = None" using assms(5) by auto
  have "rowsComplete ?m" unfolding rowsComplete_def
  proof (intro allI impI)
    fix j h n assume j: "plainId j" "?m (headKey j) = Some (HeadValue h, n)"
    show "?m (bodyKey j) \<noteq> None \<and> (\<forall>a\<in>set (sh_attachments h). ?m (attKey j (sa_id a)) \<noteq> None)"
    proof (cases "K = {}")
      case False
      then have "j \<noteq> i" using row j(2) by (auto split: if_splits)
      then show ?thesis using rowsCompleteD [OF assms(2) j(1)] j(2) other [OF j(1)] by simp
    qed (use j rowsCompleteD [OF assms(2) j(1)] in simp)
  qed
  moreover have "typed ?m" using assms(1) by (auto simp: typed_def)
  moreover have "soundBase ?m j base" if "plainId j" "j \<noteq> i" "soundBase m j base" for j base
    using that(3) other [OF that(1,2)] unfolding soundBase_def by simp
  ultimately show ?thesis by blast
qed

end

subsection \<open>The device's copies\<close>

locale draft_device = draft_kv kv look good
  for kv :: "'w DraftKv" and look :: "'w \<Rightarrow> draft_map" and good :: "'w \<Rightarrow> bool" +
  fixes bs :: "'w DraftBackstop"
    and mine :: "'w \<Rightarrow> string \<Rightarrow> LocalDraft option"
  assumes get_mine: "dk_get kv w k = (w', got) \<Longrightarrow> mine w' = mine w"
    and put_mine: "dk_put kv w k v e = (w', put) \<Longrightarrow> mine w' = mine w"
    and delete_mine: "dk_delete kv w k = (w', deleted) \<Longrightarrow> mine w' = mine w"
    and keys_mine: "dk_listKeys kv w p = Some (w', keys) \<Longrightarrow> mine w' = mine w"
    and bs_get_reads: "bs_get bs w k = (w', copy) \<Longrightarrow>
        (good w \<longrightarrow> good w') \<and> look w' = look w \<and> mine w' = mine w \<and> (\<forall>x. copy = Some x \<longrightarrow> x = mine w k)"
    and bs_put_writes: "bs_put bs w k d = (w', ok) \<Longrightarrow>
        (good w \<longrightarrow> good w') \<and> look w' = look w \<and> mine w' = (if ok then (mine w)(k \<mapsto> d) else mine w)"
    and bs_delete_removes: "bs_delete bs w k = (w', ok) \<Longrightarrow>
        (good w \<longrightarrow> good w') \<and> look w' = look w \<and> mine w' = (if ok then (mine w)(k := None) else mine w)"
    and bs_entries_reads: "good w \<Longrightarrow> bs_entries bs w p = (w', copies) \<Longrightarrow>
        good w' \<and> look w' = look w \<and> mine w' = mine w
        \<and> (\<forall>es. copies = Some es \<longrightarrow> distinct (map fst es) \<and> (\<forall>k d. (k, d) \<in> set es \<longleftrightarrow> startsWith p k \<and> mine w k = Some d))"
begin

lemma clearLocal_effect:
  assumes "good w" "clearLocal ds i at w = (w', res)" "ds_local ds = None \<or> ds_local ds = Some bs"
  shows "good w' \<and> look w' = look w"
    and "mine w' = mine w \<or> mine w' = (mine w)(ds_prefix ds @ i := None) \<and> (\<forall>t d. at = Some t \<longrightarrow> mine w (ds_prefix ds @ i) = Some d \<longrightarrow> ld_updatedAt d \<le> t)"
    and "res = Inr u \<Longrightarrow> at = None \<Longrightarrow> ds_local ds = Some bs \<Longrightarrow> mine w' (ds_prefix ds @ i) = None"
proof -
  obtain w1 c where g: "bs_get bs w (ds_prefix ds @ i) = (w1, c)" by fastforce
  obtain w2 ok where d1: "bs_delete bs w1 (ds_prefix ds @ i) = (w2, ok)" by fastforce
  obtain w3 ok' where d0: "bs_delete bs w (ds_prefix ds @ i) = (w3, ok')" by fastforce
  note l = bs_get_reads [OF g] bs_delete_removes [OF d1] bs_delete_removes [OF d0]
  show "good w' \<and> look w' = look w" using assms l g d1 d0
    by (auto simp: clearLocal_def dropLocal_def Let_def split: option.splits if_splits)
  show "mine w' = mine w \<or> mine w' = (mine w)(ds_prefix ds @ i := None) \<and> (\<forall>t d. at = Some t \<longrightarrow> mine w (ds_prefix ds @ i) = Some d \<longrightarrow> ld_updatedAt d \<le> t)"
    using assms l g d1 d0 by (auto simp: clearLocal_def dropLocal_def Let_def not_less split: option.splits if_splits)
  show "res = Inr u \<Longrightarrow> at = None \<Longrightarrow> ds_local ds = Some bs \<Longrightarrow> mine w' (ds_prefix ds @ i) = None"
    using assms(2) l d0 by (auto simp: clearLocal_def dropLocal_def split: if_splits)
qed

lemma upload_mine: "uploadAtts kv i want stored w = (w', res) \<Longrightarrow> mine w' = mine w"
  by (induction want arbitrary: stored w) (auto dest!: put_mine split: prod.splits sum.splits if_splits)

lemma remove_mine: "removeAtts kv i want todo stored w = (w', atts) \<Longrightarrow> mine w' = mine w"
  by (induction todo arbitrary: stored w) (auto dest!: delete_mine split: prod.splits sum.splits if_splits)

lemma deleteKeys_mine: "deleteKeys kv ks w = (w', res) \<Longrightarrow> mine w' = mine w"
  by (induction ks arbitrary: w) (auto dest!: delete_mine split: prod.splits sum.splits)

lemma save_mine:
  assumes "dsSave ds i c base at force w = (w', res)" "ds_kv ds = kv"
  shows "mine w' = mine w"
  using assms(1) unfolding dsSave_def Let_def assms(2) by (auto dest!: upload_mine put_mine remove_mine split: prod.splits sum.splits)

text \<open>How a delete can end: at the row or the body, or among the attachments.\<close>

lemma delete_outcome:
  assumes "good w" "dsDelete ds i w = Some (w', res)" "ds_kv ds = kv" "ds_local ds = None \<or> ds_local ds = Some bs"
  obtains K where "good w'" "look w' = (\<lambda>k. if k \<in> K then None else look w k)"
    "\<forall>k\<in>K. k = headKey i \<or> k = bodyKey i \<or> (\<exists>a. k = attKey i a)" "K \<noteq> {} \<longrightarrow> headKey i \<in> K"
    "\<And>u. res = Inr u \<Longrightarrow> headKey i \<in> K \<and> bodyKey i \<in> K \<and> (\<forall>a. look w (attKey i a) \<noteq> None \<longrightarrow> attKey i a \<in> K)
        \<and> (ds_local ds \<noteq> None \<longrightarrow> mine w' (ds_prefix ds @ i) = None)"
proof -
  obtain w1 r1 where c: "clearLocal ds i None w = (w1, r1)" by fastforce
  note l1 = clearLocal_effect [OF assms(1) c assms(4)]
  show thesis
  proof (cases r1)
    case (Inl e)
    then have "w' = w1" "res = Inl e" using assms(2) c by (auto simp: dsDelete_def)
    then show ?thesis using that [of "{}"] l1(1) by simp
  next
    case (Inr u1)
    obtain w2 r2 where d: "deleteKeys kv [headKey i, bodyKey i] w1 = (w2, r2)" by fastforce
    have w1: "good w1" "look w1 = look w" using l1(1) by auto
    obtain n where n: "good w2" "look w2 = (\<lambda>k. if k \<in> set (take n [headKey i, bodyKey i]) then None else look w k)" "\<forall>u. r2 = Inr u \<longrightarrow> n = length [headKey i, bodyKey i]"
      using deleteKeys_effect [OF w1(1) d, unfolded w1(2)] by blast
    have first: "set (take n [headKey i, bodyKey i]) \<noteq> {} \<longrightarrow> headKey i \<in> set (take n [headKey i, bodyKey i])" by (cases n) auto
    have sub: "\<forall>k\<in>set (take n [headKey i, bodyKey i]). k = headKey i \<or> k = bodyKey i \<or> (\<exists>a. k = attKey i a)" by (auto dest: in_set_takeD)
    show ?thesis
    proof (cases r2)
      case (Inl e)
      then have "w' = w2" "res = Inl e" using assms(2,3) c d Inr by (auto simp: dsDelete_def)
      then show ?thesis using that [of "set (take n [headKey i, bodyKey i])"] n(1,2) first sub by simp
    next
      case (Inr u2)
      then have two: "look w2 = (\<lambda>k. if k \<in> {headKey i, bodyKey i} then None else look w k)" using n(2,3) by simp
      obtain w3 r3 where ks: "dk_listKeys kv w2 (attPrefix i) = Some (w3, r3)" using assms(2,3) c d \<open>r1 = Inr u1\<close> Inr by (auto simp: dsDelete_def split: option.splits)
      note l3 = keys_reads [OF n(1) ks]
      have m12: "mine w2 = mine w1" "mine w3 = mine w2" using deleteKeys_mine [OF d] keys_mine [OF ks] by auto
      show ?thesis
      proof (cases r3)
        case (Inl e)
        then have "w' = w3" "res = Inl (StoreError e)" using assms(2,3) c d \<open>r1 = Inr u1\<close> \<open>r2 = Inr u2\<close> ks by (auto simp: dsDelete_def)
        then show ?thesis using that [of "{headKey i, bodyKey i}"] l3 two by simp
      next
        case (Inr atts)
        then have e: "deleteKeys kv (map fst atts) w3 = (w', res)" using assms(2,3) c d \<open>r1 = Inr u1\<close> \<open>r2 = Inr u2\<close> ks by (auto simp: dsDelete_def)
        obtain k where k: "good w'" "look w' = (\<lambda>x. if x \<in> set (take k (map fst atts)) then None else look w3 x)" "\<forall>u. res = Inr u \<longrightarrow> k = length atts"
          using deleteKeys_effect [OF _ e] l3 by auto
        have "look w' = (\<lambda>x. if x \<in> {headKey i, bodyKey i} \<union> set (take k (map fst atts)) then None else look w x)"
          unfolding k(2) using l3 two by (simp add: fun_eq_iff)
        moreover have "\<forall>x\<in>set (take k (map fst atts)). \<exists>a. x = attKey i a" using l3 Inr by (fastforce dest: in_set_takeD simp: attPrefix_iff)
        moreover have "attKey i a \<in> set (map fst atts)" if "look w (attKey i a) \<noteq> None" for a
          using that l3 Inr two by (simp add: attPrefix_iff draft_keys)
        moreover have "ds_local ds \<noteq> None \<longrightarrow> mine w' (ds_prefix ds @ i) = None" using l1(3) \<open>r1 = Inr u1\<close> assms(4) m12 deleteKeys_mine [OF e] by auto
        ultimately show ?thesis using that [of "{headKey i, bodyKey i} \<union> set (take k (map fst atts))"] k(1,3) by simp
      qed
    qed
  qed
qed

lemma delete_keeps:
  assumes "good w" "dsDelete ds i w = Some (w', res)" "ds_kv ds = kv" "ds_local ds = None \<or> ds_local ds = Some bs"
    and "plainId i" "typed (look w)" "rowsComplete (look w)"
  shows "good w' \<and> typed (look w') \<and> rowsComplete (look w') \<and> (\<forall>j base. plainId j \<longrightarrow> j \<noteq> i \<longrightarrow> soundBase (look w) j base \<longrightarrow> soundBase (look w') j base)"
proof (rule delete_outcome [OF assms(1-4)])
  fix K assume K: "good w'" "look w' = (\<lambda>k. if k \<in> K then None else look w k)"
      "\<forall>k\<in>K. k = headKey i \<or> k = bodyKey i \<or> (\<exists>a. k = attKey i a)" "K \<noteq> {} \<longrightarrow> headKey i \<in> K"
  show ?thesis using K(1,4) removed_keeps [OF assms(6,7,5) K(3)] unfolding K(2) by blast
qed

lemma step_keeps:
  assumes "draftStep ds look good (w, bases) (w', bases')" "ds_kv ds = kv" "ds_local ds = None \<or> ds_local ds = Some bs"
    and "good w" "typed (look w)" "rowsComplete (look w)" "basesOk (look w) bases"
  shows "good w' \<and> typed (look w') \<and> rowsComplete (look w') \<and> basesOk (look w') bases'"
  using assms(1)
proof cases
  case (opens i d)
  have "good w'" "look w' = look w" using loadStored_keeps [OF assms(4) opens(3) assms(2)] by auto
  moreover have "basesOk (look w) bases'" unfolding opens(1) using load_base [OF assms(4-6) opens(2,3) assms(2)] by (intro basesOk_upd [OF assms(7)]) auto
  ultimately show ?thesis using assms(5,6) by simp
next
  case (saves i c at res)
  have base: "soundBase (look w) i (bases i)" using assms(7) saves(2) by (simp add: basesOk_def)
  note k = save_keeps [OF assms(4) saves(3) assms(2) saves(2) assms(5,6) base]
  show ?thesis
  proof (cases res)
    case (Inl e)
    have "basesOk (look w') (bases(i := bases i))" using k Inl assms(7) saves(2) by (intro basesOk_upd [OF assms(7)]) (auto simp: basesOk_def)
    then show ?thesis using k saves(1) Inl by simp
  next
    case (Inr b)
    have "basesOk (look w') (bases(i := b))" using k Inr save_base [OF assms(4) saves(3) [unfolded Inr] assms(2)] by (intro basesOk_upd [OF assms(7)]) auto
    then show ?thesis using k saves(1) Inr by simp
  qed
next
  case (keeps i c at res)
  note k = save_keeps [OF assms(4) keeps(3) assms(2) keeps(2) assms(5,6) soundBase_new]
  have f: "db_atts NEW_DRAFT_BASE = []" by (simp add: NEW_DRAFT_BASE_def)
  show ?thesis
  proof (cases res)
    case (Inl e)
    have "basesOk (look w') (bases(i := NEW_DRAFT_BASE))" using k f by (intro basesOk_upd [OF assms(7)]) auto
    then show ?thesis using k f keeps(1) Inl by simp
  next
    case (Inr b)
    have "basesOk (look w') (bases(i := b))" using k f Inr save_base [OF assms(4) keeps(3) [unfolded Inr] assms(2)] by (intro basesOk_upd [OF assms(7)]) auto
    then show ?thesis using k f keeps(1) Inr by simp
  qed
next
  case (deletes i res)
  note k = delete_keeps [OF assms(4) deletes(3) assms(2,3) deletes(2) assms(5,6)]
  have "basesOk (look w') bases'" unfolding deletes(1) using k by (intro basesOk_upd [OF assms(7)]) (auto simp: NEW_DRAFT_BASE_def soundBase_def)
  then show ?thesis using k by simp
next
  case elsewhere
  have "soundBase (look w') i (bases i)" if "plainId i" for i
  proof (cases "db_body (bases i) = 0 \<or> versionOf (look w' (bodyKey i)) \<noteq> db_body (bases i)")
    case True
    then show ?thesis using assms(7) that by (auto simp: basesOk_def soundBase_def)
  next
    case False
    then have "versionOf (look w (bodyKey i)) = db_body (bases i)" "\<forall>a. look w (attKey i a) \<noteq> None \<longrightarrow> look w' (attKey i a) \<noteq> None"
      using elsewhere(5) [OF that] by auto
    moreover have "soundBase (look w) i (bases i)" using assms(7) that by (simp add: basesOk_def)
    ultimately show ?thesis unfolding soundBase_def by blast
  qed
  then show ?thesis using elsewhere(1-4) assms(7) by (auto simp: basesOk_def)
qed

lemma run_keeps:
  assumes "(draftStep ds look good)\<^sup>*\<^sup>* s s'" "ds_kv ds = kv" "ds_local ds = None \<or> ds_local ds = Some bs"
    and "good (fst s)" "typed (look (fst s))" "rowsComplete (look (fst s))" "basesOk (look (fst s)) (snd s)"
  shows "good (fst s') \<and> typed (look (fst s')) \<and> rowsComplete (look (fst s')) \<and> basesOk (look (fst s')) (snd s')"
  using assms(1)
proof induction
  case (step y z)
  then show ?case using step_keeps [of ds "fst y" "snd y" "fst z" "snd z"] assms(2,3) by simp
qed (use assms in auto)

text \<open>Settling one copy touches only its own draft, and drops the copy only when it is stored or removed elsewhere.\<close>

lemma settleOne_effect:
  assumes "good w" "settleOne ds d w = (w', res)" "ds_kv ds = kv" "ds_local ds = None \<or> ds_local ds = Some bs"
  shows "good w'"
    and "k \<noteq> headKey (ld_id d) \<Longrightarrow> k \<noteq> bodyKey (ld_id d) \<Longrightarrow> (\<And>a. k \<noteq> attKey (ld_id d) a) \<Longrightarrow> look w' k = look w k"
    and "mine w' = mine w \<or> mine w' = (mine w)(ds_prefix ds @ ld_id d := None)
           \<and> (holdsDraft (ds_ellipsis ds) (look w') d \<or> 0 < db_head (ld_base d) \<and> look w' (headKey (ld_id d)) = None)"
proof -
  obtain w1 r1 where s: "dsSave ds (ld_id d) (ld_content d) (ld_base d) (ld_updatedAt d) False w = (w1, r1)" by fastforce
  have g1: "good w1" using assms(1) s assms(3) by (cases rule: save_outcomes) auto
  note others = save_others [OF assms(1) s assms(3)] and m1 = save_mine [OF s assms(3)]
  obtain w2 r2 where i: "isStored ds (ld_id d) w1 = (w2, r2)" by fastforce
  obtain w3 r3 where c: "clearLocal ds (ld_id d) (Some (ld_updatedAt d)) w1 = (w3, r3)" by fastforce
  obtain w4 r4 where c2: "clearLocal ds (ld_id d) (Some (ld_updatedAt d)) w2 = (w4, r4)" by fastforce
  obtain got where g: "dk_get kv w1 (headKey (ld_id d)) = (w2, got)" and r2: "r2 = (case got of Inl e \<Rightarrow> Inl (StoreError e) | Inr x \<Rightarrow> Inr (x \<noteq> None))"
    using i assms(3) by (auto simp: isStored_def split: prod.splits sum.splits)
  have g2: "good w2" "look w2 = look w1" "mine w2 = mine w1" "r2 = Inr False \<longrightarrow> look w1 (headKey (ld_id d)) = None"
    using get_reads [OF g1 g] get_mine [OF g] r2 by (auto split: sum.splits)
  note l3 = clearLocal_effect(1,2) [OF g1 c assms(4)] and l4 = clearLocal_effect(1,2) [OF g2(1) c2 assms(4)]
  have "(good w' \<and> look w' = look w1) \<and> (mine w' = mine w \<or> mine w' = (mine w)(ds_prefix ds @ ld_id d := None)
      \<and> (holdsDraft (ds_ellipsis ds) (look w1) d \<or> 0 < db_head (ld_base d) \<and> look w1 (headKey (ld_id d)) = None))"
  proof (cases r1)
    case (Inr b)
    have "w' = w3" using assms(2) s Inr c by (auto simp: settleOne_def split: sum.splits)
    then show ?thesis using l3 m1 save_done [OF assms(1) s [unfolded Inr] assms(3)] by auto
  next
    case (Inl e)
    consider "w' = w1" | "w' = w2" | "w' = w4" "0 < db_head (ld_base d)" "r2 = Inr False"
      using assms(2) s Inl i c2 by (auto simp: settleOne_def split: if_splits sum.splits bool.splits)
    then show ?thesis using g1 m1 g2 l4 by cases auto
  qed
  then show "good w'" "mine w' = mine w \<or> mine w' = (mine w)(ds_prefix ds @ ld_id d := None)
           \<and> (holdsDraft (ds_ellipsis ds) (look w') d \<or> 0 < db_head (ld_base d) \<and> look w' (headKey (ld_id d)) = None)"
    "k \<noteq> headKey (ld_id d) \<Longrightarrow> k \<noteq> bodyKey (ld_id d) \<Longrightarrow> (\<And>a. k \<noteq> attKey (ld_id d) a) \<Longrightarrow> look w' k = look w k"
    using others by auto
qed

lemma settleAll_effect:
  assumes "good w" "settleAll ds skip now xs changed w = (w', res)" "ds_kv ds = kv" "ds_local ds = None \<or> ds_local ds = Some bs"
    and "\<forall>d\<in>set xs. plainId (ld_id d)" "distinct (map ld_id xs)"
  shows "good w' \<and> (\<forall>j. plainId j \<longrightarrow> j \<notin> ld_id ` set xs \<longrightarrow>
             look w' (headKey j) = look w (headKey j) \<and> look w' (bodyKey j) = look w (bodyKey j) \<and> (\<forall>a. look w' (attKey j a) = look w (attKey j a)))
    \<and> (\<forall>k. mine w' k \<noteq> mine w k \<longrightarrow> (\<exists>d\<in>set xs. k = ds_prefix ds @ ld_id d \<and> mine w' k = None
             \<and> (holdsDraft (ds_ellipsis ds) (look w') d \<or> 0 < db_head (ld_base d) \<and> look w' (headKey (ld_id d)) = None)))"
  using assms(1,2,5,6)
proof (induction xs arbitrary: changed w)
  case (Cons d xs)
  show ?case
  proof (cases "ld_id d \<in> skip \<or> now - ld_updatedAt d < LOCAL_SETTLE_MS")
    case True
    then show ?thesis using Cons.IH [of w changed] Cons.prems by auto
  next
    case False
    obtain w1 r1 where o: "settleOne ds d w = (w1, r1)" by fastforce
    note l = settleOne_effect [OF Cons.prems(1) o assms(3,4)]
    have same: "look w1 (headKey j) = look w (headKey j) \<and> look w1 (bodyKey j) = look w (bodyKey j) \<and> (\<forall>a. look w1 (attKey j a) = look w (attKey j a))"
      if "plainId j" "j \<noteq> ld_id d" for j
      using that Cons.prems(3) attKey_inj [OF that(1)] by (auto intro!: l(2) simp: draft_keys)
    show ?thesis
    proof (cases r1)
      case (Inl e)
      then have "w' = w1" using Cons.prems(2) False o by auto
      then show ?thesis using l(1,3) same by auto
    next
      case (Inr c)
      then have "settleAll ds skip now xs (changed \<or> c) w1 = (w', res)" using Cons.prems(2) False o by auto
      note ih = Cons.IH [OF l(1) this]
      have keep: "look w' (headKey (ld_id d)) = look w1 (headKey (ld_id d))" "look w' (bodyKey (ld_id d)) = look w1 (bodyKey (ld_id d))"
        "look w' (attKey (ld_id d) a) = look w1 (attKey (ld_id d) a)" for a
        using ih Cons.prems(3,4) by auto
      have "\<exists>d'\<in>set (d # xs). k = ds_prefix ds @ ld_id d' \<and> mine w' k = None
             \<and> (holdsDraft (ds_ellipsis ds) (look w') d' \<or> 0 < db_head (ld_base d') \<and> look w' (headKey (ld_id d')) = None)" if "mine w' k \<noteq> mine w k" for k
      proof (cases "mine w' k = mine w1 k")
        case True
        then have "k = ds_prefix ds @ ld_id d" "mine w' k = None" "holdsDraft (ds_ellipsis ds) (look w1) d \<or> 0 < db_head (ld_base d) \<and> look w1 (headKey (ld_id d)) = None"
          using that l(3) by (auto split: if_splits)
        then show ?thesis using holdsDraft_cong [of "look w'" d "look w1"] keep by auto
      next
        case False
        then show ?thesis using ih Cons.prems(3,4) by auto
      qed
      moreover have "good w'" "\<And>j. plainId j \<Longrightarrow> j \<notin> ld_id ` set (d # xs) \<Longrightarrow>
          look w' (headKey j) = look w (headKey j) \<and> look w' (bodyKey j) = look w (bodyKey j) \<and> (\<forall>a. look w' (attKey j a) = look w (attKey j a))"
        using ih same Cons.prems(3,4) by auto
      ultimately show ?thesis by blast
    qed
  qed
qed auto

lemma settle_drops_only_kept:
  assumes "good w" "settleLocal ds skip now w = (w', res)" "ds_kv ds = kv" "ds_local ds = Some bs"
    and own: "\<And>k d. mine w k = Some d \<Longrightarrow> startsWith (ds_prefix ds) k \<Longrightarrow> k = ds_prefix ds @ ld_id d \<and> plainId (ld_id d)"
    and "mine w k = Some d" "mine w' k \<noteq> Some d"
  shows "mine w' k = None \<and> (holdsDraft (ds_ellipsis ds) (look w') d \<or> 0 < db_head (ld_base d) \<and> look w' (headKey (ld_id d)) = None)"
proof -
  obtain w1 copies where e: "bs_entries bs w (ds_prefix ds) = (w1, copies)" by fastforce
  note l = bs_entries_reads [OF assms(1) e]
  let ?xs = "case copies of None \<Rightarrow> [] | Some es \<Rightarrow> map snd es"
  have a: "settleAll ds skip now ?xs False w1 = (w', res)" using assms(2,4) e by (auto simp: settleLocal_def localDrafts_def split: option.splits)
  have xs: "x \<in> set ?xs \<Longrightarrow> mine w (ds_prefix ds @ ld_id x) = Some x \<and> plainId (ld_id x)" for x using l own by (auto split: option.splits)
  have "distinct (map ld_id ?xs)"
  proof (cases copies)
    case (Some es)
    have "map fst es = map (\<lambda>x. ds_prefix ds @ x) (map ld_id ?xs)" using Some l own by auto
    then show ?thesis using l Some by (metis distinct_map)
  qed simp
  from settleAll_effect [OF _ a assms(3) _ _ this] obtain d' where
    "d' \<in> set ?xs" "k = ds_prefix ds @ ld_id d'" "mine w' k = None" "holdsDraft (ds_ellipsis ds) (look w') d' \<or> 0 < db_head (ld_base d') \<and> look w' (headKey (ld_id d')) = None"
    using assms(1,4,6,7) l xs by (metis (no_types, lifting))
  moreover from this have "d' = d" using xs [of d'] assms(6) by auto
  ultimately show ?thesis by simp
qed

end

end
