(* ===== verification/Draft_World.thy ===== *)
theory Draft_World
  imports Draft_Laws
begin

section \<open>Drafts over personal storage and the device's database\<close>

text \<open>
  The two interfaces as the application fills them (\<open>DraftStore\<close>'s constructor): personal storage, modelled in
  \<open>Personal_Store\<close>, and IndexedDB. The world is the relay, the store of the session, the number of seals made,
  the device's copies, and which of its next transactions abort. Time passes for the relay before every call
  (\<open>tick\<close>), so that calls may fail or succeed as the connection comes and goes. What the relay promises is
  \<open>relay_storage\<close>: a key holds the sealed value last written, writes number a key's versions from 1, a
  compare-and-swap is refused exactly at another version, and a listing is cut into pages by cursor.
\<close>

record 'r draft_world =
  dw_relay :: 'r
  dw_store :: "draft_value PersonalStore"
  dw_seals :: nat
  dw_drafts :: "(string, LocalDraft) jsmap"
  dw_aborts :: "bool list"

type_synonym 'r draft_env = "('r, draft_value) store_env"

definition appKv :: "'r draft_env \<Rightarrow> ('r \<Rightarrow> 'r) \<Rightarrow> (nat \<Rightarrow> seal_randoms) \<Rightarrow> nat \<Rightarrow> 'r draft_world DraftKv" where
  "appKv env tick rnd fuel =
     \<lparr>dk_get = (\<lambda>w k. let r = tick (dw_relay w) in
        case psGet env r (dw_store w) k of (st, res) \<Rightarrow> (w\<lparr>dw_relay := r, dw_store := st\<rparr>, res)),
      dk_put = (\<lambda>w k v e.
        case psPut env (tick (dw_relay w)) (dw_store w) (rnd (dw_seals w)) k v e of
          (r, st, res) \<Rightarrow> (w\<lparr>dw_relay := r, dw_store := st, dw_seals := Suc (dw_seals w)\<rparr>, res)),
      dk_list = (\<lambda>w p. let r = tick (dw_relay w) in
        map_option (\<lambda>(st, res). (w\<lparr>dw_relay := r, dw_store := st\<rparr>, res)) (psList env r (dw_store w) p fuel)),
      dk_listKeys = (\<lambda>w p. let r = tick (dw_relay w) in
        map_option (\<lambda>(st, res). (w\<lparr>dw_relay := r, dw_store := st\<rparr>, res)) (psListKeys env r (dw_store w) p fuel)),
      dk_delete = (\<lambda>w k.
        case psDelete env (tick (dw_relay w)) (dw_store w) k of (r, st, res) \<Rightarrow> (w\<lparr>dw_relay := r, dw_store := st\<rparr>, res))\<rparr>"

definition aborts :: "'r draft_world \<Rightarrow> bool" where
  "aborts w = (case dw_aborts w of [] \<Rightarrow> False | b # _ \<Rightarrow> b)"

definition idbBackstop :: "'r draft_world DraftBackstop" where
  "idbBackstop =
     (let next' = (\<lambda>w. w\<lparr>dw_aborts := tl (dw_aborts w)\<rparr>) in
      \<lparr>bs_get = (\<lambda>w k. (next' w, if aborts w then None else Some (map_of (dw_drafts w) k))),
       bs_put = (\<lambda>w k d. if aborts w then (next' w, False) else (next' (w\<lparr>dw_drafts := AList.update k d (dw_drafts w)\<rparr>), True)),
       bs_delete = (\<lambda>w k. if aborts w then (next' w, False) else (next' (w\<lparr>dw_drafts := AList.delete k (dw_drafts w)\<rparr>), True)),
       bs_entries = (\<lambda>w p. (next' w, if aborts w then None else Some (filter (\<lambda>(k, _). startsWith p k) (dw_drafts w))))\<rparr>)"

subsection \<open>What the relay promises\<close>

definition relay_storage :: "('r, 'v) store_env \<Rightarrow> ('r \<Rightarrow> string \<Rightarrow> (SealedBlobJSON \<times> nat) option) \<Rightarrow> (string \<Rightarrow> string \<Rightarrow> bool) \<Rightarrow> bool" where
  "relay_storage env content after \<longleftrightarrow>
     (\<forall>r k x. kv_get env r k = Inr x \<longrightarrow> x = content r k)
     \<and> (\<forall>r k b e r' n. kv_put env r k b e = Inr (r', n) \<longrightarrow>
          (0 < e \<longrightarrow> map_option snd (content r k) = Some e) \<and> n = Suc (case content r k of None \<Rightarrow> 0 | Some (_, m) \<Rightarrow> m)
          \<and> content r' = (content r)(k \<mapsto> (b, n)))
     \<and> (\<forall>r k b e s. kv_put env r k b e = Inl (ApiError ''storage_conflict'' s) \<longrightarrow> 0 < e \<and> map_option snd (content r k) \<noteq> Some e)
     \<and> (\<forall>r k b e. kv_put env r k b e \<noteq> Inl Conflict)
     \<and> (\<forall>r k r'. kv_delete env r k = Inr r' \<longrightarrow> content r' = (content r)(k := None))
     \<and> (\<forall>r p vals cur res. kv_list env r p vals cur = Inr res \<longrightarrow>
          (\<forall>k s n. (k, s, n) \<in> set (kv_items res) \<longrightarrow> startsWith p k \<and> (if vals then \<exists>b. s = Some b \<and> content r k = Some (b, n) else content r k \<noteq> None))
          \<and> (\<forall>k. startsWith p k \<longrightarrow> content r k \<noteq> None \<longrightarrow> after cur k \<longrightarrow>
               k \<in> fst ` set (kv_items res) \<or> next_cursor res \<noteq> [] \<and> after (next_cursor res) k))
     \<and> (\<forall>k. after [] k)"

lemma relay_storageD:
  assumes "relay_storage env content after"
  shows "kv_get env r k = Inr x \<Longrightarrow> x = content r k"
    and "kv_put env r k b e = Inr (r', n) \<Longrightarrow> (0 < e \<longrightarrow> map_option snd (content r k) = Some e)
          \<and> n = Suc (case content r k of None \<Rightarrow> 0 | Some (_, m) \<Rightarrow> m) \<and> content r' = (content r)(k \<mapsto> (b, n))"
    and "kv_put env r k b e = Inl (ApiError ''storage_conflict'' s) \<Longrightarrow> 0 < e \<and> map_option snd (content r k) \<noteq> Some e"
    and "kv_put env r k b e \<noteq> Inl Conflict"
    and "kv_delete env r k = Inr r' \<Longrightarrow> content r' = (content r)(k := None)"
    and "kv_list env r p vals cur = Inr res \<Longrightarrow> (k, s', m) \<in> set (kv_items res) \<Longrightarrow>
          startsWith p k \<and> (if vals then \<exists>b. s' = Some b \<and> content r k = Some (b, m) else content r k \<noteq> None)"
    and "kv_list env r p vals cur = Inr res \<Longrightarrow> startsWith p k \<Longrightarrow> content r k \<noteq> None \<Longrightarrow> after cur k \<Longrightarrow>
          k \<in> fst ` set (kv_items res) \<or> next_cursor res \<noteq> [] \<and> after (next_cursor res) k"
    and "after [] k"
proof -
  note a = assms [unfolded relay_storage_def]
  note tail = a [THEN conjunct2, THEN conjunct2, THEN conjunct2, THEN conjunct2]
  show "kv_get env r k = Inr x \<Longrightarrow> x = content r k" using a [THEN conjunct1] by blast
  show "kv_put env r k b e = Inr (r', n) \<Longrightarrow> (0 < e \<longrightarrow> map_option snd (content r k) = Some e)
          \<and> n = Suc (case content r k of None \<Rightarrow> 0 | Some (_, m) \<Rightarrow> m) \<and> content r' = (content r)(k \<mapsto> (b, n))"
    by (rule a [THEN conjunct2, THEN conjunct1, rule_format (no_asm)])
  show "kv_put env r k b e = Inl (ApiError ''storage_conflict'' s) \<Longrightarrow> 0 < e \<and> map_option snd (content r k) \<noteq> Some e"
    using a [THEN conjunct2, THEN conjunct2, THEN conjunct1] by blast
  show "kv_put env r k b e \<noteq> Inl Conflict" using a [THEN conjunct2, THEN conjunct2, THEN conjunct2, THEN conjunct1] by blast
  show "kv_delete env r k = Inr r' \<Longrightarrow> content r' = (content r)(k := None)" using tail [THEN conjunct1] by blast
  show "kv_list env r p vals cur = Inr res \<Longrightarrow> (k, s', m) \<in> set (kv_items res) \<Longrightarrow>
          startsWith p k \<and> (if vals then \<exists>b. s' = Some b \<and> content r k = Some (b, m) else content r k \<noteq> None)"
    using tail [THEN conjunct2, THEN conjunct1] by blast
  show "kv_list env r p vals cur = Inr res \<Longrightarrow> startsWith p k \<Longrightarrow> content r k \<noteq> None \<Longrightarrow> after cur k \<Longrightarrow>
          k \<in> fst ` set (kv_items res) \<or> next_cursor res \<noteq> [] \<and> after (next_cursor res) k"
    using tail [THEN conjunct2, THEN conjunct1] by blast
  show "after [] k" using tail [THEN conjunct2, THEN conjunct2] by blast
qed

definition relay_supports :: "('r, 'v) store_env \<Rightarrow> bool" where
  "relay_supports env \<longleftrightarrow>
     (\<forall>r k err. kv_get env r k = Inl err \<longrightarrow> \<not> isUnsupported err) \<and> (\<forall>r k b e err. kv_put env r k b e = Inl err \<longrightarrow> \<not> isUnsupported err)
     \<and> (\<forall>r p v c err. kv_list env r p v c = Inl err \<longrightarrow> \<not> isUnsupported err) \<and> (\<forall>r k err. kv_delete env r k = Inl err \<longrightarrow> \<not> isUnsupported err)"

text \<open>What the storage holds: on the device once the relay has said it offers none, else unsealed from the relay.\<close>

definition heldBy :: "'r draft_env \<Rightarrow> ('r \<Rightarrow> string \<Rightarrow> (SealedBlobJSON \<times> nat) option) \<Rightarrow> 'r draft_world \<Rightarrow> draft_map" where
  "heldBy env content w k =
     (if localOnly (dw_store w) then map_of (ps_idb (dw_store w)) (ns (dw_store w) k)
      else (case content (dw_relay w) k of None \<Rightarrow> None | Some (b, n) \<Rightarrow> map_option (\<lambda>v. (v, n)) (unseal env (dw_store w) b)))"

definition readableAt :: "'r draft_env \<Rightarrow> ('r \<Rightarrow> string \<Rightarrow> (SealedBlobJSON \<times> nat) option) \<Rightarrow> draft_value PersonalStore \<Rightarrow> 'r \<Rightarrow> bool" where
  "readableAt env content st r \<longleftrightarrow> (\<forall>k b n. content r k = Some (b, n) \<longrightarrow> unseal env st b \<noteq> None)"

definition worldOk ::
    "'r draft_env \<Rightarrow> ('r \<Rightarrow> 'r) \<Rightarrow> (nat \<Rightarrow> seal_randoms) \<Rightarrow> ('r \<Rightarrow> string \<Rightarrow> (SealedBlobJSON \<times> nat) option) \<Rightarrow> (string \<Rightarrow> string \<Rightarrow> bool) \<Rightarrow>
     'r draft_world \<Rightarrow> bool" where
  "worldOk env tick rnd content after w \<longleftrightarrow>
     relay_storage env content after \<and> (\<forall>r. content (tick r) = content r) \<and> (\<forall>i. randoms_ok (rnd i)) \<and> sealing_ok env (dw_store w)
     \<and> distinct (map fst (ps_idb (dw_store w))) \<and> distinct (map fst (dw_drafts w))
     \<and> (localOnly (dw_store w) \<or> relay_supports env \<and> readableAt env content (dw_store w) (dw_relay w))"

subsection \<open>The calls\<close>

lemma sealing_ok_idb [simp]: "sealing_ok env (st\<lparr>ps_idb := m\<rparr>) = sealing_ok env st"
  by (simp add: sealing_ok_def)

lemma supports_unsupported:
  "relay_supports env \<Longrightarrow> kv_get env r k = Inl err \<Longrightarrow> unsupported st err = None"
  "relay_supports env \<Longrightarrow> kv_put env r k b e = Inl err \<Longrightarrow> unsupported st err = None"
  "relay_supports env \<Longrightarrow> kv_delete env r k = Inl err \<Longrightarrow> unsupported st err = None"
  "relay_supports env \<Longrightarrow> kv_list env r p v c = Inl err \<Longrightarrow> unsupported st err = None"
  by (auto simp: relay_supports_def unsupported_def)

lemma heldBy_cong: "dw_store w' = dw_store w \<Longrightarrow> content (dw_relay w') = content (dw_relay w) \<Longrightarrow> heldBy env content w' = heldBy env content w"
  by (rule ext) (simp only: heldBy_def)

lemma worldOk_cong:
  "worldOk env tick rnd content after w \<Longrightarrow> dw_store w' = dw_store w \<Longrightarrow> content (dw_relay w') = content (dw_relay w) \<Longrightarrow>
   distinct (map fst (dw_drafts w')) \<Longrightarrow> worldOk env tick rnd content after w'"
  by (simp add: worldOk_def readableAt_def)

lemma psGet_app:
  assumes "worldOk env tick rnd content after w" "psGet env (tick (dw_relay w)) (dw_store w) k = (st, res)"
  shows "st = dw_store w \<and> (\<forall>x. res = Inr x \<longrightarrow> heldBy env content w k = map_option (\<lambda>e. (se_value e, se_version e)) x)"
proof (cases "localOnly (dw_store w)")
  case True
  then show ?thesis using assms(2) by (cases "map_of (ps_idb (dw_store w)) (ns (dw_store w) k)") (auto simp: psGet_def heldBy_def localGet_def)
next
  case False
  then have l: "relay_storage env content after" "content (tick (dw_relay w)) = content (dw_relay w)" "relay_supports env"
    using assms(1) by (auto simp: worldOk_def)
  show ?thesis
  proof (cases "kv_get env (tick (dw_relay w)) k")
    case (Inl err)
    then show ?thesis using assms(2) False by (auto simp: psGet_def supports_unsupported(1) [OF l(3) Inl])
  next
    case (Inr x)
    then have "x = content (dw_relay w) k" using relay_storageD(1) [OF l(1)] l(2) by metis
    then show ?thesis using assms(2) False Inr by (auto simp: psGet_def heldBy_def split: option.splits)
  qed
qed

lemma localPut_held:
  assumes "localOnly (dw_store w)" "localPut (dw_store w) k v e = Inr (st, n)"
  shows "(0 < e \<longrightarrow> versionOf (heldBy env content w k) = e) \<and> n = Suc (versionOf (heldBy env content w k))
     \<and> heldBy env content (w\<lparr>dw_relay := r, dw_store := st, dw_seals := i\<rparr>) = (heldBy env content w)(k \<mapsto> (v, n))"
proof -
  have "localVersion (dw_store w) k = versionOf (heldBy env content w k)"
    using assms(1) by (auto simp: heldBy_def localVersion_def versionOf_def split: option.splits)
  moreover have "heldBy env content (w\<lparr>dw_relay := r, dw_store := st, dw_seals := i\<rparr>) = (heldBy env content w)(k \<mapsto> (v, n))"
    using assms by (auto simp: localPut_Inr heldBy_def fun_eq_iff ns_inj)
  ultimately show ?thesis using assms(2) by (auto simp: localPut_Inr)
qed

lemma psPutLocal_held:
  assumes "localOnly (dw_store w)" "psPutLocal r (dw_store w) k v e = (r', st, res)"
  shows "r' = r" "localOnly st" "ps_owner st = ps_owner (dw_store w)" "sealing_ok env st = sealing_ok env (dw_store w)"
    "distinct (map fst (ps_idb (dw_store w))) \<Longrightarrow> distinct (map fst (ps_idb st))"
    "res = Inr n \<Longrightarrow> localPut (dw_store w) k v e = Inr (st, n)"
    "res = Inl err \<Longrightarrow> st = dw_store w \<and> err = Conflict \<and> 0 < e \<and> versionOf (heldBy env content w k) \<noteq> e"
  using assms by (auto simp: psPutLocal_def localPut_def Let_def heldBy_def localVersion_def versionOf_def distinct_update split: if_splits option.splits)

lemma relay_version:
  assumes "\<not> localOnly (dw_store w)" "readableAt env content (dw_store w) (dw_relay w)"
  shows "versionOf (heldBy env content w k) = (case content (dw_relay w) k of None \<Rightarrow> 0 | Some (_, m) \<Rightarrow> m)"
proof (cases "content (dw_relay w) k")
  case (Some x)
  then obtain b n v where "x = (b, n)" "unseal env (dw_store w) b = Some v" using assms(2) by (cases x) (fastforce simp: readableAt_def)
  then show ?thesis using assms(1) Some by (simp add: heldBy_def)
qed (use assms(1) in \<open>simp add: heldBy_def\<close>)

lemma psPut_app:
  assumes "worldOk env tick rnd content after w" "psPut env (tick (dw_relay w)) (dw_store w) (rnd (dw_seals w)) k v e = (r', st', res)"
  defines "w' \<equiv> w\<lparr>dw_relay := r', dw_store := st', dw_seals := Suc (dw_seals w)\<rparr>"
  shows "worldOk env tick rnd content after w'"
    and "res = Inr n \<Longrightarrow> (0 < e \<longrightarrow> versionOf (heldBy env content w k) = e) \<and> n = Suc (versionOf (heldBy env content w k))
           \<and> heldBy env content w' = (heldBy env content w)(k \<mapsto> (v, n))"
    and "res = Inl err \<Longrightarrow> heldBy env content w' = heldBy env content w \<and> (err = Conflict \<longrightarrow> 0 < e \<and> versionOf (heldBy env content w k) \<noteq> e)"
proof -
  have "worldOk env tick rnd content after w' \<and> (\<forall>n. res = Inr n \<longrightarrow> (0 < e \<longrightarrow> versionOf (heldBy env content w k) = e) \<and> n = Suc (versionOf (heldBy env content w k))
           \<and> heldBy env content w' = (heldBy env content w)(k \<mapsto> (v, n)))
     \<and> (\<forall>err. res = Inl err \<longrightarrow> heldBy env content w' = heldBy env content w \<and> (err = Conflict \<longrightarrow> 0 < e \<and> versionOf (heldBy env content w k) \<noteq> e))"
  proof (cases "localOnly (dw_store w)")
    case True
    then have p: "psPutLocal (tick (dw_relay w)) (dw_store w) k v e = (r', st', res)" using assms(2) by (simp add: psPut_def)
    note l = psPutLocal_held [OF True p]
    have "worldOk env tick rnd content after w'" using assms(1) l(2,4,5) unfolding w'_def worldOk_def by simp
    moreover have "heldBy env content w' = heldBy env content w" if "res = Inl err" for err
      using l(7) [OF that] True unfolding w'_def heldBy_def by (simp add: fun_eq_iff)
    ultimately show ?thesis using l(6,7) localPut_held [OF True] unfolding w'_def by blast
  next
    case False
    then have law: "relay_storage env content after" "content (tick (dw_relay w)) = content (dw_relay w)" "relay_supports env" "readableAt env content (dw_store w) (dw_relay w)"
      and ok: "sealing_ok env (dw_store w)" "randoms_ok (rnd (dw_seals w))" using assms(1) by (auto simp: worldOk_def)
    have ver: "map_option snd (content (dw_relay w) k) = Some e \<longleftrightarrow> versionOf (heldBy env content w k) = e" if "0 < e" for e
      using that relay_version [OF False law(4)] by (auto split: option.splits)
    show ?thesis
    proof (cases "psSeal env (dw_store w) (rnd (dw_seals w)) v")
      case (Inl err)
      then have "err = SealFailed" by (auto simp: psSeal_def split: prod.splits sum.splits)
      then have "res = Inl SealFailed" "r' = tick (dw_relay w)" "st' = dw_store w" using assms(2) False Inl
        by (auto simp: psPut_def unsupported_def isUnsupported_def)
      moreover from this have "heldBy env content w' = heldBy env content w" using law(2) unfolding w'_def by (intro heldBy_cong) simp_all
      moreover have "distinct (map fst (dw_drafts w'))" using assms(1) by (simp add: worldOk_def w'_def)
      ultimately show ?thesis using worldOk_cong [OF assms(1), of w'] law(2) by (simp add: w'_def)
    next
      case (Inr b)
      show ?thesis
      proof (cases "kv_put env (tick (dw_relay w)) k b e")
        case (Inl err)
        have "r' = tick (dw_relay w)" "st' = dw_store w" "res = Inl err \<or> res = Inl Conflict \<and> (\<exists>s. err = ApiError ''storage_conflict'' s)"
          using assms(2) False Inr Inl by (auto simp: psPut_def supports_unsupported(2) [OF law(3) Inl] split: if_splits store_error.splits)
        moreover have "0 < e \<and> versionOf (heldBy env content w k) \<noteq> e" if "err = ApiError ''storage_conflict'' s" for s
          using relay_storageD(3) [OF law(1) Inl [unfolded that]] ver [of e] law(2) by simp
        moreover have "err \<noteq> Conflict" using relay_storageD(4) [OF law(1), of "tick (dw_relay w)" k b e] Inl by auto
        moreover from calculation(1,2) have "heldBy env content w' = heldBy env content w" using law(2) unfolding w'_def by (intro heldBy_cong) simp_all
        moreover have "distinct (map fst (dw_drafts w'))" using assms(1) by (simp add: worldOk_def w'_def)
        ultimately show ?thesis using worldOk_cong [OF assms(1), of w'] law(2) by (auto simp: w'_def)
      next
        case (Inr out)
        then obtain r2 n where put: "kv_put env (tick (dw_relay w)) k b e = Inr (r2, n)" by (cases out) auto
        then have o: "r' = r2" "st' = dw_store w" "res = Inr n" using assms(2) False \<open>psSeal env (dw_store w) (rnd (dw_seals w)) v = Inr b\<close> by (auto simp: psPut_def)
        have c: "0 < e \<longrightarrow> map_option snd (content (dw_relay w) k) = Some e" "n = Suc (case content (dw_relay w) k of None \<Rightarrow> 0 | Some (_, m) \<Rightarrow> m)"
          "content r2 = (content (dw_relay w))(k \<mapsto> (b, n))" using relay_storageD(2) [OF law(1) put] law(2) by auto
        have u: "unseal env (dw_store w) b = Some v" using unseal_seal [OF ok \<open>psSeal env (dw_store w) (rnd (dw_seals w)) v = Inr b\<close>] by (simp add: unseal_def)
        have "readableAt env content (dw_store w) r2" using law(4) u c(3) by (auto simp: readableAt_def)
        then have "worldOk env tick rnd content after w'" using assms(1) law(3) o unfolding w'_def worldOk_def by simp
        moreover have "heldBy env content w' = (heldBy env content w)(k \<mapsto> (v, n))" using False o c(3) u unfolding w'_def heldBy_def by (auto simp: fun_eq_iff split: option.split)
        moreover have "n = Suc (versionOf (heldBy env content w k))" using c(2) relay_version [OF False law(4)] by simp
        ultimately show ?thesis using o(3) c(1) ver by auto
      qed
    qed
  qed
  then show "worldOk env tick rnd content after w'"
    and "res = Inr n \<Longrightarrow> (0 < e \<longrightarrow> versionOf (heldBy env content w k) = e) \<and> n = Suc (versionOf (heldBy env content w k))
           \<and> heldBy env content w' = (heldBy env content w)(k \<mapsto> (v, n))"
    and "res = Inl err \<Longrightarrow> heldBy env content w' = heldBy env content w \<and> (err = Conflict \<longrightarrow> 0 < e \<and> versionOf (heldBy env content w k) \<noteq> e)"
    by auto
qed

lemma psDelete_app:
  assumes "worldOk env tick rnd content after w" "psDelete env (tick (dw_relay w)) (dw_store w) k = (r', st', res)"
  defines "w' \<equiv> w\<lparr>dw_relay := r', dw_store := st'\<rparr>"
  shows "worldOk env tick rnd content after w' \<and> heldBy env content w' = (case res of Inl _ \<Rightarrow> heldBy env content w | Inr _ \<Rightarrow> (heldBy env content w)(k := None))"
proof (cases "localOnly (dw_store w)")
  case True
  then have o: "r' = tick (dw_relay w)" "st' = localDelete (dw_store w) k" "res = Inr ()" using assms(2) by (auto simp: psDelete_def)
  have "worldOk env tick rnd content after w'" using assms(1) True unfolding w'_def o worldOk_def by (simp add: localDelete_def distinct_delete)
  moreover have "heldBy env content w' = (heldBy env content w)(k := None)"
    using True unfolding w'_def o heldBy_def by (auto simp: fun_eq_iff localDelete_def ns_inj)
  ultimately show ?thesis using o(3) by simp
next
  case False
  then have law: "relay_storage env content after" "content (tick (dw_relay w)) = content (dw_relay w)" "relay_supports env" "readableAt env content (dw_store w) (dw_relay w)"
    using assms(1) by (auto simp: worldOk_def)
  have dw: "distinct (map fst (dw_drafts w'))" using assms(1) by (simp add: worldOk_def w'_def)
  show ?thesis
  proof (cases "kv_delete env (tick (dw_relay w)) k")
    case (Inl err)
    then have o: "r' = tick (dw_relay w)" "st' = dw_store w" "res = Inl err" using assms(2) False by (auto simp: psDelete_def supports_unsupported(3) [OF law(3) Inl])
    have "content (dw_relay w') = content (dw_relay w)" "dw_store w' = dw_store w" using o law(2) by (simp_all add: w'_def)
    then show ?thesis using worldOk_cong [OF assms(1), of w'] heldBy_cong [of w' w content env] dw o(3) by simp
  next
    case (Inr r2)
    then have o: "r' = r2" "st' = dw_store w" "res = Inr ()" using assms(2) False by (auto simp: psDelete_def)
    have c: "content r2 = (content (dw_relay w))(k := None)" using relay_storageD(5) [OF law(1) Inr] law(2) by simp
    have "readableAt env content (dw_store w) r2" using law(4) c by (auto simp: readableAt_def)
    then have "worldOk env tick rnd content after w'" using assms(1) law(3) o unfolding w'_def worldOk_def by simp
    moreover have "heldBy env content w' = (heldBy env content w)(k := None)" using False o c unfolding w'_def heldBy_def by (auto simp: fun_eq_iff split: option.split)
    ultimately show ?thesis using o(3) by simp
  qed
qed

lemma localList_held:
  assumes "localOnly (dw_store w)" "distinct (map fst (ps_idb (dw_store w)))"
  shows "e \<in> set (localList (dw_store w) p) \<Longrightarrow> startsWith p (se_key e) \<and> heldBy env content w (se_key e) = Some (se_value e, se_version e)"
    and "startsWith p k \<Longrightarrow> heldBy env content w k \<noteq> None \<Longrightarrow> k \<in> se_key ` set (localList (dw_store w) p)"
proof -
  let ?st = "dw_store w"
  have pref: "startsWith (ns ?st p) k \<longleftrightarrow> (\<exists>t. k = ns ?st (p @ t))" for k by (auto simp: startsWith_iff ns_def)
  have strip: "drop (Suc (Suc (length (ps_owner ?st)))) (ns ?st x) = x" for x by (simp add: ns_def)
  show "e \<in> set (localList ?st p) \<Longrightarrow> startsWith p (se_key e) \<and> heldBy env content w (se_key e) = Some (se_value e, se_version e)"
    using assms by (auto simp: localList_def pref strip heldBy_def)
  assume k: "startsWith p k" "heldBy env content w k \<noteq> None"
  then obtain v n where "map_of (ps_idb ?st) (ns ?st k) = Some (v, n)" using assms(1) by (auto simp: heldBy_def)
  then have "(ns ?st k, v, n) \<in> set (ps_idb ?st)" by (rule map_of_SomeD)
  moreover have "startsWith (ns ?st p) (ns ?st k)" using k(1) by (auto simp: startsWith_iff ns_def)
  ultimately have "\<lparr>se_key = k, se_value = v, se_version = n\<rparr> \<in> set (localList ?st p)" 
    by (auto simp: localList_def strip intro!: image_eqI [of _ _ "(ns ?st k, v, n)"])
  then show "k \<in> se_key ` set (localList ?st p)" by force
qed

lemma listPages_held:
  assumes "relay_storage env content after" "readableAt env content st r" "listPages env r st p cur fuel = Some (Inr es)"
  shows "(\<forall>e\<in>set es. startsWith p (se_key e) \<and> (\<exists>b. content r (se_key e) = Some (b, se_version e) \<and> unseal env st b = Some (se_value e)))
     \<and> (\<forall>k. startsWith p k \<longrightarrow> content r k \<noteq> None \<longrightarrow> after cur k \<longrightarrow> k \<in> se_key ` set es)"
  using assms(3)
proof (induction fuel arbitrary: cur es)
  case (Suc fuel)
  obtain res where l: "kv_list env r p True cur = Inr res" using Suc.prems by (auto split: sum.splits)
  have here: "startsWith p (se_key e) \<and> (\<exists>b. content r (se_key e) = Some (b, se_version e) \<and> unseal env st b = Some (se_value e))"
    if "e \<in> set (pageEntries env st res)" for e
    using that relay_storageD(6) [OF assms(1) l] by (fastforce simp: pageEntries_def List.map_filter_def split: bind_splits)
  have page: "k \<in> se_key ` set (pageEntries env st res)" if k: "k \<in> fst ` set (kv_items res)" for k
  proof -
    obtain s n where i: "(k, s, n) \<in> set (kv_items res)" using k by force
    then obtain b where b: "s = Some b" "content r k = Some (b, n)" using relay_storageD(6) [OF assms(1) l i] by auto
    then obtain v where "unseal env st b = Some v" using assms(2) by (fastforce simp: readableAt_def)
    then have "\<lparr>se_key = k, se_value = v, se_version = n\<rparr> \<in> set (pageEntries env st res)" using i b by (force simp: pageEntries_def List.map_filter_def)
    then show ?thesis by force
  qed
  show ?case
  proof (cases "next_cursor res = []")
    case True
    then have "es = pageEntries env st res" using Suc.prems l by simp
    then show ?thesis using here page relay_storageD(7) [OF assms(1) l] True by blast
  next
    case False
    then obtain rest where r: "listPages env r st p (next_cursor res) fuel = Some (Inr rest)" "es = pageEntries env st res @ rest"
      using Suc.prems l by (auto split: option.splits sum.splits)
    note ih = Suc.IH [OF r(1)]
    have "k \<in> se_key ` set es" if "startsWith p k" "content r k \<noteq> None" "after cur k" for k
      using relay_storageD(7) [OF assms(1) l that] page ih that(1,2) r(2) by (metis UnCI image_Un set_append)
    then show ?thesis using ih here r(2) by auto
  qed
qed simp

lemma keyPages_held:
  assumes "relay_storage env content after" "keyPages env r p cur fuel = Some (Inr ks)"
  shows "(\<forall>k\<in>fst ` set ks. startsWith p k) \<and> (\<forall>k. startsWith p k \<longrightarrow> content r k \<noteq> None \<longrightarrow> after cur k \<longrightarrow> k \<in> fst ` set ks)"
  using assms(2)
proof (induction fuel arbitrary: cur ks)
  case (Suc fuel)
  obtain res where l: "kv_list env r p False cur = Inr res" using Suc.prems by (auto split: sum.splits)
  let ?out = "map (\<lambda>(k, _, n). (k, n)) (kv_items res)"
  have here: "fst ` set ?out = fst ` set (kv_items res)" by force
  have pre: "startsWith p k" if "k \<in> fst ` set (kv_items res)" for k using that relay_storageD(6) [OF assms(1) l] by force
  show ?case
  proof (cases "next_cursor res = []")
    case True
    then have "ks = ?out" using Suc.prems l by simp
    then show ?thesis using here pre relay_storageD(7) [OF assms(1) l] True by metis
  next
    case False
    then obtain rest where r: "keyPages env r p (next_cursor res) fuel = Some (Inr rest)" "ks = ?out @ rest"
      using Suc.prems l by (auto split: option.splits sum.splits)
    note ih = Suc.IH [OF r(1)]
    have all: "fst ` set ks = fst ` set (kv_items res) \<union> fst ` set rest" using r(2) here by (metis image_Un set_append)
    have "k \<in> fst ` set ks" if "startsWith p k" "content r k \<noteq> None" "after cur k" for k
      using relay_storageD(7) [OF assms(1) l that] ih that(1,2) unfolding all by blast
    then show ?thesis using ih pre unfolding all by blast
  qed
qed simp

lemma psList_app:
  assumes "worldOk env tick rnd content after w" "psList env (tick (dw_relay w)) (dw_store w) p fuel = Some (st', res)"
  shows "st' = dw_store w \<and> (\<forall>es. res = Inr es \<longrightarrow>
     (\<forall>e\<in>set es. startsWith p (se_key e) \<and> heldBy env content w (se_key e) = Some (se_value e, se_version e))
     \<and> (\<forall>k. startsWith p k \<longrightarrow> heldBy env content w k \<noteq> None \<longrightarrow> k \<in> se_key ` set es))"
proof (cases "localOnly (dw_store w)")
  case True
  then have "st' = dw_store w" "res = Inr (localList (dw_store w) p)" using assms(2) by (auto simp: psList_def)
  moreover have "distinct (map fst (ps_idb (dw_store w)))" using assms(1) by (simp add: worldOk_def)
  ultimately show ?thesis using localList_held [OF True] by blast
next
  case False
  then have law: "relay_storage env content after" "content (tick (dw_relay w)) = content (dw_relay w)" "relay_supports env" "readableAt env content (dw_store w) (tick (dw_relay w))"
    using assms(1) by (auto simp: worldOk_def readableAt_def)
  have err: "unsupported (dw_store w) err = None" if "listPages env (tick (dw_relay w)) (dw_store w) p cur f = Some (Inl err)" for err cur f
    using that by (induction f arbitrary: cur) (auto simp: supports_unsupported(4) [OF law(3)] split: sum.splits if_splits option.splits)
  obtain out where o: "listPages env (tick (dw_relay w)) (dw_store w) p [] fuel = Some out" using assms(2) False by (auto simp: psList_def split: option.splits)
  then have e: "st' = dw_store w" "res = out" using assms(2) False err by (auto simp: psList_def split: sum.splits)
  have held: "heldBy env content w k = (case content (dw_relay w) k of None \<Rightarrow> None | Some (b, n) \<Rightarrow> map_option (\<lambda>v. (v, n)) (unseal env (dw_store w) b))" for k
    using False by (simp add: heldBy_def)
  show ?thesis
  proof (intro conjI allI impI)
    fix es assume "res = Inr es"
    note l = listPages_held [OF law(1,4) o [unfolded e(2) [symmetric] this]]
    show "\<forall>e\<in>set es. startsWith p (se_key e) \<and> heldBy env content w (se_key e) = Some (se_value e, se_version e)"
      using l law(2) unfolding held by fastforce
    show "k \<in> se_key ` set es" if "startsWith p k" "heldBy env content w k \<noteq> None" for k
      using l that relay_storageD(8) [OF law(1)] law(2) unfolding held by (metis (mono_tags) option.simps(4))
  qed (rule e(1))
qed

lemma psListKeys_app:
  assumes "worldOk env tick rnd content after w" "psListKeys env (tick (dw_relay w)) (dw_store w) p fuel = Some (st', res)"
  shows "st' = dw_store w \<and> (\<forall>ks. res = Inr ks \<longrightarrow> (\<forall>k\<in>fst ` set ks. startsWith p k) \<and> (\<forall>k. startsWith p k \<longrightarrow> heldBy env content w k \<noteq> None \<longrightarrow> k \<in> fst ` set ks))"
proof (cases "localOnly (dw_store w)")
  case True
  then have o: "st' = dw_store w" "res = Inr (map (\<lambda>e. (se_key e, se_version e)) (localList (dw_store w) p))" using assms(2) by (auto simp: psListKeys_def)
  have d: "distinct (map fst (ps_idb (dw_store w)))" using assms(1) by (simp add: worldOk_def)
  have f: "fst ` set (map (\<lambda>e. (se_key e, se_version e)) (localList (dw_store w) p)) = se_key ` set (localList (dw_store w) p)" by force
  have "(\<forall>k\<in>se_key ` set (localList (dw_store w) p). startsWith p k) \<and> (\<forall>k. startsWith p k \<longrightarrow> heldBy env content w k \<noteq> None \<longrightarrow> k \<in> se_key ` set (localList (dw_store w) p))"
    using localList_held [OF True d] by blast
  then show ?thesis unfolding o f [symmetric] by blast
next
  case False
  then have law: "relay_storage env content after" "content (tick (dw_relay w)) = content (dw_relay w)" "relay_supports env" using assms(1) by (auto simp: worldOk_def)
  have err: "unsupported (dw_store w) err = None" if "keyPages env (tick (dw_relay w)) p cur f = Some (Inl err)" for err cur f
    using that by (induction f arbitrary: cur) (auto simp: Let_def supports_unsupported(4) [OF law(3)] split: sum.splits if_splits option.splits)
  obtain out where o: "keyPages env (tick (dw_relay w)) p [] fuel = Some out" using assms(2) False by (auto simp: psListKeys_def Let_def split: option.splits)
  then have e: "st' = dw_store w" "res = out" using assms(2) False err by (auto simp: psListKeys_def Let_def split: sum.splits)
  show ?thesis
  proof (intro conjI allI impI)
    fix ks assume "res = Inr ks"
    note l = keyPages_held [OF law(1) o [unfolded e(2) [symmetric] this]]
    show "\<forall>k\<in>fst ` set ks. startsWith p k" using l by blast
    show "k \<in> fst ` set ks" if "startsWith p k" "heldBy env content w k \<noteq> None" for k
      using l that relay_storageD(8) [OF law(1)] law(2) False unfolding heldBy_def by (metis (mono_tags) option.simps(4))
  qed (rule e(1))
qed

subsection \<open>The contract holds\<close>

lemma aborts_next: "w\<lparr>dw_aborts := x\<rparr> = w' \<Longrightarrow> dw_store w' = dw_store w \<and> dw_relay w' = dw_relay w \<and> dw_drafts w' = dw_drafts w"
  by auto

lemma heldBy_simps [simp]:
  "heldBy env content (w\<lparr>dw_aborts := x\<rparr>) = heldBy env content w" "heldBy env content (w\<lparr>dw_drafts := y\<rparr>) = heldBy env content w"
  by (rule heldBy_cong; simp)+

lemma worldOk_simps [simp]:
  "worldOk env tick rnd content after (w\<lparr>dw_aborts := x\<rparr>) = worldOk env tick rnd content after w"
  by (simp add: worldOk_def)

interpretation app: draft_device "appKv env tick rnd fuel" "heldBy env content" "worldOk env tick rnd content after" idbBackstop "\<lambda>w. map_of (dw_drafts w)"
  for env :: "'r draft_env" and tick rnd fuel content after
proof
  fix w w' :: "'r draft_world" and k v p and e n :: nat
  assume ok: "worldOk env tick rnd content after w"
  have tick: "worldOk env tick rnd content after (w\<lparr>dw_relay := tick (dw_relay w), dw_store := dw_store w\<rparr>)
      \<and> heldBy env content (w\<lparr>dw_relay := tick (dw_relay w), dw_store := dw_store w\<rparr>) = heldBy env content w"
    using ok by (auto intro!: heldBy_cong simp: worldOk_def readableAt_def)
  show "dk_get (appKv env tick rnd fuel) w k = (w', got) \<Longrightarrow> worldOk env tick rnd content after w' \<and> heldBy env content w' = heldBy env content w
      \<and> (\<forall>x. got = Inr x \<longrightarrow> heldBy env content w k = map_option (\<lambda>e. (se_value e, se_version e)) x)" for got
    using psGet_app [OF ok, of k] tick by (auto simp: appKv_def Let_def split: prod.splits)
  show "dk_put (appKv env tick rnd fuel) w k v e = (w', Inr n) \<Longrightarrow> worldOk env tick rnd content after w' \<and> (0 < e \<longrightarrow> versionOf (heldBy env content w k) = e)
      \<and> n = Suc (versionOf (heldBy env content w k)) \<and> heldBy env content w' = (heldBy env content w)(k \<mapsto> (v, n))"
    using psPut_app(1,2) [OF ok, of k v e] by (auto simp: appKv_def split: prod.splits)
  show "dk_put (appKv env tick rnd fuel) w k v e = (w', Inl err) \<Longrightarrow> worldOk env tick rnd content after w' \<and> (err = Conflict \<longrightarrow> 0 < e \<and> versionOf (heldBy env content w k) \<noteq> e)
      \<and> (heldBy env content w' = heldBy env content w \<or> err \<noteq> Conflict \<and> (0 < e \<longrightarrow> versionOf (heldBy env content w k) = e)
         \<and> heldBy env content w' = (heldBy env content w)(k \<mapsto> (v, Suc (versionOf (heldBy env content w k)))))" for err
    using psPut_app(1,3) [OF ok, of k v e] by (auto simp: appKv_def split: prod.splits)
  show "dk_delete (appKv env tick rnd fuel) w k = (w', Inr u) \<Longrightarrow> worldOk env tick rnd content after w' \<and> heldBy env content w' = (heldBy env content w)(k := None)" for u
    using psDelete_app [OF ok, of k] by (auto simp: appKv_def split: prod.splits)
  show "dk_delete (appKv env tick rnd fuel) w k = (w', Inl err) \<Longrightarrow> worldOk env tick rnd content after w' \<and> heldBy env content w' = heldBy env content w" for err
    using psDelete_app [OF ok, of k] by (auto simp: appKv_def split: prod.splits)
  show "dk_list (appKv env tick rnd fuel) w p = Some (w', listed) \<Longrightarrow> worldOk env tick rnd content after w' \<and> heldBy env content w' = heldBy env content w
      \<and> (\<forall>es. listed = Inr es \<longrightarrow> (\<forall>e\<in>set es. startsWith p (se_key e) \<and> heldBy env content w (se_key e) = Some (se_value e, se_version e))
         \<and> (\<forall>k. startsWith p k \<longrightarrow> heldBy env content w k \<noteq> None \<longrightarrow> k \<in> se_key ` set es))" for listed
    using psList_app [OF ok, of p fuel] tick by (auto simp: appKv_def Let_def split: prod.splits)
  show "dk_listKeys (appKv env tick rnd fuel) w p = Some (w', keys) \<Longrightarrow> worldOk env tick rnd content after w' \<and> heldBy env content w' = heldBy env content w
      \<and> (\<forall>ks. keys = Inr ks \<longrightarrow> (\<forall>k\<in>fst ` set ks. startsWith p k) \<and> (\<forall>k. startsWith p k \<longrightarrow> heldBy env content w k \<noteq> None \<longrightarrow> k \<in> fst ` set ks))" for keys
    using psListKeys_app [OF ok, of p fuel] tick by (auto simp: appKv_def Let_def split: prod.splits)
next
  fix w w' :: "'r draft_world" and k v p and e :: nat
  show "dk_get (appKv env tick rnd fuel) w k = (w', got) \<Longrightarrow> map_of (dw_drafts w') = map_of (dw_drafts w)" for got
    by (auto simp: appKv_def Let_def split: prod.splits)
  show "dk_put (appKv env tick rnd fuel) w k v e = (w', put) \<Longrightarrow> map_of (dw_drafts w') = map_of (dw_drafts w)" for put
    by (auto simp: appKv_def split: prod.splits)
  show "dk_delete (appKv env tick rnd fuel) w k = (w', deleted) \<Longrightarrow> map_of (dw_drafts w') = map_of (dw_drafts w)" for deleted
    by (auto simp: appKv_def split: prod.splits)
  show "dk_listKeys (appKv env tick rnd fuel) w p = Some (w', keys) \<Longrightarrow> map_of (dw_drafts w') = map_of (dw_drafts w)" for keys
    by (auto simp: appKv_def Let_def split: prod.splits)
next
  fix w w' :: "'r draft_world" and k p d ok
  show "bs_get idbBackstop w k = (w', copy) \<Longrightarrow> (worldOk env tick rnd content after w \<longrightarrow> worldOk env tick rnd content after w') \<and> heldBy env content w' = heldBy env content w
      \<and> map_of (dw_drafts w') = map_of (dw_drafts w) \<and> (\<forall>x. copy = Some x \<longrightarrow> x = map_of (dw_drafts w) k)" for copy
    by (auto simp: idbBackstop_def Let_def split: if_splits)
  show "bs_put idbBackstop w k d = (w', ok) \<Longrightarrow> (worldOk env tick rnd content after w \<longrightarrow> worldOk env tick rnd content after w') \<and> heldBy env content w' = heldBy env content w
      \<and> map_of (dw_drafts w') = (if ok then (map_of (dw_drafts w))(k \<mapsto> d) else map_of (dw_drafts w))"
    by (auto simp: idbBackstop_def Let_def worldOk_def update_conv' distinct_update split: if_splits)
  show "bs_delete idbBackstop w k = (w', ok) \<Longrightarrow> (worldOk env tick rnd content after w \<longrightarrow> worldOk env tick rnd content after w') \<and> heldBy env content w' = heldBy env content w
      \<and> map_of (dw_drafts w') = (if ok then (map_of (dw_drafts w))(k := None) else map_of (dw_drafts w))"
    by (auto simp: idbBackstop_def Let_def worldOk_def delete_conv' distinct_delete split: if_splits)
next
  fix w w' :: "'r draft_world" and p copies
  assume ok: "worldOk env tick rnd content after w" and e: "bs_entries idbBackstop w p = (w', copies)"
  have d: "distinct (map fst (dw_drafts w))" using ok by (simp add: worldOk_def)
  show "worldOk env tick rnd content after w' \<and> heldBy env content w' = heldBy env content w \<and> map_of (dw_drafts w') = map_of (dw_drafts w)
      \<and> (\<forall>es. copies = Some es \<longrightarrow> distinct (map fst es) \<and> (\<forall>k d. (k, d) \<in> set es \<longleftrightarrow> startsWith p k \<and> map_of (dw_drafts w) k = Some d))"
    using e ok d distinct_map_filter [OF d] by (auto simp: idbBackstop_def Let_def split: if_splits dest: map_of_SomeD)
qed

end
