(* ===== verification/Draft_Properties.thy ===== *)
theory Draft_Properties
  imports Draft_World Device_Seal
begin

section \<open>What holds of drafts\<close>

text \<open>
  The properties of the draft store as the application builds it: over personal storage, on the relay or, once
  that offers none, on the device, and over the device's own database. A world is the one of \<open>Draft_World\<close>; the
  contract of \<open>Draft_Laws\<close> holds there, and the properties rest on its lemmas. The witnesses use a relay that
  keeps its blobs in an association list and a text form of the records.
\<close>

definition appDrafts :: "char \<Rightarrow> 'r draft_env \<Rightarrow> ('r \<Rightarrow> 'r) \<Rightarrow> (nat \<Rightarrow> seal_randoms) \<Rightarrow> nat \<Rightarrow> bool \<Rightarrow> string \<Rightarrow> 'r draft_world DraftStore" where
  "appDrafts el env tick rnd fuel keepLocal address = newDraftStore el (appKv env tick rnd fuel) idbBackstop keepLocal address"

lemma appDrafts_simps [simp]:
  "ds_kv (appDrafts el env tick rnd fuel keepLocal address) = appKv env tick rnd fuel"
  "ds_local (appDrafts el env tick rnd fuel keepLocal address) = (if keepLocal then Some idbBackstop else None)"
  "ds_prefix (appDrafts el env tick rnd fuel keepLocal address) = localPrefix address"
  "ds_ellipsis (appDrafts el env tick rnd fuel keepLocal address) = el"
  by (simp_all add: appDrafts_def newDraftStore_def)

lemma app_local: "ds_local (appDrafts el env tick rnd fuel keepLocal address) = None \<or> ds_local (appDrafts el env tick rnd fuel keepLocal address) = Some idbBackstop"
  by simp

lemma app_run:
  assumes "(draftStep (appDrafts el env tick rnd fuel keepLocal address) (heldBy env content) (worldOk env tick rnd content after))\<^sup>*\<^sup>* (w, \<lambda>_. NEW_DRAFT_BASE) (w', bases)"
    and "worldOk env tick rnd content after w" "typed (heldBy env content w)" "rowsComplete (heldBy env content w)"
  shows "worldOk env tick rnd content after w' \<and> typed (heldBy env content w') \<and> rowsComplete (heldBy env content w')"
  using app.run_keeps [OF assms(1) appDrafts_simps(1) app_local] assms(2-4) by simp

text \<open>
  A save whose body went through and whose row did not is refused when it is tried again from the same base:
  the device reports a conflict with itself.
\<close>

lemma half_saved_draft_conflicts:
  assumes "worldOk env tick rnd content after w" and "ds = appDrafts el env tick rnd fuel keepLocal address"
    and "dsSave ds i c base at False w = (w1, Inl e)" "heldBy env content w1 (bodyKey i) \<noteq> heldBy env content w (bodyKey i)"
    and "heldBy env content w1 (headKey i) = heldBy env content w (headKey i)" "0 < db_body base"
    and "worldOk env tick rnd content after w2" "heldBy env content w2 = heldBy env content w1"
    and "dsSave ds i c' base at' False w2 = (w3, res)"
  shows "\<exists>err. res = Inl err \<and> heldBy env content w3 (headKey i) = heldBy env content w (headKey i)"
proof -
  have kv: "ds_kv ds = appKv env tick rnd fuel" using assms(2) by simp
  have "versionOf (heldBy env content w1 (bodyKey i)) \<noteq> db_body base"
    using assms(1,3) kv
  proof (cases rule: app.save_outcomes)
    case (half m e')
    have "m (bodyKey i) = heldBy env content w (bodyKey i)" using uploaded_rows(2) [OF half(3)] .
    then show ?thesis using half(4) assms(6) by (simp add: half(5) savedBody_def)
  next
    case (written m D)
    have "m (bodyKey i) = heldBy env content w (bodyKey i)" using uploaded_rows(2) [OF written(2)] .
    moreover have "versionOf (heldBy env content w1 (bodyKey i)) = Suc (versionOf (m (bodyKey i)))" by (auto simp: written(6) savedRow_def savedBody_def draft_keys)
    ultimately show ?thesis using written(3) assms(6) by simp
  qed (use assms(4) in simp)
  then have "versionOf (heldBy env content w2 (bodyKey i)) \<noteq> db_body base" using assms(8) by simp
  from app.stale_save [OF assms(7,9) kv assms(6) this] show ?thesis using assms(5,8) by auto
qed

text \<open>
  Versions start again when a draft is stored after it was removed: whatever the base of a save that then
  succeeds, the row and the body are at version 1, the versions of the first save of the earlier draft. A save
  based on that earlier draft is not refused as a conflict.
\<close>

lemma restored_draft_repeats_versions:
  assumes "worldOk env tick rnd content after w" and "ds = appDrafts el env tick rnd fuel keepLocal address"
    and "heldBy env content w (headKey i) = None" "heldBy env content w (bodyKey i) = None"
    and "dsSave ds i c NEW_DRAFT_BASE at True w = (w1, Inr b)"
    and "worldOk env tick rnd content after w2" "heldBy env content w2 = heldBy env content w1"
    and "dsSave ds i c' \<lparr>db_head = 1, db_body = 1, db_atts = atts\<rparr> at' False w2 = (w3, res)"
  shows "db_head b = 1 \<and> db_body b = 1 \<and> res \<noteq> Inl DraftConflictError"
proof -
  have kv: "ds_kv ds = appKv env tick rnd fuel" using assms(2) by simp
  have v: "versionOf (heldBy env content w1 (headKey i)) = 1 \<and> versionOf (heldBy env content w1 (bodyKey i)) = 1" using assms(1,5) kv
  proof (cases rule: app.save_outcomes)
    case (written m D)
    have "m (bodyKey i) = None" "m (headKey i) = None" using uploaded_rows [OF written(2)] assms(3,4) by simp_all
    then show ?thesis by (auto simp: written(6) savedRow_def savedBody_def draft_keys)
  qed auto
  have "res \<noteq> Inl DraftConflictError" using assms(6,8) kv
    by (cases rule: app.save_outcomes) (use v assms(7) in auto)
  then show ?thesis using v app.save_base [OF assms(1,5) kv] by simp
qed

subsection \<open>A concrete relay\<close>

definition putBool :: "bool \<Rightarrow> bytes" where
  "putBool b = putNat (if b then 1 else 0)"

definition getBool :: "bytes \<Rightarrow> bool \<times> bytes" where
  "getBool b = (case getNat b of (n, r) \<Rightarrow> (n = 1, r))"

definition putReply :: "ComposeReplyTo \<Rightarrow> bytes" where
  "putReply x = putList putStr (rt_to x) @ putOpt (putList putStr) (rt_cc x) @ putStr (rt_subject x) @ putOpt (putList putStr) (rt_sentTo x)
     @ putOpt putStr (rt_quote x) @ putOpt putStr (rt_quoteHtml x) @ putOpt putStr (rt_replyToId x) @ putOpt putStr (rt_threadId x)"

definition getReply :: "bytes \<Rightarrow> ComposeReplyTo \<times> bytes" where
  "getReply b0 =
     (case getList getStr b0 of (v1, b1) \<Rightarrow> case getOpt (getList getStr) b1 of (v2, b2) \<Rightarrow> case getStr b2 of (v3, b3) \<Rightarrow>
      case getOpt (getList getStr) b3 of (v4, b4) \<Rightarrow> case getOpt getStr b4 of (v5, b5) \<Rightarrow> case getOpt getStr b5 of (v6, b6) \<Rightarrow>
      case getOpt getStr b6 of (v7, b7) \<Rightarrow> case getOpt getStr b7 of (v8, b8) \<Rightarrow>
        (\<lparr>rt_to = v1, rt_cc = v2, rt_subject = v3, rt_sentTo = v4, rt_quote = v5, rt_quoteHtml = v6, rt_replyToId = v7, rt_threadId = v8\<rparr>, b8))"

definition putStored :: "StoredAttachment \<Rightarrow> bytes" where
  "putStored x = putStr (sa_id x) @ putStr (sa_filename x) @ putStr (sa_contentType x) @ putNat (sa_sizeBytes x) @ putStr (sa_contentHash x)
     @ putStr (sa_contentId x) @ putStr (sa_disposition x)"

definition getStored :: "bytes \<Rightarrow> StoredAttachment \<times> bytes" where
  "getStored b0 =
     (case getStr b0 of (v1, b1) \<Rightarrow> case getStr b1 of (v2, b2) \<Rightarrow> case getStr b2 of (v3, b3) \<Rightarrow> case getNat b3 of (v4, b4) \<Rightarrow>
      case getStr b4 of (v5, b5) \<Rightarrow> case getStr b5 of (v6, b6) \<Rightarrow> case getStr b6 of (v7, b7) \<Rightarrow>
        (\<lparr>sa_id = v1, sa_filename = v2, sa_contentType = v3, sa_sizeBytes = v4, sa_contentHash = v5, sa_contentId = v6, sa_disposition = v7\<rparr>, b7))"

definition putHead :: "StoredHead \<Rightarrow> bytes" where
  "putHead x = putStr (sh_from x) @ putList putStr (sh_to x) @ putList putStr (sh_cc x) @ putList putStr (sh_bcc x) @ putStr (sh_subject x)
     @ putStr (sh_snippet x) @ putNat (sh_updatedAt x) @ putList putStored (sh_attachments x)"

definition getHead :: "bytes \<Rightarrow> StoredHead \<times> bytes" where
  "getHead b0 =
     (case getStr b0 of (v1, b1) \<Rightarrow> case getList getStr b1 of (v2, b2) \<Rightarrow> case getList getStr b2 of (v3, b3) \<Rightarrow> case getList getStr b3 of (v4, b4) \<Rightarrow>
      case getStr b4 of (v5, b5) \<Rightarrow> case getStr b5 of (v6, b6) \<Rightarrow> case getNat b6 of (v7, b7) \<Rightarrow> case getList getStored b7 of (v8, b8) \<Rightarrow>
        (\<lparr>sh_from = v1, sh_to = v2, sh_cc = v3, sh_bcc = v4, sh_subject = v5, sh_snippet = v6, sh_updatedAt = v7, sh_attachments = v8\<rparr>, b8))"

definition putBody :: "StoredBody \<Rightarrow> bytes" where
  "putBody x = putStr (pn_to (sy_pending x)) @ putStr (pn_cc (sy_pending x)) @ putStr (pn_bcc (sy_pending x)) @ putBool (sy_showCcBcc x) @ putBool (sy_rich x)
     @ putStr (sy_text x) @ putStr (sy_html x) @ putOpt putReply (sy_replyTo x)"

definition getBody :: "bytes \<Rightarrow> StoredBody \<times> bytes" where
  "getBody b0 =
     (case getStr b0 of (v1, b1) \<Rightarrow> case getStr b1 of (v2, b2) \<Rightarrow> case getStr b2 of (v3, b3) \<Rightarrow> case getBool b3 of (v4, b4) \<Rightarrow>
      case getBool b4 of (v5, b5) \<Rightarrow> case getStr b5 of (v6, b6) \<Rightarrow> case getStr b6 of (v7, b7) \<Rightarrow> case getOpt getReply b7 of (v8, b8) \<Rightarrow>
        (\<lparr>sy_pending = \<lparr>pn_to = v1, pn_cc = v2, pn_bcc = v3\<rparr>, sy_showCcBcc = v4, sy_rich = v5, sy_text = v6, sy_html = v7, sy_replyTo = v8\<rparr>, b8))"

definition draftText :: "draft_value \<Rightarrow> bytes" where
  "draftText v = (case v of HeadValue h \<Rightarrow> 0 # putHead h | BodyValue b \<Rightarrow> 1 # putBody b | BytesValue s \<Rightarrow> 2 # putStr s)"

definition draftParse :: "bytes \<Rightarrow> draft_value option" where
  "draftParse b =
     (case b of [] \<Rightarrow> None
      | t # r \<Rightarrow> Some (if t = 0 then HeadValue (fst (getHead r)) else if t = 1 then BodyValue (fst (getBody r)) else BytesValue (fst (getStr r))))"

lemma getBool_put: "getBool (putBool b @ r) = (b, r)"
  by (simp add: getBool_def putBool_def get_put)

lemma getReply_put: "getReply (putReply x @ r) = (x, r)"
  by (simp add: getReply_def putReply_def get_put)

lemma getStored_put: "getStored (putStored x @ r) = (x, r)"
  by (simp add: getStored_def putStored_def get_put)

lemma getHead_put: "getHead (putHead x @ r) = (x, r)"
  by (simp add: getHead_def putHead_def get_put getStored_put)

lemma getBody_put: "getBody (putBody x @ r) = (x, r)"
  by (simp add: getBody_def putBody_def get_put getBool_put getReply_put)

lemma draft_text_parse: "draftParse (draftText v) = Some v"
  using getHead_put [of _ "[]"] getBody_put [of _ "[]"] getStr_put [of _ "[]"] by (cases v) (simp_all add: draftParse_def draftText_def)

text \<open>The relay of the witnesses: blobs in an association list, one page per listing.\<close>

definition demo_draft_env :: "(string, SealedBlobJSON \<times> nat) jsmap draft_env" where
  "demo_draft_env =
     \<lparr>e_crypto = demo_crypto, e_order = id, stringify = draftText, parse = draftParse,
      kv_get = (\<lambda>r k. Inr (map_of r k)),
      kv_put = (\<lambda>r k b e. let m = (case map_of r k of None \<Rightarrow> 0 | Some (_, n) \<Rightarrow> n) in
                  if 0 < e \<and> m \<noteq> e then Inl (ApiError ''storage_conflict'' 409) else Inr (AList.update k (b, m + 1) r, m + 1)),
      kv_list = (\<lambda>r p vs c. Inr \<lparr>kv_items = map (\<lambda>k. (k, case map_of r k of Some (b, n) \<Rightarrow> (if vs then Some b else None, n) | None \<Rightarrow> (None, 0)))
                  (filter (startsWith p) (map fst r)), next_cursor = []\<rparr>),
      kv_delete = (\<lambda>r k. Inr (AList.delete k r))\<rparr>"

definition demo_draft_world :: "(string, SealedBlobJSON \<times> nat) jsmap draft_world" where
  "demo_draft_world =
     \<lparr>dw_relay = [], dw_store = newStore ''al@x.io'' (demo_kp 1) [] False, dw_seals = 0, dw_drafts = [], dw_aborts = []\<rparr>"

lemma demo_draft_relay: "relay_storage demo_draft_env map_of (\<lambda>c k. c = [])"
  unfolding relay_storage_def demo_draft_env_def
  by (auto simp: Let_def update_conv' delete_conv' map_of_eq_None_iff image_iff split: if_splits option.splits) (force dest: map_of_SomeD)

lemma demo_draft_worldOk: "worldOk demo_draft_env id (\<lambda>_. demo_randoms) map_of (\<lambda>c k. c = []) demo_draft_world"
proof -
  have "sealing_ok demo_draft_env (dw_store demo_draft_world)"
    using demo_laws demo_kp_x25519 [of 1] draft_text_parse by (simp add: sealing_ok_def demo_draft_env_def demo_draft_world_def newStore_def)
  moreover have "relay_supports demo_draft_env" by (auto simp: relay_supports_def demo_draft_env_def Let_def isUnsupported_def split: if_splits)
  ultimately show ?thesis using demo_draft_relay demo_randoms_ok
    by (simp add: worldOk_def readableAt_def demo_draft_world_def newStore_def)
qed

lemma demo_draft_empty: "heldBy demo_draft_env map_of demo_draft_world = (\<lambda>_. None)"
  by (simp add: heldBy_def demo_draft_world_def newStore_def fun_eq_iff)

definition demo_drafts :: "(string, SealedBlobJSON \<times> nat) jsmap draft_world DraftStore" where
  "demo_drafts = appDrafts (CHR ''.'') demo_draft_env id (\<lambda>_. demo_randoms) 1 True ''al@x.io''"

definition demo_content :: DraftContent where
  "demo_content =
     \<lparr>dc_from = ''al@x.io'', dc_to = [''bo@y.io''], dc_cc = [], dc_bcc = [], dc_pending = \<lparr>pn_to = [], pn_cc = ''c'', pn_bcc = []\<rparr>, dc_showCcBcc = True,
      dc_subject = ''hi'', dc_rich = False, dc_text = ''hello'', dc_html = [], dc_replyTo = None,
      dc_attachments = [\<lparr>ai_attachmentId = [7], ai_filename = ''a.txt'', ai_contentType = ''text/plain'', ai_sizeBytes = 2, ai_contentHash = [9], ai_content = [1, 2],
        ai_contentId = [], ai_disposition = []\<rparr>]\<rparr>"

lemma demo_kv: "ds_kv demo_drafts = appKv demo_draft_env id (\<lambda>_. demo_randoms) 1"
  by (simp add: demo_drafts_def)

lemma demo_drafts_start: "typed (heldBy demo_draft_env map_of demo_draft_world)" "rowsComplete (heldBy demo_draft_env map_of demo_draft_world)"
  unfolding demo_draft_empty by (simp_all add: typed_def rowsComplete_def)

lemma demo_kv_put:
  assumes "dw_store w = dw_store demo_draft_world"
  shows "\<exists>w' n. dk_put (ds_kv demo_drafts) w k v 0 = (w', Inr n) \<and> dw_store w' = dw_store demo_draft_world \<and> dw_aborts w' = dw_aborts w \<and> dw_drafts w' = dw_drafts w"
proof -
  have "\<exists>priv. length priv = 32 \<and> x25519Public (demo_kp 1) = x25519_public demo_crypto priv" using demo_kp_x25519 [of 1] by blast
  then obtain blob where "sealToRecipients demo_crypto (replicate 32 1) (replicate 12 2) (draftText v) [(x25519Public (demo_kp 1), replicate 32 3, replicate 12 4)] = Inr blob"
    using sealToRecipients_total [OF demo_x25519_laws, of "[(x25519Public (demo_kp 1), replicate 32 3, replicate 12 4)]" "replicate 32 1" "replicate 12 2" "draftText v"] by auto
  then show ?thesis using assms
    by (simp add: demo_drafts_def appKv_def psPut_def psSeal_def demo_randoms_def demo_draft_env_def demo_draft_world_def newStore_def Let_def)
qed

lemma demo_save:
  assumes "dw_store w = dw_store demo_draft_world"
  shows "\<exists>w' b. dsSave demo_drafts i demo_content NEW_DRAFT_BASE at force w = (w', Inr b) \<and> dw_aborts w' = dw_aborts w"
proof -
  obtain w1 n1 where 1: "dk_put (ds_kv demo_drafts) w (attKey i (toHex [7])) (BytesValue (toBase64 [1, 2])) 0 = (w1, Inr n1)"
      "dw_store w1 = dw_store demo_draft_world" "dw_aborts w1 = dw_aborts w"
    using demo_kv_put [OF assms] by metis
  obtain w2 n2 where 2: "dk_put (ds_kv demo_drafts) w1 (bodyKey i) (BodyValue (bodyRecord demo_content)) 0 = (w2, Inr n2)"
      "dw_store w2 = dw_store demo_draft_world" "dw_aborts w2 = dw_aborts w1"
    using demo_kv_put [OF 1(2)] by metis
  obtain w3 n3 where 3: "dk_put (ds_kv demo_drafts) w2 (headKey i) (HeadValue (headRecord (ds_ellipsis demo_drafts) demo_content at)) 0 = (w3, Inr n3)" "dw_aborts w3 = dw_aborts w2"
    using demo_kv_put [OF 2(2)] by metis
  have want: "wantedAtts demo_content = [(toHex [7], hd (dc_attachments demo_content))]" by (simp add: wantedAtts_def demo_content_def)
  have "uploadAtts (ds_kv demo_drafts) i (wantedAtts demo_content) (jsSet (db_atts NEW_DRAFT_BASE)) w = (w1, Inr [toHex [7]])"
    unfolding want using 1(1) by (simp add: jsSet_def NEW_DRAFT_BASE_def demo_content_def)
  moreover have "removeAtts (ds_kv demo_drafts) i (fst ` set (wantedAtts demo_content)) [toHex [7]] [toHex [7]] w3 = (w3, [toHex [7]])" unfolding want by simp
  ultimately show ?thesis using 1 2 3 by (simp add: dsSave_def Let_def NEW_DRAFT_BASE_def)
qed

lemma demo_one_save:
  obtains w b where "dsSave demo_drafts ''5f'' demo_content NEW_DRAFT_BASE 100 False demo_draft_world = (w, Inr b)"
    "(draftStep demo_drafts (heldBy demo_draft_env map_of) (worldOk demo_draft_env id (\<lambda>_. demo_randoms) map_of (\<lambda>c k. c = [])))\<^sup>*\<^sup>*
       (demo_draft_world, \<lambda>_. NEW_DRAFT_BASE) (w, (\<lambda>_. NEW_DRAFT_BASE)(''5f'' := b))"
proof -
  obtain w b where s: "dsSave demo_drafts ''5f'' demo_content NEW_DRAFT_BASE 100 False demo_draft_world = (w, Inr b)" using demo_save [OF refl] by metis
  have "plainId ''5f''" by (simp add: plainId_def)
  from draftStep.saves [OF this, of demo_drafts demo_content "\<lambda>_. NEW_DRAFT_BASE" 100 demo_draft_world w "Inr b"] s show ?thesis using that [OF s] by (simp add: r_into_rtranclp)
qed

subsection \<open>Properties\<close>

text \<open>
  C15. Every record of the draft namespaces has the type the code reads it at: after any sequence of opening,
  saving, keeping and deleting drafts, with other devices at work in between and whatever calls fail, rows,
  bodies and attachments are of their own type, at positive versions and in valid base64, so that neither
  loading a draft nor listing the drafts ever fails on a record.
\<close>

theorem draft_records_typed:
  assumes "ds = appDrafts el env tick rnd fuel keepLocal address"
    and "(draftStep ds (heldBy env content) (worldOk env tick rnd content after))\<^sup>*\<^sup>* (w, \<lambda>_. NEW_DRAFT_BASE) (w', bases)"
    and "worldOk env tick rnd content after w" and "typed (heldBy env content w)" and "rowsComplete (heldBy env content w)"
  shows "typed (heldBy env content w') \<and> dsList ds w' \<noteq> Some (w'', Inl BadRecord) \<and> (plainId i \<longrightarrow> snd (loadStored ds i w') \<noteq> Inl BadRecord)"
proof -
  have ok: "worldOk env tick rnd content after w'" "typed (heldBy env content w')" "rowsComplete (heldBy env content w')"
    using app_run [OF assms(2) [unfolded assms(1)] assms(3-5)] by auto
  have kv: "ds_kv ds = appKv env tick rnd fuel" using assms(1) by simp
  show ?thesis using ok app.list_typed [OF ok(1,2) kv] app.load_typed [OF ok _ kv] by blast
qed

theorem draft_records_typed_witness:
  "\<exists>w. typed (heldBy demo_draft_env map_of w) \<and> heldBy demo_draft_env map_of w (headKey ''5f'') \<noteq> None"
proof -
  obtain w b where s: "dsSave demo_drafts ''5f'' demo_content NEW_DRAFT_BASE 100 False demo_draft_world = (w, Inr b)"
    "(draftStep demo_drafts (heldBy demo_draft_env map_of) (worldOk demo_draft_env id (\<lambda>_. demo_randoms) map_of (\<lambda>c k. c = [])))\<^sup>*\<^sup>*
       (demo_draft_world, \<lambda>_. NEW_DRAFT_BASE) (w, (\<lambda>_. NEW_DRAFT_BASE)(''5f'' := b))" by (rule demo_one_save)
  have "typed (heldBy demo_draft_env map_of w)" using draft_records_typed [OF demo_drafts_def s(2) demo_draft_worldOk demo_drafts_start] by blast
  moreover have "heldBy demo_draft_env map_of w (headKey ''5f'') \<noteq> None" using app.save_base [OF demo_draft_worldOk s(1) demo_kv] by (metis less_numeral_extra(3) versionOf_simps(1))
  ultimately show ?thesis by blast
qed



text \<open>
  C12. What is saved is what opens: after a successful save of a draft whose attachments have different ids, and
  whose attachments the base counts as stored are stored as they are, loading it from any world that holds the
  same, on this device or another session, gives back the content, the time and the versions the save answered.
\<close>

theorem draft_save_load:
  assumes "ds = appDrafts el env tick rnd fuel keepLocal address"
    and "worldOk env tick rnd content after w" and "typed (heldBy env content w)" and "rowsComplete (heldBy env content w)"
    and "plainId i" and "soundBase (heldBy env content w) i base" and "force \<longrightarrow> db_atts base = []"
    and "distinct (map ai_attachmentId (dc_attachments c))"
    and "\<forall>a\<in>set (dc_attachments c). toHex (ai_attachmentId a) \<in> set (db_atts base) \<longrightarrow>
          (\<exists>n. heldBy env content w (attKey i (toHex (ai_attachmentId a))) = Some (BytesValue (toBase64 (ai_content a)), n))"
    and "dsSave ds i c base at force w = (w', Inr b)"
    and "worldOk env tick rnd content after w2" and "heldBy env content w2 = heldBy env content w'"
  shows "case snd (loadStored ds i w2) of
      Inl e \<Rightarrow> \<exists>s. e = StoreError s
    | Inr x \<Rightarrow> x = Some \<lparr>ld_id = i, ld_content = c, ld_base = b\<lparr>db_atts := map (\<lambda>a. toHex (ai_attachmentId a)) (dc_attachments c)\<rparr>, ld_updatedAt = at\<rparr>"
proof -
  have kv: "ds_kv ds = appKv env tick rnd fuel" using assms(1) by simp
  obtain w3 res where l: "loadStored ds i w2 = (w3, res)" by fastforce
  have f: "force \<Longrightarrow> db_atts base = []" using assms(7) by simp
  note inv = app.save_keeps [OF assms(2,10) kv assms(5,3,4,6) f]
  have held: "\<exists>n. heldBy env content w' (headKey i) = Some (HeadValue (headRecord el c at), n)"
    using app.save_done [OF assms(2) _ kv, of "\<lparr>ld_id = i, ld_content = c, ld_base = base, ld_updatedAt = at\<rparr>" force w' b] assms(1,10) by (simp add: holdsDraft_def)
  show ?thesis
  proof (cases res)
    case (Inl e)
    then show ?thesis using held inv assms(12) app.load_complete [OF assms(11) _ _ assms(5) _ l kv] l by auto
  next
    case (Inr x)
    have "x = Some \<lparr>ld_id = i, ld_content = c, ld_base = b\<lparr>db_atts := map (\<lambda>a. toHex (ai_attachmentId a)) (dc_attachments c)\<rparr>, ld_updatedAt = at\<rparr>"
      using app.save_load [OF assms(2,10) kv assms(5,3,4,6) f assms(8) _ assms(11,12) l [unfolded Inr]] assms(9) by blast
    then show ?thesis using l Inr by simp
  qed
qed

theorem draft_save_load_witness:
  "\<exists>w b. dsSave demo_drafts ''5f'' demo_content NEW_DRAFT_BASE 100 False demo_draft_world = (w, Inr b)
     \<and> (case snd (loadStored demo_drafts ''5f'' w) of Inl e \<Rightarrow> \<exists>s. e = StoreError s | Inr x \<Rightarrow> map_option ld_content x = Some demo_content)"
proof -
  obtain w b where s: "dsSave demo_drafts ''5f'' demo_content NEW_DRAFT_BASE 100 False demo_draft_world = (w, Inr b)" by (rule demo_one_save)
  have p: "plainId ''5f''" by (simp add: plainId_def)
  have d: "distinct (map ai_attachmentId (dc_attachments demo_content))" by (simp add: demo_content_def)
  have f: "False \<longrightarrow> db_atts NEW_DRAFT_BASE = []" by simp
  have n: "\<forall>a\<in>set (dc_attachments demo_content). toHex (ai_attachmentId a) \<in> set (db_atts NEW_DRAFT_BASE) \<longrightarrow>
          (\<exists>n. heldBy demo_draft_env map_of demo_draft_world (attKey ''5f'' (toHex (ai_attachmentId a))) = Some (BytesValue (toBase64 (ai_content a)), n))"
    by (simp add: NEW_DRAFT_BASE_def)
  have ok: "worldOk demo_draft_env id (\<lambda>_. demo_randoms) map_of (\<lambda>c k. c = []) w"
    using app.save_keeps [OF demo_draft_worldOk s demo_kv p demo_drafts_start soundBase_new] by simp
  have "case snd (loadStored demo_drafts ''5f'' w) of Inl e \<Rightarrow> \<exists>s. e = StoreError s | Inr x \<Rightarrow> map_option ld_content x = Some demo_content"
    using draft_save_load [OF demo_drafts_def demo_draft_worldOk demo_drafts_start p soundBase_new f d n s ok refl] by (auto split: sum.splits)
  then show ?thesis using s by blast
qed





end
