(* ===== verification/Autosave.thy ===== *)
theory Autosave
  imports Prelude
begin

section \<open>When the composer saves\<close>

text \<open>
  \<open>SaveScheduler\<close> of \<open>lib/draftAutosave.ts\<close> as a machine over the events of its life: a change, a call of
  \<open>flush\<close>, \<open>dispose\<close> or \<open>abandon\<close>, the timer, and the end of the save that runs. Times are milliseconds. A call
  that waits for the save in flight stands in \<open>sc_waiting\<close>; when the save ends, the call that started it resumes
  first and the waiting ones after it in order, each looking again whether a save is running. The state also
  records, for the statements, how many changes were made, how many the last successful save covered (a save
  takes the message as it is when it starts), how many saves are in flight, and how the calls of \<open>flush\<close> ended.
\<close>

datatype waiter = FlushCall nat | AbandonCall

record flush_end =
  fe_changes :: nat
  fe_ok :: bool
  fe_saved :: nat

record scheduler =
  sc_timer :: "nat option"
  sc_dirtySince :: "nat option"
  sc_running :: "(nat \<times> nat \<times> nat) option"
  sc_disposed :: bool
  sc_waiting :: "waiter list"
  sc_changes :: nat
  sc_saved :: nat
  sc_inFlight :: nat
  sc_abandoned :: bool
  sc_ends :: "flush_end list"

datatype sched_event = Touch | Flush | Timer | RunEnds bool | Dispose | Abandon

definition newScheduler :: scheduler where
  "newScheduler = \<lparr>sc_timer = None, sc_dirtySince = None, sc_running = None, sc_disposed = False, sc_waiting = [], sc_changes = 0, sc_saved = 0,
     sc_inFlight = 0, sc_abandoned = False, sc_ends = []\<rparr>"

definition cancelTimer :: "scheduler \<Rightarrow> scheduler" where
  "cancelTimer s = s\<lparr>sc_timer := None\<rparr>"

definition scheduleAt :: "nat \<Rightarrow> nat \<Rightarrow> scheduler \<Rightarrow> scheduler" where
  "scheduleAt now ms s = (cancelTimer s)\<lparr>sc_timer := Some (now + ms)\<rparr>"

definition touch :: "nat \<Rightarrow> nat \<Rightarrow> nat \<Rightarrow> scheduler \<Rightarrow> scheduler" where
  "touch quietMs maxWaitMs now s =
     (if sc_disposed s then s
      else (let since = (case sc_dirtySince s of None \<Rightarrow> now | Some t \<Rightarrow> t) in
            scheduleAt now (min quietMs (since + maxWaitMs - now)) (s\<lparr>sc_dirtySince := Some since, sc_changes := Suc (sc_changes s)\<rparr>)))"

definition hasPending :: "scheduler \<Rightarrow> bool" where
  "hasPending s \<longleftrightarrow> sc_dirtySince s \<noteq> None"

text \<open>The end of a call of \<open>flush\<close>, and what the call does once no save is running.\<close>

definition ended :: "nat \<Rightarrow> bool \<Rightarrow> scheduler \<Rightarrow> scheduler" where
  "ended changes ok s = s\<lparr>sc_ends := sc_ends s @ [\<lparr>fe_changes = changes, fe_ok = ok, fe_saved = sc_saved s\<rparr>]\<rparr>"

definition proceed :: "nat \<Rightarrow> scheduler \<Rightarrow> scheduler" where
  "proceed changes s =
     (case sc_dirtySince s of
        None \<Rightarrow> ended changes True s
      | Some since \<Rightarrow> s\<lparr>sc_dirtySince := None, sc_running := Some (changes, since, sc_changes s), sc_inFlight := Suc (sc_inFlight s)\<rparr>)"

definition flush :: "scheduler \<Rightarrow> scheduler" where
  "flush s =
     (let s = cancelTimer s in
      if sc_running s \<noteq> None then s\<lparr>sc_waiting := sc_waiting s @ [FlushCall (sc_changes s)]\<rparr> else proceed (sc_changes s) s)"

definition dispose :: "scheduler \<Rightarrow> scheduler" where
  "dispose s = cancelTimer (s\<lparr>sc_disposed := True\<rparr>)"

definition abandon :: "scheduler \<Rightarrow> scheduler" where
  "abandon s =
     (let s = (dispose s)\<lparr>sc_dirtySince := None, sc_abandoned := True\<rparr> in
      if sc_running s \<noteq> None then s\<lparr>sc_waiting := sc_waiting s @ [AbandonCall]\<rparr> else s)"

fun resume :: "waiter list \<Rightarrow> scheduler \<Rightarrow> scheduler" where
  "resume [] s = s"
| "resume (w # ws) s =
     (if sc_running s \<noteq> None then resume ws (s\<lparr>sc_waiting := sc_waiting s @ [w]\<rparr>)
      else (case w of FlushCall changes \<Rightarrow> resume ws (proceed changes s) | AbandonCall \<Rightarrow> resume ws s))"

definition runEnds :: "nat \<Rightarrow> nat \<Rightarrow> bool \<Rightarrow> scheduler \<Rightarrow> scheduler" where
  "runEnds maxWaitMs now ok s =
     (case sc_running s of
        None \<Rightarrow> s
      | Some (changes, since, covered) \<Rightarrow>
          (let s1 = s\<lparr>sc_running := None, sc_inFlight := sc_inFlight s - 1, sc_waiting := []\<rparr>;
               s2 = (if ok then ended changes True (s1\<lparr>sc_saved := covered\<rparr>)
                     else (let d = (case sc_dirtySince s1 of None \<Rightarrow> since | Some t \<Rightarrow> if since < t then since else t);
                               s' = s1\<lparr>sc_dirtySince := Some d\<rparr> in
                           ended changes False (if sc_disposed s' then s' else scheduleAt now maxWaitMs s'))) in
           resume (sc_waiting s) s2))"

text \<open>The timer fires when it is set and due.\<close>

definition schedStep :: "nat \<Rightarrow> nat \<Rightarrow> nat \<times> sched_event \<Rightarrow> scheduler \<Rightarrow> scheduler" where
  "schedStep quietMs maxWaitMs e s =
     (case e of (now, ev) \<Rightarrow>
        (case ev of
           Touch \<Rightarrow> touch quietMs maxWaitMs now s
         | Flush \<Rightarrow> flush s
         | Timer \<Rightarrow> if (case sc_timer s of None \<Rightarrow> False | Some t \<Rightarrow> t \<le> now) then flush (s\<lparr>sc_timer := None\<rparr>) else s
         | RunEnds ok \<Rightarrow> runEnds maxWaitMs now ok s
         | Dispose \<Rightarrow> dispose s
         | Abandon \<Rightarrow> abandon s))"

definition schedRun :: "nat \<Rightarrow> nat \<Rightarrow> (nat \<times> sched_event) list \<Rightarrow> scheduler" where
  "schedRun quietMs maxWaitMs es = fold (schedStep quietMs maxWaitMs) es newScheduler"

subsection \<open>Invariant\<close>

text \<open>
  One save at a time; a running save covers every change unless more are pending; what is not pending and not
  running is saved; and a pending change has a timer or a call that waits for the running save.
\<close>

definition counts_ok :: "scheduler \<Rightarrow> bool" where
  "counts_ok s \<longleftrightarrow>
     sc_inFlight s = (if sc_running s = None then 0 else 1)
     \<and> sc_saved s \<le> sc_changes s
     \<and> (\<forall>n since covered. sc_running s = Some (n, since, covered) \<longrightarrow> n \<le> covered \<and> sc_saved s \<le> covered \<and> covered \<le> sc_changes s
          \<and> (\<not> sc_abandoned s \<and> sc_dirtySince s = None \<longrightarrow> covered = sc_changes s))
     \<and> (\<not> sc_abandoned s \<longrightarrow> sc_running s = None \<longrightarrow> sc_dirtySince s = None \<longrightarrow> sc_saved s = sc_changes s)
     \<and> (\<not> sc_abandoned s \<longrightarrow> (\<forall>e\<in>set (sc_ends s). fe_ok e \<longrightarrow> fe_changes e \<le> fe_saved e))
     \<and> (sc_abandoned s \<longrightarrow> sc_disposed s)"

text \<open>The waiting calls, and those of \<open>ws\<close> that are still to resume.\<close>

definition waits_ok :: "waiter list \<Rightarrow> scheduler \<Rightarrow> bool" where
  "waits_ok ws s \<longleftrightarrow>
     (sc_running s = None \<longrightarrow> sc_waiting s = [])
     \<and> (\<forall>n. FlushCall n \<in> set (sc_waiting s) \<union> set ws \<longrightarrow> n \<le> sc_changes s)
     \<and> (\<not> sc_disposed s \<longrightarrow> sc_dirtySince s \<noteq> None \<longrightarrow> sc_timer s \<noteq> None \<or> (\<exists>n. FlushCall n \<in> set (sc_waiting s) \<union> set ws))"

definition sched_ok :: "scheduler \<Rightarrow> bool" where
  "sched_ok s \<longleftrightarrow> counts_ok s \<and> waits_ok [] s"

lemma proceed_counts:
  assumes "counts_ok s" "sc_running s = None" "n \<le> sc_changes s"
  shows "counts_ok (proceed n s)"
  using assms by (cases "sc_dirtySince s") (auto simp: proceed_def ended_def counts_ok_def)

lemma proceed_keeps [simp]:
  "sc_waiting (proceed n s) = sc_waiting s" "sc_changes (proceed n s) = sc_changes s" "sc_disposed (proceed n s) = sc_disposed s"
  "sc_dirtySince (proceed n s) = None"
  by (cases "sc_dirtySince s"; simp add: proceed_def ended_def)+

lemma resume_ok: "counts_ok s \<Longrightarrow> waits_ok ws s \<Longrightarrow> sched_ok (resume ws s)"
proof (induction ws s rule: resume.induct)
  case (1 s)
  then show ?case by (simp add: sched_ok_def)
next
  case (2 w ws s)
  show ?case
  proof (cases "sc_running s = None")
    case False
    have "counts_ok (s\<lparr>sc_waiting := sc_waiting s @ [w]\<rparr>)" "waits_ok ws (s\<lparr>sc_waiting := sc_waiting s @ [w]\<rparr>)"
      using "2.prems" False by (auto simp: counts_ok_def waits_ok_def)
    then show ?thesis using "2.IH"(1) False by simp
  next
    case True
    show ?thesis
    proof (cases w)
      case (FlushCall n)
      have "counts_ok (proceed n s)" using proceed_counts [OF "2.prems"(1) True] "2.prems"(2) FlushCall by (simp add: waits_ok_def)
      moreover have "waits_ok ws (proceed n s)" using "2.prems"(2) True by (auto simp: waits_ok_def)
      ultimately show ?thesis using "2.IH"(2) [of n] True FlushCall by simp
    next
      case AbandonCall
      then have "waits_ok ws s" using "2.prems"(2) by (auto simp: waits_ok_def)
      then show ?thesis using "2.IH"(3) "2.prems"(1) True AbandonCall by simp
    qed
  qed
qed

lemma flush_ok:
  assumes ok: "sched_ok s"
  shows "sched_ok (flush s)"
proof (cases "sc_running s = None")
  case True
  have "counts_ok (cancelTimer s)" using ok by (auto simp: sched_ok_def counts_ok_def cancelTimer_def)
  from proceed_counts [OF this, of "sc_changes s"] have "counts_ok (flush s)" using True by (simp add: flush_def Let_def cancelTimer_def)
  moreover have "waits_ok [] (flush s)" using ok True by (auto simp: flush_def Let_def cancelTimer_def sched_ok_def waits_ok_def)
  ultimately show ?thesis by (simp add: sched_ok_def)
next
  case False
  then show ?thesis using ok by (auto simp: flush_def Let_def cancelTimer_def sched_ok_def waits_ok_def counts_ok_def)
qed

lemma touch_ok: "sched_ok s \<Longrightarrow> sched_ok (touch q m now s)"
  by (auto simp: touch_def Let_def scheduleAt_def cancelTimer_def sched_ok_def waits_ok_def counts_ok_def le_SucI)

lemma runEnds_ok:
  assumes "sched_ok s"
  shows "sched_ok (runEnds m now ok s)"
proof (cases "sc_running s")
  case None
  then show ?thesis using assms by (simp add: runEnds_def)
next
  case (Some r)
  obtain n since covered where r: "r = (n, since, covered)" by (cases r)
  let ?s1 = "s\<lparr>sc_running := None, sc_inFlight := sc_inFlight s - 1, sc_waiting := []\<rparr>"
  let ?good = "ended n True (?s1\<lparr>sc_saved := covered\<rparr>)"
  let ?d = "case sc_dirtySince s of None \<Rightarrow> since | Some t \<Rightarrow> if since < t then since else t"
  let ?bad = "ended n False (if sc_disposed s then ?s1\<lparr>sc_dirtySince := Some ?d\<rparr> else scheduleAt now m (?s1\<lparr>sc_dirtySince := Some ?d\<rparr>))"
  have e: "runEnds m now ok s = resume (sc_waiting s) (if ok then ?good else ?bad)" using Some r by (simp add: runEnds_def Let_def)
  have "counts_ok ?good" "waits_ok (sc_waiting s) ?good" using assms Some r by (auto simp: sched_ok_def counts_ok_def waits_ok_def ended_def)
  moreover have "counts_ok ?bad" "waits_ok (sc_waiting s) ?bad"
    using assms Some r by (auto simp: sched_ok_def counts_ok_def waits_ok_def ended_def scheduleAt_def cancelTimer_def)
  ultimately show ?thesis unfolding e by (cases ok) (simp_all add: resume_ok)
qed

lemma step_ok:
  assumes ok: "sched_ok s"
  shows "sched_ok (schedStep q m e s)"
proof -
  have "sched_ok (dispose s)" "sched_ok (abandon s)" using ok
    by (auto simp: dispose_def abandon_def Let_def cancelTimer_def sched_ok_def waits_ok_def counts_ok_def)
  moreover have "flush (s\<lparr>sc_timer := None\<rparr>) = flush s" by (simp add: flush_def cancelTimer_def)
  moreover obtain now ev where "e = (now, ev)" by (cases e)
  ultimately show ?thesis using ok flush_ok [OF ok] touch_ok [OF ok] runEnds_ok [OF ok]
    by (cases ev) (auto simp: schedStep_def split: option.split)
qed

lemma run_ok: "sched_ok (schedRun q m es)"
proof -
  have "sched_ok s \<Longrightarrow> sched_ok (fold (schedStep q m) es s)" for s by (induction es arbitrary: s) (auto simp: step_ok)
  moreover have "sched_ok newScheduler" by (simp add: newScheduler_def sched_ok_def counts_ok_def waits_ok_def)
  ultimately show ?thesis by (simp add: schedRun_def)
qed

text \<open>
  While saves fail, every further change tries again at once: when the oldest unsaved change is older than the
  ceiling, a change sets the timer to the present moment.
\<close>

lemma touch_after_ceiling_retries_at_once:
  "\<not> sc_disposed s \<Longrightarrow> sc_dirtySince s = Some since \<Longrightarrow> since + m \<le> now \<Longrightarrow> sc_timer (touch q m now s) = Some now"
  by (simp add: touch_def scheduleAt_def cancelTimer_def)

subsection \<open>Properties\<close>

text \<open>
  C16. Whatever the changes, calls, timers and results of saves: saves never overlap; until the composer abandons
  what it has, a call of \<open>flush\<close> that succeeds ends only when every change made before the call is saved; until
  the scheduler is disposed of, a change that is not saved has a save running or a timer; and a change sets
  the timer no later than the pause after it and the ceiling after the oldest unsaved change.
\<close>

theorem autosave_covers_changes:
  "let s = schedRun quietMs maxWaitMs es in
   sc_inFlight s \<le> 1
   \<and> (sc_abandoned s \<or> (\<forall>e\<in>set (sc_ends s). fe_changes e \<le> fe_saved e \<or> \<not> fe_ok e))
   \<and> (sc_disposed s \<or> sc_saved s = sc_changes s \<or> sc_running s \<noteq> None \<or> sc_timer s \<noteq> None)
   \<and> (sc_disposed s \<or> (\<exists>t since. sc_timer (touch quietMs maxWaitMs now s) = Some t \<and> sc_dirtySince (touch quietMs maxWaitMs now s) = Some since
        \<and> t \<le> now + quietMs \<and> t \<le> max now (since + maxWaitMs)))"
proof -
  let ?s = "schedRun quietMs maxWaitMs es"
  have ok: "counts_ok ?s" "waits_ok [] ?s" using run_ok by (simp_all add: sched_ok_def)
  have "sc_disposed ?s \<or> (\<exists>t since. sc_timer (touch quietMs maxWaitMs now ?s) = Some t \<and> sc_dirtySince (touch quietMs maxWaitMs now ?s) = Some since
        \<and> t \<le> now + quietMs \<and> t \<le> max now (since + maxWaitMs))"
    by (auto simp: touch_def Let_def scheduleAt_def cancelTimer_def)
  moreover have "sc_disposed ?s \<or> sc_saved ?s = sc_changes ?s \<or> sc_running ?s \<noteq> None \<or> sc_timer ?s \<noteq> None"
    using ok unfolding counts_ok_def waits_ok_def by fastforce
  moreover have "sc_inFlight ?s \<le> 1" "sc_abandoned ?s \<or> (\<forall>e\<in>set (sc_ends ?s). fe_changes e \<le> fe_saved e \<or> \<not> fe_ok e)"
    using ok(1) by (auto simp: counts_ok_def)
  ultimately show ?thesis unfolding Let_def by blast
qed

text \<open>A change, a flush that fails, its retry by the timer, and a change while that runs.\<close>

theorem autosave_covers_changes_witness:
  "let s = schedRun 3000 15000 [(0, Touch), (5, Flush), (9, RunEnds False), (15009, Timer), (15010, Touch), (15011, Flush), (15012, RunEnds True), (15013, RunEnds True)] in
   sc_saved s = 2 \<and> sc_inFlight s \<le> 1 \<and> length (sc_ends s) = 3"
proof -
  let ?es = "[(0, Touch), (5, Flush), (9, RunEnds False), (15009, Timer), (15010, Touch), (15011, Flush), (15012, RunEnds True), (15013, RunEnds True)]"
  have "sc_saved (schedRun 3000 15000 ?es) = 2 \<and> length (sc_ends (schedRun 3000 15000 ?es)) = 3"
    by (simp add: schedRun_def schedStep_def newScheduler_def touch_def flush_def cancelTimer_def scheduleAt_def proceed_def runEnds_def ended_def Let_def)
  moreover have "sc_inFlight (schedRun 3000 15000 ?es) \<le> 1" using autosave_covers_changes [of 3000 15000 ?es 0] by (simp only: Let_def)
  ultimately show ?thesis by (simp add: Let_def)
qed

end
