(* ===== verification/Spec2Isabelle.thy ===== *)
theory Spec2Isabelle
  imports Ceremony Contacts Search_Contract Sender_Trust Mailbox_Properties Draft_Properties Autosave
begin

text \<open>
  A verification development of the DMCN web client.
\<close>

end
